(* ===== verification/Mudu_Prelude.thy ===== *)
theory Mudu_Prelude
  imports Main "HOL-Library.Word"
begin

text \<open>
  Shared vocabulary of the development: machine integers and bytes, the result
  type of fallible Rust code, byte-range reads and writes on buffers, and the
  generic lemmas on lists that the component theories use.

  A Rust function returning \<open>RS<T>\<close> becomes a function into \<open>'a rs\<close>; the left
  injection carries either the error code of the returned \<open>MuduError\<close> (its
  message text is dropped) or \<open>Panic\<close>, which stands for an abort of the
  computation: an index or slice out of range, an arithmetic overflow under the
  overflow checks of the development profile, or a failed assertion.  \<open>Diverge\<close> is a
  call that does not return.
\<close>

type_synonym byte = "8 word"
type_synonym u16 = "16 word"
type_synonym u32 = "32 word"
type_synonym u64 = "64 word"
type_synonym u128 = "128 word"

text \<open>The error codes of \<open>mudu/src/error/ec.rs\<close> that the modelled code returns.\<close>

datatype ErrorCode =
    Decode
  | Encode
  | Parse
  | InvalidState
  | EntityNotFound
  | EntityAlreadyExists
  | IndexOutOfRange
  | InsufficientBufferSpace
  | InvalidArgument
  | Transaction
  | Internal
  | Io
  | UnsupportedFormatVersion
  | CorruptedData
  | IncompatibleProtocolVersion
  | NotImplemented
  | InvalidTuple
  | InvalidType
  | TypeConversionFailed

datatype fault = EC ErrorCode | Panic | Diverge

type_synonym 'a rs = "fault + 'a"

named_theorems rs_simps \<open>evaluation and inversion of the result combinators\<close>
named_theorems buf_simps \<open>reads over writes on byte buffers\<close>

section \<open>Fallible computations\<close>

fun bind_rs :: "'a rs \<Rightarrow> ('a \<Rightarrow> 'b rs) \<Rightarrow> 'b rs" where
  "bind_rs (Inl e) k = Inl e"
| "bind_rs (Inr a) k = k a"

definition ensure :: "bool \<Rightarrow> fault \<Rightarrow> unit rs" where
  "ensure c e = (if c then Inr () else Inl e)"

definition ok_or :: "'a option \<Rightarrow> fault \<Rightarrow> 'a rs" where
  "ok_or x e = (case x of None \<Rightarrow> Inl e | Some a \<Rightarrow> Inr a)"

text \<open>\<open>map_err\<close> replaces an error; a panic is not caught.\<close>

definition map_err :: "ErrorCode \<Rightarrow> 'a rs \<Rightarrow> 'a rs" where
  "map_err e r = (case r of Inl (EC _) \<Rightarrow> Inl (EC e) | _ \<Rightarrow> r)"

fun map_rs :: "('a \<Rightarrow> 'b rs) \<Rightarrow> 'a list \<Rightarrow> 'b list rs" where
  "map_rs f [] = Inr []"
| "map_rs f (x # xs) = bind_rs (f x) (\<lambda>y. bind_rs (map_rs f xs) (\<lambda>ys. Inr (y # ys)))"

fun fold_rs :: "('a \<Rightarrow> 's \<Rightarrow> 's rs) \<Rightarrow> 'a list \<Rightarrow> 's \<Rightarrow> 's rs" where
  "fold_rs f [] s = Inr s"
| "fold_rs f (x # xs) s = bind_rs (f x s) (fold_rs f xs)"

definition is_ok :: "'a rs \<Rightarrow> bool" where
  "is_ok r = (case r of Inl _ \<Rightarrow> False | Inr _ \<Rightarrow> True)"

lemma is_ok_simps [simp]: "is_ok (Inr a)" "\<not> is_ok (Inl e)"
  by (simp_all add: is_ok_def)

lemma is_ok_iff: "is_ok r \<longleftrightarrow> (\<exists>a. r = Inr a)"
  by (cases r) simp_all

lemma bind_rs_Inr_iff [rs_simps]:
  "bind_rs m k = Inr y \<longleftrightarrow> (\<exists>a. m = Inr a \<and> k a = Inr y)"
  by (cases m) simp_all

lemma bind_rs_Inl_iff:
  "bind_rs m k = Inl e \<longleftrightarrow> m = Inl e \<or> (\<exists>a. m = Inr a \<and> k a = Inl e)"
  by (cases m) simp_all

lemma bind_rs_assoc: "bind_rs (bind_rs m f) g = bind_rs m (\<lambda>a. bind_rs (f a) g)"
  by (cases m) simp_all

lemma bind_rs_Inr_right [simp]: "bind_rs m Inr = m"
  by (cases m) simp_all

lemma bind_rs_cong [fundef_cong]:
  assumes "m = m'" and "\<And>a. m' = Inr a \<Longrightarrow> k a = k' a"
  shows "bind_rs m k = bind_rs m' k'"
  using assms by (cases m') simp_all

lemma ensure_simps [simp]: "ensure True e = Inr ()" "ensure False e = Inl e"
  by (simp_all add: ensure_def)

lemma ensure_Inr_iff [rs_simps]: "ensure c e = Inr u \<longleftrightarrow> c"
  by (simp add: ensure_def)

lemma ensure_Inl_iff: "ensure c e = Inl f \<longleftrightarrow> \<not> c \<and> f = e"
  by (auto simp: ensure_def)

lemma ok_or_simps [simp]: "ok_or None e = Inl e" "ok_or (Some a) e = Inr a"
  by (simp_all add: ok_or_def)

lemma map_err_simps [simp]: "map_err e (Inr a) = Inr a" "map_err e (Inl (EC f)) = Inl (EC e)" "map_err e (Inl Panic) = Inl Panic"
  by (simp_all add: map_err_def)

lemma ok_or_Inr_iff [rs_simps]: "ok_or x e = Inr a \<longleftrightarrow> x = Some a"
  by (cases x) simp_all

lemma map_rs_Inr_iff:
  "map_rs f xs = Inr ys \<longleftrightarrow> list_all2 (\<lambda>x y. f x = Inr y) xs ys"
  by (induction xs arbitrary: ys) (auto simp: rs_simps list_all2_Cons1)

lemma map_rs_total:
  assumes "\<And>x. x \<in> set xs \<Longrightarrow> f x = Inr (g x)"
  shows "map_rs f xs = Inr (map g xs)"
  using assms by (induction xs) simp_all

lemma map_rs_length: "map_rs f xs = Inr ys \<Longrightarrow> length ys = length xs"
  by (simp add: map_rs_Inr_iff list_all2_lengthD)

lemma fold_rs_append: "fold_rs f (xs @ ys) s = bind_rs (fold_rs f xs s) (fold_rs f ys)"
proof (induction xs arbitrary: s)
  case (Cons x xs)
  then show ?case by (cases "f x s") simp_all
qed simp

lemma fold_rs_invariant:
  assumes "fold_rs f xs s = Inr t" and "P s"
    and "\<And>x s t. x \<in> set xs \<Longrightarrow> P s \<Longrightarrow> f x s = Inr t \<Longrightarrow> P t"
  shows "P t"
  using assms by (induction xs arbitrary: s) (auto simp: rs_simps)

section \<open>Byte ranges\<close>

text \<open>\<open>sub_slice a b xs\<close> is the Rust sub-slice \<open>&xs[a..b]\<close> for \<open>a \<le> b \<le> xs.len()\<close>;
  \<open>patch off bs xs\<close> is \<open>xs[off..off + bs.len()].copy_from_slice(bs)\<close>.\<close>

definition sub_slice :: "nat \<Rightarrow> nat \<Rightarrow> 'a list \<Rightarrow> 'a list" where
  "sub_slice a b xs = take (b - a) (drop a xs)"

definition patch :: "nat \<Rightarrow> 'a list \<Rightarrow> 'a list \<Rightarrow> 'a list" where
  "patch off bs xs = take off xs @ bs @ drop (off + length bs) xs"

text \<open>The checked forms: the slice expression panics when the range is not inside the buffer.\<close>

definition index_range :: "nat \<Rightarrow> nat \<Rightarrow> 'a list \<Rightarrow> 'a list rs" where
  "index_range a b xs = (if a \<le> b \<and> b \<le> length xs then Inr (sub_slice a b xs) else Inl Panic)"

definition index_at :: "nat \<Rightarrow> 'a list \<Rightarrow> 'a rs" where
  "index_at i xs = (if i < length xs then Inr (xs ! i) else Inl Panic)"

text \<open>\<open>usize\<close> subtraction traps on underflow.\<close>

definition sub_usize :: "nat \<Rightarrow> nat \<Rightarrow> nat rs" where
  "sub_usize a b = (if b \<le> a then Inr (a - b) else Inl Panic)"

lemma length_sub_slice [buf_simps]: "b \<le> length xs \<Longrightarrow> length (sub_slice a b xs) = b - a"
  by (simp add: sub_slice_def)

lemma nth_sub_slice: "a + i < b \<Longrightarrow> b \<le> length xs \<Longrightarrow> sub_slice a b xs ! i = xs ! (a + i)"
  by (simp add: sub_slice_def)

lemma sub_slice_all [simp]: "sub_slice 0 (length xs) xs = xs"
  by (simp add: sub_slice_def)

lemma sub_slice_sub_slice: "b \<le> d - c \<Longrightarrow> sub_slice a b (sub_slice c d xs) = sub_slice (c + a) (c + b) xs"
  by (cases "a \<le> b") (auto simp: sub_slice_def take_drop drop_drop add.commute min_def)

lemma length_patch [buf_simps]:
  "off + length bs \<le> length xs \<Longrightarrow> length (patch off bs xs) = length xs"
  by (simp add: patch_def)

lemma nth_patch:
  assumes "off + length bs \<le> length xs" and "i < length xs"
  shows "patch off bs xs ! i =
    (if off \<le> i \<and> i < off + length bs then bs ! (i - off) else xs ! i)"
  using assms by (auto simp: patch_def nth_append not_less min_def)

lemma sub_slice_patch_same [buf_simps]:
  "e = off + length bs \<Longrightarrow> e \<le> length xs \<Longrightarrow> sub_slice off e (patch off bs xs) = bs"
  by (simp add: sub_slice_def patch_def)

lemma sub_slice_patch_before [buf_simps]:
  "b \<le> off \<Longrightarrow> off \<le> length xs \<Longrightarrow> sub_slice a b (patch off bs xs) = sub_slice a b xs"
  by (cases "a \<le> b") (simp_all add: sub_slice_def patch_def take_drop min_def)

lemma sub_slice_patch_after [buf_simps]:
  assumes "off + length bs \<le> a" and "off + length bs \<le> length xs"
  shows "sub_slice a b (patch off bs xs) = sub_slice a b xs"
  using assms by (simp add: sub_slice_def patch_def)

lemma sub_slice_eqI:
  assumes "\<And>i. a \<le> i \<Longrightarrow> i < b \<Longrightarrow> xs ! i = ys ! i" and "b \<le> length xs" and "b \<le> length ys"
  shows "sub_slice a b xs = sub_slice a b ys"
  using assms by (intro nth_equalityI) (auto simp: length_sub_slice nth_sub_slice)

lemma index_range_Inr_iff [rs_simps]:
  "index_range a b xs = Inr ys \<longleftrightarrow> a \<le> b \<and> b \<le> length xs \<and> ys = sub_slice a b xs"
  by (auto simp: index_range_def)

lemma index_at_Inr_iff [rs_simps]: "index_at i xs = Inr y \<longleftrightarrow> i < length xs \<and> y = xs ! i"
  by (auto simp: index_at_def)

lemma sub_usize_Inr_iff [rs_simps]: "sub_usize a b = Inr c \<longleftrightarrow> b \<le> a \<and> c = a - b"
  by (auto simp: sub_usize_def)

section \<open>Lists updated by position\<close>

text \<open>\<open>Vec::insert\<close> and \<open>Vec::remove\<close> at a position inside the vector.\<close>

definition insert_at :: "nat \<Rightarrow> 'a \<Rightarrow> 'a list \<Rightarrow> 'a list" where
  "insert_at i x xs = take i xs @ x # drop i xs"

definition remove_at :: "nat \<Rightarrow> 'a list \<Rightarrow> 'a list" where
  "remove_at i xs = take i xs @ drop (Suc i) xs"

lemma length_insert_at [simp]: "length (insert_at i x xs) = Suc (length xs)"
  by (simp add: insert_at_def)

lemma set_insert_at [simp]: "set (insert_at i x xs) = insert x (set xs)"
  by (simp add: insert_at_def) (metis append_take_drop_id set_append)

lemma length_remove_at: "i < length xs \<Longrightarrow> length (remove_at i xs) = length xs - 1"
  by (simp add: remove_at_def)

lemma set_remove_at_subset: "set (remove_at i xs) \<subseteq> set xs"
  by (auto simp: remove_at_def dest: in_set_takeD in_set_dropD)

lemma insert_at_Suc: "insert_at (Suc i) x (y # ys) = y # insert_at i x ys"
  by (simp add: insert_at_def)

lemma nth_insert_at:
  "k \<le> length xs \<Longrightarrow> i \<le> length xs \<Longrightarrow>
   insert_at k x xs ! i = (if i < k then xs ! i else if i = k then x else xs ! (i - 1))"
  by (auto simp: insert_at_def nth_append nth_Cons' min_def)

lemma map_insert_at: "map f (insert_at i x xs) = insert_at i (f x) (map f xs)"
  by (simp add: insert_at_def take_map drop_map)

lemma map_remove_at: "map f (remove_at i xs) = remove_at i (map f xs)"
  by (simp add: remove_at_def take_map drop_map)

lemma remove_at_insert_at [simp]: "i \<le> length xs \<Longrightarrow> remove_at i (insert_at i x xs) = xs"
  by (simp add: remove_at_def insert_at_def)

lemma distinct_insert_at: "distinct xs \<Longrightarrow> x \<notin> set xs \<Longrightarrow> distinct (insert_at i x xs)"
proof -
  assume a: "distinct xs" "x \<notin> set xs"
  then have "distinct (take i xs @ drop i xs)" by (simp only: append_take_drop_id)
  then show ?thesis using a(2) unfolding insert_at_def distinct_append distinct.simps set_simps
    by (auto dest: in_set_takeD in_set_dropD)
qed

lemma distinct_remove_at: "distinct xs \<Longrightarrow> distinct (remove_at i xs)"
proof -
  assume "distinct xs"
  then have "distinct (take i xs @ drop i xs)" by (simp only: append_take_drop_id)
  moreover have "set (drop (Suc i) xs) \<subseteq> set (drop i xs)" by (simp add: set_drop_subset_set_drop)
  ultimately show ?thesis unfolding remove_at_def distinct_append using \<open>distinct xs\<close> by auto
qed

lemma sorted_remove_at:
  fixes xs :: "'k :: linorder list"
  assumes "sorted xs"
  shows "sorted (remove_at i xs)"
proof -
  have "sorted (take i xs @ drop i xs)" using assms by simp
  then have "sorted (take i xs)" "sorted (drop i xs)" "\<forall>x \<in> set (take i xs). \<forall>y \<in> set (drop i xs). x \<le> y"
    unfolding sorted_append by blast+
  moreover have "sorted (drop (Suc i) xs)" "set (drop (Suc i) xs) \<subseteq> set (drop i xs)"
    using assms by (simp_all add: sorted_wrt_drop set_drop_subset_set_drop)
  ultimately show ?thesis unfolding remove_at_def sorted_append by blast
qed

lemma set_remove_at_distinct:
  assumes "distinct xs" and "i < length xs"
  shows "set (remove_at i xs) = set xs - {xs ! i}"
proof -
  have "xs = take i xs @ xs ! i # drop (Suc i) xs" by (rule id_take_nth_drop [OF assms(2)])
  then have "distinct (take i xs @ xs ! i # drop (Suc i) xs)" "set xs = set (take i xs @ xs ! i # drop (Suc i) xs)" using assms(1) by simp_all
  then show ?thesis by (auto simp: remove_at_def)
qed

lemma sum_list_insert_at:
  fixes xs :: "nat list"
  shows "sum_list (insert_at i x xs) = x + sum_list xs"
  by (simp add: insert_at_def) (metis append_take_drop_id sum_list_append)

lemma sum_list_remove_at:
  fixes xs :: "nat list"
  assumes "i < length xs"
  shows "sum_list (remove_at i xs) + xs ! i = sum_list xs"
proof -
  have "sum_list xs = sum_list (take i xs @ xs ! i # drop (Suc i) xs)"
    using id_take_nth_drop [OF assms] by simp
  then show ?thesis by (simp add: remove_at_def)
qed

text \<open>\<open>Iterator::position\<close>.\<close>

fun position :: "('a \<Rightarrow> bool) \<Rightarrow> 'a list \<Rightarrow> nat option" where
  "position P [] = None"
| "position P (x # xs) = (if P x then Some 0 else map_option Suc (position P xs))"

lemma position_None_iff: "position P xs = None \<longleftrightarrow> (\<forall>x \<in> set xs. \<not> P x)"
  by (induction xs) auto

lemma position_SomeD:
  "position P xs = Some i \<Longrightarrow> i < length xs \<and> P (xs ! i) \<and> (\<forall>j < i. \<not> P (xs ! j))"
proof (induction xs arbitrary: i)
  case (Cons x xs)
  then show ?case by (cases i) (auto split: if_splits simp: less_Suc_eq_0_disj)
qed simp

lemma position_SomeI:
  "i < length xs \<Longrightarrow> P (xs ! i) \<Longrightarrow> (\<And>j. j < i \<Longrightarrow> \<not> P (xs ! j)) \<Longrightarrow> position P xs = Some i"
proof (induction xs arbitrary: i)
  case (Cons x xs)
  show ?case
  proof (cases i)
    case 0
    then show ?thesis using Cons.prems by simp
  next
    case (Suc k)
    have "position P xs = Some k"
    proof (rule Cons.IH)
      show "\<not> P (xs ! j)" if "j < k" for j using Cons.prems(3) [of "Suc j"] that Suc by simp
    qed (use Cons.prems Suc in simp_all)
    then show ?thesis using Cons.prems(3) [of 0] Suc by simp
  qed
qed simp

lemma position_append:
  "position P (xs @ ys) =
     (case position P xs of Some i \<Rightarrow> Some i | None \<Rightarrow> map_option ((+) (length xs)) (position P ys))"
proof (induction xs)
  case Nil
  then show ?case by (cases "position P ys") simp_all
next
  case (Cons x xs)
  then show ?case by (cases "position P ys") (auto split: option.split)
qed

lemma position_skip:
  assumes "\<forall>x \<in> set (take k xs). \<not> P x" and "k \<le> length xs"
  shows "position P xs = map_option ((+) k) (position P (drop k xs))"
proof -
  have "position P (take k xs) = None" using assms(1) by (simp only: position_None_iff not_False_eq_True)
  then show ?thesis using position_append [of P "take k xs" "drop k xs"] assms(2) by (simp add: min_def)
qed

text \<open>In a sorted list the elements below a bound form a prefix.\<close>

lemma sorted_below_iff:
  fixes ks :: "'k :: linorder list"
  assumes "sorted ks" and "i < length ks"
  shows "ks ! i < b \<longleftrightarrow> i < length (takeWhile (\<lambda>k. k < b) ks)"
  using assms
proof (induction ks arbitrary: i)
  case (Cons k ks)
  show ?case
  proof (cases i)
    case (Suc j)
    have "\<not> ks ! j < b" if "\<not> k < b"
      using Cons.prems Suc that by (auto simp: not_less intro: order_trans)
    then show ?thesis using Cons.IH [of j] Cons.prems Suc
      by (cases "k < b") simp_all
  qed simp
qed simp

lemma sorted_insert_at_lower_bound:
  fixes ks :: "'k :: linorder list"
  assumes "sorted ks" and "i = length (takeWhile (\<lambda>k. k < b) ks)"
  shows "sorted (insert_at i b ks)"
  using assms
proof (induction ks arbitrary: i)
  case (Cons k ks)
  show ?case
  proof (cases "k < b")
    case True
    then have "sorted (insert_at (length (takeWhile (\<lambda>k. k < b) ks)) b ks)" using Cons by simp
    then show ?thesis using Cons.prems True by (auto simp: insert_at_Suc less_imp_le)
  next
    case False
    then show ?thesis using Cons.prems by (auto simp: insert_at_def not_less)
  qed
qed (simp add: insert_at_def)

section \<open>Fallible updates of a buffer\<close>

text \<open>
  A method on \<open>&mut self\<close> that returns \<open>RS<T>\<close>: the result, and the state it leaves
  behind, which is the state at the point of the early return when it fails.
\<close>

type_synonym ('s, 'a) se = "'s \<Rightarrow> 'a rs \<times> 's"

definition bind_se :: "('s, 'a) se \<Rightarrow> ('a \<Rightarrow> ('s, 'b) se) \<Rightarrow> ('s, 'b) se" where
  "bind_se m k s = (case m s of (Inl e, t) \<Rightarrow> (Inl e, t) | (Inr a, t) \<Rightarrow> k a t)"

definition return_se :: "'a \<Rightarrow> ('s, 'a) se" where
  "return_se a s = (Inr a, s)"

definition fail_se :: "fault \<Rightarrow> ('s, 'a) se" where
  "fail_se e s = (Inl e, s)"

text \<open>A read of the state, and a write of it.\<close>

definition read_se :: "('s \<Rightarrow> 'a rs) \<Rightarrow> ('s, 'a) se" where
  "read_se f s = (f s, s)"

definition write_se :: "('s \<Rightarrow> 's) \<Rightarrow> ('s, unit) se" where
  "write_se f s = (Inr (), f s)"

definition lift_se :: "'a rs \<Rightarrow> ('s, 'a) se" where
  "lift_se r s = (r, s)"

text \<open>An encoder that either fails or replaces the state.\<close>

definition update_se :: "('s \<Rightarrow> 's rs) \<Rightarrow> ('s, unit) se" where
  "update_se f s = (case f s of Inl e \<Rightarrow> (Inl e, s) | Inr t \<Rightarrow> (Inr (), t))"

text \<open>Running an update on a local variable: an error discards it.\<close>

definition exec_se :: "('s, 'a) se \<Rightarrow> 's \<Rightarrow> 's rs" where
  "exec_se m s = (case m s of (Inl e, _) \<Rightarrow> Inl e | (Inr _, t) \<Rightarrow> Inr t)"

fun fold_se :: "('a \<Rightarrow> ('s, unit) se) \<Rightarrow> 'a list \<Rightarrow> ('s, unit) se" where
  "fold_se f [] = return_se ()"
| "fold_se f (x # xs) = bind_se (f x) (\<lambda>_. fold_se f xs)"

named_theorems se_simps \<open>evaluation of fallible updates\<close>

lemma bind_se_eval [se_simps]:
  "m s = (Inr a, t) \<Longrightarrow> bind_se m k s = k a t"
  "m s = (Inl e, t) \<Longrightarrow> bind_se m k s = (Inl e, t)"
  by (simp_all add: bind_se_def)

lemma bind_se_read [se_simps]:
  "f s = Inr a \<Longrightarrow> bind_se (read_se f) k s = k a s"
  "f s = Inl e \<Longrightarrow> bind_se (read_se f) k s = (Inl e, s)"
  by (simp_all add: bind_se_def read_se_def)

lemma bind_se_lift [se_simps]:
  "bind_se (lift_se (Inr a)) k s = k a s"
  "bind_se (lift_se (Inl e)) k s = (Inl e, s)"
  by (simp_all add: bind_se_def lift_se_def)

lemma bind_se_write [se_simps]: "bind_se (write_se f) k s = k () (f s)"
  by (simp add: bind_se_def write_se_def)

lemma bind_se_update [se_simps]:
  "f s = Inr t \<Longrightarrow> bind_se (update_se f) k s = k () t"
  "f s = Inl e \<Longrightarrow> bind_se (update_se f) k s = (Inl e, s)"
  by (simp_all add: bind_se_def update_se_def)

lemma bind_se_return [se_simps]: "bind_se (return_se a) k s = k a s"
  by (simp add: bind_se_def return_se_def)

lemma return_se_eval [se_simps]: "return_se a s = (Inr a, s)"
  by (simp add: return_se_def)

lemma exec_se_eval [se_simps]:
  "m s = (Inr a, t) \<Longrightarrow> exec_se m s = Inr t"
  "m s = (Inl e, t) \<Longrightarrow> exec_se m s = Inl e"
  by (simp_all add: exec_se_def)

lemma fold_se_invariant:
  assumes "fold_se f xs s = (Inr u, t)" and "P s"
    and "\<And>x s t u. x \<in> set xs \<Longrightarrow> P s \<Longrightarrow> f x s = (Inr u, t) \<Longrightarrow> P t"
  shows "P t"
  using assms
proof (induction xs arbitrary: s)
  case Nil
  then show ?case by (simp add: return_se_def)
next
  case (Cons x xs)
  from Cons.prems(1) obtain m where "f x s = (Inr (), m)" and rest: "fold_se f xs m = (Inr u, t)"
    by (auto simp: bind_se_def split: prod.splits sum.splits)
  then have "P m" using Cons.prems(2) Cons.prems(3) [of x s] by simp
  with rest show ?case
  proof (rule Cons.IH)
    fix y s t u assume "y \<in> set xs" "P s" "f y s = (Inr u, t)"
    then show "P t" using Cons.prems(3) [of y s] by simp
  qed
qed

lemma fail_se_eval [se_simps]: "fail_se e s = (Inl e, s)"
  by (simp add: fail_se_def)

lemma update_se_eval [se_simps]:
  "f s = Inr t \<Longrightarrow> update_se f s = (Inr (), t)"
  "f s = Inl e \<Longrightarrow> update_se f s = (Inl e, s)"
  by (simp_all add: update_se_def)

section \<open>Machine integers\<close>

lemma unat_u32_small: "n < 2 ^ 32 \<Longrightarrow> unat (of_nat n :: u32) = n"
  by (simp only: unsigned_of_nat) (simp add: take_bit_nat_eq_self)

text \<open>A 32-bit sum that traps on overflow.\<close>

definition add_u32 :: "u32 \<Rightarrow> u32 \<Rightarrow> u32 rs" where
  "add_u32 a b = (if uint a + uint b \<ge> 2 ^ 32 then Inl Panic else Inr (a + b))"

lemma add_u32_unat:
  "add_u32 a b = (if unat a + unat b \<ge> 2 ^ 32 then Inl Panic else Inr (a + b))"
proof -
  have "uint a + uint b \<ge> 2 ^ 32 \<longleftrightarrow> int (unat a + unat b) \<ge> int (2 ^ 32)" by simp
  then show ?thesis unfolding add_u32_def by (simp only: of_nat_le_iff)
qed

lemma unat_add_u32: "unat a + unat b < 2 ^ 32 \<Longrightarrow> unat (a + b :: u32) = unat a + unat b"
  by (subst unat_add_lem [symmetric]) simp

lemma add_u32_ok: "unat a + unat b < 2 ^ 32 \<Longrightarrow> add_u32 a b = Inr (a + b)"
  by (simp add: add_u32_unat del: of_nat_add)

section \<open>Binary search\<close>

text \<open>
  The loop \<open>while low < high { mid = low + (high - low) / 2; ... }\<close> that two of the
  page routines share: \<open>below mid\<close> decides which half is kept.
\<close>

function binary_search :: "(nat \<Rightarrow> bool rs) \<Rightarrow> nat \<Rightarrow> nat \<Rightarrow> nat rs" where
  "binary_search below low high =
     (if low < high then
        let mid = low + (high - low) div 2 in
        bind_rs (below mid) (\<lambda>b.
        if b then binary_search below (mid + 1) high else binary_search below low mid)
      else Inr low)"
  by pat_completeness auto
termination
  by (relation "measure (\<lambda>(below, low, high). high - low)") auto

declare binary_search.simps [simp del]

lemma binary_search_partition:
  assumes "\<And>i. i < n \<Longrightarrow> below i = Inr (i < k)" and "low \<le> k" and "k \<le> high" and "high \<le> n"
  shows "binary_search below low high = Inr k"
  using assms
proof (induction below low high rule: binary_search.induct)
  case (1 below low high)
  show ?case
  proof (cases "low < high")
    case True
    define mid where "mid = low + (high - low) div 2"
    have mid: "low \<le> mid" "mid < high" using True by (auto simp: mid_def)
    have bm: "below mid = Inr (mid < k)" using 1(3) mid 1(6) by simp
    show ?thesis
    proof (cases "mid < k")
      case less: True
      then have "binary_search below (mid + 1) high = Inr k"
        using "1.IH"(1) [OF True mid_def, of True] 1(3-6) bm by simp
      then show ?thesis using True bm less
        by (simp add: binary_search.simps [of below low high] Let_def mid_def [symmetric])
    next
      case ge: False
      then have "binary_search below low mid = Inr k"
        using "1.IH"(2) [OF True mid_def, of False] 1(3-6) bm mid by simp
      then show ?thesis using True bm ge
        by (simp add: binary_search.simps [of below low high] Let_def mid_def [symmetric])
    qed
  next
    case False
    then show ?thesis using 1(4,5) by (simp add: binary_search.simps [of below low high])
  qed
qed

end
