(* ===== verification/Compat.thy ===== *)
theory Compat
  imports Mudu_Prelude
begin

text \<open>
  The compatibility registry of \<open>mudu/src/compat/mod.rs\<close>: the format families,
  their magic values and supported version ranges, and the checks that every
  decoder of a persistent or wire format runs first.
\<close>

datatype FormatKind =
    Page | LogFrame | ProtocolFrame | MpkManifest | ServerConfig | FileLayout
  | TupleBinary | SyscallPayload

definition PAGE_CURRENT_VERSION :: u32 where "PAGE_CURRENT_VERSION = 1"
definition LOG_FRAME_CURRENT_VERSION :: u32 where "LOG_FRAME_CURRENT_VERSION = 1"
definition PROTOCOL_FRAME_CURRENT_VERSION :: u32 where "PROTOCOL_FRAME_CURRENT_VERSION = 1"
definition MPK_MANIFEST_CURRENT_VERSION :: u32 where "MPK_MANIFEST_CURRENT_VERSION = 1"
definition SERVER_CONFIG_CURRENT_VERSION :: u32 where "SERVER_CONFIG_CURRENT_VERSION = 1"
definition FILE_LAYOUT_CURRENT_VERSION :: u32 where "FILE_LAYOUT_CURRENT_VERSION = 1"
definition TUPLE_BINARY_CURRENT_VERSION :: u32 where "TUPLE_BINARY_CURRENT_VERSION = 1"
definition SYSCALL_PAYLOAD_CURRENT_VERSION :: u32 where "SYSCALL_PAYLOAD_CURRENT_VERSION = 1"

lemmas current_version_defs =
  PAGE_CURRENT_VERSION_def LOG_FRAME_CURRENT_VERSION_def PROTOCOL_FRAME_CURRENT_VERSION_def
  MPK_MANIFEST_CURRENT_VERSION_def SERVER_CONFIG_CURRENT_VERSION_def
  FILE_LAYOUT_CURRENT_VERSION_def TUPLE_BINARY_CURRENT_VERSION_def
  SYSCALL_PAYLOAD_CURRENT_VERSION_def

record VersionRange =
  vr_min :: u32
  vr_max :: u32

definition VersionRange_contains :: "VersionRange \<Rightarrow> u32 \<Rightarrow> bool" where
  "VersionRange_contains r version \<longleftrightarrow> vr_min r \<le> version \<and> version \<le> vr_max r"

fun compat_magic :: "FormatKind \<Rightarrow> u32" where
  "compat_magic Page = 0x50414745"
| "compat_magic LogFrame = 0x4C47464D"
| "compat_magic ProtocolFrame = 0x4D53464D"
| "compat_magic MpkManifest = 0x4D504B4D"
| "compat_magic ServerConfig = 0"
| "compat_magic FileLayout = 0"
| "compat_magic TupleBinary = 0"
| "compat_magic SyscallPayload = 0x4D535350"

fun supported_versions :: "FormatKind \<Rightarrow> VersionRange" where
  "supported_versions Page = \<lparr>vr_min = 1, vr_max = PAGE_CURRENT_VERSION\<rparr>"
| "supported_versions LogFrame = \<lparr>vr_min = 1, vr_max = LOG_FRAME_CURRENT_VERSION\<rparr>"
| "supported_versions ProtocolFrame = \<lparr>vr_min = 1, vr_max = PROTOCOL_FRAME_CURRENT_VERSION\<rparr>"
| "supported_versions MpkManifest = \<lparr>vr_min = 1, vr_max = MPK_MANIFEST_CURRENT_VERSION\<rparr>"
| "supported_versions ServerConfig = \<lparr>vr_min = 1, vr_max = SERVER_CONFIG_CURRENT_VERSION\<rparr>"
| "supported_versions FileLayout = \<lparr>vr_min = 1, vr_max = FILE_LAYOUT_CURRENT_VERSION\<rparr>"
| "supported_versions TupleBinary = \<lparr>vr_min = 1, vr_max = TUPLE_BINARY_CURRENT_VERSION\<rparr>"
| "supported_versions SyscallPayload = \<lparr>vr_min = 1, vr_max = SYSCALL_PAYLOAD_CURRENT_VERSION\<rparr>"

fun latest_version :: "FormatKind \<Rightarrow> u32" where
  "latest_version Page = PAGE_CURRENT_VERSION"
| "latest_version LogFrame = LOG_FRAME_CURRENT_VERSION"
| "latest_version ProtocolFrame = PROTOCOL_FRAME_CURRENT_VERSION"
| "latest_version MpkManifest = MPK_MANIFEST_CURRENT_VERSION"
| "latest_version ServerConfig = SERVER_CONFIG_CURRENT_VERSION"
| "latest_version FileLayout = FILE_LAYOUT_CURRENT_VERSION"
| "latest_version TupleBinary = TUPLE_BINARY_CURRENT_VERSION"
| "latest_version SyscallPayload = SYSCALL_PAYLOAD_CURRENT_VERSION"

definition is_supported :: "FormatKind \<Rightarrow> u32 \<Rightarrow> bool" where
  "is_supported kind version = VersionRange_contains (supported_versions kind) version"

datatype CompatError =
    MagicMismatch FormatKind u32 u32
  | UnsupportedVersion FormatKind u32 VersionRange
  | Corrupted FormatKind string

fun compat_error_code :: "CompatError \<Rightarrow> ErrorCode" where
  "compat_error_code (MagicMismatch _ _ _) = CorruptedData"
| "compat_error_code (Corrupted _ _) = CorruptedData"
| "compat_error_code (UnsupportedVersion kind _ _) =
     (case kind of ProtocolFrame \<Rightarrow> IncompatibleProtocolVersion | _ \<Rightarrow> UnsupportedFormatVersion)"

definition check_magic :: "FormatKind \<Rightarrow> u32 \<Rightarrow> CompatError + unit" where
  "check_magic kind actual =
     (let expected = compat_magic kind in
      if actual = expected then Inr () else Inl (MagicMismatch kind expected actual))"

definition check_version :: "FormatKind \<Rightarrow> u32 \<Rightarrow> CompatError + unit" where
  "check_version kind version =
     (let supported = supported_versions kind in
      if VersionRange_contains supported version then Inr ()
      else Inl (UnsupportedVersion kind version supported))"

definition check_magic_and_version :: "FormatKind \<Rightarrow> u32 \<Rightarrow> u32 \<Rightarrow> CompatError + unit" where
  "check_magic_and_version kind actual_magic version =
     (case check_magic kind actual_magic of
        Inl e \<Rightarrow> Inl e
      | Inr _ \<Rightarrow> check_version kind version)"

text \<open>\<open>From<CompatError> for MuduError\<close>, which the \<open>?\<close> operator applies.\<close>

definition compat_rs :: "CompatError + 'a \<Rightarrow> 'a rs" where
  "compat_rs r = (case r of Inl e \<Rightarrow> Inl (EC (compat_error_code e)) | Inr a \<Rightarrow> Inr a)"

section \<open>Every registered family supports exactly its latest version\<close>

lemma version_1_range: "(1 :: u32) \<le> v \<and> v \<le> 1 \<longleftrightarrow> v = 1"
  by (auto intro: antisym)

lemma supported_iff_latest: "is_supported kind v \<longleftrightarrow> v = latest_version kind"
  by (cases kind)
    (simp_all add: is_supported_def VersionRange_contains_def current_version_defs version_1_range)

lemma check_version_iff: "check_version kind v = Inr u \<longleftrightarrow> v = latest_version kind"
  using supported_iff_latest [of kind v]
  by (simp add: check_version_def is_supported_def Let_def)

lemma compat_rs_simps [simp]:
  "compat_rs (Inr a) = Inr a" "compat_rs (Inl e) = Inl (EC (compat_error_code e))"
  by (simp_all add: compat_rs_def)

lemma compat_rs_check_magic:
  "compat_rs (check_magic kind m) = ensure (m = compat_magic kind) (EC CorruptedData)"
  by (simp add: check_magic_def Let_def ensure_def)

lemma compat_rs_check_version:
  "compat_rs (check_version kind v) =
     ensure (v = latest_version kind)
       (EC (if kind = ProtocolFrame then IncompatibleProtocolVersion else UnsupportedFormatVersion))"
proof (cases "v = latest_version kind")
  case True
  then have "check_version kind v = Inr ()" by (simp add: check_version_iff)
  then show ?thesis using True by simp
next
  case False
  then have "\<not> VersionRange_contains (supported_versions kind) v"
    using supported_iff_latest [of kind v] by (simp add: is_supported_def)
  then show ?thesis using False
    by (cases kind) (simp_all add: check_version_def Let_def)
qed

end
