(* ===== verification/Compat_Router.thy ===== *)
theory Compat_Router
  imports Compat
begin

text \<open>
  The migration router of \<open>mudu_compat_migrate/src/router.rs\<close>: registered handlers
  between format versions, the breadth-first search for a chain of handlers,
  and the execution of the chain.  Upgrade and rollback functions are arbitrary
  functions stored in the handlers, as the function pointers are in the code.
\<close>

section \<open>Handlers and errors\<close>

record MigrateOption =
  mo_version :: u32
  mo_payload :: "byte list"

datatype MigrateError =
    MigrateUnsupportedVersion FormatKind u32 VersionRange
  | MissingHandler FormatKind u32 u32
  | Irreversible FormatKind u32 u32
  | UnsupportedOptionVersion FormatKind u32
  | MigrationFailed FormatKind u32 u32 nat

fun migrate_error_code :: "MigrateError \<Rightarrow> ErrorCode" where
  "migrate_error_code (MigrateUnsupportedVersion component _ _) =
     (case component of ProtocolFrame \<Rightarrow> IncompatibleProtocolVersion | _ \<Rightarrow> UnsupportedFormatVersion)"
| "migrate_error_code (MissingHandler _ _ _) = UnsupportedFormatVersion"
| "migrate_error_code (Irreversible _ _ _) = UnsupportedFormatVersion"
| "migrate_error_code (UnsupportedOptionVersion _ _) = CorruptedData"
| "migrate_error_code (MigrationFailed _ _ _ _) = CorruptedData"

type_synonym migrate_fn = "byte list \<Rightarrow> MigrateOption option \<Rightarrow> MigrateError + byte list"

record MigrateHandler =
  mh_from :: u32
  mh_to :: u32
  mh_upgrade :: migrate_fn
  mh_rollback :: migrate_fn

definition clone_upgrade :: migrate_fn where "clone_upgrade binary opt = Inr binary"

definition clone_rollback :: migrate_fn where "clone_rollback binary opt = Inr binary"

type_synonym OptionProvider = "FormatKind \<Rightarrow> u32 \<Rightarrow> MigrateOption option"

definition NoopOptionProvider :: OptionProvider where
  "NoopOptionProvider component version = None"

datatype EdgeKind = Upgrade | Rollback

record Edge =
  e_from :: u32
  e_to :: u32
  e_kind :: EdgeKind
  e_handler :: MigrateHandler

section \<open>The router\<close>

record CompatibilityRouter =
  current_versions :: "FormatKind \<rightharpoonup> u32"
  min_supported_versions :: "FormatKind \<rightharpoonup> u32"
  handlers :: "FormatKind \<rightharpoonup> MigrateHandler list"

definition Router_new :: CompatibilityRouter where
  "Router_new = \<lparr>current_versions = Map.empty, min_supported_versions = Map.empty,
                  handlers = Map.empty\<rparr>"

definition set_current_version ::
    "FormatKind \<Rightarrow> u32 \<Rightarrow> CompatibilityRouter \<Rightarrow> CompatibilityRouter" where
  "set_current_version component version r =
     r\<lparr>current_versions := (current_versions r)(component \<mapsto> version)\<rparr>"

definition set_min_supported_version ::
    "FormatKind \<Rightarrow> u32 \<Rightarrow> CompatibilityRouter \<Rightarrow> CompatibilityRouter" where
  "set_min_supported_version component version r =
     r\<lparr>min_supported_versions := (min_supported_versions r)(component \<mapsto> version)\<rparr>"

definition set_supported_window ::
    "FormatKind \<Rightarrow> u32 \<Rightarrow> u32 \<Rightarrow> CompatibilityRouter \<Rightarrow> CompatibilityRouter" where
  "set_supported_window component lo current r =
     r\<lparr>min_supported_versions := (min_supported_versions r)(component \<mapsto> lo),
       current_versions := (current_versions r)(component \<mapsto> current)\<rparr>"

definition current_version :: "CompatibilityRouter \<Rightarrow> FormatKind \<Rightarrow> u32 option" where
  "current_version r component = current_versions r component"

definition min_supported_version :: "CompatibilityRouter \<Rightarrow> FormatKind \<Rightarrow> u32" where
  "min_supported_version r component =
     (case min_supported_versions r component of Some v \<Rightarrow> v | None \<Rightarrow> 1)"

definition supported_window :: "CompatibilityRouter \<Rightarrow> FormatKind \<Rightarrow> VersionRange option" where
  "supported_window r component =
     (case current_version r component of
        None \<Rightarrow> None
      | Some hi \<Rightarrow> Some \<lparr>vr_min = min_supported_version r component, vr_max = hi\<rparr>)"

definition register ::
    "FormatKind \<Rightarrow> MigrateHandler \<Rightarrow> CompatibilityRouter \<Rightarrow> CompatibilityRouter" where
  "register component handler r =
     r\<lparr>handlers := (handlers r)(component \<mapsto>
         (case handlers r component of Some hs \<Rightarrow> hs | None \<Rightarrow> []) @ [handler])\<rparr>"

definition router_window :: "CompatibilityRouter \<Rightarrow> FormatKind \<Rightarrow> VersionRange" where
  "router_window r component =
     (let lo = min_supported_version r component in
      \<lparr>vr_min = lo, vr_max = (case current_version r component of Some v \<Rightarrow> v | None \<Rightarrow> lo)\<rparr>)"

definition router_check_version ::
    "CompatibilityRouter \<Rightarrow> FormatKind \<Rightarrow> u32 \<Rightarrow> MigrateError + unit" where
  "router_check_version r component version =
     (let range = router_window r component in
      if VersionRange_contains range version then Inr ()
      else Inl (MigrateUnsupportedVersion component version range))"

text \<open>Both directions of every handler that stays inside the supported window.\<close>

definition handler_edges :: "VersionRange \<Rightarrow> MigrateHandler \<Rightarrow> Edge list" where
  "handler_edges w h =
     (if vr_min w \<le> mh_from h \<and> mh_from h \<le> vr_max w \<and> vr_min w \<le> mh_to h \<and> mh_to h \<le> vr_max w
      then [\<lparr>e_from = mh_from h, e_to = mh_to h, e_kind = Upgrade, e_handler = h\<rparr>,
            \<lparr>e_from = mh_to h, e_to = mh_from h, e_kind = Rollback, e_handler = h\<rparr>]
      else [])"

definition component_edges :: "CompatibilityRouter \<Rightarrow> FormatKind \<Rightarrow> Edge list" where
  "component_edges r component =
     (case handlers r component of
        None \<Rightarrow> []
      | Some hs \<Rightarrow> concat (map (handler_edges (router_window r component)) hs))"

section \<open>Breadth-first search\<close>

text \<open>The loop over the outgoing edges of one dequeued version.\<close>

fun relax :: "u32 \<Rightarrow> Edge list \<Rightarrow> (u32 \<rightharpoonup> Edge) \<times> u32 list \<Rightarrow> (u32 \<rightharpoonup> Edge) \<times> u32 list" where
  "relax start [] s = s"
| "relax start (e # es) (visited, queue) =
     (if visited (e_to e) = None \<and> e_to e \<noteq> start
      then relax start es (visited(e_to e \<mapsto> e), queue @ [e_to e])
      else relax start es (visited, queue))"

definition outgoing :: "Edge list \<Rightarrow> u32 \<Rightarrow> Edge list" where
  "outgoing edges v = filter (\<lambda>e. e_from e = v) edges"

definition unvisited :: "Edge list \<Rightarrow> (u32 \<rightharpoonup> Edge) \<Rightarrow> u32 set" where
  "unvisited edges visited = {v \<in> e_to ` set edges. visited v = None}"

lemma finite_unvisited [simp]: "finite (unvisited edges visited)"
  by (simp add: unvisited_def)

lemma relax_measure:
  assumes "relax start es (visited, queue) = (visited', queue')" and "set es \<subseteq> set edges"
  shows "card (unvisited edges visited') + length queue' =
         card (unvisited edges visited) + length queue"
  using assms
proof (induction es arbitrary: visited queue)
  case (Cons e es)
  show ?case
  proof (cases "visited (e_to e) = None \<and> e_to e \<noteq> start")
    case True
    have "e_to e \<in> unvisited edges visited"
      using True Cons.prems(2) by (simp add: unvisited_def)
    moreover have "unvisited edges (visited(e_to e \<mapsto> e)) = unvisited edges visited - {e_to e}"
      by (auto simp: unvisited_def)
    ultimately have "Suc (card (unvisited edges (visited(e_to e \<mapsto> e)))) = card (unvisited edges visited)"
      by (simp only: card_Suc_Diff1 finite_unvisited)
    moreover have "card (unvisited edges visited') + length queue' =
        card (unvisited edges (visited(e_to e \<mapsto> e))) + length (queue @ [e_to e])"
    proof (rule Cons.IH)
      show "relax start es (visited(e_to e \<mapsto> e), queue @ [e_to e]) = (visited', queue')"
        using Cons.prems(1) True by simp
    qed (use Cons.prems(2) in simp)
    ultimately show ?thesis by simp
  next
    case False
    then have "relax start es (visited, queue) = (visited', queue')"
      using Cons.prems(1) by (simp only: relax.simps if_False)
    then show ?thesis using Cons.IH Cons.prems(2) by simp
  qed
qed simp

function bfs :: "Edge list \<Rightarrow> u32 \<Rightarrow> u32 \<Rightarrow> (u32 \<rightharpoonup> Edge) \<Rightarrow> u32 list \<Rightarrow> (u32 \<rightharpoonup> Edge)" where
  "bfs edges start goal visited [] = visited"
| "bfs edges start goal visited (version # queue) =
     (if version = goal then visited
      else let (visited', queue') = relax start (outgoing edges version) (visited, queue)
           in bfs edges start goal visited' queue')"
  by pat_completeness auto
termination
proof (relation "measure (\<lambda>(edges, start, goal, visited, queue). card (unvisited edges visited) + length queue)")
  fix edges start goal visited version queue visited' queue'
  fix x :: "(u32 \<rightharpoonup> Edge) \<times> u32 list"
  assume "x = relax start (outgoing edges version) (visited, queue)" and "(visited', queue') = x"
  then have "relax start (outgoing edges version) (visited, queue) = (visited', queue')" by simp
  then have "card (unvisited edges visited') + length queue' = card (unvisited edges visited) + length queue"
    by (rule relax_measure) (auto simp: outgoing_def)
  then show "((edges, start, goal, visited', queue'), edges, start, goal, visited, version # queue)
      \<in> measure (\<lambda>(edges, start, goal, visited, queue). card (unvisited edges visited) + length queue)"
    by simp
qed (rule wf_measure)

text \<open>The walk from the target back to the start.  It would not end on a visited
  map with a cycle, so it is a partial function; \<open>None\<close> is divergence.\<close>

partial_function (option) backtrack ::
    "FormatKind \<Rightarrow> u32 \<Rightarrow> u32 \<Rightarrow> (u32 \<rightharpoonup> Edge) \<Rightarrow> u32 \<Rightarrow> Edge list \<Rightarrow>
     (MigrateError + Edge list) option" where
  "backtrack component start goal visited cursor path =
     (if cursor = start then Some (Inr (rev path))
      else case visited cursor of
             None \<Rightarrow> Some (Inl (MissingHandler component start goal))
           | Some e \<Rightarrow> backtrack component start goal visited (e_from e) (path @ [e]))"

definition find_path ::
    "CompatibilityRouter \<Rightarrow> FormatKind \<Rightarrow> u32 \<Rightarrow> u32 \<Rightarrow> (MigrateError + Edge list) option" where
  "find_path r component start goal =
     (let visited = bfs (component_edges r component) start goal Map.empty [start] in
      if visited goal = None \<and> start \<noteq> goal
      then Some (Inl (MissingHandler component start goal))
      else backtrack component start goal visited goal [])"

section \<open>Executing a migration\<close>

definition run_edge ::
    "FormatKind \<Rightarrow> OptionProvider \<Rightarrow> nat \<Rightarrow> Edge \<Rightarrow> byte list \<Rightarrow> MigrateError + byte list" where
  "run_edge component options step edge current =
     (let opt = options component (e_from edge);
          result = (case e_kind edge of
                      Upgrade \<Rightarrow> mh_upgrade (e_handler edge) current opt
                    | Rollback \<Rightarrow> mh_rollback (e_handler edge) current opt)
      in case result of
           Inr out \<Rightarrow> Inr out
         | Inl e \<Rightarrow> Inl (case e of
                          MigrationFailed _ _ _ _ \<Rightarrow> e
                        | _ \<Rightarrow> MigrationFailed component (e_from edge) (e_to edge) step))"

fun run_path ::
    "FormatKind \<Rightarrow> OptionProvider \<Rightarrow> nat \<Rightarrow> Edge list \<Rightarrow> byte list \<Rightarrow> MigrateError + byte list" where
  "run_path component options step [] current = Inr current"
| "run_path component options step (edge # path) current =
     (case run_edge component options step edge current of
        Inl e \<Rightarrow> Inl e
      | Inr result \<Rightarrow> run_path component options (Suc step) path result)"

definition migrate ::
    "CompatibilityRouter \<Rightarrow> FormatKind \<Rightarrow> u32 \<Rightarrow> u32 \<Rightarrow> byte list \<Rightarrow> OptionProvider \<Rightarrow>
     (MigrateError + byte list) option" where
  "migrate r component from_version to_version binary options =
     (if from_version = to_version then Some (Inr binary)
      else case router_check_version r component from_version of
        Inl e \<Rightarrow> Some (Inl e)
      | Inr _ \<Rightarrow>
      (case router_check_version r component to_version of
        Inl e \<Rightarrow> Some (Inl e)
      | Inr _ \<Rightarrow>
      (case find_path r component from_version to_version of
        None \<Rightarrow> None
      | Some (Inl e) \<Rightarrow> Some (Inl e)
      | Some (Inr path) \<Rightarrow> Some (run_path component options 0 path binary))))"

definition upgrade_to_current ::
    "CompatibilityRouter \<Rightarrow> FormatKind \<Rightarrow> u32 \<Rightarrow> byte list \<Rightarrow> OptionProvider \<Rightarrow>
     (MigrateError + byte list) option" where
  "upgrade_to_current r component from_version binary options =
     (case current_version r component of
        None \<Rightarrow> Some (Inl (MigrateUnsupportedVersion component from_version \<lparr>vr_min = 0, vr_max = 0\<rparr>))
      | Some current \<Rightarrow> migrate r component from_version current binary options)"

definition rollback_from_current ::
    "CompatibilityRouter \<Rightarrow> FormatKind \<Rightarrow> u32 \<Rightarrow> byte list \<Rightarrow> OptionProvider \<Rightarrow>
     (MigrateError + byte list) option" where
  "rollback_from_current r component to_version binary options =
     (case current_version r component of
        None \<Rightarrow> Some (Inl (MigrateUnsupportedVersion component to_version \<lparr>vr_min = 0, vr_max = 0\<rparr>))
      | Some current \<Rightarrow> migrate r component current to_version binary options)"

definition validate_path ::
    "CompatibilityRouter \<Rightarrow> FormatKind \<Rightarrow> u32 \<Rightarrow> u32 \<Rightarrow> (MigrateError + nat) option" where
  "validate_path r component from_version to_version =
     (if from_version = to_version then Some (Inr 0)
      else case router_check_version r component from_version of
        Inl e \<Rightarrow> Some (Inl e)
      | Inr _ \<Rightarrow>
      (case router_check_version r component to_version of
        Inl e \<Rightarrow> Some (Inl e)
      | Inr _ \<Rightarrow>
      (case find_path r component from_version to_version of
        None \<Rightarrow> None
      | Some (Inl e) \<Rightarrow> Some (Inl e)
      | Some (Inr path) \<Rightarrow> Some (Inr (length path)))))"

text \<open>The module \<open>global\<close>: the router is installed at most once.\<close>

definition global_install ::
    "CompatibilityRouter \<Rightarrow> CompatibilityRouter option \<Rightarrow>
     CompatibilityRouter option \<times> (CompatibilityRouter + unit)" where
  "global_install r g = (case g of None \<Rightarrow> (Some r, Inr ()) | Some _ \<Rightarrow> (g, Inl r))"

definition global_upgrade_to_current ::
    "CompatibilityRouter option \<Rightarrow> FormatKind \<Rightarrow> u32 \<Rightarrow> byte list \<Rightarrow> OptionProvider \<Rightarrow>
     (MigrateError + byte list) option" where
  "global_upgrade_to_current g component from_version binary options =
     (case g of
        None \<Rightarrow> Some (Inl (MigrationFailed component from_version 0 0))
      | Some r \<Rightarrow> upgrade_to_current r component from_version binary options)"

end
