(* ===== verification/Byte_Codec.thy ===== *)
theory Byte_Codec
  imports Compat_Router
begin

text \<open>
  Fixed-width integers in byte buffers.  The interface \<open>word_codec\<close> says what a
  client of an integer codec relies on: a fixed encoded width and that reading
  what was written gives the integer back.  Big-endian conversion is part of the
  Rust standard library (\<open>to_be_bytes\<close>, \<open>from_be_bytes\<close>) and defined here.  The
  little-endian accessors come from the \<open>byteorder\<close> crate and the checksums from
  the \<open>crc\<close> crate, neither of which is part of the repository; the definitions
  that use them take them as a record \<open>ext\<close>, and \<open>ext_ok\<close> states the documented
  behaviour of \<open>byteorder\<close>.  Nothing is assumed of the checksums.  The record also
  carries the process-wide migration router, which the page and log readers consult.
\<close>

unbundle bit_operations_syntax

section \<open>The codec interface\<close>

locale word_codec =
  fixes rd :: "byte list \<Rightarrow> 'w :: len word"
    and wr :: "'w word \<Rightarrow> byte list"
    and n :: nat
  assumes rd_wr: "rd (wr w) = w"
    and length_wr: "length (wr w) = n"
begin

lemma rd_patched:
  "off + n \<le> length buf \<Longrightarrow> e = off + n \<Longrightarrow> rd (sub_slice off e (patch off (wr w) buf)) = w"
  by (simp add: sub_slice_patch_same length_wr rd_wr)

lemma length_patched: "off + n \<le> length buf \<Longrightarrow> length (patch off (wr w) buf) = length buf"
  by (simp add: length_patch length_wr)

lemma rd_append: "rd (take n (wr w @ rest)) = w"
  by (simp add: length_wr rd_wr)

lemma drop_append: "drop n (wr w @ rest) = rest"
  by (simp add: length_wr)

lemma wr_inj: "wr v = wr w \<longleftrightarrow> v = w"
  by (metis rd_wr)

end

section \<open>Bytes of a word\<close>

fun le_to_word :: "byte list \<Rightarrow> 'w :: len word" where
  "le_to_word [] = 0"
| "le_to_word (b # bs) = ucast b OR push_bit 8 (le_to_word bs)"

definition word_to_le :: "nat \<Rightarrow> 'w :: len word \<Rightarrow> byte list" where
  "word_to_le n w = map (\<lambda>i. ucast (drop_bit (8 * i) w)) [0..<n]"

text \<open>\<open>u32::to_be_bytes\<close>, \<open>u64::to_be_bytes\<close> and their inverses.\<close>

definition to_be_bytes :: "nat \<Rightarrow> 'w :: len word \<Rightarrow> byte list" where
  "to_be_bytes n w = rev (word_to_le n w)"

definition from_be_bytes :: "byte list \<Rightarrow> 'w :: len word" where
  "from_be_bytes bs = le_to_word (rev bs)"

lemma length_word_to_le [simp]: "length (word_to_le n w) = n"
  by (simp add: word_to_le_def)

lemma bit_le_to_word:
  "bit (le_to_word bs :: 'w :: len word) i \<longleftrightarrow>
     i < LENGTH('w) \<and> i div 8 < length bs \<and> bit (bs ! (i div 8)) (i mod 8)"
proof (induction bs arbitrary: i)
  case (Cons b bs)
  show ?case
  proof (cases "i < 8")
    case True
    then show ?thesis by (auto simp: bit_or_iff bit_push_bit_iff bit_ucast_iff)
  next
    case False
    then obtain j where j: "i = 8 + j" by (metis le_Suc_ex not_less)
    have "\<not> bit b (8 + j)" using bit_imp_le_length [of b "8 + j"] by auto
    moreover have "(8 + j) div 8 = Suc (j div 8)" by simp
    ultimately show ?thesis using Cons.IH [of j] by (auto simp: j bit_or_iff bit_push_bit_iff bit_ucast_iff)
  qed
qed simp

lemma le_to_word_to_le:
  fixes w :: "'w :: len word"
  assumes "LENGTH('w) = 8 * n"
  shows "le_to_word (word_to_le n w) = w"
proof (rule bit_word_eqI)
  fix i assume "i < LENGTH('w)"
  moreover from this have "i div 8 < n" using assms by simp
  ultimately show "bit (le_to_word (word_to_le n w) :: 'w word) i \<longleftrightarrow> bit w i"
    by (simp add: bit_le_to_word word_to_le_def bit_ucast_iff bit_drop_bit_eq)
qed

interpretation be32: word_codec "from_be_bytes :: byte list \<Rightarrow> u32" "to_be_bytes 4" 4
  by unfold_locales (simp_all add: from_be_bytes_def to_be_bytes_def le_to_word_to_le)

interpretation be64: word_codec "from_be_bytes :: byte list \<Rightarrow> u64" "to_be_bytes 8" 8
  by unfold_locales (simp_all add: from_be_bytes_def to_be_bytes_def le_to_word_to_le)

section \<open>The environment\<close>

record ext =
  le_read_u16 :: "byte list \<Rightarrow> u16"
  le_write_u16 :: "u16 \<Rightarrow> byte list"
  le_read_u32 :: "byte list \<Rightarrow> u32"
  le_write_u32 :: "u32 \<Rightarrow> byte list"
  le_read_u64 :: "byte list \<Rightarrow> u64"
  le_write_u64 :: "u64 \<Rightarrow> byte list"
  crc16 :: "byte list \<Rightarrow> u16"
  crc32 :: "byte list \<Rightarrow> u32"
  crc64 :: "byte list \<Rightarrow> u64"
  global_router :: "CompatibilityRouter option"

text \<open>The upgrade call of the decode entry points, with its error conversion.\<close>

definition env_upgrade :: "ext \<Rightarrow> FormatKind \<Rightarrow> u32 \<Rightarrow> byte list \<Rightarrow> byte list rs" where
  "env_upgrade X kind version binary =
     (case global_upgrade_to_current (global_router X) kind version binary NoopOptionProvider of
        None \<Rightarrow> Inl Diverge
      | Some (Inl e) \<Rightarrow> Inl (EC (migrate_error_code e))
      | Some (Inr out) \<Rightarrow> Inr out)"

definition ext_ok :: "ext \<Rightarrow> bool" where
  "ext_ok X \<longleftrightarrow>
     word_codec (le_read_u16 X) (le_write_u16 X) 2 \<and>
     word_codec (le_read_u32 X) (le_write_u32 X) 4 \<and>
     word_codec (le_read_u64 X) (le_write_u64 X) 8"

lemma ext_okD:
  assumes "ext_ok X"
  shows "word_codec (le_read_u16 X) (le_write_u16 X) 2"
    and "word_codec (le_read_u32 X) (le_write_u32 X) 4"
    and "word_codec (le_read_u64 X) (le_write_u64 X) 8"
  using assms by (simp_all add: ext_ok_def)

lemma ext_ok_length [simp]:
  assumes "ext_ok X"
  shows "length (le_write_u16 X a) = 2" "length (le_write_u32 X b) = 4" "length (le_write_u64 X c) = 8"
  by (simp_all add: word_codec.length_wr [OF ext_okD(1) [OF assms]]
      word_codec.length_wr [OF ext_okD(2) [OF assms]] word_codec.length_wr [OF ext_okD(3) [OF assms]])

lemma ext_ok_read [simp]:
  assumes "ext_ok X"
  shows "le_read_u16 X (le_write_u16 X a) = a" "le_read_u32 X (le_write_u32 X b) = b"
    "le_read_u64 X (le_write_u64 X c) = c"
  by (simp_all add: word_codec.rd_wr [OF ext_okD(1) [OF assms]]
      word_codec.rd_wr [OF ext_okD(2) [OF assms]] word_codec.rd_wr [OF ext_okD(3) [OF assms]])

text \<open>A concrete instance: little-endian conversion, and byte sums in place of the
  cyclic redundancy checks.\<close>

definition byte_sum :: "byte list \<Rightarrow> 'w :: len word" where
  "byte_sum bs = foldl (\<lambda>a b. a + ucast b) 0 bs"

definition le_ext :: ext where
  "le_ext = \<lparr> le_read_u16 = le_to_word, le_write_u16 = word_to_le 2,
              le_read_u32 = le_to_word, le_write_u32 = word_to_le 4,
              le_read_u64 = le_to_word, le_write_u64 = word_to_le 8,
              crc16 = byte_sum, crc32 = byte_sum, crc64 = byte_sum,
              global_router = None \<rparr>"

interpretation le16: word_codec "le_read_u16 le_ext" "le_write_u16 le_ext" 2
  by unfold_locales (simp_all add: le_ext_def le_to_word_to_le)

interpretation le32: word_codec "le_read_u32 le_ext" "le_write_u32 le_ext" 4
  by unfold_locales (simp_all add: le_ext_def le_to_word_to_le)

interpretation le64: word_codec "le_read_u64 le_ext" "le_write_u64 le_ext" 8
  by unfold_locales (simp_all add: le_ext_def le_to_word_to_le)

lemma ext_ok_le_ext: "ext_ok le_ext"
  unfolding ext_ok_def
  by (intro conjI le16.word_codec_axioms le32.word_codec_axioms le64.word_codec_axioms)

end
