(* ===== verification/U64_Id.thy ===== *)
theory U64_Id
  imports Mudu_Prelude
begin

text \<open>
  The 64-bit identifier newtypes of \<open>mudu_kernel/src/common/u64_id.rs\<close>, which the
  macro \<open>define_u64_id!\<close> instantiates as \<open>PageId\<close> and \<open>LSN\<close>.  Both are \<open>u64\<close> here;
  the conversions between the newtype and the raw integer are identities.
\<close>

type_synonym PageId = u64
type_synonym LSN = u64

abbreviation (input) U64_MAX :: u64 where "U64_MAX \<equiv> - 1"

definition id_invalid :: u64 where "id_invalid = U64_MAX"

definition id_is_valid :: "u64 \<Rightarrow> bool" where "id_is_valid i \<longleftrightarrow> i \<noteq> U64_MAX"

definition id_set_invalid :: "u64 \<Rightarrow> u64" where "id_set_invalid i = U64_MAX"

definition saturating_add :: "u64 \<Rightarrow> u64 \<Rightarrow> u64" where
  "saturating_add a b = (if unat a + unat b < 2 ^ 64 then a + b else U64_MAX)"

definition saturating_sub :: "u64 \<Rightarrow> u64 \<Rightarrow> u64" where
  "saturating_sub a b = (if b \<le> a then a - b else 0)"

definition checked_add :: "u64 \<Rightarrow> u64 \<Rightarrow> u64 option" where
  "checked_add a b = (if unat a + unat b < 2 ^ 64 then Some (a + b) else None)"

definition checked_sub :: "u64 \<Rightarrow> u64 \<Rightarrow> u64 option" where
  "checked_sub a b = (if b \<le> a then Some (a - b) else None)"

definition checked_mul :: "u64 \<Rightarrow> u64 \<Rightarrow> u64 option" where
  "checked_mul a b = (if unat a * unat b < 2 ^ 64 then Some (a * b) else None)"

text \<open>The operators \<open>+\<close> and \<open>-\<close> of the newtype trap on overflow.\<close>

definition id_add :: "u64 \<Rightarrow> u64 \<Rightarrow> u64 rs" where
  "id_add a b = ok_or (checked_add a b) Panic"

definition id_sub :: "u64 \<Rightarrow> u64 \<Rightarrow> u64 rs" where
  "id_sub a b = ok_or (checked_sub a b) Panic"

section \<open>Arithmetic\<close>

lemma unat_u64_bound [simp]: "unat (a :: u64) < 2 ^ 64"
  using unsigned_less [of a, where ?'a = nat] by simp

lemma unat_U64_MAX: "unat U64_MAX = 2 ^ 64 - 1"
  by (simp add: unsigned_minus_1_eq_mask mask_eq_exp_minus_1)

lemma unat_saturating_add: "unat (saturating_add a b) = min (unat a + unat b) (2 ^ 64 - 1)"
  by (auto simp: saturating_add_def unat_plus_if' unat_U64_MAX)

lemma unat_saturating_sub: "unat (saturating_sub a b) = unat a - unat b"
  by (auto simp: saturating_sub_def word_le_nat_alt unat_sub)

lemma saturating_add_ge: "a \<le> saturating_add a b"
  using unat_u64_bound [of a] by (simp add: word_le_nat_alt unat_saturating_add del: unat_u64_bound)

lemma saturating_add_1_gt: "a \<noteq> U64_MAX \<Longrightarrow> a < saturating_add a 1"
proof -
  assume "a \<noteq> U64_MAX"
  then have "unat a \<noteq> unat U64_MAX" by (simp only: word_unat_eq_iff not_False_eq_True)
  then have "unat a \<noteq> 2 ^ 64 - 1" by (simp add: unat_U64_MAX)
  then show ?thesis using unat_u64_bound [of a]
    by (simp add: word_less_nat_alt unat_saturating_add del: unat_u64_bound)
qed

lemma unat_checked_add: "checked_add a b = Some c \<Longrightarrow> unat c = unat a + unat b"
  by (auto simp: checked_add_def unat_plus_if' split: if_splits)

lemma checked_add_sub: "checked_add a b = Some c \<Longrightarrow> checked_sub c b = Some a"
  by (auto simp: checked_add_def checked_sub_def word_le_nat_alt unat_plus_if' split: if_splits)

lemma unat_checked_mul: "checked_mul a b = Some c \<Longrightarrow> unat c = unat a * unat b"
  by (auto simp: checked_mul_def unat_word_ariths split: if_splits)

end
