(* ===== verification/Page_Format.thy ===== *)
theory Page_Format
  imports Byte_Codec Compat U64_Id
begin

text \<open>
  The fixed-size parts of an on-disk page: the 128-byte header of
  \<open>storage/page/format/latest.rs\<close>, the 12-byte tailer of \<open>storage/page/page_tailer.rs\<close>
  and the 32-byte record slots of \<open>storage/page/record_slot.rs\<close> and
  \<open>storage/page/record_slot_ref.rs\<close>.  Each has its encoder, which updates a buffer in
  place, its decoder, and the lemmas that the decoder inverts the encoder and
  that the encoder touches nothing else.
\<close>

section \<open>Page header\<close>

abbreviation (input) PAGE_HEADER_SIZE :: nat where "PAGE_HEADER_SIZE \<equiv> 128"
abbreviation (input) PAGE_HEADER_FIXED_SIZE :: nat where "PAGE_HEADER_FIXED_SIZE \<equiv> 84"
abbreviation (input) PAGE_HEADER_RESERVED_SIZE :: nat where "PAGE_HEADER_RESERVED_SIZE \<equiv> 44"
abbreviation (input) NONE_PAGE_ID :: PageId where "NONE_PAGE_ID \<equiv> U64_MAX"
abbreviation (input) PAGE_HEADER_MAGIC :: u32 where "PAGE_HEADER_MAGIC \<equiv> 0x50414745"
abbreviation (input) VERSION :: u32 where "VERSION \<equiv> PAGE_CURRENT_VERSION"

abbreviation (input) PAGE_HEADER_OFF_MAGIC :: nat where "PAGE_HEADER_OFF_MAGIC \<equiv> 0"
abbreviation (input) PAGE_HEADER_OFF_VERSION :: nat where "PAGE_HEADER_OFF_VERSION \<equiv> 4"
abbreviation (input) PAGE_HEADER_OFF_PAGE_ID :: nat where "PAGE_HEADER_OFF_PAGE_ID \<equiv> 8"
abbreviation (input) PAGE_HEADER_OFF_PREV_PAGE :: nat where "PAGE_HEADER_OFF_PREV_PAGE \<equiv> 16"
abbreviation (input) PAGE_HEADER_OFF_NEXT_PAGE :: nat where "PAGE_HEADER_OFF_NEXT_PAGE \<equiv> 24"
abbreviation (input) PAGE_HEADER_OFF_LSN :: nat where "PAGE_HEADER_OFF_LSN \<equiv> 32"
abbreviation (input) PAGE_HEADER_OFF_FLAGS :: nat where "PAGE_HEADER_OFF_FLAGS \<equiv> 40"
abbreviation (input) PAGE_HEADER_OFF_TUPLE_FLAGS :: nat where "PAGE_HEADER_OFF_TUPLE_FLAGS \<equiv> 48"
abbreviation (input) PAGE_HEADER_OFF_RECORD_COUNT :: nat where "PAGE_HEADER_OFF_RECORD_COUNT \<equiv> 56"
abbreviation (input) PAGE_HEADER_OFF_FIRST_FREE_OFFSET :: nat where
  "PAGE_HEADER_OFF_FIRST_FREE_OFFSET \<equiv> 60"
abbreviation (input) PAGE_HEADER_OFF_FREE_BYTES :: nat where "PAGE_HEADER_OFF_FREE_BYTES \<equiv> 64"
abbreviation (input) PAGE_HEADER_OFF_LAST_RECORD_OFFSET :: nat where
  "PAGE_HEADER_OFF_LAST_RECORD_OFFSET \<equiv> 68"
abbreviation (input) PAGE_HEADER_OFF_TUPLE_FORMAT_VERSION :: nat where
  "PAGE_HEADER_OFF_TUPLE_FORMAT_VERSION \<equiv> 72"
abbreviation (input) PAGE_HEADER_OFF_TUPLE_SCHEMA_HASH :: nat where
  "PAGE_HEADER_OFF_TUPLE_SCHEMA_HASH \<equiv> 76"
abbreviation (input) PAGE_HEADER_OFF_RESERVED :: nat where "PAGE_HEADER_OFF_RESERVED \<equiv> 84"

record PageHeader =
  ph_magic :: u32
  ph_version :: u32
  ph_page_id :: PageId
  ph_prev_page :: PageId
  ph_next_page :: PageId
  ph_lsn :: LSN
  ph_flags :: u64
  ph_record_count :: u32
  ph_first_free_offset :: u32
  ph_free_bytes :: u32
  ph_last_record_offset :: u32
  ph_tuple_format_version :: u32
  ph_tuple_schema_hash :: u64
  ph_tuple_flags :: u64
  ph_reserved :: "byte list"

definition PageHeader_new :: "PageId \<Rightarrow> PageHeader" where
  "PageHeader_new page_id = \<lparr>
     ph_magic = PAGE_HEADER_MAGIC,
     ph_version = VERSION,
     ph_page_id = page_id,
     ph_prev_page = NONE_PAGE_ID,
     ph_next_page = NONE_PAGE_ID,
     ph_lsn = 0,
     ph_flags = 0,
     ph_record_count = 0,
     ph_first_free_offset = of_nat PAGE_HEADER_SIZE,
     ph_free_bytes = 0,
     ph_last_record_offset = 0,
     ph_tuple_format_version = 0,
     ph_tuple_schema_hash = 0,
     ph_tuple_flags = 0,
     ph_reserved = replicate PAGE_HEADER_RESERVED_SIZE 0 \<rparr>"

definition PageHeader_default :: PageHeader where
  "PageHeader_default = PageHeader_new 0"

abbreviation (input) rd_u32_at :: "ext \<Rightarrow> byte list \<Rightarrow> nat \<Rightarrow> u32" where
  "rd_u32_at X buf off \<equiv> le_read_u32 X (sub_slice off (off + 4) buf)"

abbreviation (input) rd_u64_at :: "ext \<Rightarrow> byte list \<Rightarrow> nat \<Rightarrow> u64" where
  "rd_u64_at X buf off \<equiv> le_read_u64 X (sub_slice off (off + 8) buf)"

text \<open>The field reads of the private function \<open>decode\<close>.\<close>

definition PageHeader_decode_v1 :: "ext \<Rightarrow> byte list \<Rightarrow> u32 \<Rightarrow> u32 \<Rightarrow> PageHeader" where
  "PageHeader_decode_v1 X input magic version = \<lparr>
     ph_magic = magic,
     ph_version = version,
     ph_page_id = rd_u64_at X input PAGE_HEADER_OFF_PAGE_ID,
     ph_prev_page = rd_u64_at X input PAGE_HEADER_OFF_PREV_PAGE,
     ph_next_page = rd_u64_at X input PAGE_HEADER_OFF_NEXT_PAGE,
     ph_lsn = rd_u64_at X input PAGE_HEADER_OFF_LSN,
     ph_flags = rd_u64_at X input PAGE_HEADER_OFF_FLAGS,
     ph_record_count = rd_u32_at X input PAGE_HEADER_OFF_RECORD_COUNT,
     ph_first_free_offset = rd_u32_at X input PAGE_HEADER_OFF_FIRST_FREE_OFFSET,
     ph_free_bytes = rd_u32_at X input PAGE_HEADER_OFF_FREE_BYTES,
     ph_last_record_offset = rd_u32_at X input PAGE_HEADER_OFF_LAST_RECORD_OFFSET,
     ph_tuple_format_version = rd_u32_at X input PAGE_HEADER_OFF_TUPLE_FORMAT_VERSION,
     ph_tuple_schema_hash = rd_u64_at X input PAGE_HEADER_OFF_TUPLE_SCHEMA_HASH,
     ph_tuple_flags = rd_u64_at X input PAGE_HEADER_OFF_TUPLE_FLAGS,
     ph_reserved = sub_slice PAGE_HEADER_OFF_RESERVED
       (PAGE_HEADER_OFF_RESERVED + PAGE_HEADER_RESERVED_SIZE) input \<rparr>"

definition PageHeader_decode :: "ext \<Rightarrow> byte list \<Rightarrow> PageHeader rs" where
  "PageHeader_decode X input =
     bind_rs (ensure (\<not> length input < PAGE_HEADER_SIZE) (EC Decode)) (\<lambda>_.
     let magic = rd_u32_at X input PAGE_HEADER_OFF_MAGIC in
     bind_rs (compat_rs (check_magic Page magic)) (\<lambda>_.
     let version = rd_u32_at X input PAGE_HEADER_OFF_VERSION in
     bind_rs (compat_rs (check_version Page version)) (\<lambda>_.
     Inr (PageHeader_decode_v1 X input magic version))))"

definition PageHeader_write :: "ext \<Rightarrow> PageHeader \<Rightarrow> byte list \<Rightarrow> byte list" where
  "PageHeader_write X h out0 =
     (let out1 = patch PAGE_HEADER_OFF_MAGIC (le_write_u32 X (ph_magic h)) out0;
          out2 = patch PAGE_HEADER_OFF_VERSION (le_write_u32 X (ph_version h)) out1;
          out3 = patch PAGE_HEADER_OFF_PAGE_ID (le_write_u64 X (ph_page_id h)) out2;
          out4 = patch PAGE_HEADER_OFF_PREV_PAGE (le_write_u64 X (ph_prev_page h)) out3;
          out5 = patch PAGE_HEADER_OFF_NEXT_PAGE (le_write_u64 X (ph_next_page h)) out4;
          out6 = patch PAGE_HEADER_OFF_LSN (le_write_u64 X (ph_lsn h)) out5;
          out7 = patch PAGE_HEADER_OFF_FLAGS (le_write_u64 X (ph_flags h)) out6;
          out8 = patch PAGE_HEADER_OFF_TUPLE_FLAGS (le_write_u64 X (ph_tuple_flags h)) out7;
          out9 = patch PAGE_HEADER_OFF_RECORD_COUNT (le_write_u32 X (ph_record_count h)) out8;
          out10 = patch PAGE_HEADER_OFF_FIRST_FREE_OFFSET
            (le_write_u32 X (ph_first_free_offset h)) out9;
          out11 = patch PAGE_HEADER_OFF_FREE_BYTES (le_write_u32 X (ph_free_bytes h)) out10;
          out12 = patch PAGE_HEADER_OFF_LAST_RECORD_OFFSET
            (le_write_u32 X (ph_last_record_offset h)) out11;
          out13 = patch PAGE_HEADER_OFF_TUPLE_FORMAT_VERSION
            (le_write_u32 X (ph_tuple_format_version h)) out12;
          out14 = patch PAGE_HEADER_OFF_TUPLE_SCHEMA_HASH
            (le_write_u64 X (ph_tuple_schema_hash h)) out13
      in patch PAGE_HEADER_OFF_RESERVED (ph_reserved h) out14)"

definition PageHeader_encode :: "ext \<Rightarrow> PageHeader \<Rightarrow> byte list \<Rightarrow> byte list rs" where
  "PageHeader_encode X h out =
     bind_rs (ensure (\<not> length out < PAGE_HEADER_SIZE) (EC Encode)) (\<lambda>_.
     Inr (PageHeader_write X h out))"

text \<open>The type invariant of \<open>reserved: [u8; 44]\<close>.\<close>

definition header_wf :: "PageHeader \<Rightarrow> bool" where
  "header_wf h \<longleftrightarrow> length (ph_reserved h) = PAGE_HEADER_RESERVED_SIZE"

section \<open>Page tailer\<close>

abbreviation (input) PAGE_TAILER_SIZE :: nat where "PAGE_TAILER_SIZE \<equiv> 12"

record PageTailer =
  pt_lsn :: LSN
  pt_checksum :: u32

definition PageTailer_new :: "LSN \<Rightarrow> u32 \<Rightarrow> PageTailer" where
  "PageTailer_new lsn checksum = \<lparr>pt_lsn = lsn, pt_checksum = checksum\<rparr>"

definition PageTailer_decode :: "ext \<Rightarrow> byte list \<Rightarrow> PageTailer rs" where
  "PageTailer_decode X input =
     bind_rs (ensure (\<not> length input < PAGE_TAILER_SIZE) (EC Decode)) (\<lambda>_.
     Inr \<lparr>pt_lsn = le_read_u64 X (sub_slice 0 8 input),
          pt_checksum = le_read_u32 X (sub_slice 8 12 input)\<rparr>)"

definition PageTailer_encode :: "ext \<Rightarrow> PageTailer \<Rightarrow> byte list \<Rightarrow> byte list rs" where
  "PageTailer_encode X t out =
     bind_rs (ensure (\<not> length out < PAGE_TAILER_SIZE) (EC Encode)) (\<lambda>_.
     Inr (patch 8 (le_write_u32 X (pt_checksum t)) (patch 0 (le_write_u64 X (pt_lsn t)) out)))"

definition checksum_for_page :: "ext \<Rightarrow> byte list \<Rightarrow> u32 rs" where
  "checksum_for_page X page =
     bind_rs (ensure (\<not> length page < PAGE_TAILER_SIZE) (EC Encode)) (\<lambda>_.
     Inr (crc32 X (sub_slice 0 (length page - PAGE_TAILER_SIZE) page)))"

definition refresh_checksum :: "ext \<Rightarrow> PageTailer \<Rightarrow> byte list \<Rightarrow> PageTailer rs" where
  "refresh_checksum X t page =
     bind_rs (checksum_for_page X page) (\<lambda>c. Inr (t\<lparr>pt_checksum := c\<rparr>))"

definition validate_checksum :: "ext \<Rightarrow> PageTailer \<Rightarrow> byte list \<Rightarrow> unit rs" where
  "validate_checksum X t page =
     bind_rs (checksum_for_page X page) (\<lambda>actual.
     ensure (\<not> pt_checksum t \<noteq> actual) (EC Decode))"

section \<open>Record slots\<close>

abbreviation (input) RECORD_SLOT_SIZE :: nat where "RECORD_SLOT_SIZE \<equiv> 32"
abbreviation (input) RECORD_SLOT_FLAG_FRAGMENT_MASK :: u16 where "RECORD_SLOT_FLAG_FRAGMENT_MASK \<equiv> 3"
abbreviation (input) RECORD_SLOT_FLAG_COMPLETE :: u16 where "RECORD_SLOT_FLAG_COMPLETE \<equiv> 0"
abbreviation (input) RECORD_SLOT_FLAG_PARTIAL_CONTINUED :: u16 where
  "RECORD_SLOT_FLAG_PARTIAL_CONTINUED \<equiv> 1"
abbreviation (input) RECORD_SLOT_FLAG_PARTIAL_LAST :: u16 where "RECORD_SLOT_FLAG_PARTIAL_LAST \<equiv> 2"

record RecordSlot =
  rs_offset :: u32
  rs_size :: u32
  rs_timestamp :: u64
  rs_tuple_id :: u64
  rs_checksum :: u16
  rs_flag :: u16
  rs_reserved :: u32

definition RecordSlot_new :: "u32 \<Rightarrow> u32 \<Rightarrow> u64 \<Rightarrow> u64 \<Rightarrow> RecordSlot" where
  "RecordSlot_new offset sz timestamp tuple_id = \<lparr>
     rs_offset = offset, rs_size = sz, rs_timestamp = timestamp, rs_tuple_id = tuple_id,
     rs_checksum = 0, rs_flag = RECORD_SLOT_FLAG_COMPLETE, rs_reserved = 0 \<rparr>"

definition RecordSlot_from_raw ::
    "u32 \<Rightarrow> u32 \<Rightarrow> u64 \<Rightarrow> u64 \<Rightarrow> u16 \<Rightarrow> u16 \<Rightarrow> u32 \<Rightarrow> RecordSlot" where
  "RecordSlot_from_raw offset sz timestamp tuple_id check_sum flag reserved = \<lparr>
     rs_offset = offset, rs_size = sz, rs_timestamp = timestamp, rs_tuple_id = tuple_id,
     rs_checksum = check_sum, rs_flag = flag, rs_reserved = reserved \<rparr>"

definition RecordSlot_decode :: "ext \<Rightarrow> byte list \<Rightarrow> RecordSlot rs" where
  "RecordSlot_decode X input =
     bind_rs (ensure (\<not> length input < RECORD_SLOT_SIZE) (EC Decode)) (\<lambda>_.
     Inr \<lparr> rs_offset = le_read_u32 X (sub_slice 0 4 input),
           rs_size = le_read_u32 X (sub_slice 4 8 input),
           rs_timestamp = le_read_u64 X (sub_slice 8 16 input),
           rs_tuple_id = le_read_u64 X (sub_slice 16 24 input),
           rs_checksum = le_read_u16 X (sub_slice 24 26 input),
           rs_flag = le_read_u16 X (sub_slice 26 28 input),
           rs_reserved = le_read_u32 X (sub_slice 28 32 input) \<rparr>)"

definition RecordSlot_encode :: "ext \<Rightarrow> RecordSlot \<Rightarrow> byte list \<Rightarrow> byte list rs" where
  "RecordSlot_encode X s out0 =
     bind_rs (ensure (\<not> length out0 < RECORD_SLOT_SIZE) (EC Encode)) (\<lambda>_.
     let out1 = patch 0 (le_write_u32 X (rs_offset s)) out0;
         out2 = patch 4 (le_write_u32 X (rs_size s)) out1;
         out3 = patch 8 (le_write_u64 X (rs_timestamp s)) out2;
         out4 = patch 16 (le_write_u64 X (rs_tuple_id s)) out3;
         out5 = patch 24 (le_write_u16 X (rs_checksum s)) out4;
         out6 = patch 26 (le_write_u16 X (rs_flag s)) out5
     in Inr (patch 28 (le_write_u32 X (rs_reserved s)) out6))"

text \<open>\<open>Ordering\<close> results are represented by the strict order they decide.\<close>

definition cmp_key_less :: "RecordSlot \<Rightarrow> RecordSlot \<Rightarrow> bool" where
  "cmp_key_less a b \<longleftrightarrow>
     rs_timestamp a < rs_timestamp b \<or>
     rs_timestamp a = rs_timestamp b \<and>
       (rs_tuple_id a < rs_tuple_id b \<or>
        rs_tuple_id a = rs_tuple_id b \<and> rs_offset a < rs_offset b)"

definition fragment_kind :: "RecordSlot \<Rightarrow> u16" where
  "fragment_kind s = rs_flag s AND RECORD_SLOT_FLAG_FRAGMENT_MASK"

definition is_complete :: "RecordSlot \<Rightarrow> bool" where
  "is_complete s \<longleftrightarrow> fragment_kind s = RECORD_SLOT_FLAG_COMPLETE"

definition is_partial_continued :: "RecordSlot \<Rightarrow> bool" where
  "is_partial_continued s \<longleftrightarrow> fragment_kind s = RECORD_SLOT_FLAG_PARTIAL_CONTINUED"

definition is_partial_last :: "RecordSlot \<Rightarrow> bool" where
  "is_partial_last s \<longleftrightarrow> fragment_kind s = RECORD_SLOT_FLAG_PARTIAL_LAST"

definition set_fragment_kind :: "u16 \<Rightarrow> RecordSlot \<Rightarrow> RecordSlot" where
  "set_fragment_kind kind s = s\<lparr>rs_flag :=
     (rs_flag s AND NOT RECORD_SLOT_FLAG_FRAGMENT_MASK) OR
     (kind AND RECORD_SLOT_FLAG_FRAGMENT_MASK)\<rparr>"

text \<open>\<open>RecordSlotRef\<close> keeps the 32 slot bytes and reads fields on demand.\<close>

type_synonym RecordSlotRef = "byte list"

definition RecordSlotRef_new :: "byte list \<Rightarrow> RecordSlotRef rs" where
  "RecordSlotRef_new slot = bind_rs (ensure (\<not> length slot < RECORD_SLOT_SIZE) (EC Decode)) (\<lambda>_. Inr slot)"

definition ref_offset :: "ext \<Rightarrow> RecordSlotRef \<Rightarrow> u32" where
  "ref_offset X slot = le_read_u32 X (sub_slice 0 4 slot)"
definition ref_size :: "ext \<Rightarrow> RecordSlotRef \<Rightarrow> u32" where
  "ref_size X slot = le_read_u32 X (sub_slice 4 8 slot)"
definition ref_timestamp :: "ext \<Rightarrow> RecordSlotRef \<Rightarrow> u64" where
  "ref_timestamp X slot = le_read_u64 X (sub_slice 8 16 slot)"
definition ref_tuple_id :: "ext \<Rightarrow> RecordSlotRef \<Rightarrow> u64" where
  "ref_tuple_id X slot = le_read_u64 X (sub_slice 16 24 slot)"
definition ref_checksum :: "ext \<Rightarrow> RecordSlotRef \<Rightarrow> u16" where
  "ref_checksum X slot = le_read_u16 X (sub_slice 24 26 slot)"
definition ref_flag :: "ext \<Rightarrow> RecordSlotRef \<Rightarrow> u16" where
  "ref_flag X slot = le_read_u16 X (sub_slice 26 28 slot)"
definition ref_reserved :: "ext \<Rightarrow> RecordSlotRef \<Rightarrow> u32" where
  "ref_reserved X slot = le_read_u32 X (sub_slice 28 32 slot)"

definition ref_cmp_key_less :: "ext \<Rightarrow> RecordSlotRef \<Rightarrow> RecordSlot \<Rightarrow> bool" where
  "ref_cmp_key_less X slot b \<longleftrightarrow>
     ref_timestamp X slot < rs_timestamp b \<or>
     ref_timestamp X slot = rs_timestamp b \<and>
       (ref_tuple_id X slot < rs_tuple_id b \<or>
        ref_tuple_id X slot = rs_tuple_id b \<and> ref_offset X slot < rs_offset b)"

definition ref_to_owned :: "ext \<Rightarrow> RecordSlotRef \<Rightarrow> RecordSlot" where
  "ref_to_owned X slot =
     RecordSlot_from_raw (ref_offset X slot) (ref_size X slot) (ref_timestamp X slot)
       (ref_tuple_id X slot) (ref_checksum X slot) (ref_flag X slot) (ref_reserved X slot)"

lemmas ref_field_defs =
  ref_offset_def ref_size_def ref_timestamp_def ref_tuple_id_def ref_checksum_def ref_flag_def
  ref_reserved_def

section \<open>Headers: encoding, decoding, framing\<close>

lemma PageHeader_new_wf [simp]: "header_wf (PageHeader_new i)"
  by (simp add: header_wf_def PageHeader_new_def)

lemma patch_adjacent:
  assumes "o2 = o1 + length as" and "o1 + length as \<le> length xs"
  shows "patch o2 bs (patch o1 as xs) = patch o1 (as @ bs) xs"
  using assms by (simp add: patch_def ac_simps)

definition header_bytes :: "ext \<Rightarrow> PageHeader \<Rightarrow> byte list" where
  "header_bytes X h =
     le_write_u32 X (ph_magic h) @ le_write_u32 X (ph_version h) @
     le_write_u64 X (ph_page_id h) @ le_write_u64 X (ph_prev_page h) @
     le_write_u64 X (ph_next_page h) @ le_write_u64 X (ph_lsn h) @
     le_write_u64 X (ph_flags h) @ le_write_u64 X (ph_tuple_flags h) @
     le_write_u32 X (ph_record_count h) @ le_write_u32 X (ph_first_free_offset h) @
     le_write_u32 X (ph_free_bytes h) @ le_write_u32 X (ph_last_record_offset h) @
     le_write_u32 X (ph_tuple_format_version h) @ le_write_u64 X (ph_tuple_schema_hash h) @
     ph_reserved h"

lemma length_header_bytes [simp]:
  "ext_ok X \<Longrightarrow> header_wf h \<Longrightarrow> length (header_bytes X h) = PAGE_HEADER_SIZE"
  by (simp add: header_bytes_def header_wf_def)

lemma PageHeader_write_eq:
  assumes "ext_ok X" and "PAGE_HEADER_SIZE \<le> length out"
  shows "PageHeader_write X h out = patch 0 (header_bytes X h) out"
  using assms by (simp add: PageHeader_write_def header_bytes_def patch_adjacent)

lemma sub_slice_append1: "b \<le> length xs \<Longrightarrow> sub_slice a b (xs @ ys) = sub_slice a b xs"
  by (cases "a \<le> b") (simp_all add: sub_slice_def)

lemma sub_slice_append2:
  "length xs \<le> a \<Longrightarrow> sub_slice a b (xs @ ys) = sub_slice (a - length xs) (b - length xs) ys"
  by (simp add: sub_slice_def)

lemma sub_slice_0_all: "b = length xs \<Longrightarrow> sub_slice 0 b xs = xs"
  by simp

lemmas sub_slice_fields = sub_slice_append1 sub_slice_append2 sub_slice_0_all

lemma sub_slice_patch_inside:
  "off \<le> a \<Longrightarrow> b \<le> off + length bs \<Longrightarrow> off + length bs \<le> length xs \<Longrightarrow>
   sub_slice a b (patch off bs xs) = sub_slice (a - off) (b - off) bs"
  by (cases "a \<le> b") (simp_all add: sub_slice_def patch_def)

lemma PageHeader_decode_cong:
  assumes "sub_slice 0 PAGE_HEADER_SIZE xs = sub_slice 0 PAGE_HEADER_SIZE ys"
    and "PAGE_HEADER_SIZE \<le> length xs" and "PAGE_HEADER_SIZE \<le> length ys"
  shows "PageHeader_decode X xs = PageHeader_decode X ys"
proof -
  have same: "sub_slice a b xs = sub_slice a b ys" if "b \<le> 128" for a b
    using that arg_cong [OF assms(1), of "sub_slice a b"] by (simp add: sub_slice_sub_slice)
  show ?thesis using assms(2,3)
    by (simp add: PageHeader_decode_def PageHeader_decode_v1_def same)
qed

lemma PageHeader_decode_bytes:
  assumes "ext_ok X" and "header_wf h"
  shows "PageHeader_decode X (header_bytes X h @ rest) =
    bind_rs (ensure (ph_magic h = PAGE_HEADER_MAGIC) (EC CorruptedData)) (\<lambda>_.
    bind_rs (ensure (ph_version h = VERSION) (EC UnsupportedFormatVersion)) (\<lambda>_. Inr h))"
proof -
  have len: "length (header_bytes X h @ rest) = 128 + length rest" using assms by simp
  have fields: "PageHeader_decode_v1 X (header_bytes X h @ rest) (ph_magic h) (ph_version h) = h"
    using assms by (simp add: PageHeader_decode_v1_def header_bytes_def header_wf_def sub_slice_fields)
  have "rd_u32_at X (header_bytes X h @ rest) 0 = ph_magic h"
    and "rd_u32_at X (header_bytes X h @ rest) 4 = ph_version h"
    using assms by (simp_all add: header_bytes_def sub_slice_fields)
  then show ?thesis
    unfolding PageHeader_decode_def len
    by (simp add: fields compat_rs_check_magic compat_rs_check_version)
qed

lemma PageHeader_decode_wf: "PageHeader_decode X buf = Inr h \<Longrightarrow> header_wf h"
  by (auto simp: PageHeader_decode_def PageHeader_decode_v1_def header_wf_def Let_def rs_simps
      length_sub_slice)

lemma PageHeader_decode_magic:
  "PageHeader_decode X buf = Inr h \<Longrightarrow> ph_magic h = PAGE_HEADER_MAGIC \<and> ph_version h = VERSION"
  by (auto simp: PageHeader_decode_def PageHeader_decode_v1_def Let_def rs_simps
      compat_rs_check_magic compat_rs_check_version)

lemma PageHeader_decode_write:
  assumes "ext_ok X" and "header_wf h" and "PAGE_HEADER_SIZE \<le> length out"
    and "ph_magic h = PAGE_HEADER_MAGIC" and "ph_version h = VERSION"
  shows "PageHeader_decode X (PageHeader_write X h out) = Inr h"
  using assms PageHeader_decode_bytes [of X h "drop 128 out"]
  by (simp add: PageHeader_write_eq patch_def)

lemma PageHeader_write_frame:
  assumes "ext_ok X" and "header_wf h" and "PAGE_HEADER_SIZE \<le> length out"
  shows "length (PageHeader_write X h out) = length out"
    and "PAGE_HEADER_SIZE \<le> a \<Longrightarrow> sub_slice a b (PageHeader_write X h out) = sub_slice a b out"
  using assms by (simp_all add: PageHeader_write_eq buf_simps)

section \<open>Tailers\<close>

definition tailer_bytes :: "ext \<Rightarrow> PageTailer \<Rightarrow> byte list" where
  "tailer_bytes X t = le_write_u64 X (pt_lsn t) @ le_write_u32 X (pt_checksum t)"

lemma length_tailer_bytes [simp]: "ext_ok X \<Longrightarrow> length (tailer_bytes X t) = PAGE_TAILER_SIZE"
  by (simp add: tailer_bytes_def)

lemma PageTailer_encode_eq:
  assumes "ext_ok X" and "PAGE_TAILER_SIZE \<le> length out"
  shows "PageTailer_encode X t out = Inr (patch 0 (tailer_bytes X t) out)"
  using assms by (simp add: PageTailer_encode_def tailer_bytes_def patch_adjacent)

lemma PageTailer_decode_bytes:
  "ext_ok X \<Longrightarrow> PageTailer_decode X (tailer_bytes X t @ rest) = Inr t"
  by (simp add: PageTailer_decode_def tailer_bytes_def sub_slice_fields)

section \<open>Record slots\<close>

definition slot_bytes :: "ext \<Rightarrow> RecordSlot \<Rightarrow> byte list" where
  "slot_bytes X s =
     le_write_u32 X (rs_offset s) @ le_write_u32 X (rs_size s) @
     le_write_u64 X (rs_timestamp s) @ le_write_u64 X (rs_tuple_id s) @
     le_write_u16 X (rs_checksum s) @ le_write_u16 X (rs_flag s) @ le_write_u32 X (rs_reserved s)"

lemma length_slot_bytes [simp]: "ext_ok X \<Longrightarrow> length (slot_bytes X s) = RECORD_SLOT_SIZE"
  by (simp add: slot_bytes_def)

lemma RecordSlot_encode_eq:
  assumes "ext_ok X" and "RECORD_SLOT_SIZE \<le> length out"
  shows "RecordSlot_encode X s out = Inr (patch 0 (slot_bytes X s) out)"
  using assms by (simp add: RecordSlot_encode_def slot_bytes_def patch_adjacent)

lemma ref_to_owned_bytes: "ext_ok X \<Longrightarrow> ref_to_owned X (slot_bytes X s) = s"
  by (simp add: ref_to_owned_def RecordSlot_from_raw_def ref_field_defs slot_bytes_def
      sub_slice_fields)

text \<open>The zero-copy reader and the eager decoder agree.\<close>

lemma RecordSlot_decode_ref:
  "RecordSlot_decode X slot = bind_rs (RecordSlotRef_new slot) (\<lambda>r. Inr (ref_to_owned X r))"
  by (simp add: RecordSlot_decode_def RecordSlotRef_new_def ref_to_owned_def RecordSlot_from_raw_def
      ref_field_defs bind_rs_assoc)

lemma ref_to_owned_fields [simp]:
  "rs_offset (ref_to_owned X r) = ref_offset X r" "rs_size (ref_to_owned X r) = ref_size X r"
  "rs_timestamp (ref_to_owned X r) = ref_timestamp X r"
  "rs_tuple_id (ref_to_owned X r) = ref_tuple_id X r"
  "rs_checksum (ref_to_owned X r) = ref_checksum X r" "rs_flag (ref_to_owned X r) = ref_flag X r"
  "rs_reserved (ref_to_owned X r) = ref_reserved X r"
  by (simp_all add: ref_to_owned_def RecordSlot_from_raw_def)

lemma ref_cmp_key_owned: "ref_cmp_key_less X r b \<longleftrightarrow> cmp_key_less (ref_to_owned X r) b"
  by (simp add: ref_cmp_key_less_def cmp_key_less_def)

lemma cmp_key_less_trans: "cmp_key_less a b \<Longrightarrow> cmp_key_less b c \<Longrightarrow> cmp_key_less a c"
  by (auto simp: cmp_key_less_def)

lemma cmp_key_less_irrefl [simp]: "\<not> cmp_key_less a a"
  by (simp add: cmp_key_less_def)

lemma masked_update:
  fixes f k m :: "'w :: len word"
  shows "((f AND NOT m) OR (k AND m)) AND m = k AND m"
    and "((f AND NOT m) OR (k AND m)) AND NOT m = f AND NOT m"
  by (rule bit_word_eqI, auto simp: bit_and_iff bit_or_iff bit_not_iff)+

lemma fragment_kind_set:
  "fragment_kind (set_fragment_kind k s) = k AND RECORD_SLOT_FLAG_FRAGMENT_MASK"
  using masked_update(1) [of "rs_flag s" 3 k] by (simp add: fragment_kind_def set_fragment_kind_def)

lemma set_fragment_kind_upper:
  "rs_flag (set_fragment_kind k s) AND NOT RECORD_SLOT_FLAG_FRAGMENT_MASK =
   rs_flag s AND NOT RECORD_SLOT_FLAG_FRAGMENT_MASK"
  using masked_update(2) [of "rs_flag s" 3 k] by (simp add: set_fragment_kind_def)

end
