(* ===== verification/Page_Block.thy ===== *)
theory Page_Block
  imports Page_Format "HOL-Library.Product_Lexorder"
begin

text \<open>
  The read side of the slotted page, \<open>storage/page/page_block_ref.rs\<close>.  A page is its
  4096 bytes: header, data area growing upwards, slot array growing downwards
  from the tailer, tailer.  Slot \<open>i\<close> in key order lies at
  \<open>[4084 - 32 * (i + 1), 4084 - 32 * i)\<close>.
\<close>

abbreviation (input) PAGE_SIZE :: nat where "PAGE_SIZE \<equiv> 4096"
abbreviation (input) RECORD_ALIGN :: nat where "RECORD_ALIGN \<equiv> 8"
abbreviation (input) TAILER_OFFSET :: nat where "TAILER_OFFSET \<equiv> 4084"

text \<open>\<open>(value + (align - 1)) & !(align - 1)\<close> on 64-bit \<open>usize\<close>.  The sum does not overflow on
  page offsets.\<close>

definition align_up :: "nat \<Rightarrow> nat \<Rightarrow> nat" where
  "align_up v a = unat ((of_nat (v + (a - 1)) :: u64) AND NOT (of_nat (a - 1)))"

definition ensure_latest_page :: "ext \<Rightarrow> byte list \<Rightarrow> byte list rs" where
  "ensure_latest_page X page =
     bind_rs (ensure (\<not> length page < PAGE_HEADER_SIZE) (EC Decode)) (\<lambda>_.
     let version = rd_u32_at X page PAGE_HEADER_OFF_VERSION in
     bind_rs (compat_rs (check_version Page version)) (\<lambda>_.
     if version = PAGE_CURRENT_VERSION then Inr page
     else env_upgrade X Page version page))"

definition pb_try_new :: "ext \<Rightarrow> byte list \<Rightarrow> byte list rs" where
  "pb_try_new X page = ensure_latest_page X page"

definition pb_check_page_len :: "byte list \<Rightarrow> unit rs" where
  "pb_check_page_len page = ensure (\<not> length page < PAGE_SIZE) (EC Decode)"

definition pb_header :: "ext \<Rightarrow> byte list \<Rightarrow> PageHeader rs" where
  "pb_header X page =
     bind_rs (pb_check_page_len page) (\<lambda>_. PageHeader_decode X (sub_slice 0 PAGE_HEADER_SIZE page))"

definition header_magic :: "ext \<Rightarrow> byte list \<Rightarrow> u32 rs" where
  "header_magic X page =
     bind_rs (pb_check_page_len page) (\<lambda>_. Inr (rd_u32_at X page PAGE_HEADER_OFF_MAGIC))"

definition header_version :: "ext \<Rightarrow> byte list \<Rightarrow> u32 rs" where
  "header_version X page =
     bind_rs (pb_check_page_len page) (\<lambda>_. Inr (rd_u32_at X page PAGE_HEADER_OFF_VERSION))"

definition ensure_header_layout :: "ext \<Rightarrow> byte list \<Rightarrow> unit rs" where
  "ensure_header_layout X page =
     bind_rs (pb_check_page_len page) (\<lambda>_.
     bind_rs (header_magic X page) (\<lambda>magic.
     bind_rs (ensure (\<not> magic \<noteq> PAGE_HEADER_MAGIC) (EC Decode)) (\<lambda>_.
     bind_rs (header_version X page) (\<lambda>version.
     ensure (\<not> version \<noteq> VERSION) (EC Decode)))))"

definition header_page_id :: "ext \<Rightarrow> byte list \<Rightarrow> PageId rs" where
  "header_page_id X page =
     bind_rs (ensure_header_layout X page) (\<lambda>_. Inr (rd_u64_at X page PAGE_HEADER_OFF_PAGE_ID))"

definition header_prev_page :: "ext \<Rightarrow> byte list \<Rightarrow> PageId rs" where
  "header_prev_page X page =
     bind_rs (ensure_header_layout X page) (\<lambda>_. Inr (rd_u64_at X page PAGE_HEADER_OFF_PREV_PAGE))"

definition header_next_page :: "ext \<Rightarrow> byte list \<Rightarrow> PageId rs" where
  "header_next_page X page =
     bind_rs (ensure_header_layout X page) (\<lambda>_. Inr (rd_u64_at X page PAGE_HEADER_OFF_NEXT_PAGE))"

definition header_lsn :: "ext \<Rightarrow> byte list \<Rightarrow> LSN rs" where
  "header_lsn X page =
     bind_rs (ensure_header_layout X page) (\<lambda>_. Inr (rd_u64_at X page PAGE_HEADER_OFF_LSN))"

definition header_record_count :: "ext \<Rightarrow> byte list \<Rightarrow> u32 rs" where
  "header_record_count X page =
     bind_rs (ensure_header_layout X page) (\<lambda>_. Inr (rd_u32_at X page PAGE_HEADER_OFF_RECORD_COUNT))"

definition header_first_free_offset :: "ext \<Rightarrow> byte list \<Rightarrow> u32 rs" where
  "header_first_free_offset X page =
     bind_rs (ensure_header_layout X page) (\<lambda>_.
     Inr (rd_u32_at X page PAGE_HEADER_OFF_FIRST_FREE_OFFSET))"

definition header_free_bytes :: "ext \<Rightarrow> byte list \<Rightarrow> u32 rs" where
  "header_free_bytes X page =
     bind_rs (ensure_header_layout X page) (\<lambda>_. Inr (rd_u32_at X page PAGE_HEADER_OFF_FREE_BYTES))"

definition header_tuple_format_version :: "ext \<Rightarrow> byte list \<Rightarrow> u32 rs" where
  "header_tuple_format_version X page =
     bind_rs (ensure_header_layout X page) (\<lambda>_.
     Inr (rd_u32_at X page PAGE_HEADER_OFF_TUPLE_FORMAT_VERSION))"

definition header_tuple_flags :: "ext \<Rightarrow> byte list \<Rightarrow> u64 rs" where
  "header_tuple_flags X page =
     bind_rs (ensure_header_layout X page) (\<lambda>_. Inr (rd_u64_at X page PAGE_HEADER_OFF_TUPLE_FLAGS))"

definition header_tuple_schema_hash :: "ext \<Rightarrow> byte list \<Rightarrow> u64 rs" where
  "header_tuple_schema_hash X page =
     bind_rs (ensure_header_layout X page) (\<lambda>_.
     Inr (rd_u64_at X page PAGE_HEADER_OFF_TUPLE_SCHEMA_HASH))"

definition pb_tailer :: "ext \<Rightarrow> byte list \<Rightarrow> PageTailer rs" where
  "pb_tailer X page =
     bind_rs (pb_check_page_len page) (\<lambda>_.
     PageTailer_decode X (sub_slice TAILER_OFFSET (TAILER_OFFSET + PAGE_TAILER_SIZE) page))"

definition slot_region_start_for_count :: "nat \<Rightarrow> nat rs" where
  "slot_region_start_for_count count = sub_usize TAILER_OFFSET (count * RECORD_SLOT_SIZE)"

definition slot_count :: "ext \<Rightarrow> byte list \<Rightarrow> nat rs" where
  "slot_count X page = bind_rs (header_record_count X page) (\<lambda>c. Inr (unat c))"

definition slot_array_low_bound :: "ext \<Rightarrow> byte list \<Rightarrow> nat rs" where
  "slot_array_low_bound X page = bind_rs (slot_count X page) slot_region_start_for_count"

definition slot_offset :: "ext \<Rightarrow> byte list \<Rightarrow> nat \<Rightarrow> nat rs" where
  "slot_offset X page sorted_index =
     bind_rs (slot_count X page) (\<lambda>count.
     bind_rs (ensure (\<not> sorted_index \<ge> count) (EC Decode)) (\<lambda>_.
     sub_usize TAILER_OFFSET ((sorted_index + 1) * RECORD_SLOT_SIZE)))"

definition slot_ref :: "ext \<Rightarrow> byte list \<Rightarrow> nat \<Rightarrow> RecordSlotRef rs" where
  "slot_ref X page sorted_index =
     bind_rs (pb_check_page_len page) (\<lambda>_.
     bind_rs (slot_count X page) (\<lambda>count.
     bind_rs (ensure (\<not> sorted_index \<ge> count) (EC Decode)) (\<lambda>_.
     bind_rs (slot_offset X page sorted_index) (\<lambda>offset.
     RecordSlotRef_new (sub_slice offset (offset + RECORD_SLOT_SIZE) page)))))"

definition pb_slot :: "ext \<Rightarrow> byte list \<Rightarrow> nat \<Rightarrow> RecordSlot rs" where
  "pb_slot X page sorted_index = bind_rs (slot_ref X page sorted_index) (\<lambda>r. Inr (ref_to_owned X r))"

definition pb_slots :: "ext \<Rightarrow> byte list \<Rightarrow> RecordSlot list rs" where
  "pb_slots X page = bind_rs (slot_count X page) (\<lambda>count. map_rs (pb_slot X page) [0..<count])"

definition record_bytes :: "ext \<Rightarrow> byte list \<Rightarrow> nat \<Rightarrow> byte list rs" where
  "record_bytes X page sorted_index =
     bind_rs (slot_ref X page sorted_index) (\<lambda>slot.
     let offset = unat (ref_offset X slot); sz = unat (ref_size X slot) in
     bind_rs (slot_array_low_bound X page) (\<lambda>slot_start.
     bind_rs (ensure (\<not> (offset < PAGE_HEADER_SIZE \<or> offset + sz > slot_start)) (EC Decode)) (\<lambda>_.
     Inr (sub_slice offset (offset + sz) page))))"

definition pb_free_bytes :: "ext \<Rightarrow> byte list \<Rightarrow> nat rs" where
  "pb_free_bytes X page = bind_rs (header_free_bytes X page) (\<lambda>f. Inr (unat f))"

definition pb_is_empty :: "ext \<Rightarrow> byte list \<Rightarrow> bool rs" where
  "pb_is_empty X page = bind_rs (slot_count X page) (\<lambda>c. Inr (c = 0))"

definition timestamp_bounds :: "ext \<Rightarrow> byte list \<Rightarrow> (u64 \<times> u64) option rs" where
  "timestamp_bounds X page =
     bind_rs (slot_count X page) (\<lambda>count.
     if count = 0 then Inr None
     else bind_rs (slot_ref X page 0) (\<lambda>lo.
          bind_rs (slot_ref X page (count - 1)) (\<lambda>hi.
          Inr (Some (ref_timestamp X lo, ref_timestamp X hi)))))"

text \<open>The second loop of \<open>find_slot_index\<close>: the scan over equal timestamps.\<close>

function scan_tuple_id :: "ext \<Rightarrow> byte list \<Rightarrow> u64 \<Rightarrow> u64 \<Rightarrow> nat \<Rightarrow> nat \<Rightarrow> nat option rs" where
  "scan_tuple_id X page timestamp tuple_id count idx =
     (if idx < count then
        bind_rs (slot_ref X page idx) (\<lambda>slot.
        if ref_timestamp X slot \<noteq> timestamp then Inr None
        else if ref_tuple_id X slot = tuple_id then Inr (Some idx)
        else scan_tuple_id X page timestamp tuple_id count (idx + 1))
      else Inr None)"
  by pat_completeness auto
termination
  by (relation "measure (\<lambda>(X, page, timestamp, tuple_id, count, idx). count - idx)") auto

declare scan_tuple_id.simps [simp del]

definition find_slot_index :: "ext \<Rightarrow> byte list \<Rightarrow> u64 \<Rightarrow> u64 \<Rightarrow> nat option rs" where
  "find_slot_index X page timestamp tuple_id =
     bind_rs (slot_count X page) (\<lambda>count.
     if count = 0 then Inr None
     else bind_rs (binary_search (\<lambda>mid. bind_rs (slot_ref X page mid) (\<lambda>slot.
                     Inr (ref_timestamp X slot < timestamp))) 0 count) (\<lambda>low.
          scan_tuple_id X page timestamp tuple_id count low))"

definition active_prev_page :: "ext \<Rightarrow> byte list \<Rightarrow> PageId option rs" where
  "active_prev_page X page =
     bind_rs (header_prev_page X page) (\<lambda>prev.
     Inr (if prev \<noteq> NONE_PAGE_ID then Some prev else None))"

definition active_next_page :: "ext \<Rightarrow> byte list \<Rightarrow> PageId option rs" where
  "active_next_page X page =
     bind_rs (header_next_page X page) (\<lambda>next_page.
     Inr (if next_page \<noteq> NONE_PAGE_ID then Some next_page else None))"

text \<open>The body of the slot loop of \<open>validate_layout\<close>, and the loop.\<close>

definition validate_slot ::
    "ext \<Rightarrow> byte list \<Rightarrow> nat \<Rightarrow> nat \<Rightarrow> RecordSlot option \<Rightarrow> RecordSlot option rs" where
  "validate_slot X page slot_start idx prev =
     bind_rs (pb_slot X page idx) (\<lambda>slot.
     bind_rs (case prev of
                Some prev_slot \<Rightarrow> ensure (\<not> cmp_key_less slot prev_slot) (EC Decode)
              | None \<Rightarrow> Inr ()) (\<lambda>_.
     let offset = unat (rs_offset slot); sz = unat (rs_size slot) in
     bind_rs (ensure (\<not> offset mod RECORD_ALIGN \<noteq> 0) (EC Decode)) (\<lambda>_.
     bind_rs (ensure (\<not> (offset < PAGE_HEADER_SIZE \<or> offset + sz > slot_start)) (EC Decode)) (\<lambda>_.
     let payload = sub_slice offset (offset + sz) page in
     bind_rs (ensure (\<not> rs_checksum slot \<noteq> crc16 X payload) (EC Decode)) (\<lambda>_.
     Inr (Some slot))))))"

definition validate_layout :: "ext \<Rightarrow> byte list \<Rightarrow> unit rs" where
  "validate_layout X page =
     bind_rs (pb_header X page) (\<lambda>header.
     bind_rs (ensure (\<not> ph_magic header \<noteq> PAGE_HEADER_MAGIC) (EC Decode)) (\<lambda>_.
     bind_rs (ensure (\<not> ph_version header > VERSION) (EC Decode)) (\<lambda>_.
     let count = unat (ph_record_count header); first_free = unat (ph_first_free_offset header) in
     bind_rs (slot_region_start_for_count count) (\<lambda>slot_start.
     bind_rs (ensure (\<not> (first_free < PAGE_HEADER_SIZE \<or> first_free > slot_start)) (EC Decode)) (\<lambda>_.
     bind_rs (ensure (\<not> unat (ph_free_bytes header) \<noteq> slot_start - first_free) (EC Decode)) (\<lambda>_.
     bind_rs (fold_rs (validate_slot X page slot_start) [0..<count] None) (\<lambda>_.
     bind_rs (pb_tailer X page) (\<lambda>tailer.
     bind_rs (ensure (\<not> ph_lsn header \<noteq> pt_lsn tailer) (EC Decode)) (\<lambda>_.
     validate_checksum X tailer page)))))))))"

section \<open>Record alignment\<close>

text \<open>The reference: the least multiple of 8 not below the offset.\<close>

definition align8 :: "nat \<Rightarrow> nat" where
  "align8 v = (v + 7) div 8 * 8"

lemma word_and_not_mask:
  fixes w :: "'w :: len word"
  shows "w AND NOT (mask n) = push_bit n (drop_bit n w)"
  by (rule bit_word_eqI)
    (auto simp: bit_and_iff bit_not_iff bit_mask_iff bit_push_bit_iff bit_drop_bit_eq not_less)

lemma align_up_8:
  assumes "v + 7 < 2 ^ 64"
  shows "align_up v RECORD_ALIGN = align8 v"
proof -
  let ?w = "of_nat (v + 7) :: u64"
  have w: "unat ?w = v + 7"
    using assms by (simp only: unsigned_of_nat) (simp add: take_bit_nat_eq_self)
  have "unat (drop_bit 3 u) = unat u div 8" for u :: u64
    by (simp add: drop_bit_eq_div unat_div)
  then have "unat (drop_bit 3 ?w) = (v + 7) div 8" by (simp only: w)
  moreover have "(v + 7) div 8 * 8 < 2 ^ 64" using assms by linarith
  ultimately have "unat (push_bit 3 (drop_bit 3 ?w)) = (v + 7) div 8 * 8"
    by (simp add: push_bit_eq_mult unat_word_ariths)
  moreover have "align_up v 8 = unat (?w AND NOT (mask 3))"
    by (simp add: align_up_def mask_eq_exp_minus_1)
  ultimately show ?thesis by (simp only: word_and_not_mask align8_def)
qed

lemma align8_bounds: "v \<le> align8 v" "align8 v < v + 8" "8 dvd align8 v"
  unfolding align8_def by (linarith, linarith, simp)

lemma align8_id [simp]: "8 dvd v \<Longrightarrow> align8 v = v"
  by (auto simp: align8_def)

lemma align8_add: "8 dvd a \<Longrightarrow> align8 (a + v) = a + align8 v"
  by (auto simp: align8_def add.assoc)

lemma align8_mono: "v \<le> w \<Longrightarrow> align8 v \<le> align8 w"
  by (simp add: align8_def div_le_mono)

section \<open>Pages and what they represent\<close>

text \<open>
  \<open>page_rep X page h ss\<close>: the page has the header \<open>h\<close>, and \<open>ss\<close> is its slot array in key
  order.  This holds of every page with a readable header whose slot array lies
  inside the page.
\<close>

definition slot_at :: "ext \<Rightarrow> byte list \<Rightarrow> nat \<Rightarrow> RecordSlot" where
  "slot_at X page i =
     ref_to_owned X (sub_slice (TAILER_OFFSET - 32 * (i + 1)) (TAILER_OFFSET - 32 * (i + 1) + 32) page)"

definition page_rep :: "ext \<Rightarrow> byte list \<Rightarrow> PageHeader \<Rightarrow> RecordSlot list \<Rightarrow> bool" where
  "page_rep X page h ss \<longleftrightarrow>
     length page = PAGE_SIZE \<and> PageHeader_decode X page = Inr h \<and>
     unat (ph_record_count h) = length ss \<and> 32 * length ss \<le> TAILER_OFFSET \<and>
     (\<forall>i < length ss. slot_at X page i = ss ! i)"

definition slot_key :: "RecordSlot \<Rightarrow> u64 \<times> u64 \<times> u32" where
  "slot_key s = (rs_timestamp s, rs_tuple_id s, rs_offset s)"

definition slot_payload :: "byte list \<Rightarrow> RecordSlot \<Rightarrow> byte list" where
  "slot_payload page s = sub_slice (unat (rs_offset s)) (unat (rs_offset s) + unat (rs_size s)) page"

lemma cmp_key_less_iff: "cmp_key_less a b \<longleftrightarrow> slot_key a < slot_key b"
  by (auto simp: cmp_key_less_def slot_key_def less_prod_def)

lemma PageHeader_decode_prefix:
  "length page = PAGE_SIZE \<Longrightarrow> PageHeader_decode X (sub_slice 0 PAGE_HEADER_SIZE page) = PageHeader_decode X page"
  by (rule PageHeader_decode_cong) (simp_all add: sub_slice_sub_slice length_sub_slice)

lemma PageHeader_decode_fields:
  assumes "PageHeader_decode X page = Inr h"
  shows "rd_u32_at X page PAGE_HEADER_OFF_MAGIC = PAGE_HEADER_MAGIC"
    and "rd_u32_at X page PAGE_HEADER_OFF_VERSION = VERSION"
    and "rd_u64_at X page PAGE_HEADER_OFF_PAGE_ID = ph_page_id h"
    and "rd_u64_at X page PAGE_HEADER_OFF_PREV_PAGE = ph_prev_page h"
    and "rd_u64_at X page PAGE_HEADER_OFF_NEXT_PAGE = ph_next_page h"
    and "rd_u64_at X page PAGE_HEADER_OFF_LSN = ph_lsn h"
    and "rd_u32_at X page PAGE_HEADER_OFF_RECORD_COUNT = ph_record_count h"
    and "rd_u32_at X page PAGE_HEADER_OFF_FIRST_FREE_OFFSET = ph_first_free_offset h"
    and "rd_u32_at X page PAGE_HEADER_OFF_FREE_BYTES = ph_free_bytes h"
  using assms
  by (auto simp: PageHeader_decode_def PageHeader_decode_v1_def Let_def rs_simps
      compat_rs_check_magic compat_rs_check_version)

lemma rep_length: "page_rep X page h ss \<Longrightarrow> length page = PAGE_SIZE"
  by (simp add: page_rep_def)

lemma rep_decode: "page_rep X page h ss \<Longrightarrow> PageHeader_decode X page = Inr h"
  by (simp add: page_rep_def)

lemma rep_count: "page_rep X page h ss \<Longrightarrow> unat (ph_record_count h) = length ss"
  by (simp add: page_rep_def)

lemma rep_check_len: "page_rep X page h ss \<Longrightarrow> pb_check_page_len page = Inr ()"
  by (simp add: pb_check_page_len_def page_rep_def)

lemma rep_header: "page_rep X page h ss \<Longrightarrow> pb_header X page = Inr h"
  by (simp add: pb_header_def rep_check_len rep_length rep_decode PageHeader_decode_prefix)

lemma rep_try_new: "page_rep X page h ss \<Longrightarrow> pb_try_new X page = Inr page"
  using PageHeader_decode_fields(2) [OF rep_decode]
  by (simp add: pb_try_new_def ensure_latest_page_def rep_length compat_rs_check_version)

lemma rep_header_layout: "page_rep X page h ss \<Longrightarrow> ensure_header_layout X page = Inr ()"
  using PageHeader_decode_fields(1,2) [OF rep_decode]
  by (simp add: ensure_header_layout_def header_magic_def header_version_def rep_check_len)

lemma rep_header_fields:
  assumes "page_rep X page h ss"
  shows "header_page_id X page = Inr (ph_page_id h)" "header_prev_page X page = Inr (ph_prev_page h)"
    "header_next_page X page = Inr (ph_next_page h)" "header_lsn X page = Inr (ph_lsn h)"
    "header_record_count X page = Inr (ph_record_count h)"
    "header_first_free_offset X page = Inr (ph_first_free_offset h)"
    "header_free_bytes X page = Inr (ph_free_bytes h)"
  using PageHeader_decode_fields [OF rep_decode [OF assms]] rep_header_layout [OF assms]
  by (simp_all add: header_page_id_def header_prev_page_def header_next_page_def header_lsn_def
      header_record_count_def header_first_free_offset_def header_free_bytes_def)

lemma rep_slot_count: "page_rep X page h ss \<Longrightarrow> slot_count X page = Inr (length ss)"
  by (simp add: slot_count_def rep_header_fields rep_count)

lemma rep_slot_ref:
  assumes rep: "page_rep X page h ss" and "i < length ss"
  obtains r where "slot_ref X page i = Inr r" and "ref_to_owned X r = ss ! i"
proof
  let ?r = "sub_slice (TAILER_OFFSET - 32 * (i + 1)) (TAILER_OFFSET - 32 * (i + 1) + 32) page"
  have le: "32 * (i + 1) \<le> TAILER_OFFSET" using assms by (simp add: page_rep_def)
  show "slot_ref X page i = Inr ?r"
    using assms le
    by (simp add: slot_ref_def slot_offset_def rep_slot_count [OF rep] rep_check_len [OF rep]
        sub_usize_def RecordSlotRef_new_def length_sub_slice rep_length [OF rep] mult.commute)
  show "ref_to_owned X ?r = ss ! i"
    using assms unfolding page_rep_def slot_at_def by blast
qed

lemma rep_slot_ref_ge:
  "page_rep X page h ss \<Longrightarrow> length ss \<le> i \<Longrightarrow> slot_ref X page i = Inl (EC Decode)"
  by (simp add: slot_ref_def rep_slot_count rep_check_len)

lemma rep_slot:
  assumes "page_rep X page h ss" and "i < length ss"
  shows "pb_slot X page i = Inr (ss ! i)"
  by (rule rep_slot_ref [OF assms]) (simp add: pb_slot_def)

lemma rep_slots:
  assumes "page_rep X page h ss"
  shows "pb_slots X page = Inr ss"
proof -
  have "map_rs (pb_slot X page) [0..<length ss] = Inr (map ((!) ss) [0..<length ss])"
    by (rule map_rs_total) (simp add: rep_slot [OF assms])
  then show ?thesis by (simp add: pb_slots_def rep_slot_count [OF assms] map_nth)
qed

lemma owned_fields:
  assumes "ref_to_owned X r = s"
  shows "ref_timestamp X r = rs_timestamp s" "ref_tuple_id X r = rs_tuple_id s"
    "ref_offset X r = rs_offset s" "ref_size X r = rs_size s"
  using assms by auto

lemma rep_low_bound:
  assumes "page_rep X page h ss"
  shows "slot_array_low_bound X page = Inr (TAILER_OFFSET - 32 * length ss)"
proof -
  have "length ss * 32 \<le> TAILER_OFFSET" using assms by (simp add: page_rep_def)
  then show ?thesis
    by (simp add: slot_array_low_bound_def rep_slot_count [OF assms] slot_region_start_for_count_def
        sub_usize_def mult.commute)
qed

lemma rep_record_bytes:
  assumes "page_rep X page h ss" and "i < length ss"
  shows "record_bytes X page i =
    (if PAGE_HEADER_SIZE \<le> unat (rs_offset (ss ! i)) \<and>
        unat (rs_offset (ss ! i)) + unat (rs_size (ss ! i)) \<le> TAILER_OFFSET - 32 * length ss
     then Inr (slot_payload page (ss ! i)) else Inl (EC Decode))"
proof (rule rep_slot_ref [OF assms])
  fix r assume r: "slot_ref X page i = Inr r" "ref_to_owned X r = ss ! i"
  show ?thesis
    by (simp add: record_bytes_def r(1) owned_fields [OF r(2)] rep_low_bound [OF assms(1)]
        slot_payload_def ensure_def not_less not_le Let_def)
qed

lemma rep_scan:
  assumes rep: "page_rep X page h ss" and sorted: "sorted (map slot_key ss)"
    and from_t: "\<forall>j. idx \<le> j \<longrightarrow> j < length ss \<longrightarrow> t \<le> rs_timestamp (ss ! j)"
  shows "scan_tuple_id X page t u (length ss) idx =
    Inr (map_option ((+) idx) (position (\<lambda>s. rs_timestamp s = t \<and> rs_tuple_id s = u) (drop idx ss)))"
  using from_t
proof (induction "length ss - idx" arbitrary: idx)
  case 0
  then show ?case by (simp add: scan_tuple_id.simps [of X page t u "length ss" idx])
next
  case (Suc n)
  let ?P = "\<lambda>s. rs_timestamp s = t \<and> rs_tuple_id s = u"
  from Suc have lt: "idx < length ss" by simp
  obtain r where r: "slot_ref X page idx = Inr r" "ref_to_owned X r = ss ! idx"
    using rep_slot_ref [OF rep lt] .
  have split: "drop idx ss = ss ! idx # drop (Suc idx) ss" using lt by (simp add: Cons_nth_drop_Suc)
  have IH: "scan_tuple_id X page t u (length ss) (Suc idx) =
      Inr (map_option ((+) (Suc idx)) (position ?P (drop (Suc idx) ss)))"
    using Suc by auto
  show ?case
  proof (cases "rs_timestamp (ss ! idx) = t")
    case True
    then show ?thesis
      using lt r(1) IH
      by (cases "position ?P (drop (Suc idx) ss)")
        (simp_all add: scan_tuple_id.simps [of X page t u "length ss" idx] split owned_fields [OF r(2)])
  next
    case False
    then have gt: "t < rs_timestamp (ss ! idx)" using Suc.prems lt by (simp add: order_less_le)
    have "\<not> ?P s" if "s \<in> set (drop (Suc idx) ss)" for s
    proof -
      from that obtain k where "k < length (drop (Suc idx) ss)" "drop (Suc idx) ss ! k = s"
        by (auto simp only: in_set_conv_nth)
      then have "s = ss ! (Suc idx + k)" "Suc idx + k < length ss" by simp_all
      then have "slot_key (ss ! idx) \<le> slot_key s"
        using sorted_nth_mono [OF sorted, of idx "Suc idx + k"] by simp
      then have "rs_timestamp (ss ! idx) \<le> rs_timestamp s"
        by (auto simp: slot_key_def less_eq_prod_def)
      then show ?thesis using gt by auto
    qed
    then have "position ?P (drop (Suc idx) ss) = None"
      by (simp add: position_None_iff)
    then show ?thesis
      using lt r(1) False
      by (simp add: scan_tuple_id.simps [of X page t u "length ss" idx] split owned_fields [OF r(2)])
  qed
qed

lemma sorted_timestamps: "sorted (map slot_key ss) \<Longrightarrow> sorted (map rs_timestamp ss)"
  by (induction ss) (auto simp: slot_key_def less_eq_prod_def)

lemma rep_find_slot_index:
  assumes rep: "page_rep X page h ss" and "sorted (map slot_key ss)"
  shows "find_slot_index X page t u =
    Inr (position (\<lambda>s. rs_timestamp s = t \<and> rs_tuple_id s = u) ss)"
proof (cases "ss = []")
  case True
  then show ?thesis using rep_slot_count [OF rep] by (simp add: find_slot_index_def)
next
  case False
  let ?P = "\<lambda>s. rs_timestamp s = t \<and> rs_tuple_id s = u"
  define k where "k = length (takeWhile (\<lambda>x. x < t) (map rs_timestamp ss))"
  have below: "rs_timestamp (ss ! i) < t \<longleftrightarrow> i < k" if "i < length ss" for i
    using sorted_below_iff [OF sorted_timestamps [OF assms(2)], of i t] that by (simp add: k_def)
  have k_le: "k \<le> length ss"
    unfolding k_def using length_takeWhile_le [of _ "map rs_timestamp ss"] by simp
  have "bind_rs (slot_ref X page i) (\<lambda>r. Inr (ref_timestamp X r < t)) = Inr (i < k)"
    if i: "i < length ss" for i
  proof (rule rep_slot_ref [OF rep i])
    fix r assume "slot_ref X page i = Inr r" "ref_to_owned X r = ss ! i"
    then show ?thesis using below [OF i] by (simp add: owned_fields(1) [of X r "ss ! i"])
  qed
  then have "binary_search (\<lambda>mid. bind_rs (slot_ref X page mid) (\<lambda>r. Inr (ref_timestamp X r < t)))
      0 (length ss) = Inr k"
    by (rule binary_search_partition [where n = "length ss"]) (use k_le in simp_all)
  moreover have "scan_tuple_id X page t u (length ss) k =
      Inr (map_option ((+) k) (position ?P (drop k ss)))"
  proof (rule rep_scan [OF rep assms(2)], intro allI impI)
    fix j assume "k \<le> j" "j < length ss"
    then show "t \<le> rs_timestamp (ss ! j)" using below [of j] by (simp add: not_less [symmetric])
  qed
  moreover have "\<not> ?P s" if "s \<in> set (take k ss)" for s
  proof -
    from that obtain i where "i < length (take k ss)" "take k ss ! i = s"
      by (auto simp only: in_set_conv_nth)
    then have "i < k" "s = ss ! i" by simp_all
    then show ?thesis using below [of i] k_le by auto
  qed
  then have "position ?P ss = map_option ((+) k) (position ?P (drop k ss))"
    by (intro position_skip k_le) blast
  ultimately show ?thesis using False by (simp add: find_slot_index_def rep_slot_count [OF rep])
qed

section \<open>What \<open>validate_layout\<close> accepts\<close>

definition slot_layout_ok :: "ext \<Rightarrow> byte list \<Rightarrow> nat \<Rightarrow> RecordSlot \<Rightarrow> bool" where
  "slot_layout_ok X page limit s \<longleftrightarrow>
     unat (rs_offset s) mod RECORD_ALIGN = 0 \<and> PAGE_HEADER_SIZE \<le> unat (rs_offset s) \<and>
     unat (rs_offset s) + unat (rs_size s) \<le> limit \<and>
     rs_checksum s = crc16 X (slot_payload page s)"

definition space_ok :: "PageHeader \<Rightarrow> nat \<Rightarrow> bool" where
  "space_ok h n \<longleftrightarrow>
     PAGE_HEADER_SIZE \<le> unat (ph_first_free_offset h) \<and>
     unat (ph_first_free_offset h) + 32 * n \<le> TAILER_OFFSET \<and>
     unat (ph_free_bytes h) = TAILER_OFFSET - 32 * n - unat (ph_first_free_offset h)"

definition tailer_ok :: "ext \<Rightarrow> byte list \<Rightarrow> PageHeader \<Rightarrow> bool" where
  "tailer_ok X page h \<longleftrightarrow>
     (\<exists>t. pb_tailer X page = Inr t \<and> pt_lsn t = ph_lsn h \<and>
          pt_checksum t = crc32 X (sub_slice 0 TAILER_OFFSET page))"

definition layout_ok :: "ext \<Rightarrow> byte list \<Rightarrow> PageHeader \<Rightarrow> RecordSlot list \<Rightarrow> bool" where
  "layout_ok X page h ss \<longleftrightarrow>
     space_ok h (length ss) \<and> sorted (map slot_key ss) \<and>
     (\<forall>s \<in> set ss. slot_layout_ok X page (TAILER_OFFSET - 32 * length ss) s) \<and>
     tailer_ok X page h"

lemma rep_validate_slot:
  assumes "page_rep X page h ss" and "i < length ss"
  shows "validate_slot X page limit i prev =
    (if (\<forall>p. prev = Some p \<longrightarrow> slot_key p \<le> slot_key (ss ! i)) \<and> slot_layout_ok X page limit (ss ! i)
     then Inr (Some (ss ! i)) else Inl (EC Decode))"
  by (simp add: validate_slot_def rep_slot [OF assms] cmp_key_less_iff slot_layout_ok_def
      slot_payload_def ensure_def Let_def not_less not_le split: option.split)

lemma rep_validate_slots:
  assumes rep: "page_rep X page h ss" and "i \<le> length ss"
  shows "is_ok (fold_rs (validate_slot X page limit) [i..<length ss] prev) \<longleftrightarrow>
    sorted (map slot_key ((case prev of None \<Rightarrow> [] | Some p \<Rightarrow> [p]) @ drop i ss)) \<and>
    (\<forall>s \<in> set (drop i ss). slot_layout_ok X page limit s)"
  using assms(2)
proof (induction "length ss - i" arbitrary: i prev)
  case 0
  then show ?case by (simp split: option.split)
next
  case (Suc n)
  then have lt: "i < length ss" by simp
  have split: "[i..<length ss] = i # [Suc i..<length ss]" "drop i ss = ss ! i # drop (Suc i) ss"
    using lt by (simp_all add: upt_conv_Cons Cons_nth_drop_Suc)
  have IH: "is_ok (fold_rs (validate_slot X page limit) [Suc i..<length ss] (Some (ss ! i))) \<longleftrightarrow>
      sorted (map slot_key (ss ! i # drop (Suc i) ss)) \<and>
      (\<forall>s \<in> set (drop (Suc i) ss). slot_layout_ok X page limit s)"
    using Suc(1) [of "Suc i" "Some (ss ! i)"] Suc(2) lt by simp
  show ?case
    unfolding split
    by (auto simp: rep_validate_slot [OF rep lt] IH split: option.split)
qed

lemma validate_layout_fixed_checks:
  "PageHeader_decode X page = Inr h \<Longrightarrow> ph_magic h = PAGE_HEADER_MAGIC \<and> \<not> ph_version h > VERSION"
  using PageHeader_decode_magic [of X page h] by simp

lemma rep_validate_layout:
  assumes rep: "page_rep X page h ss"
  shows "validate_layout X page = Inr () \<longleftrightarrow> layout_ok X page h ss"
proof -
  have le: "length ss * 32 \<le> TAILER_OFFSET" using rep by (simp add: page_rep_def)
  have len: "length page = PAGE_SIZE" using rep by (rule rep_length)
  note fixed = validate_layout_fixed_checks [OF rep_decode [OF rep]]
  have fold: "is_ok (fold_rs (validate_slot X page (TAILER_OFFSET - 32 * length ss)) [0..<length ss] None) \<longleftrightarrow>
      sorted (map slot_key ss) \<and> (\<forall>s \<in> set ss. slot_layout_ok X page (TAILER_OFFSET - 32 * length ss) s)"
    using rep_validate_slots [OF rep, of 0 _ None] by simp
  show ?thesis
    using le len fixed fold
    by (auto simp: validate_layout_def rep_header [OF rep] rep_count [OF rep] layout_ok_def
        space_ok_def tailer_ok_def slot_region_start_for_count_def sub_usize_def
        validate_checksum_def checksum_for_page_def rs_simps is_ok_iff Let_def mult.commute)
qed

lemma validate_layout_rep:
  assumes "length page = PAGE_SIZE" and "validate_layout X page = Inr ()"
  obtains h ss where "page_rep X page h ss" and "layout_ok X page h ss"
proof -
  from assms(2) obtain h where h: "pb_header X page = Inr h"
    and fit: "32 * unat (ph_record_count h) \<le> TAILER_OFFSET"
    by (auto simp: validate_layout_def rs_simps slot_region_start_for_count_def Let_def)
  let ?ss = "map (slot_at X page) [0..<unat (ph_record_count h)]"
  have "page_rep X page h ?ss"
    using h fit assms(1)
    by (auto simp: page_rep_def pb_header_def rs_simps PageHeader_decode_prefix)
  then show thesis using assms(2) rep_validate_layout that by blast
qed

end
