(* ===== verification/Page_Block_Mut.thy ===== *)
theory Page_Block_Mut
  imports Page_Block
begin

text \<open>
  The write side of the slotted page, \<open>storage/page/page_block_ref_mut.rs\<close>.  Every method
  is a fallible update of the page bytes: it returns its result together with
  the bytes it leaves behind, also when it fails half-way.
\<close>

type_synonym 'a pm = "(byte list, 'a) se"

section \<open>Writes into a range of the page\<close>

definition on_range :: "nat \<Rightarrow> nat \<Rightarrow> (byte list \<Rightarrow> byte list rs) \<Rightarrow> byte list \<Rightarrow> byte list rs" where
  "on_range a b f page =
     bind_rs (index_range a b page) (\<lambda>bs. bind_rs (f bs) (\<lambda>bs'. Inr (patch a bs' page)))"

definition copy_from_slice :: "byte list \<Rightarrow> byte list \<Rightarrow> byte list rs" where
  "copy_from_slice src dst = (if length src = length dst then Inr src else Inl Panic)"

definition fill_zero :: "byte list \<Rightarrow> byte list rs" where
  "fill_zero bs = Inr (replicate (length bs) 0)"

definition copy_within :: "nat \<Rightarrow> nat \<Rightarrow> nat \<Rightarrow> byte list \<Rightarrow> byte list rs" where
  "copy_within a b dest page =
     (if a \<le> b \<and> b \<le> length page \<and> dest + (b - a) \<le> length page
      then Inr (patch dest (sub_slice a b page) page) else Inl Panic)"

section \<open>Reading through the mutable view\<close>

definition mut_check_page_len :: "byte list \<Rightarrow> unit rs" where
  "mut_check_page_len page = ensure (\<not> length page < PAGE_SIZE) (EC Encode)"

definition mut_header :: "ext \<Rightarrow> byte list \<Rightarrow> PageHeader rs" where
  "mut_header X page = bind_rs (pb_try_new X page) (pb_header X)"

definition mut_tailer :: "ext \<Rightarrow> byte list \<Rightarrow> PageTailer rs" where
  "mut_tailer X page = bind_rs (pb_try_new X page) (pb_tailer X)"

definition mut_slot :: "ext \<Rightarrow> byte list \<Rightarrow> nat \<Rightarrow> RecordSlot rs" where
  "mut_slot X page sorted_index = bind_rs (pb_try_new X page) (\<lambda>p. pb_slot X p sorted_index)"

definition slot_offset_for_sorted_index :: "nat \<Rightarrow> nat rs" where
  "slot_offset_for_sorted_index sorted_index =
     sub_usize TAILER_OFFSET ((sorted_index + 1) * RECORD_SLOT_SIZE)"

definition mut_slot_ref :: "ext \<Rightarrow> byte list \<Rightarrow> nat \<Rightarrow> RecordSlotRef rs" where
  "mut_slot_ref X page sorted_index =
     bind_rs (mut_check_page_len page) (\<lambda>_.
     bind_rs (mut_header X page) (\<lambda>header.
     bind_rs (ensure (\<not> sorted_index \<ge> unat (ph_record_count header)) (EC Decode)) (\<lambda>_.
     bind_rs (slot_offset_for_sorted_index sorted_index) (\<lambda>offset.
     bind_rs (index_range offset (offset + RECORD_SLOT_SIZE) page) RecordSlotRef_new))))"

definition mut_record_bytes :: "ext \<Rightarrow> byte list \<Rightarrow> nat \<Rightarrow> byte list rs" where
  "mut_record_bytes X page sorted_index =
     bind_rs (mut_slot_ref X page sorted_index) (\<lambda>slot.
     let offset = unat (ref_offset X slot); sz = unat (ref_size X slot) in
     bind_rs (mut_header X page) (\<lambda>header.
     bind_rs (slot_region_start_for_count (unat (ph_record_count header))) (\<lambda>slot_start.
     bind_rs (ensure (\<not> (offset < PAGE_HEADER_SIZE \<or> offset + sz > slot_start)) (EC Decode)) (\<lambda>_.
     index_range offset (offset + sz) page))))"

definition read_all_slots :: "ext \<Rightarrow> byte list \<Rightarrow> RecordSlot list rs" where
  "read_all_slots X page =
     bind_rs (pb_try_new X page) (\<lambda>p.
     bind_rs (slot_count X p) (\<lambda>count. map_rs (pb_slot X p) [0..<count]))"

definition materialize_entries ::
    "ext \<Rightarrow> RecordSlot list \<Rightarrow> byte list \<Rightarrow> (RecordSlot \<times> byte list) list rs" where
  "materialize_entries X slots page =
     bind_rs (pb_try_new X page) (\<lambda>p.
     map_rs (\<lambda>slot.
       let offset = unat (rs_offset slot); sz = unat (rs_size slot) in
       bind_rs (index_range offset (offset + sz) p) (\<lambda>data. Inr (slot, data))) slots)"

definition find_insert_position_by_key :: "ext \<Rightarrow> RecordSlot \<Rightarrow> byte list \<Rightarrow> nat rs" where
  "find_insert_position_by_key X new_slot page =
     bind_rs (pb_try_new X page) (\<lambda>p.
     bind_rs (slot_count X p) (\<lambda>count.
     binary_search (\<lambda>mid. bind_rs (slot_ref X p mid) (\<lambda>slot.
       Inr (ref_cmp_key_less X slot new_slot))) 0 count))"

section \<open>Initialisation and links\<close>

definition init_empty_with_tuple_meta :: "ext \<Rightarrow> PageId \<Rightarrow> u32 \<Rightarrow> u64 \<Rightarrow> u64 \<Rightarrow> unit pm" where
  "init_empty_with_tuple_meta X page_id tuple_format_version tuple_schema_hash tuple_flags =
     bind_se (read_se mut_check_page_len) (\<lambda>_.
     bind_se (write_se (\<lambda>page. replicate (length page) 0)) (\<lambda>_.
     let header = (PageHeader_new page_id)\<lparr>
           ph_lsn := 1,
           ph_first_free_offset := of_nat PAGE_HEADER_SIZE,
           ph_last_record_offset := of_nat PAGE_HEADER_SIZE,
           ph_record_count := 0,
           ph_free_bytes := of_nat (TAILER_OFFSET - PAGE_HEADER_SIZE),
           ph_tuple_format_version := tuple_format_version,
           ph_tuple_schema_hash := tuple_schema_hash,
           ph_tuple_flags := tuple_flags\<rparr>
     in bind_se (update_se (on_range 0 PAGE_HEADER_SIZE (PageHeader_encode X header))) (\<lambda>_.
     let tailer = \<lparr>pt_lsn = 1, pt_checksum = 0\<rparr>
     in update_se (on_range TAILER_OFFSET (TAILER_OFFSET + PAGE_TAILER_SIZE)
          (PageTailer_encode X tailer)))))"

definition init_empty :: "ext \<Rightarrow> PageId \<Rightarrow> unit pm" where
  "init_empty X page_id = init_empty_with_tuple_meta X page_id 0 0 0"

definition set_page_links :: "ext \<Rightarrow> PageId \<Rightarrow> PageId \<Rightarrow> unit pm" where
  "set_page_links X prev_page next_page =
     bind_se (read_se (mut_header X)) (\<lambda>header.
     let header' = header\<lparr>ph_lsn := saturating_add (ph_lsn header) 1,
                          ph_prev_page := prev_page, ph_next_page := next_page\<rparr>
     in update_se (on_range 0 PAGE_HEADER_SIZE (PageHeader_encode X header')))"

section \<open>Insertion\<close>

definition insert_slot_bytes :: "ext \<Rightarrow> nat \<Rightarrow> RecordSlot \<Rightarrow> unit pm" where
  "insert_slot_bytes X insert_pos slot =
     bind_se (read_se (mut_header X)) (\<lambda>header.
     let count = unat (ph_record_count header) in
     bind_se (lift_se (slot_region_start_for_count count)) (\<lambda>old_region_start.
     bind_se (lift_se (slot_region_start_for_count (count + 1))) (\<lambda>new_region_start.
     bind_se (lift_se (sub_usize TAILER_OFFSET (insert_pos * RECORD_SLOT_SIZE))) (\<lambda>moved_region_end.
     bind_se (if insert_pos < count
              then update_se (copy_within old_region_start moved_region_end new_region_start)
              else return_se ()) (\<lambda>_.
     bind_se (lift_se (slot_offset_for_sorted_index insert_pos)) (\<lambda>slot_off.
     update_se (on_range slot_off (slot_off + RECORD_SLOT_SIZE) (RecordSlot_encode X slot))))))))"

definition rewrite_header_after_insert ::
    "ext \<Rightarrow> PageHeader \<Rightarrow> nat \<Rightarrow> u32 \<Rightarrow> u32 \<Rightarrow> unit pm" where
  "rewrite_header_after_insert X header new_count first_free_offset last_record_offset =
     bind_se (lift_se (slot_region_start_for_count new_count)) (\<lambda>slot_start.
     bind_se (lift_se (sub_usize slot_start (unat first_free_offset))) (\<lambda>free.
     let updated = header\<lparr>
           ph_lsn := saturating_add (ph_lsn header) 1,
           ph_record_count := of_nat new_count,
           ph_first_free_offset := first_free_offset,
           ph_last_record_offset := last_record_offset,
           ph_free_bytes := of_nat free\<rparr>
     in update_se (on_range 0 PAGE_HEADER_SIZE (PageHeader_encode X updated))))"

definition insert_record :: "ext \<Rightarrow> u64 \<Rightarrow> u64 \<Rightarrow> byte list \<Rightarrow> nat pm" where
  "insert_record X timestamp tuple_id payload =
     bind_se (read_se mut_check_page_len) (\<lambda>_.
     bind_se (read_se (mut_header X)) (\<lambda>header.
     let count = unat (ph_record_count header);
         first_free = unat (ph_first_free_offset header);
         data_offset = align_up first_free RECORD_ALIGN in
     bind_se (lift_se (sub_usize data_offset first_free)) (\<lambda>padding.
     bind_se (lift_se (slot_region_start_for_count (count + 1))) (\<lambda>next_slot_start.
     let record_end = data_offset + length payload in
     if record_end > next_slot_start \<or>
        padding + length payload + RECORD_SLOT_SIZE > unat (ph_free_bytes header)
     then fail_se (EC InsufficientBufferSpace)
     else
     bind_se (update_se (on_range data_offset record_end (copy_from_slice payload))) (\<lambda>_.
     let slot = (RecordSlot_new (of_nat data_offset) (of_nat (length payload)) timestamp tuple_id)
                  \<lparr>rs_checksum := crc16 X payload\<rparr> in
     bind_se (read_se (find_insert_position_by_key X slot)) (\<lambda>insert_pos.
     bind_se (insert_slot_bytes X insert_pos slot) (\<lambda>_.
     bind_se (rewrite_header_after_insert X header (count + 1) (of_nat record_end) (of_nat data_offset)) (\<lambda>_.
     return_se insert_pos))))))))"

section \<open>Rebuilding: compaction, deletion, update\<close>

fun rebuild_loop ::
    "ext \<Rightarrow> (RecordSlot \<times> byte list) list \<Rightarrow> nat \<Rightarrow> RecordSlot list \<Rightarrow> (nat \<times> RecordSlot list) pm" where
  "rebuild_loop X [] next_data slots = return_se (next_data, slots)"
| "rebuild_loop X ((slot, payload) # entries) next_data slots =
     (let offset = align_up next_data RECORD_ALIGN;
          record_end = offset + length payload in
      bind_se (lift_se (slot_region_start_for_count (length slots + 1))) (\<lambda>slot_start.
      if record_end > slot_start then fail_se (EC InsufficientBufferSpace)
      else
      bind_se (update_se (on_range offset record_end (copy_from_slice payload))) (\<lambda>_.
      let slot' = slot\<lparr>rs_offset := of_nat offset, rs_size := of_nat (length payload),
                       rs_checksum := crc16 X payload\<rparr>
      in rebuild_loop X entries record_end (slots @ [slot']))))"

fun write_slots :: "ext \<Rightarrow> nat \<Rightarrow> RecordSlot list \<Rightarrow> unit pm" where
  "write_slots X idx [] = return_se ()"
| "write_slots X idx (slot # slots) =
     bind_se (lift_se (sub_usize TAILER_OFFSET ((idx + 1) * RECORD_SLOT_SIZE))) (\<lambda>offset.
     bind_se (update_se (on_range offset (offset + RECORD_SLOT_SIZE) (RecordSlot_encode X slot))) (\<lambda>_.
     write_slots X (idx + 1) slots))"

definition rewrite_header_and_slots :: "ext \<Rightarrow> PageId \<Rightarrow> RecordSlot list \<Rightarrow> u32 \<Rightarrow> unit pm" where
  "rewrite_header_and_slots X page_id slots first_free_offset =
     bind_se (lift_se (slot_region_start_for_count (length slots))) (\<lambda>slot_region_start.
     bind_se (update_se (on_range slot_region_start TAILER_OFFSET fill_zero)) (\<lambda>_.
     bind_se (write_slots X 0 slots) (\<lambda>_.
     bind_se (lift_se (sub_usize slot_region_start (unat first_free_offset))) (\<lambda>free_bytes.
     let last_record_offset =
           (if slots = [] then of_nat PAGE_HEADER_SIZE else Max (set (map rs_offset slots))) in
     bind_se (read_se (mut_header X)) (\<lambda>header.
     bind_se (lift_se (ensure (ph_page_id header = page_id) Panic)) (\<lambda>_.
     let header' = header\<lparr>
           ph_lsn := saturating_add (ph_lsn header) 1,
           ph_record_count := of_nat (length slots),
           ph_first_free_offset := first_free_offset,
           ph_last_record_offset := last_record_offset,
           ph_free_bytes := of_nat free_bytes\<rparr>
     in update_se (on_range 0 PAGE_HEADER_SIZE (PageHeader_encode X header'))))))))"

definition rebuild_from_entries :: "ext \<Rightarrow> (RecordSlot \<times> byte list) list \<Rightarrow> unit pm" where
  "rebuild_from_entries X entries =
     bind_se (read_se (mut_header X)) (\<lambda>header.
     let sorted_entries = sort_key (\<lambda>e. slot_key (fst e)) entries in
     bind_se (update_se (on_range PAGE_HEADER_SIZE TAILER_OFFSET fill_zero)) (\<lambda>_.
     bind_se (rebuild_loop X sorted_entries PAGE_HEADER_SIZE []) (\<lambda>(next_data, slots).
     rewrite_header_and_slots X (ph_page_id header) slots (of_nat next_data))))"

definition compact_with_slots :: "ext \<Rightarrow> RecordSlot list \<Rightarrow> unit pm" where
  "compact_with_slots X slots =
     bind_se (read_se (materialize_entries X slots)) (rebuild_from_entries X)"

definition compact :: "ext \<Rightarrow> unit pm" where
  "compact X = bind_se (read_se (read_all_slots X)) (compact_with_slots X)"

definition delete_record :: "ext \<Rightarrow> nat \<Rightarrow> unit pm" where
  "delete_record X sorted_index =
     bind_se (read_se mut_check_page_len) (\<lambda>_.
     bind_se (read_se (read_all_slots X)) (\<lambda>slots.
     if sorted_index \<ge> length slots then fail_se (EC Decode)
     else compact_with_slots X (remove_at sorted_index slots)))"

definition update_record :: "ext \<Rightarrow> nat \<Rightarrow> u64 \<Rightarrow> u64 \<Rightarrow> byte list \<Rightarrow> nat pm" where
  "update_record X sorted_index timestamp tuple_id payload =
     bind_se (read_se mut_check_page_len) (\<lambda>_.
     bind_se (read_se (read_all_slots X)) (\<lambda>slots.
     if sorted_index \<ge> length slots then fail_se (EC Decode)
     else
     let new_slot = (RecordSlot_new 0 (of_nat (length payload)) timestamp tuple_id)
                      \<lparr>rs_checksum := crc16 X payload\<rparr> in
     bind_se (read_se (materialize_entries X (remove_at sorted_index slots))) (\<lambda>entries.
     let entries' = entries @ [(new_slot, payload)];
         sorted_slots = sort_key slot_key (map fst entries') in
     bind_se (lift_se (ok_or (position (\<lambda>slot. slot_key slot = slot_key new_slot) sorted_slots)
                             (EC Encode))) (\<lambda>new_index.
     bind_se (rebuild_from_entries X entries') (\<lambda>_.
     return_se new_index)))))"

section \<open>The checksum at the persistence point\<close>

definition refresh_tailer_checksum :: "ext \<Rightarrow> unit pm" where
  "refresh_tailer_checksum X =
     bind_se (read_se (\<lambda>page. bind_rs (index_range TAILER_OFFSET (TAILER_OFFSET + PAGE_TAILER_SIZE) page)
                        (PageTailer_decode X))) (\<lambda>tailer.
     bind_se (read_se (mut_header X)) (\<lambda>header.
     bind_se (read_se (refresh_checksum X (tailer\<lparr>pt_lsn := ph_lsn header\<rparr>))) (\<lambda>tailer'.
     update_se (on_range TAILER_OFFSET (TAILER_OFFSET + PAGE_TAILER_SIZE)
       (PageTailer_encode X tailer')))))"

section \<open>Encoders in place\<close>

lemma patch_whole: "length bs = length xs \<Longrightarrow> patch 0 bs xs = bs"
  by (simp add: patch_def)

lemma on_range_header:
  assumes "ext_ok X" and "header_wf h" and "length p = PAGE_SIZE"
  shows "on_range 0 PAGE_HEADER_SIZE (PageHeader_encode X h) p = Inr (patch 0 (header_bytes X h) p)"
  using assms
  by (simp add: on_range_def index_range_def PageHeader_encode_def length_sub_slice
      PageHeader_write_eq patch_whole)

lemma on_range_slot:
  assumes "ext_ok X" and "b = off + 32" and "b \<le> length p"
  shows "on_range off b (RecordSlot_encode X s) p = Inr (patch off (slot_bytes X s) p)"
  using assms
  by (simp add: on_range_def index_range_def length_sub_slice RecordSlot_encode_eq patch_whole)

lemma on_range_tailer:
  assumes "ext_ok X" and "length p = PAGE_SIZE"
  shows "on_range TAILER_OFFSET (TAILER_OFFSET + PAGE_TAILER_SIZE) (PageTailer_encode X t) p =
    Inr (patch TAILER_OFFSET (tailer_bytes X t) p)"
  using assms
  by (simp add: on_range_def index_range_def length_sub_slice PageTailer_encode_eq patch_whole)

lemma on_range_copy:
  assumes "a + length bs \<le> length p" and "b = a + length bs"
  shows "on_range a b (copy_from_slice bs) p = Inr (patch a bs p)"
  using assms by (simp add: on_range_def index_range_def length_sub_slice copy_from_slice_def)

lemma on_range_fill:
  assumes "a \<le> b" and "b \<le> length p"
  shows "on_range a b fill_zero p = Inr (patch a (replicate (b - a) 0) p)"
  using assms by (simp add: on_range_def index_range_def length_sub_slice fill_zero_def)

lemma decode_header_patch:
  assumes "ext_ok X" and "header_wf h" and "length p = PAGE_SIZE"
    and "ph_magic h = PAGE_HEADER_MAGIC" and "ph_version h = VERSION"
  shows "PageHeader_decode X (patch 0 (header_bytes X h) p) = Inr h"
  using PageHeader_decode_write [OF assms(1,2), of p] assms by (simp add: PageHeader_write_eq)

lemma decode_patch_data:
  assumes "PAGE_HEADER_SIZE \<le> off" and "off + length bs \<le> length p"
  shows "PageHeader_decode X (patch off bs p) = PageHeader_decode X p"
  by (rule PageHeader_decode_cong) (use assms in \<open>simp_all add: buf_simps\<close>)

lemma slot_at_patch_low:
  assumes "off + length bs + 32 * (i + 1) \<le> TAILER_OFFSET" and "off + length bs \<le> length p"
  shows "slot_at X (patch off bs p) i = slot_at X p i"
  using assms unfolding slot_at_def by (subst sub_slice_patch_after) auto

lemma slot_at_patch_high:
  assumes "TAILER_OFFSET \<le> off + 32 * i" and "32 * (i + 1) \<le> TAILER_OFFSET" and "off \<le> length p"
  shows "slot_at X (patch off bs p) i = slot_at X p i"
  using assms unfolding slot_at_def by (subst sub_slice_patch_before) auto

lemma slot_at_written:
  assumes "ext_ok X" and "32 * (i + 1) \<le> TAILER_OFFSET" and "length p = PAGE_SIZE"
  shows "slot_at X (patch (TAILER_OFFSET - 32 * (i + 1)) (slot_bytes X s) p) i = s"
  using assms unfolding slot_at_def
  by (subst sub_slice_patch_same) (simp_all add: ref_to_owned_bytes)

lemma slot_payload_patch:
  assumes "off + length bs \<le> length p"
    and "off + length bs \<le> unat (rs_offset s) \<or> unat (rs_offset s) + unat (rs_size s) \<le> off"
  shows "slot_payload (patch off bs p) s = slot_payload p s"
  using assms unfolding slot_payload_def by (auto simp: buf_simps)

lemma rep_mut_header: "page_rep X p h ss \<Longrightarrow> mut_header X p = Inr h"
  by (simp add: mut_header_def rep_try_new rep_header)

lemma bind_mut_header: "mut_header X p = Inr h \<Longrightarrow> bind_se (read_se (mut_header X)) k p = k h p"
  by (rule bind_se_read)

lemma rep_mut_check_len: "page_rep X p h ss \<Longrightarrow> mut_check_page_len p = Inr ()"
  by (simp add: mut_check_page_len_def rep_length)

lemma rep_read_all_slots: "page_rep X p h ss \<Longrightarrow> read_all_slots X p = Inr ss"
  using rep_slots [of X p h ss] by (simp add: read_all_slots_def rep_try_new pb_slots_def)

lemma rep_wf: "page_rep X p h ss \<Longrightarrow> header_wf h"
  using PageHeader_decode_wf rep_decode by blast

lemma rep_magic: "page_rep X p h ss \<Longrightarrow> ph_magic h = PAGE_HEADER_MAGIC \<and> ph_version h = VERSION"
  using PageHeader_decode_magic rep_decode by blast

lemma rep_find_insert_position:
  assumes rep: "page_rep X p h ss" and "sorted (map slot_key ss)"
  shows "find_insert_position_by_key X new p =
    Inr (length (takeWhile (\<lambda>k. k < slot_key new) (map slot_key ss)))" (is "_ = Inr ?k")
proof -
  have "bind_rs (slot_ref X p i) (\<lambda>r. Inr (ref_cmp_key_less X r new)) = Inr (i < ?k)"
    if i: "i < length ss" for i
  proof (rule rep_slot_ref [OF rep i])
    fix r assume "slot_ref X p i = Inr r" "ref_to_owned X r = ss ! i"
    then show ?thesis using sorted_below_iff [OF assms(2), of i "slot_key new"] i
      by (simp add: ref_cmp_key_owned cmp_key_less_iff)
  qed
  then have "binary_search (\<lambda>mid. bind_rs (slot_ref X p mid) (\<lambda>r. Inr (ref_cmp_key_less X r new)))
      0 (length ss) = Inr ?k"
    by (rule binary_search_partition [where n = "length ss"])
      (use length_takeWhile_le [of _ "map slot_key ss"] in simp_all)
  then show ?thesis by (simp add: find_insert_position_by_key_def rep_try_new [OF rep] rep_slot_count [OF rep])
qed

section \<open>The page invariant\<close>

text \<open>
  What every page built by these operations satisfies.  Beyond the layout that
  \<open>validate_layout\<close> checks, records end at or below \<open>first_free_offset\<close>, and the data area
  holds the aligned records and nothing else.
\<close>

definition aligned_bytes :: "RecordSlot list \<Rightarrow> nat" where
  "aligned_bytes ss = (\<Sum>s \<leftarrow> ss. align8 (unat (rs_size s)))"

definition page_ok :: "ext \<Rightarrow> byte list \<Rightarrow> PageHeader \<Rightarrow> RecordSlot list \<Rightarrow> bool" where
  "page_ok X p h ss \<longleftrightarrow>
     page_rep X p h ss \<and> space_ok h (length ss) \<and> sorted (map slot_key ss) \<and>
     (\<forall>s \<in> set ss. slot_layout_ok X p (unat (ph_first_free_offset h)) s) \<and>
     align8 (unat (ph_first_free_offset h)) = PAGE_HEADER_SIZE + aligned_bytes ss"

text \<open>The records of a page, keyed by timestamp and tuple id, in slot order.\<close>

type_synonym rec_key = "u64 \<times> u64"
type_synonym rec = "rec_key \<times> byte list"

definition page_recs :: "byte list \<Rightarrow> RecordSlot list \<Rightarrow> rec list" where
  "page_recs p ss = map (\<lambda>s. ((rs_timestamp s, rs_tuple_id s), slot_payload p s)) ss"

lemma page_okD:
  assumes "page_ok X p h ss"
  shows "page_rep X p h ss" "space_ok h (length ss)" "sorted (map slot_key ss)"
    "\<And>s. s \<in> set ss \<Longrightarrow> slot_layout_ok X p (unat (ph_first_free_offset h)) s"
    "align8 (unat (ph_first_free_offset h)) = PAGE_HEADER_SIZE + aligned_bytes ss"
  using assms by (auto simp: page_ok_def)

lemma page_ok_layout:
  assumes "page_ok X p h ss" and "tailer_ok X p h"
  shows "layout_ok X p h ss"
  using assms by (fastforce simp: page_ok_def layout_ok_def slot_layout_ok_def space_ok_def)

lemma rep_unique:
  assumes "page_rep X p h ss" and "page_rep X p h' ss'"
  shows "h' = h" and "ss' = ss"
proof -
  show "h' = h" using assms by (simp add: page_rep_def)
  then have "length ss' = length ss" using assms by (simp add: page_rep_def)
  then show "ss' = ss" using assms by (intro nth_equalityI) (auto simp: page_rep_def)
qed

section \<open>Insertion\<close>

lemma slot_at_moved:
  assumes "length p = PAGE_SIZE" and "pos < i" and "i \<le> n" and "32 * (n + 1) \<le> TAILER_OFFSET"
  shows "slot_at X (patch (TAILER_OFFSET - 32 * (n + 1))
      (sub_slice (TAILER_OFFSET - 32 * n) (TAILER_OFFSET - 32 * pos) p) p) i = slot_at X p (i - 1)"
proof -
  have "n * 32 \<le> 4052" "i * 32 \<le> n * 32" "32 + pos * 32 \<le> i * 32" using assms by simp_all
  then show ?thesis
    using assms unfolding slot_at_def
    by (subst sub_slice_patch_inside) (simp_all add: length_sub_slice sub_slice_sub_slice mult.commute)
qed

lemma insert_slot_bytes_rep:
  assumes X: "ext_ok X" and rep: "page_rep X p h ss" and pos: "pos \<le> length ss"
    and fit: "PAGE_HEADER_SIZE + 32 * (length ss + 1) \<le> TAILER_OFFSET"
  obtains p' where "insert_slot_bytes X pos s p = (Inr (), p')" and "length p' = PAGE_SIZE"
    and "PageHeader_decode X p' = Inr h"
    and "\<And>i. i \<le> length ss \<Longrightarrow> slot_at X p' i = insert_at pos s ss ! i"
    and "\<And>a b. b + 32 * (length ss + 1) \<le> TAILER_OFFSET \<Longrightarrow> sub_slice a b p' = sub_slice a b p"
proof -
  let ?n = "length ss" and ?so = "TAILER_OFFSET - 32 * (pos + 1)"
  let ?moved = "patch (TAILER_OFFSET - 32 * (?n + 1))
      (sub_slice (TAILER_OFFSET - 32 * ?n) (TAILER_OFFSET - 32 * pos) p) p"
  define p2 where "p2 = (if pos < ?n then ?moved else p)"
  have len: "length p = PAGE_SIZE" using rep by (rule rep_length)
  have arith: "pos * 32 \<le> ?n * 32" "?n * 32 \<le> 3924" using pos fit by simp_all
  have len_moved: "length (sub_slice (TAILER_OFFSET - 32 * ?n) (TAILER_OFFSET - 32 * pos) p) = 32 * (?n - pos)"
    using len arith by (simp add: length_sub_slice)
  have len2: "length p2 = PAGE_SIZE" using len arith len_moved by (simp add: p2_def length_patch)
  have move: "copy_within (TAILER_OFFSET - ?n * 32) (TAILER_OFFSET - pos * 32) (4052 - ?n * 32) p = Inr ?moved"
    using arith len diff_le_mono2 [OF arith(1), of TAILER_OFFSET]
    by (auto simp: copy_within_def mult.commute intro: order_trans [OF diff_le_self])
  have moved: "bind_se (if pos < ?n then update_se (copy_within (TAILER_OFFSET - ?n * 32)
      (TAILER_OFFSET - pos * 32) (4052 - ?n * 32)) else return_se ()) k p = k () p2"
    for k :: "unit \<Rightarrow> unit pm"
    by (simp add: p2_def se_simps move)
  have slot_write: "on_range (4052 - pos * 32) (TAILER_OFFSET - pos * 32) (RecordSlot_encode X s) p2 =
      Inr (patch ?so (slot_bytes X s) p2)"
    using arith len2 by (subst on_range_slot [OF X]) (simp_all add: mult.commute)
  have step: "insert_slot_bytes X pos s p = (Inr (), patch ?so (slot_bytes X s) p2)"
    using rep_count [OF rep] arith
    by (simp add: insert_slot_bytes_def bind_mut_header [OF rep_mut_header [OF rep]] bind_se_lift
        slot_region_start_for_count_def slot_offset_for_sorted_index_def sub_usize_def
        moved update_se_def slot_write Let_def del: if_split)
  have frame2: "sub_slice a b p2 = sub_slice a b p" if "b + 32 * (?n + 1) \<le> TAILER_OFFSET" for a b
    using that len by (simp add: p2_def sub_slice_patch_before)
  have frame: "sub_slice a b (patch ?so (slot_bytes X s) p2) = sub_slice a b p"
    if b: "b + 32 * (?n + 1) \<le> TAILER_OFFSET" for a b
  proof -
    have "b \<le> ?so" using b arith by simp
    then show ?thesis using len2 by (simp add: sub_slice_patch_before frame2 [OF b])
  qed
  have dec: "PageHeader_decode X (patch ?so (slot_bytes X s) p2) = Inr h"
  proof -
    have "PageHeader_decode X (patch ?so (slot_bytes X s) p2) = PageHeader_decode X p"
      using frame [of 128 0] len len2 fit X arith
      by (intro PageHeader_decode_cong) (simp_all add: length_patch)
    then show ?thesis using rep_decode [OF rep] by simp
  qed
  have slots: "slot_at X (patch ?so (slot_bytes X s) p2) i = insert_at pos s ss ! i" if i: "i \<le> ?n" for i
  proof -
    have i32: "i * 32 \<le> ?n * 32" using i by simp
    consider "i < pos" | "i = pos" | "pos < i" by linarith
    then show ?thesis
    proof cases
      case 1
      then have "i * 32 + 32 \<le> pos * 32" by simp
      then have "slot_at X (patch ?so (slot_bytes X s) p2) i = slot_at X p2 i"
        using X len2 arith by (intro slot_at_patch_low) simp_all
      also have "\<dots> = slot_at X p i"
        using len arith 1 pos len_moved \<open>i * 32 + 32 \<le> pos * 32\<close>
        by (auto simp: p2_def intro!: slot_at_patch_low)
      finally show ?thesis using 1 i pos rep by (simp add: nth_insert_at page_rep_def)
    next
      case 2
      then show ?thesis using slot_at_written [OF X _ len2, of pos s] arith pos by (simp add: nth_insert_at)
    next
      case 3
      then have "pos * 32 + 32 \<le> i * 32" by simp
      then have "slot_at X (patch ?so (slot_bytes X s) p2) i = slot_at X p2 i"
        using X len2 arith i32 by (intro slot_at_patch_high) simp_all
      also have "\<dots> = slot_at X p (i - 1)"
        using slot_at_moved [OF len 3 i] arith 3 i by (simp add: p2_def)
      finally show ?thesis using 3 i pos rep by (simp add: nth_insert_at page_rep_def)
    qed
  qed
  show thesis
    by (rule that [OF step _ dec slots frame]) (use X len2 arith in \<open>simp_all add: length_patch\<close>)
qed

text \<open>The slot, the header and the position that a successful insertion produces.\<close>

definition inserted_slot :: "ext \<Rightarrow> PageHeader \<Rightarrow> u64 \<Rightarrow> u64 \<Rightarrow> byte list \<Rightarrow> RecordSlot" where
  "inserted_slot X h ts tid payload =
     (RecordSlot_new (of_nat (align8 (unat (ph_first_free_offset h)))) (of_nat (length payload)) ts tid)
       \<lparr>rs_checksum := crc16 X payload\<rparr>"

definition inserted_header :: "PageHeader \<Rightarrow> nat \<Rightarrow> nat \<Rightarrow> PageHeader" where
  "inserted_header h n len =
     (let off = align8 (unat (ph_first_free_offset h)); e = off + len in
      h\<lparr>ph_lsn := saturating_add (ph_lsn h) 1, ph_record_count := of_nat (n + 1),
        ph_first_free_offset := of_nat e, ph_last_record_offset := of_nat off,
        ph_free_bytes := of_nat (TAILER_OFFSET - 32 * (n + 1) - e)\<rparr>)"

definition insert_position :: "RecordSlot \<Rightarrow> RecordSlot list \<Rightarrow> nat" where
  "insert_position s ss = length (takeWhile (\<lambda>k. k < slot_key s) (map slot_key ss))"

definition insert_fits :: "PageHeader \<Rightarrow> nat \<Rightarrow> nat \<Rightarrow> bool" where
  "insert_fits h n len \<longleftrightarrow> align8 (unat (ph_first_free_offset h)) + len + 32 * (n + 1) \<le> TAILER_OFFSET"

lemma insert_position_le: "insert_position s ss \<le> length ss"
  unfolding insert_position_def using length_takeWhile_le [of _ "map slot_key ss"] by simp

lemma inserted_header_simps [simp]:
  "header_wf (inserted_header h n len) = header_wf h"
  "ph_magic (inserted_header h n len) = ph_magic h"
  "ph_version (inserted_header h n len) = ph_version h"
  "ph_lsn (inserted_header h n len) = saturating_add (ph_lsn h) 1"
  "ph_page_id (inserted_header h n len) = ph_page_id h"
  "ph_prev_page (inserted_header h n len) = ph_prev_page h"
  "ph_next_page (inserted_header h n len) = ph_next_page h"
  "ph_tuple_format_version (inserted_header h n len) = ph_tuple_format_version h"
  "ph_tuple_schema_hash (inserted_header h n len) = ph_tuple_schema_hash h"
  "ph_tuple_flags (inserted_header h n len) = ph_tuple_flags h"
  by (simp_all add: inserted_header_def header_wf_def Let_def)

lemma inserted_fields:
  assumes "insert_fits h n len"
  shows "unat (ph_record_count (inserted_header h n len)) = n + 1"
    and "unat (ph_first_free_offset (inserted_header h n len)) = align8 (unat (ph_first_free_offset h)) + len"
    and "unat (ph_free_bytes (inserted_header h n len)) =
      TAILER_OFFSET - 32 * (n + 1) - (align8 (unat (ph_first_free_offset h)) + len)"
  using assms by (simp_all add: inserted_header_def insert_fits_def Let_def unat_u32_small
      del: of_nat_Suc of_nat_add of_nat_diff)

lemma inserted_slot_fields:
  assumes "insert_fits h n (length payload)"
  shows "unat (rs_offset (inserted_slot X h ts tid payload)) = align8 (unat (ph_first_free_offset h))"
    and "unat (rs_size (inserted_slot X h ts tid payload)) = length payload"
    and "rs_timestamp (inserted_slot X h ts tid payload) = ts"
    and "rs_tuple_id (inserted_slot X h ts tid payload) = tid"
    and "rs_checksum (inserted_slot X h ts tid payload) = crc16 X payload"
  using assms by (simp_all add: inserted_slot_def RecordSlot_new_def insert_fits_def unat_u32_small)

lemma insert_record_no_space:
  assumes ok: "page_ok X p h ss" and "\<not> insert_fits h (length ss) (length payload)"
  shows "insert_record X ts tid payload p = (Inl (EC InsufficientBufferSpace), p)"
proof -
  note rep = page_okD(1) [OF ok]
  let ?ff = "unat (ph_first_free_offset h)"
  have sp: "PAGE_HEADER_SIZE \<le> ?ff" "?ff + 32 * length ss \<le> TAILER_OFFSET"
    "unat (ph_free_bytes h) = TAILER_OFFSET - 32 * length ss - ?ff"
    using page_okD(2) [OF ok] by (simp_all add: space_ok_def)
  have al: "align_up ?ff RECORD_ALIGN = align8 ?ff" using sp by (intro align_up_8) simp
  have "?ff \<le> align8 ?ff" by (rule align8_bounds)
  moreover have "4052 - length ss * 32 < align8 ?ff + length payload"
  proof -
    have "4084 < align8 ?ff + length payload + 32 * (length ss + 1)"
      using assms(2) by (simp add: insert_fits_def)
    then show ?thesis using sp(1) align8_bounds(1) [of ?ff] by (cases "length ss * 32 \<le> 4052") auto
  qed
  ultimately show ?thesis
    using sp
    by (simp add: insert_record_def bind_se_read(1) [of mut_check_page_len, OF rep_mut_check_len [OF rep]]
        bind_mut_header [OF rep_mut_header [OF rep]] Let_def al sub_usize_def bind_se_lift
        slot_region_start_for_count_def rep_count [OF rep] fail_se_eval)
qed

lemma insert_record_run:
  fixes ts tid :: u64
  assumes X: "ext_ok X" and ok: "page_ok X p h ss" and fit: "insert_fits h (length ss) (length payload)"
  defines "s \<equiv> inserted_slot X h ts tid payload" and "h' \<equiv> inserted_header h (length ss) (length payload)"
  obtains p' where "insert_record X ts tid payload p = (Inr (insert_position s ss), p')"
    and "page_rep X p' h' (insert_at (insert_position s ss) s ss)"
    and "\<And>r :: RecordSlot. PAGE_HEADER_SIZE \<le> unat (rs_offset r) \<Longrightarrow>
      unat (rs_offset r) + unat (rs_size r) \<le> unat (ph_first_free_offset h) \<Longrightarrow> slot_payload p' r = slot_payload p r"
    and "slot_payload p' s = payload"
proof -
  let ?n = "length ss" and ?ff = "unat (ph_first_free_offset h)" and ?pos = "insert_position s ss"
  define off where "off = align8 ?ff"
  define e where "e = off + length payload"
  define p1 where "p1 = patch off payload p"
  note rep = page_okD(1) [OF ok]
  have len: "length p = PAGE_SIZE" using rep by (rule rep_length)
  have sp: "PAGE_HEADER_SIZE \<le> ?ff" "?ff + 32 * ?n \<le> TAILER_OFFSET"
    "unat (ph_free_bytes h) = TAILER_OFFSET - 32 * ?n - ?ff"
    using page_okD(2) [OF ok] by (simp_all add: space_ok_def)
  have al: "align_up ?ff RECORD_ALIGN = off" unfolding off_def using sp by (intro align_up_8) simp
  have ff_off: "?ff \<le> off" unfolding off_def by (rule align8_bounds)
  have e_le: "e + 32 * (?n + 1) \<le> TAILER_OFFSET" using fit by (simp add: e_def off_def insert_fits_def)
  have len1: "length p1 = PAGE_SIZE" using len e_le by (simp add: p1_def e_def length_patch)
  have rep1: "page_rep X p1 h ss"
    unfolding page_rep_def
  proof (intro conjI allI impI)
    show "PageHeader_decode X p1 = Inr h"
      using rep_decode [OF rep] sp ff_off e_le len by (simp add: p1_def e_def decode_patch_data)
    fix i assume i: "i < ?n"
    then have "32 * (i + 1) \<le> 32 * ?n" by simp
    then have "slot_at X p1 i = slot_at X p i"
      unfolding p1_def using e_le len by (intro slot_at_patch_low) (simp_all add: e_def)
    then show "slot_at X p1 i = ss ! i" using rep i by (simp add: page_rep_def)
  qed (use len1 rep in \<open>simp_all add: page_rep_def\<close>)
  have pos: "find_insert_position_by_key X s p1 = Inr ?pos"
    using rep_find_insert_position [OF rep1 page_okD(3) [OF ok], of s] by (simp add: insert_position_def)
  obtain p3 where ins: "insert_slot_bytes X ?pos s p1 = (Inr (), p3)" and len3: "length p3 = PAGE_SIZE"
    and dec3: "PageHeader_decode X p3 = Inr h"
    and slots3: "\<And>i. i \<le> ?n \<Longrightarrow> slot_at X p3 i = insert_at ?pos s ss ! i"
    and frame3: "\<And>a b. b + 32 * (?n + 1) \<le> TAILER_OFFSET \<Longrightarrow> sub_slice a b p3 = sub_slice a b p1"
    using insert_slot_bytes_rep [OF X rep1 insert_position_le [of s ss], of s] e_le sp ff_off
    by (auto simp: e_def)
  define p4 where "p4 = patch 0 (header_bytes X h') p3"
  have wf: "header_wf h'" "ph_magic h' = PAGE_HEADER_MAGIC" "ph_version h' = VERSION"
    using rep_wf [OF rep] rep_magic [OF rep] by (simp_all add: h'_def)
  have e_nat: "unat (of_nat e :: u32) = e" using e_le by (intro unat_u32_small) simp
  have hdr: "rewrite_header_after_insert X h (?n + 1) (of_nat e) (of_nat off) p3 = (Inr (), p4)"
  proof -
    have "h' = h\<lparr>ph_lsn := saturating_add (ph_lsn h) 1, ph_record_count := of_nat (?n + 1),
        ph_first_free_offset := of_nat e, ph_last_record_offset := of_nat off,
        ph_free_bytes := of_nat (TAILER_OFFSET - (?n + 1) * 32 - e)\<rparr>"
      by (simp add: h'_def inserted_header_def Let_def off_def e_def mult.commute)
    then show ?thesis
      using on_range_header [OF X wf(1) len3] e_le e_nat
      by (simp add: rewrite_header_after_insert_def slot_region_start_for_count_def sub_usize_def
          bind_se_lift update_se_def p4_def Let_def del: of_nat_Suc of_nat_add)
  qed
  have slot_eq: "(RecordSlot_new (of_nat off) (of_nat (length payload)) ts tid)\<lparr>rs_checksum := crc16 X payload\<rparr> = s"
    by (simp add: s_def inserted_slot_def off_def)
  have copy: "on_range off e (copy_from_slice payload) p = Inr p1"
    unfolding p1_def using e_le len by (intro on_range_copy) (simp_all add: e_def)
  have guard: "\<not> 4052 - ?n * 32 < e" "\<not> TAILER_OFFSET - (32 * ?n + ?ff) < e - ?ff + 32"
    using e_le sp ff_off by (simp_all add: e_def)
  have run: "insert_record X ts tid payload p = (Inr ?pos, p4)"
    using e_le ff_off sp slot_eq guard
    by (simp add: insert_record_def bind_se_read(1) [of mut_check_page_len, OF rep_mut_check_len [OF rep]]
        bind_mut_header [OF rep_mut_header [OF rep]] Let_def al sub_usize_def bind_se_lift
        slot_region_start_for_count_def rep_count [OF rep] e_def [symmetric]
        bind_se_update(1) [of "on_range off e (copy_from_slice payload)", OF copy]
        bind_se_read(1) [of "find_insert_position_by_key X s", OF pos]
        bind_se_eval(1) [of "insert_slot_bytes X ?pos s", OF ins]
        bind_se_eval(1) [of "rewrite_header_after_insert X h (?n + 1) (of_nat e) (of_nat off)", OF hdr, simplified]
        return_se_eval)
  have rep4: "page_rep X p4 h' (insert_at ?pos s ss)"
    unfolding page_rep_def
  proof (intro conjI allI impI)
    show "PageHeader_decode X p4 = Inr h'"
      unfolding p4_def by (rule decode_header_patch [OF X wf(1) len3 wf(2,3)])
    show "unat (ph_record_count h') = length (insert_at ?pos s ss)"
      using inserted_fields(1) [OF fit] by (simp add: h'_def)
    fix i assume i: "i < length (insert_at ?pos s ss)"
    then have "32 * (i + 1) \<le> 32 * (?n + 1)" by simp
    then have "slot_at X p4 i = slot_at X p3 i"
      unfolding p4_def using e_le sp ff_off len3 X wf(1) by (intro slot_at_patch_low) (simp_all add: e_def)
    then show "slot_at X p4 i = insert_at ?pos s ss ! i" using slots3 i by simp
  qed (use len3 X wf(1) e_le in \<open>simp_all add: p4_def length_patch\<close>)
  have frame4: "slot_payload p4 r = slot_payload p1 r"
    if "PAGE_HEADER_SIZE \<le> unat (rs_offset r)" "unat (rs_offset r) + unat (rs_size r) \<le> e" for r
  proof -
    have "slot_payload p4 r = slot_payload p3 r"
      unfolding p4_def using that X wf(1) len3 by (intro slot_payload_patch) simp_all
    then show ?thesis using that e_le by (simp add: slot_payload_def frame3)
  qed
  show thesis
  proof (rule that [OF run rep4])
    fix r :: RecordSlot
    assume r: "PAGE_HEADER_SIZE \<le> unat (rs_offset r)" "unat (rs_offset r) + unat (rs_size r) \<le> ?ff"
    then have "slot_payload p4 r = slot_payload p1 r" using ff_off by (intro frame4) (simp_all add: e_def)
    also have "\<dots> = slot_payload p r"
      unfolding p1_def using r ff_off e_le len by (intro slot_payload_patch) (simp_all add: e_def)
    finally show "slot_payload p4 r = slot_payload p r" .
  next
    have "slot_payload p4 s = slot_payload p1 s"
      using inserted_slot_fields [OF fit] sp ff_off by (intro frame4) (simp_all add: s_def e_def off_def)
    then show "slot_payload p4 s = payload"
      using inserted_slot_fields [OF fit, of X ts tid] e_le len
      by (simp add: slot_payload_def s_def [symmetric] off_def [symmetric] p1_def e_def sub_slice_patch_same)
  qed
qed

lemma aligned_bytes_insert_at:
  "aligned_bytes (insert_at i s ss) = align8 (unat (rs_size s)) + aligned_bytes ss"
  by (simp add: aligned_bytes_def map_insert_at sum_list_insert_at)

lemma insert_record_page_ok:
  fixes ts tid :: u64
  assumes X: "ext_ok X" and ok: "page_ok X p h ss" and fit: "insert_fits h (length ss) (length payload)"
  defines "s \<equiv> inserted_slot X h ts tid payload" and "h' \<equiv> inserted_header h (length ss) (length payload)"
  obtains p' where "insert_record X ts tid payload p = (Inr (insert_position s ss), p')"
    and "page_ok X p' h' (insert_at (insert_position s ss) s ss)"
    and "page_recs p' (insert_at (insert_position s ss) s ss) =
      insert_at (insert_position s ss) ((ts, tid), payload) (page_recs p ss)"
proof -
  let ?pos = "insert_position s ss" and ?ff = "unat (ph_first_free_offset h)"
  obtain p' where run: "insert_record X ts tid payload p = (Inr ?pos, p')"
    and rep: "page_rep X p' h' (insert_at ?pos s ss)"
    and old: "\<And>r :: RecordSlot. PAGE_HEADER_SIZE \<le> unat (rs_offset r) \<Longrightarrow>
      unat (rs_offset r) + unat (rs_size r) \<le> ?ff \<Longrightarrow> slot_payload p' r = slot_payload p r"
    and new: "slot_payload p' s = payload"
    using insert_record_run [OF X ok fit, of ts tid] unfolding s_def h'_def by blast
  have sp: "PAGE_HEADER_SIZE \<le> ?ff" using page_okD(2) [OF ok] by (simp add: space_ok_def)
  note al = align8_bounds [of ?ff]
  note fields = inserted_slot_fields [OF fit, of X ts tid, folded s_def] inserted_fields [OF fit, folded h'_def]
  have old_ok: "slot_layout_ok X p ?ff r" if "r \<in> set ss" for r using page_okD(4) [OF ok that] .
  have old': "slot_payload p' r = slot_payload p r" if "r \<in> set ss" for r
    using old_ok [OF that] by (intro old) (simp_all add: slot_layout_ok_def)
  have "page_ok X p' h' (insert_at ?pos s ss)"
    unfolding page_ok_def
  proof (intro conjI ballI)
    show "space_ok h' (length (insert_at ?pos s ss))"
      using fields fit sp al by (simp add: space_ok_def insert_fits_def)
    show "sorted (map slot_key (insert_at ?pos s ss))"
      using sorted_insert_at_lower_bound [OF page_okD(3) [OF ok] insert_position_def]
      by (simp add: map_insert_at)
    show "align8 (unat (ph_first_free_offset h')) = PAGE_HEADER_SIZE + aligned_bytes (insert_at ?pos s ss)"
      using page_okD(5) [OF ok] al(3) by (simp add: fields aligned_bytes_insert_at align8_add)
    fix r assume "r \<in> set (insert_at ?pos s ss)"
    then consider "r = s" | "r \<in> set ss" by auto
    then show "slot_layout_ok X p' (unat (ph_first_free_offset h')) r"
    proof cases
      case 1
      then show ?thesis using fields new sp al by (simp add: slot_layout_ok_def dvd_eq_mod_eq_0)
    next
      case 2
      then show ?thesis using old_ok [OF 2] old' [OF 2] al(1) fields by (simp add: slot_layout_ok_def)
    qed
  qed (rule rep)
  moreover have "page_recs p' (insert_at ?pos s ss) = insert_at ?pos ((ts, tid), payload) (page_recs p ss)"
    using old' new fields by (simp add: page_recs_def map_insert_at insert_at_def take_map drop_map)
      (meson in_set_dropD in_set_takeD)
  ultimately show thesis using run that by blast
qed

section \<open>Initialisation, links and other header rewrites\<close>

lemma page_ok_header_patch:
  assumes X: "ext_ok X" and ok: "page_ok X p h ss"
    and h': "header_wf h'" "ph_magic h' = PAGE_HEADER_MAGIC" "ph_version h' = VERSION"
      "ph_record_count h' = ph_record_count h" "ph_first_free_offset h' = ph_first_free_offset h"
      "ph_free_bytes h' = ph_free_bytes h"
  shows "page_ok X (patch 0 (header_bytes X h') p) h' ss"
    and "page_recs (patch 0 (header_bytes X h') p) ss = page_recs p ss"
proof -
  let ?p = "patch 0 (header_bytes X h') p"
  note rep = page_okD(1) [OF ok] and sp = page_okD(2) [OF ok]
  have len: "length p = PAGE_SIZE" using rep by (rule rep_length)
  have payload: "slot_payload ?p s = slot_payload p s" if "s \<in> set ss" for s
    using page_okD(4) [OF ok that] X h'(1) len
    by (intro slot_payload_patch) (simp_all add: slot_layout_ok_def)
  have "page_rep X ?p h' ss"
    unfolding page_rep_def
  proof (intro conjI allI impI)
    show "PageHeader_decode X ?p = Inr h'" by (rule decode_header_patch [OF X h'(1) len h'(2,3)])
    fix i assume i: "i < length ss"
    then have "32 * (i + 1) \<le> 32 * length ss" by simp
    then have "slot_at X ?p i = slot_at X p i"
      using sp X h'(1) len by (intro slot_at_patch_low) (simp_all add: space_ok_def)
    then show "slot_at X ?p i = ss ! i" using rep i by (simp add: page_rep_def)
  qed (use rep X h' len in \<open>simp_all add: page_rep_def length_patch\<close>)
  then show "page_ok X ?p h' ss"
    using ok h' payload by (simp add: page_ok_def space_ok_def slot_layout_ok_def)
  show "page_recs ?p ss = page_recs p ss" using payload by (simp add: page_recs_def)
qed

definition linked_header :: "PageHeader \<Rightarrow> PageId \<Rightarrow> PageId \<Rightarrow> PageHeader" where
  "linked_header h prev_page next_page =
     h\<lparr>ph_lsn := saturating_add (ph_lsn h) 1, ph_prev_page := prev_page, ph_next_page := next_page\<rparr>"

lemma set_page_links_ok:
  assumes X: "ext_ok X" and ok: "page_ok X p h ss"
  obtains p' where "set_page_links X prev_page next_page p = (Inr (), p')"
    and "page_ok X p' (linked_header h prev_page next_page) ss" and "page_recs p' ss = page_recs p ss"
proof -
  let ?h = "linked_header h prev_page next_page"
  note rep = page_okD(1) [OF ok]
  have h: "header_wf ?h" "ph_magic ?h = PAGE_HEADER_MAGIC" "ph_version ?h = VERSION"
    "ph_record_count ?h = ph_record_count h" "ph_first_free_offset ?h = ph_first_free_offset h"
    "ph_free_bytes ?h = ph_free_bytes h"
    using rep_wf [OF rep] rep_magic [OF rep] by (simp_all add: linked_header_def header_wf_def)
  have "set_page_links X prev_page next_page p = (Inr (), patch 0 (header_bytes X ?h) p)"
    using on_range_header [OF X h(1) rep_length [OF rep]]
    by (simp add: set_page_links_def bind_mut_header [OF rep_mut_header [OF rep]] Let_def update_se_def
        linked_header_def)
  then show thesis using that page_ok_header_patch [OF X ok h] by blast
qed

definition empty_header :: "PageId \<Rightarrow> u32 \<Rightarrow> u64 \<Rightarrow> u64 \<Rightarrow> PageHeader" where
  "empty_header page_id tuple_format_version tuple_schema_hash tuple_flags =
     (PageHeader_new page_id)\<lparr>ph_lsn := 1, ph_first_free_offset := of_nat PAGE_HEADER_SIZE,
       ph_last_record_offset := of_nat PAGE_HEADER_SIZE, ph_record_count := 0,
       ph_free_bytes := of_nat (TAILER_OFFSET - PAGE_HEADER_SIZE),
       ph_tuple_format_version := tuple_format_version, ph_tuple_schema_hash := tuple_schema_hash,
       ph_tuple_flags := tuple_flags\<rparr>"

lemma init_empty_ok:
  assumes X: "ext_ok X" and len: "length p = PAGE_SIZE"
  obtains p' where "init_empty_with_tuple_meta X page_id v hash flags p = (Inr (), p')"
    and "page_ok X p' (empty_header page_id v hash flags) []"
proof -
  let ?h = "empty_header page_id v hash flags" and ?z = "replicate PAGE_SIZE 0 :: byte list"
  let ?t = "\<lparr>pt_lsn = 1, pt_checksum = 0\<rparr> :: PageTailer"
  define p1 where "p1 = patch 0 (header_bytes X ?h) ?z"
  define p2 where "p2 = patch TAILER_OFFSET (tailer_bytes X ?t) p1"
  have wf: "header_wf ?h" "ph_magic ?h = PAGE_HEADER_MAGIC" "ph_version ?h = VERSION"
    by (simp_all add: empty_header_def header_wf_def PageHeader_new_def)
  have len1: "length p1 = PAGE_SIZE" using X wf(1) by (simp add: p1_def length_patch)
  have hdr: "on_range 0 PAGE_HEADER_SIZE (PageHeader_encode X ?h) ?z = Inr p1"
    using on_range_header [OF X wf(1), of ?z] by (simp add: p1_def)
  have run: "init_empty_with_tuple_meta X page_id v hash flags p = (Inr (), p2)"
    using len hdr [unfolded empty_header_def] on_range_tailer [OF X len1, of ?t]
    by (simp add: init_empty_with_tuple_meta_def bind_se_def read_se_def write_se_def update_se_def
        mut_check_page_len_def Let_def p2_def)
  have "PageHeader_decode X p2 = Inr ?h"
    using decode_header_patch [OF X wf(1), of ?z] wf len1 X
    by (simp add: p2_def decode_patch_data p1_def [symmetric])
  then have "page_ok X p2 ?h []"
    using len1 X
    by (simp add: page_ok_def page_rep_def space_ok_def aligned_bytes_def p2_def length_patch
        empty_header_def)
  then show thesis using that run by blast
qed

end
