(* ===== verification/Page_Rebuild.thy ===== *)
theory Page_Rebuild
  imports Page_Block_Mut
begin

text \<open>
  What rebuilding a page does: \<open>rebuild_from_entries\<close> packs the records in key order from
  the start of the data area and rewrites the slot array.  From this follow the
  behaviour of \<open>compact\<close>, \<open>delete_record\<close> and \<open>update_record\<close> on records.
\<close>

type_synonym entry = "RecordSlot \<times> byte list"

section \<open>Packed placement\<close>

fun packed_slots :: "ext \<Rightarrow> entry list \<Rightarrow> nat \<Rightarrow> RecordSlot list" where
  "packed_slots X [] start = []"
| "packed_slots X ((s, payload) # es) start =
     s\<lparr>rs_offset := of_nat (align8 start), rs_size := of_nat (length payload),
       rs_checksum := crc16 X payload\<rparr> # packed_slots X es (align8 start + length payload)"

fun packed_end :: "entry list \<Rightarrow> nat \<Rightarrow> nat" where
  "packed_end [] start = start"
| "packed_end ((s, payload) # es) start = packed_end es (align8 start + length payload)"

lemma length_packed_slots [simp]: "length (packed_slots X es start) = length es"
  by (induction X es start rule: packed_slots.induct) simp_all

lemma packed_end_ge: "start \<le> packed_end es start"
proof (induction es start rule: packed_end.induct)
  case (2 s payload es start)
  then show ?case using align8_bounds(1) [of start] by simp
qed simp

lemma align8_packed_end:
  "align8 (packed_end es start) = align8 start + (\<Sum>e \<leftarrow> es. align8 (length (snd e)))"
proof (induction es start rule: packed_end.induct)
  case (2 s payload es start)
  then show ?case using align8_bounds(3) [of start] by (simp add: align8_add)
qed simp

lemma packed_slots_bounds:
  assumes "packed_end es start < 2 ^ 32" and "s \<in> set (packed_slots X es start)"
  shows "start \<le> unat (rs_offset s) \<and> unat (rs_offset s) + unat (rs_size s) \<le> packed_end es start \<and>
    unat (rs_offset s) mod 8 = 0"
  using assms
proof (induction X es start rule: packed_slots.induct)
  case (2 X s0 payload es start)
  let ?e = "align8 start + length payload"
  have e: "?e \<le> packed_end es ?e" by (rule packed_end_ge)
  then have small: "align8 start < 2 ^ 32" "length payload < 2 ^ 32" using 2(2) by simp_all
  note al = align8_bounds [of start]
  consider "s = s0\<lparr>rs_offset := of_nat (align8 start), rs_size := of_nat (length payload),
      rs_checksum := crc16 X payload\<rparr>" | "s \<in> set (packed_slots X es ?e)"
    using 2(3) by auto
  then show ?case
  proof cases
    case 1
    then show ?thesis using small e al by (simp add: unat_u32_small dvd_eq_mod_eq_0)
  next
    case 2
    then show ?thesis using "2.IH" "2.prems"(1) al by auto
  qed
qed simp

lemma packed_aligned_bytes:
  "packed_end es start < 2 ^ 32 \<Longrightarrow>
   aligned_bytes (packed_slots X es start) = (\<Sum>e \<leftarrow> es. align8 (length (snd e)))"
proof (induction X es start rule: packed_slots.induct)
  case (2 X s payload es start)
  moreover have "align8 start + length payload \<le> packed_end es (align8 start + length payload)"
    by (rule packed_end_ge)
  ultimately show ?case by (simp add: aligned_bytes_def unat_u32_small)
qed (simp add: aligned_bytes_def)

lemma packed_checksums:
  "map rs_checksum (packed_slots X es start) = map (crc16 X) (map snd es)"
  by (induction X es start rule: packed_slots.induct) simp_all

lemma map_pair_zip: "map (\<lambda>x. (f x, g x)) xs = zip (map f xs) (map g xs)"
  by (induction xs) simp_all

lemma packed_slots_keys:
  "map (\<lambda>s. (rs_timestamp s, rs_tuple_id s)) (packed_slots X es start) =
   map (\<lambda>e. (rs_timestamp (fst e), rs_tuple_id (fst e))) es"
  by (induction X es start rule: packed_slots.induct) simp_all

text \<open>Packing in key order keeps the slots sorted: the new offsets grow with the keys.\<close>

lemma packed_slots_sorted:
  assumes "packed_end es start < 2 ^ 32" and "sorted (map (\<lambda>e. slot_key (fst e)) es)"
  shows "sorted (map slot_key (packed_slots X es start))"
  using assms
proof (induction X es start rule: packed_slots.induct)
  case (2 X s payload es start)
  let ?e = "align8 start + length payload"
  have e: "?e \<le> packed_end es ?e" by (rule packed_end_ge)
  then have small: "unat (of_nat (align8 start) :: u32) = align8 start"
    using 2(2) by (intro unat_u32_small) simp
  have "slot_key (s\<lparr>rs_offset := of_nat (align8 start), rs_size := of_nat (length payload),
      rs_checksum := crc16 X payload\<rparr>) \<le> slot_key t" if t: "t \<in> set (packed_slots X es ?e)" for t
  proof -
    have "(rs_timestamp t, rs_tuple_id t) \<in> set (map (\<lambda>e. (rs_timestamp (fst e), rs_tuple_id (fst e))) es)"
      unfolding packed_slots_keys [of X es ?e, symmetric] using t by auto
    then obtain x where x: "x \<in> set es" "rs_timestamp t = rs_timestamp (fst x)" "rs_tuple_id t = rs_tuple_id (fst x)"
      by auto
    have "slot_key s \<le> slot_key (fst x)" using 2(3) x(1) by auto
    moreover have "?e \<le> unat (rs_offset t)" using packed_slots_bounds [OF _ t] 2(2) by simp
    then have "(of_nat (align8 start) :: u32) \<le> rs_offset t" by (simp add: word_le_nat_alt small)
    ultimately show ?thesis using x by (auto simp: slot_key_def less_eq_prod_def)
  qed
  then show ?case using 2 by simp
qed simp

section \<open>The packing loop\<close>

lemma rebuild_loop_ok:
  assumes "packed_end es start + 32 * (length slots + length es) \<le> TAILER_OFFSET"
    and "length p = PAGE_SIZE"
  obtains p' where
    "rebuild_loop X es start slots p = (Inr (packed_end es start, slots @ packed_slots X es start), p')"
    and "length p' = PAGE_SIZE" and "\<And>a b. b \<le> start \<Longrightarrow> sub_slice a b p' = sub_slice a b p"
    and "map (slot_payload p') (packed_slots X es start) = map snd es"
  using assms
proof (induction X es start slots arbitrary: p thesis rule: rebuild_loop.induct)
  case (1 X start slots)
  show ?case by (rule 1(1) [of p]) (use 1(3) in \<open>simp_all add: return_se_eval\<close>)
next
  case (2 X s payload es start slots)
  let ?off = "align8 start" and ?e = "align8 start + length payload"
  let ?s = "s\<lparr>rs_offset := of_nat ?off, rs_size := of_nat (length payload), rs_checksum := crc16 X payload\<rparr>"
  have al: "start \<le> ?off" by (rule align8_bounds)
  have e: "?e \<le> packed_end es ?e" by (rule packed_end_ge)
  have fit: "packed_end es ?e + 32 * (length (slots @ [?s]) + length es) \<le> TAILER_OFFSET" using 2(3) by simp
  have up: "align_up start RECORD_ALIGN = ?off" using al e fit by (intro align_up_8) simp
  define p1 where "p1 = patch ?off payload p"
  have copy: "on_range ?off ?e (copy_from_slice payload) p = Inr p1"
    unfolding p1_def using e fit 2(4) by (intro on_range_copy) simp_all
  have len1: "length p1 = PAGE_SIZE" unfolding p1_def using e fit 2(4) by (simp add: length_patch)
  have guard: "\<not> TAILER_OFFSET - (32 + length slots * 32) < ?e" "32 + length slots * 32 \<le> TAILER_OFFSET"
    using e fit by simp_all
  obtain p' where run: "rebuild_loop X es ?e (slots @ [?s]) p1 =
      (Inr (packed_end es ?e, (slots @ [?s]) @ packed_slots X es ?e), p')"
    and len': "length p' = PAGE_SIZE" and frame: "\<And>a b. b \<le> ?e \<Longrightarrow> sub_slice a b p' = sub_slice a b p1"
    and pay: "map (slot_payload p') (packed_slots X es ?e) = map snd es"
    using "2.IH" [OF up [symmetric] refl less_irrefl [of ?e] refl _ fit len1] by blast
  have small: "unat (of_nat ?off :: u32) = ?off" "unat (of_nat (length payload) :: u32) = length payload"
    using e fit by (simp_all add: unat_u32_small)
  have step: "rebuild_loop X ((s, payload) # es) start slots p = rebuild_loop X es ?e (slots @ [?s]) p1"
    using guard
    by (simp add: Let_def up slot_region_start_for_count_def sub_usize_def bind_se_lift
        bind_se_update(1) [of "on_range ?off ?e (copy_from_slice payload)", OF copy])
  show ?case
  proof (rule 2(2))
    show "rebuild_loop X ((s, payload) # es) start slots p =
        (Inr (packed_end ((s, payload) # es) start, slots @ packed_slots X ((s, payload) # es) start), p')"
      using step run by simp
    show "sub_slice a b p' = sub_slice a b p" if "b \<le> start" for a b
      using that al e fit 2(4) by (simp add: frame p1_def sub_slice_patch_before)
    have "slot_payload p' ?s = payload"
      using e fit 2(4) by (simp add: slot_payload_def small frame p1_def sub_slice_patch_same)
    then show "map (slot_payload p') (packed_slots X ((s, payload) # es) start) = map snd ((s, payload) # es)"
      using pay by simp
  qed (rule len')
qed

lemma rebuild_loop_full:
  assumes "\<not> packed_end es start + 32 * (length slots + length es) \<le> TAILER_OFFSET"
    and "start + 32 * length slots \<le> TAILER_OFFSET" and "32 * (length slots + length es) \<le> TAILER_OFFSET"
    and "length p = PAGE_SIZE"
  shows "\<exists>p'. rebuild_loop X es start slots p = (Inl (EC InsufficientBufferSpace), p')"
  using assms
proof (induction X es start slots arbitrary: p rule: rebuild_loop.induct)
  case (2 X s payload es start slots)
  let ?off = "align8 start" and ?e = "align8 start + length payload"
  let ?s = "s\<lparr>rs_offset := of_nat ?off, rs_size := of_nat (length payload), rs_checksum := crc16 X payload\<rparr>"
  have up: "align_up start RECORD_ALIGN = ?off" using 2(3) by (intro align_up_8) simp
  have room: "32 + length slots * 32 \<le> TAILER_OFFSET" using 2(4) by simp
  show ?case
  proof (cases "?e \<le> TAILER_OFFSET - (32 + length slots * 32)")
    case True
    define p1 where "p1 = patch ?off payload p"
    have copy: "on_range ?off ?e (copy_from_slice payload) p = Inr p1"
      unfolding p1_def using True 2(5) by (intro on_range_copy) simp_all
    have "\<exists>p'. rebuild_loop X es ?e (slots @ [?s]) p1 = (Inl (EC InsufficientBufferSpace), p')"
    proof (rule "2.IH" [OF up [symmetric] refl less_irrefl [of ?e] refl])
      show "?e + 32 * length (slots @ [?s]) \<le> TAILER_OFFSET" using True room by simp
      show "length p1 = PAGE_SIZE" unfolding p1_def using True 2(5) by (simp add: length_patch)
    qed (use 2(2,4) in simp_all)
    moreover have "rebuild_loop X ((s, payload) # es) start slots p = rebuild_loop X es ?e (slots @ [?s]) p1"
      using room leD [OF True]
      by (simp add: Let_def up slot_region_start_for_count_def sub_usize_def bind_se_lift
          bind_se_update(1) [of "on_range ?off ?e (copy_from_slice payload)", OF copy])
    ultimately show ?thesis by simp
  next
    case False
    then show ?thesis
      using room
      by (simp add: Let_def up slot_region_start_for_count_def sub_usize_def bind_se_lift fail_se_eval not_le)
  qed
qed simp

section \<open>Writing the slot array\<close>

lemma write_slots_ok:
  assumes X: "ext_ok X" and "32 * (idx + length ss) \<le> TAILER_OFFSET" and "length p = PAGE_SIZE"
  obtains p' where "write_slots X idx ss p = (Inr (), p')" and "length p' = PAGE_SIZE"
    and "\<And>j. j < length ss \<Longrightarrow> slot_at X p' (idx + j) = ss ! j"
    and "\<And>i. i < idx \<Longrightarrow> slot_at X p' i = slot_at X p i"
    and "\<And>a b. b + 32 * (idx + length ss) \<le> TAILER_OFFSET \<Longrightarrow> sub_slice a b p' = sub_slice a b p"
  using assms(2,3)
proof (induction ss arbitrary: idx p thesis)
  case Nil
  show ?case by (rule Nil(1) [of p]) (use Nil(3) in \<open>simp_all add: return_se_eval\<close>)
next
  case (Cons s ss)
  let ?off = "TAILER_OFFSET - 32 * (idx + 1)"
  define p1 where "p1 = patch ?off (slot_bytes X s) p"
  have room: "32 * (idx + 1) \<le> TAILER_OFFSET" "32 + idx * 32 \<le> TAILER_OFFSET" using Cons.prems(2) by simp_all
  have len1: "length p1 = PAGE_SIZE" unfolding p1_def using X room Cons.prems(3) by (simp add: length_patch)
  have fit1: "32 * (idx + 1 + length ss) \<le> TAILER_OFFSET" using Cons.prems(2) by simp
  have enc: "on_range (4052 - idx * 32) (TAILER_OFFSET - idx * 32) (RecordSlot_encode X s) p = Inr p1"
    unfolding p1_def using room Cons.prems(3) by (subst on_range_slot [OF X]) (simp_all add: mult.commute)
  obtain p' where run: "write_slots X (idx + 1) ss p1 = (Inr (), p')" and len': "length p' = PAGE_SIZE"
    and later: "\<And>j. j < length ss \<Longrightarrow> slot_at X p' (idx + 1 + j) = ss ! j"
    and earlier: "\<And>i. i < idx + 1 \<Longrightarrow> slot_at X p' i = slot_at X p1 i"
    and frame: "\<And>a b. b + 32 * (idx + 1 + length ss) \<le> TAILER_OFFSET \<Longrightarrow> sub_slice a b p' = sub_slice a b p1"
    using Cons.IH [OF _ fit1 len1] by blast
  have step: "write_slots X idx (s # ss) p = write_slots X (idx + 1) ss p1"
    using room
    by (simp add: sub_usize_def bind_se_lift
        bind_se_update(1) [of "on_range (4052 - idx * 32) (TAILER_OFFSET - idx * 32) (RecordSlot_encode X s)", OF enc])
  show ?case
  proof (rule Cons.prems(1))
    show "write_slots X idx (s # ss) p = (Inr (), p')" using step run by simp
    show "slot_at X p' (idx + j) = (s # ss) ! j" if "j < length (s # ss)" for j
    proof (cases j)
      case 0
      then show ?thesis using earlier [of idx] slot_at_written [OF X room(1) Cons.prems(3), of s] by (simp add: p1_def)
    next
      case (Suc k)
      then show ?thesis using later [of k] that by simp
    qed
    show "slot_at X p' i = slot_at X p i" if "i < idx" for i
    proof -
      have "i * 32 + 32 \<le> idx * 32" using that by simp
      then have "slot_at X p1 i = slot_at X p i"
        unfolding p1_def using room Cons.prems(3) X by (intro slot_at_patch_low) simp_all
      then show ?thesis using earlier [of i] that by simp
    qed
    show "sub_slice a b p' = sub_slice a b p" if "b + 32 * (idx + length (s # ss)) \<le> TAILER_OFFSET" for a b
      using that frame [of b a] Cons.prems(3) unfolding p1_def by (simp add: sub_slice_patch_before)
  qed (rule len')
qed

lemma mut_header_decode:
  assumes "length p = PAGE_SIZE" and "PageHeader_decode X p = Inr h"
  shows "mut_header X p = Inr h"
  using assms PageHeader_decode_fields(2) [OF assms(2)]
  by (simp add: mut_header_def pb_try_new_def ensure_latest_page_def compat_rs_check_version
      pb_header_def pb_check_page_len_def PageHeader_decode_prefix)

definition rebuilt_header :: "PageHeader \<Rightarrow> RecordSlot list \<Rightarrow> u32 \<Rightarrow> PageHeader" where
  "rebuilt_header h ss first_free =
     h\<lparr>ph_lsn := saturating_add (ph_lsn h) 1, ph_record_count := of_nat (length ss),
       ph_first_free_offset := first_free,
       ph_last_record_offset := (if ss = [] then of_nat PAGE_HEADER_SIZE else Max (set (map rs_offset ss))),
       ph_free_bytes := of_nat (TAILER_OFFSET - 32 * length ss - unat first_free)\<rparr>"

lemma rebuilt_header_simps [simp]:
  "header_wf (rebuilt_header h ss ff) = header_wf h"
  "ph_magic (rebuilt_header h ss ff) = ph_magic h" "ph_version (rebuilt_header h ss ff) = ph_version h"
  "ph_lsn (rebuilt_header h ss ff) = saturating_add (ph_lsn h) 1"
  "ph_page_id (rebuilt_header h ss ff) = ph_page_id h"
  "ph_prev_page (rebuilt_header h ss ff) = ph_prev_page h"
  "ph_next_page (rebuilt_header h ss ff) = ph_next_page h"
  "ph_tuple_format_version (rebuilt_header h ss ff) = ph_tuple_format_version h"
  "ph_tuple_schema_hash (rebuilt_header h ss ff) = ph_tuple_schema_hash h"
  "ph_tuple_flags (rebuilt_header h ss ff) = ph_tuple_flags h"
  "ph_first_free_offset (rebuilt_header h ss ff) = ff"
  by (simp_all add: rebuilt_header_def header_wf_def)

lemma rewrite_header_and_slots_ok:
  assumes X: "ext_ok X" and len: "length p = PAGE_SIZE" and dec: "PageHeader_decode X p = Inr h"
    and lo: "PAGE_HEADER_SIZE \<le> unat ff" and hi: "unat ff + 32 * length ss \<le> TAILER_OFFSET"
  obtains p' where "rewrite_header_and_slots X (ph_page_id h) ss ff p = (Inr (), p')"
    and "page_rep X p' (rebuilt_header h ss ff) ss"
    and "\<And>a b. PAGE_HEADER_SIZE \<le> a \<Longrightarrow> b \<le> unat ff \<Longrightarrow> sub_slice a b p' = sub_slice a b p"
proof -
  let ?n = "length ss" and ?h = "rebuilt_header h ss ff"
  have n: "?n * 32 \<le> TAILER_OFFSET" using hi by simp
  define p1 where "p1 = patch (TAILER_OFFSET - ?n * 32) (replicate (TAILER_OFFSET - (TAILER_OFFSET - ?n * 32)) 0) p"
  have fill: "on_range (TAILER_OFFSET - ?n * 32) TAILER_OFFSET fill_zero p = Inr p1"
    unfolding p1_def using len by (intro on_range_fill) simp_all
  have len1: "length p1 = PAGE_SIZE" unfolding p1_def using len n by (simp add: length_patch)
  have frame1: "sub_slice a b p1 = sub_slice a b p" if "b \<le> unat ff" for a b
    unfolding p1_def using that hi len by (intro sub_slice_patch_before) simp_all
  obtain p2 where run2: "write_slots X 0 ss p1 = (Inr (), p2)" and len2: "length p2 = PAGE_SIZE"
    and slots2: "\<And>j. j < ?n \<Longrightarrow> slot_at X p2 (0 + j) = ss ! j"
    and frame2: "\<And>a b. b + 32 * (0 + ?n) \<le> TAILER_OFFSET \<Longrightarrow> sub_slice a b p2 = sub_slice a b p1"
    using write_slots_ok [OF X _ len1, of 0 ss] n by (auto simp: mult.commute)
  have frame: "sub_slice a b p2 = sub_slice a b p" if "b \<le> unat ff" for a b
    using that hi by (simp add: frame2 frame1)
  have dec2: "PageHeader_decode X p2 = Inr h"
    using PageHeader_decode_cong [OF frame [OF lo]] len len2 dec by simp
  have wf: "header_wf ?h" "ph_magic ?h = PAGE_HEADER_MAGIC" "ph_version ?h = VERSION"
    using PageHeader_decode_wf [OF dec] PageHeader_decode_magic [OF dec] by simp_all
  have small: "unat (of_nat ?n :: u32) = ?n" using n by (intro unat_u32_small) simp
  define p3 where "p3 = patch 0 (header_bytes X ?h) p2"
  have hdr: "on_range 0 PAGE_HEADER_SIZE (PageHeader_encode X ?h) p2 = Inr p3"
    unfolding p3_def by (rule on_range_header [OF X wf(1) len2])
  have run: "rewrite_header_and_slots X (ph_page_id h) ss ff p = (Inr (), p3)"
    using n hi hdr [unfolded rebuilt_header_def]
    by (simp add: rewrite_header_and_slots_def slot_region_start_for_count_def sub_usize_def bind_se_lift
        bind_se_update(1) [of "on_range (TAILER_OFFSET - ?n * 32) TAILER_OFFSET fill_zero", OF fill]
        bind_se_eval(1) [of "write_slots X 0 ss", OF run2] mult.commute
        bind_mut_header [OF mut_header_decode [OF len2 dec2]] Let_def update_se_def)
  show thesis
  proof (rule that [OF run])
    show "page_rep X p3 ?h ss"
      unfolding page_rep_def
    proof (intro conjI allI impI)
      show "PageHeader_decode X p3 = Inr ?h"
        unfolding p3_def by (rule decode_header_patch [OF X wf(1) len2 wf(2,3)])
      show "unat (ph_record_count ?h) = ?n" by (simp add: rebuilt_header_def small)
      fix i assume i: "i < ?n"
      then have "32 * (i + 1) \<le> 32 * ?n" by simp
      then have "slot_at X p3 i = slot_at X p2 i"
        unfolding p3_def using X wf(1) len2 lo hi by (intro slot_at_patch_low) simp_all
      then show "slot_at X p3 i = ss ! i" using slots2 [OF i] by simp
    qed (use X wf(1) len2 n in \<open>simp_all add: p3_def length_patch\<close>)
    show "sub_slice a b p3 = sub_slice a b p" if "PAGE_HEADER_SIZE \<le> a" "b \<le> unat ff" for a b
      using that X wf(1) len2 by (simp add: p3_def sub_slice_patch_after frame)
  qed
qed

section \<open>Rebuilding a page from entries\<close>

definition sorted_entries :: "entry list \<Rightarrow> entry list" where
  "sorted_entries es = sort_key (\<lambda>e. slot_key (fst e)) es"

definition entry_recs :: "entry list \<Rightarrow> rec list" where
  "entry_recs es = map (\<lambda>(s, payload). ((rs_timestamp s, rs_tuple_id s), payload)) es"

definition rebuild_fits :: "entry list \<Rightarrow> bool" where
  "rebuild_fits es \<longleftrightarrow> packed_end (sorted_entries es) PAGE_HEADER_SIZE + 32 * length es \<le> TAILER_OFFSET"

definition rebuilt_slots :: "ext \<Rightarrow> entry list \<Rightarrow> RecordSlot list" where
  "rebuilt_slots X es = packed_slots X (sorted_entries es) PAGE_HEADER_SIZE"

lemma length_sorted_entries [simp]: "length (sorted_entries es) = length es"
  by (simp add: sorted_entries_def)

lemma sorted_sorted_entries: "sorted (map (\<lambda>e. slot_key (fst e)) (sorted_entries es))"
  unfolding sorted_entries_def by (rule sorted_sort_key)

lemma rebuild_from_entries_ok:
  assumes X: "ext_ok X" and rep: "page_rep X p h ss" and fit: "rebuild_fits es"
  defines "ss' \<equiv> rebuilt_slots X es"
    and "h' \<equiv> rebuilt_header h (rebuilt_slots X es) (of_nat (packed_end (sorted_entries es) PAGE_HEADER_SIZE))"
  obtains p' where "rebuild_from_entries X es p = (Inr (), p')" and "page_ok X p' h' ss'"
    and "page_recs p' ss' = entry_recs (sorted_entries es)"
proof -
  let ?es = "sorted_entries es"
  define e where "e = packed_end ?es PAGE_HEADER_SIZE"
  have len: "length p = PAGE_SIZE" using rep by (rule rep_length)
  have e_fit: "e + 32 * length es \<le> TAILER_OFFSET" using fit by (simp add: rebuild_fits_def e_def)
  have e_ge: "PAGE_HEADER_SIZE \<le> e" unfolding e_def by (rule packed_end_ge)
  have small: "unat (of_nat e :: u32) = e" and e32: "packed_end ?es PAGE_HEADER_SIZE < 2 ^ 32"
    using e_fit by (simp_all add: unat_u32_small e_def)
  define p1 where "p1 = patch PAGE_HEADER_SIZE (replicate (TAILER_OFFSET - PAGE_HEADER_SIZE) 0) p"
  have fill: "on_range PAGE_HEADER_SIZE TAILER_OFFSET fill_zero p = Inr p1"
    unfolding p1_def using len by (intro on_range_fill) simp_all
  have len1: "length p1 = PAGE_SIZE" unfolding p1_def using len by (simp add: length_patch)
  have dec1: "PageHeader_decode X p1 = Inr h"
    unfolding p1_def using rep_decode [OF rep] len by (simp add: decode_patch_data)
  obtain p2 where run2: "rebuild_loop X ?es PAGE_HEADER_SIZE [] p1 = (Inr (e, ss'), p2)"
    and len2: "length p2 = PAGE_SIZE"
    and frame2: "\<And>a b. b \<le> PAGE_HEADER_SIZE \<Longrightarrow> sub_slice a b p2 = sub_slice a b p1"
    and pay2: "map (slot_payload p2) ss' = map snd ?es"
    using rebuild_loop_ok [of ?es PAGE_HEADER_SIZE "[]" p1 X] e_fit len1
    by (auto simp: e_def ss'_def rebuilt_slots_def)
  have dec2: "PageHeader_decode X p2 = Inr h"
    using PageHeader_decode_cong [OF frame2 [OF order_refl]] len1 len2 dec1 by simp
  have len_ss: "length ss' = length es" by (simp add: ss'_def rebuilt_slots_def)
  have h'_eq: "h' = rebuilt_header h ss' (of_nat e)" by (simp add: h'_def ss'_def e_def)
  obtain p3 where run3: "rewrite_header_and_slots X (ph_page_id h) ss' (of_nat e) p2 = (Inr (), p3)"
    and rep3: "page_rep X p3 h' ss'"
    and frame3: "\<And>a b. PAGE_HEADER_SIZE \<le> a \<Longrightarrow> b \<le> e \<Longrightarrow> sub_slice a b p3 = sub_slice a b p2"
    using rewrite_header_and_slots_ok [OF X len2 dec2, of "of_nat e" ss'] e_ge e_fit
    unfolding small len_ss h'_eq by blast
  have bounds: "PAGE_HEADER_SIZE \<le> unat (rs_offset s) \<and> unat (rs_offset s) + unat (rs_size s) \<le> e \<and>
      unat (rs_offset s) mod 8 = 0" if "s \<in> set ss'" for s
    using packed_slots_bounds [OF e32, of s X] that unfolding ss'_def rebuilt_slots_def e_def by blast
  have pay3: "slot_payload p3 s = slot_payload p2 s" if "s \<in> set ss'" for s
    using bounds [OF that] by (simp add: slot_payload_def frame3)
  have run: "rebuild_from_entries X es p = (Inr (), p3)"
    using run3
    by (simp add: rebuild_from_entries_def bind_mut_header [OF rep_mut_header [OF rep]] Let_def
        bind_se_update(1) [of "on_range PAGE_HEADER_SIZE TAILER_OFFSET fill_zero", OF fill]
        sorted_entries_def [symmetric] bind_se_eval(1) [of "rebuild_loop X ?es PAGE_HEADER_SIZE []", OF run2])
  have pays: "map (slot_payload p3) ss' = map snd ?es" using pay2 pay3 by (metis (no_types, lifting) map_eq_conv)
  show thesis
  proof (rule that [OF run])
    have "map rs_checksum ss' = map (\<lambda>s. crc16 X (slot_payload p3 s)) ss'"
      using arg_cong [OF pays, of "map (crc16 X)"] unfolding ss'_def rebuilt_slots_def packed_checksums
      by (simp add: o_def)
    then have "rs_checksum s = crc16 X (slot_payload p3 s)" if "s \<in> set ss'" for s
      using that by (simp add: map_eq_conv)
    then have slots: "slot_layout_ok X p3 (unat (ph_first_free_offset h')) s" if "s \<in> set ss'" for s
      using bounds [OF that] that by (simp add: slot_layout_ok_def h'_eq small)
    have "space_ok h' (length ss')"
      using e_ge e_fit len_ss
      by (simp add: space_ok_def h'_eq small) (simp add: rebuilt_header_def small unat_u32_small del: of_nat_diff)
    moreover have "align8 (unat (ph_first_free_offset h')) = PAGE_HEADER_SIZE + aligned_bytes ss'"
      using packed_aligned_bytes [OF e32, of X] align8_packed_end [of ?es PAGE_HEADER_SIZE]
      by (simp add: h'_eq small ss'_def rebuilt_slots_def flip: e_def)
    moreover have "sorted (map slot_key ss')"
      unfolding ss'_def rebuilt_slots_def by (rule packed_slots_sorted [OF e32 sorted_sorted_entries])
    ultimately show "page_ok X p3 h' ss'" using rep3 slots by (simp add: page_ok_def)
    have "page_recs p3 ss' =
        zip (map (\<lambda>s. (rs_timestamp s, rs_tuple_id s)) ss') (map (slot_payload p3) ss')"
      unfolding page_recs_def by (rule map_pair_zip)
    also have "\<dots> = zip (map (\<lambda>e. (rs_timestamp (fst e), rs_tuple_id (fst e))) ?es) (map snd ?es)"
      unfolding pays by (simp add: ss'_def rebuilt_slots_def packed_slots_keys)
    also have "\<dots> = entry_recs ?es"
      unfolding entry_recs_def case_prod_unfold by (rule map_pair_zip [symmetric])
    finally show "page_recs p3 ss' = entry_recs ?es" .
  qed
qed

lemma rebuild_from_entries_full:
  assumes X: "ext_ok X" and rep: "page_rep X p h ss" and fit: "\<not> rebuild_fits es"
    and room: "32 * length es \<le> TAILER_OFFSET"
  shows "\<exists>p'. rebuild_from_entries X es p = (Inl (EC InsufficientBufferSpace), p')"
proof -
  let ?es = "sorted_entries es"
  define p1 where "p1 = patch PAGE_HEADER_SIZE (replicate (TAILER_OFFSET - PAGE_HEADER_SIZE) 0) p"
  have len: "length p = PAGE_SIZE" using rep by (rule rep_length)
  have fill: "on_range PAGE_HEADER_SIZE TAILER_OFFSET fill_zero p = Inr p1"
    unfolding p1_def using len by (intro on_range_fill) simp_all
  have "length p1 = PAGE_SIZE" unfolding p1_def using len by (simp add: length_patch)
  then obtain p2 where loop: "rebuild_loop X ?es PAGE_HEADER_SIZE [] p1 = (Inl (EC InsufficientBufferSpace), p2)"
    using rebuild_loop_full [of ?es PAGE_HEADER_SIZE "[]" p1 X] fit room by (auto simp: rebuild_fits_def)
  have "rebuild_from_entries X es p = (Inl (EC InsufficientBufferSpace), p2)"
    by (simp add: rebuild_from_entries_def bind_mut_header [OF rep_mut_header [OF rep]] Let_def
        bind_se_update(1) [of "on_range PAGE_HEADER_SIZE TAILER_OFFSET fill_zero", OF fill]
        sorted_entries_def [symmetric] bind_se_eval(2) [of "rebuild_loop X ?es PAGE_HEADER_SIZE []", OF loop])
  then show ?thesis by blast
qed

section \<open>Compaction, deletion and update\<close>

definition entries_of :: "byte list \<Rightarrow> RecordSlot list \<Rightarrow> entry list" where
  "entries_of p ss = map (\<lambda>s. (s, slot_payload p s)) ss"

lemma entry_recs_entries_of [simp]: "entry_recs (entries_of p ss) = page_recs p ss"
  by (simp add: entry_recs_def entries_of_def page_recs_def)

lemma length_entries_of [simp]: "length (entries_of p ss) = length ss"
  by (simp add: entries_of_def)

lemma sorted_entries_of: "sorted (map slot_key ss) \<Longrightarrow> sorted_entries (entries_of p ss) = entries_of p ss"
  unfolding sorted_entries_def by (rule sort_key_id_if_sorted) (simp add: entries_of_def o_def)

lemma page_ok_slot_end:
  assumes "page_ok X p h ss" and "s \<in> set ss"
  shows "unat (rs_offset s) + unat (rs_size s) \<le> PAGE_SIZE"
  using page_okD(2,4) [OF assms(1)] assms(2) by (fastforce simp: space_ok_def slot_layout_ok_def)

lemma length_slot_payload:
  "page_ok X p h ss \<Longrightarrow> s \<in> set ss \<Longrightarrow> length (slot_payload p s) = unat (rs_size s)"
  using page_ok_slot_end [of X p h ss s] rep_length [OF page_okD(1), of X p h ss]
  by (simp add: slot_payload_def length_sub_slice)

lemma materialize_page_ok:
  assumes "page_ok X p h ss" and "set ts \<subseteq> set ss"
  shows "materialize_entries X ts p = Inr (entries_of p ts)"
proof -
  note rep = page_okD(1) [OF assms(1)]
  have "map_rs (\<lambda>s. let offset = unat (rs_offset s); sz = unat (rs_size s) in
      bind_rs (index_range offset (offset + sz) p) (\<lambda>d. Inr (s, d))) ts = Inr (map (\<lambda>s. (s, slot_payload p s)) ts)"
    by (rule map_rs_total)
      (use page_ok_slot_end [OF assms(1)] assms(2) rep_length [OF rep] in
        \<open>auto simp: index_range_def slot_payload_def Let_def\<close>)
  then show ?thesis by (simp add: materialize_entries_def rep_try_new [OF rep] entries_of_def)
qed

lemma sum_entries_of:
  assumes "page_ok X p h ss" and "set ts \<subseteq> set ss"
  shows "(\<Sum>e \<leftarrow> entries_of p ts. align8 (length (snd e))) = aligned_bytes ts"
proof -
  have "map (\<lambda>s. align8 (length (slot_payload p s))) ts = map (\<lambda>s. align8 (unat (rs_size s))) ts"
    using length_slot_payload [OF assms(1)] assms(2) by (auto simp: subset_iff)
  moreover have "map (\<lambda>e. align8 (length (snd e))) (entries_of p ts) = map (\<lambda>s. align8 (length (slot_payload p s))) ts"
    by (simp add: entries_of_def)
  ultimately show ?thesis by (simp only: aligned_bytes_def)
qed

text \<open>What every successful rewrite keeps of the header.\<close>

definition bumped :: "PageHeader \<Rightarrow> PageHeader \<Rightarrow> bool" where
  "bumped h h' \<longleftrightarrow>
     ph_lsn h' = saturating_add (ph_lsn h) 1 \<and> ph_page_id h' = ph_page_id h \<and>
     ph_prev_page h' = ph_prev_page h \<and> ph_next_page h' = ph_next_page h \<and>
     ph_tuple_format_version h' = ph_tuple_format_version h \<and>
     ph_tuple_schema_hash h' = ph_tuple_schema_hash h \<and> ph_tuple_flags h' = ph_tuple_flags h"

lemma bumped_simps [simp]:
  "bumped h (rebuilt_header h ss ff)" "bumped h (inserted_header h n len)"
  by (simp_all add: bumped_def)

lemma compact_with_slots_ok:
  assumes X: "ext_ok X" and ok: "page_ok X p h ss" and sub: "set ts \<subseteq> set ss"
    and sorted: "sorted (map slot_key ts)"
    and fit: "PAGE_HEADER_SIZE + aligned_bytes ts + 32 * length ts \<le> TAILER_OFFSET"
  obtains p' h' ss' where "compact_with_slots X ts p = (Inr (), p')" and "page_ok X p' h' ss'"
    and "page_recs p' ss' = page_recs p ts" and "bumped h h'"
proof -
  let ?es = "entries_of p ts"
  have es: "sorted_entries ?es = ?es" by (rule sorted_entries_of [OF sorted])
  have "packed_end ?es PAGE_HEADER_SIZE \<le> align8 (packed_end ?es PAGE_HEADER_SIZE)" by (rule align8_bounds)
  also have "\<dots> = PAGE_HEADER_SIZE + aligned_bytes ts"
    by (simp add: align8_packed_end sum_entries_of [OF ok sub])
  finally have "rebuild_fits ?es" using fit by (simp add: rebuild_fits_def es)
  from rebuild_from_entries_ok [OF X page_okD(1) [OF ok] this]
  obtain p' where run: "rebuild_from_entries X ?es p = (Inr (), p')"
    and ok': "page_ok X p' (rebuilt_header h (rebuilt_slots X ?es) (of_nat (packed_end (sorted_entries ?es) PAGE_HEADER_SIZE)))
      (rebuilt_slots X ?es)"
    and recs: "page_recs p' (rebuilt_slots X ?es) = entry_recs (sorted_entries ?es)" by blast
  have "compact_with_slots X ts p = (Inr (), p')"
    using run
    by (simp add: compact_with_slots_def
        bind_se_read(1) [of "materialize_entries X ts", OF materialize_page_ok [OF ok sub]])
  from that [OF this ok' _ bumped_simps(1)] recs show thesis by (simp add: es)
qed

lemma aligned_bytes_remove_at:
  "i < length ss \<Longrightarrow> aligned_bytes (remove_at i ss) + align8 (unat (rs_size (ss ! i))) = aligned_bytes ss"
  using sum_list_remove_at [of i "map (\<lambda>s. align8 (unat (rs_size s))) ss"]
  by (simp add: aligned_bytes_def map_remove_at)

text \<open>Deleting a record of a well-formed page always succeeds: the freed slot covers any
  change of padding.\<close>

lemma delete_record_ok:
  assumes X: "ext_ok X" and ok: "page_ok X p h ss" and i: "i < length ss"
  obtains p' h' ss' where "delete_record X i p = (Inr (), p')" and "page_ok X p' h' ss'"
    and "page_recs p' ss' = remove_at i (page_recs p ss)" and "bumped h h'"
proof -
  note rep = page_okD(1) [OF ok]
  let ?ff = "unat (ph_first_free_offset h)"
  have "?ff + 32 * length ss \<le> TAILER_OFFSET" using page_okD(2) [OF ok] by (simp add: space_ok_def)
  moreover have "PAGE_HEADER_SIZE + aligned_bytes (remove_at i ss) \<le> ?ff + 7"
    using page_okD(5) [OF ok] aligned_bytes_remove_at [OF i] align8_bounds(2) [of ?ff] by simp
  moreover have "length (remove_at i ss) + 1 = length ss" using length_remove_at [OF i] i by simp
  ultimately have fit: "PAGE_HEADER_SIZE + aligned_bytes (remove_at i ss) + 32 * length (remove_at i ss) \<le> TAILER_OFFSET"
    by simp
  have sorted: "sorted (map slot_key (remove_at i ss))"
    using page_okD(3) [OF ok] by (simp add: map_remove_at sorted_remove_at)
  have run: "delete_record X i p = compact_with_slots X (remove_at i ss) p"
    using i
    by (simp add: delete_record_def bind_se_read(1) [of mut_check_page_len, OF rep_mut_check_len [OF rep]]
        bind_se_read(1) [of "read_all_slots X", OF rep_read_all_slots [OF rep]])
  have recs: "page_recs p (remove_at i ss) = remove_at i (page_recs p ss)"
    by (simp add: page_recs_def map_remove_at)
  show thesis
    by (rule compact_with_slots_ok [OF X ok set_remove_at_subset sorted fit])
      (rule that, simp_all add: run recs)
qed

end
