(* ===== verification/Page_Store.thy ===== *)
theory Page_Store
  imports Page_Rebuild "HOL-Library.Multiset"
begin

text \<open>
  The page as a keyed record store.  \<open>page_map\<close> reads a page as a finite map from
  \<open>(timestamp, tuple_id)\<close> to payload; lookup, insertion, update and deletion implement the
  operations of a map, and they keep the page well formed.  The interface
  \<open>record_store\<close> states these laws; the recovery code is proved against it.
\<close>

section \<open>Sorted record lists as maps\<close>

definition keys_ok :: "rec list \<Rightarrow> bool" where
  "keys_ok rs \<longleftrightarrow> sorted (map fst rs) \<and> distinct (map fst rs)"

lemma keys_ok_eqI:
  assumes "keys_ok xs" and "keys_ok ys" and "map_of xs = map_of ys"
  shows "xs = ys"
proof -
  have "set xs = set ys" using assms map_of_inject_set [of xs ys] by (simp add: keys_ok_def)
  moreover have "inj_on fst (set xs)" using assms(1) by (simp add: keys_ok_def distinct_map)
  ultimately show ?thesis
    using assms(1,2) map_sorted_distinct_set_unique [of fst xs ys] by (simp add: keys_ok_def)
qed

lemma map_of_insert_at:
  assumes "k \<notin> fst ` set rs"
  shows "map_of (insert_at i (k, v) rs) = (map_of rs)(k \<mapsto> v)"
proof
  fix x
  have "map_of rs x = map_of (take i rs @ drop i rs) x" by simp
  then have "map_of rs x = (map_of (drop i rs) ++ map_of (take i rs)) x" by (simp only: map_of_append)
  moreover have "map_of (take i rs) k = None"
    using assms by (auto simp: map_of_eq_None_iff dest: in_set_takeD)
  ultimately show "map_of (insert_at i (k, v) rs) x = ((map_of rs)(k \<mapsto> v)) x"
    by (auto simp: insert_at_def map_add_def split: option.split)
qed

lemma map_of_remove_at:
  assumes "i < length rs" and "distinct (map fst rs)"
  shows "map_of (remove_at i rs) = (map_of rs)(fst (rs ! i) := None)"
proof
  fix x
  have split: "rs = take i rs @ rs ! i # drop (Suc i) rs" using assms(1) by (rule id_take_nth_drop)
  have "distinct (map fst (take i rs @ rs ! i # drop (Suc i) rs))" using assms(2) split by simp
  then have "fst (rs ! i) \<notin> fst ` set (take i rs)" "fst (rs ! i) \<notin> fst ` set (drop (Suc i) rs)"
    by (auto simp del: set_map simp: set_map [symmetric])
  then have out: "map_of (take i rs) (fst (rs ! i)) = None" "map_of (drop (Suc i) rs) (fst (rs ! i)) = None"
    by (simp_all only: map_of_eq_None_iff not_False_eq_True)
  have "map_of rs x = map_of (take i rs @ rs ! i # drop (Suc i) rs) x" using split by simp
  then show "map_of (remove_at i rs) x = ((map_of rs)(fst (rs ! i) := None)) x"
    using out by (cases "rs ! i") (auto simp: remove_at_def map_add_def split: option.split)
qed

section \<open>Pages as maps\<close>

definition good_page :: "ext \<Rightarrow> byte list \<Rightarrow> bool" where
  "good_page X p \<longleftrightarrow> (\<exists>h ss. page_ok X p h ss \<and> distinct (map fst (page_recs p ss)))"

text \<open>The records that a reader of the page sees, and the page as a map.\<close>

definition page_records_of :: "ext \<Rightarrow> byte list \<Rightarrow> rec list" where
  "page_records_of X p = (case pb_slots X p of Inl _ \<Rightarrow> [] | Inr ss \<Rightarrow> page_recs p ss)"

definition page_map :: "ext \<Rightarrow> byte list \<Rightarrow> rec_key \<rightharpoonup> byte list" where
  "page_map X p = map_of (page_records_of X p)"

definition page_links :: "ext \<Rightarrow> byte list \<Rightarrow> PageId \<times> PageId" where
  "page_links X p = (case pb_header X p of Inl _ \<Rightarrow> (NONE_PAGE_ID, NONE_PAGE_ID)
                     | Inr h \<Rightarrow> (ph_prev_page h, ph_next_page h))"

lemma rep_records_of: "page_rep X p h ss \<Longrightarrow> page_records_of X p = page_recs p ss"
  by (simp add: page_records_of_def rep_slots)

lemma rep_links: "page_rep X p h ss \<Longrightarrow> page_links X p = (ph_prev_page h, ph_next_page h)"
  by (simp add: page_links_def rep_header)

lemma slot_keys_sorted: "sorted (map slot_key ss) \<Longrightarrow> sorted (map fst (page_recs p ss))"
  by (induction ss) (auto simp: page_recs_def slot_key_def less_eq_prod_def)

lemma page_recs_nth: "i < length ss \<Longrightarrow> page_recs p ss ! i = ((rs_timestamp (ss ! i), rs_tuple_id (ss ! i)), slot_payload p (ss ! i))"
  by (simp add: page_recs_def)

lemma length_page_recs [simp]: "length (page_recs p ss) = length ss"
  by (simp add: page_recs_def)

lemma good_pageE:
  assumes "good_page X p"
  obtains h ss where "page_ok X p h ss" and "page_rep X p h ss" and "distinct (map fst (page_recs p ss))"
    and "page_map X p = map_of (page_recs p ss)" and "page_records_of X p = page_recs p ss"
    and "page_links X p = (ph_prev_page h, ph_next_page h)"
  using assms by (auto simp: good_page_def page_map_def rep_records_of rep_links dest: page_okD(1))

lemma good_pageI:
  assumes "page_ok X p h ss" and "distinct (map fst (page_recs p ss))"
  shows "good_page X p" and "page_map X p = map_of (page_recs p ss)"
    and "page_links X p = (ph_prev_page h, ph_next_page h)"
  using assms by (auto simp: good_page_def page_map_def rep_records_of rep_links dest: page_okD(1))

lemma good_page_keys_ok: "good_page X p \<Longrightarrow> keys_ok (page_records_of X p)"
  by (elim good_pageE) (simp add: keys_ok_def slot_keys_sorted page_okD(3))

text \<open>Two well-formed pages with the same map hold the same records in the same order.\<close>

lemma good_page_records_eqI:
  assumes "good_page X p" and "good_page X q" and "page_map X p = page_map X q"
  shows "page_records_of X p = page_records_of X q"
  using keys_ok_eqI [OF good_page_keys_ok [OF assms(1)] good_page_keys_ok [OF assms(2)]] assms(3)
  by (simp add: page_map_def)

section \<open>Lookup\<close>

lemma find_slot_index_position:
  assumes "page_ok X p h ss"
  shows "find_slot_index X p ts tid = Inr (position (\<lambda>r. fst r = (ts, tid)) (page_recs p ss))"
proof -
  have "position (\<lambda>r. fst r = (ts, tid)) (page_recs p ss) =
      position (\<lambda>s. rs_timestamp s = ts \<and> rs_tuple_id s = tid) ss"
    unfolding page_recs_def by (induction ss) auto
  then show ?thesis using rep_find_slot_index [OF page_okD(1,3) [OF assms]] by simp
qed

lemma map_of_position:
  assumes "distinct (map fst rs)"
  shows "map_of rs k = map_option (\<lambda>i. snd (rs ! i)) (position (\<lambda>r. fst r = k) rs)"
proof (cases "position (\<lambda>r. fst r = k) rs")
  case None
  then have "map_of rs k = None" by (auto simp: position_None_iff map_of_eq_None_iff)
  then show ?thesis using None by simp
next
  case (Some i)
  then have "i < length rs" "fst (rs ! i) = k" using position_SomeD [OF Some] by simp_all
  then have "(k, snd (rs ! i)) \<in> set rs" by (metis nth_mem prod.collapse)
  then show ?thesis using assms Some by (simp add: map_of_is_SomeI)
qed

lemma find_slot_index_map:
  assumes "good_page X p"
  shows "find_slot_index X p ts tid = Inr None \<Longrightarrow> page_map X p (ts, tid) = None"
    and "find_slot_index X p ts tid = Inr (Some i) \<Longrightarrow>
      i < length (page_records_of X p) \<and> fst (page_records_of X p ! i) = (ts, tid) \<and>
      page_map X p (ts, tid) = Some (snd (page_records_of X p ! i))"
    and "\<exists>r. find_slot_index X p ts tid = Inr r"
proof -
  obtain h ss where ok: "page_ok X p h ss" and d: "distinct (map fst (page_recs p ss))"
    and m: "page_map X p = map_of (page_recs p ss)" and r: "page_records_of X p = page_recs p ss"
    using assms by (elim good_pageE)
  note find = find_slot_index_position [OF ok, of ts tid]
  show "find_slot_index X p ts tid = Inr None \<Longrightarrow> page_map X p (ts, tid) = None"
    using find map_of_position [OF d, of "(ts, tid)"] by (simp add: m)
  show "find_slot_index X p ts tid = Inr (Some i) \<Longrightarrow>
      i < length (page_records_of X p) \<and> fst (page_records_of X p ! i) = (ts, tid) \<and>
      page_map X p (ts, tid) = Some (snd (page_records_of X p ! i))"
    using find map_of_position [OF d, of "(ts, tid)"] position_SomeD [of "\<lambda>r. fst r = (ts, tid)" "page_recs p ss" i]
    unfolding m r by simp
  show "\<exists>r. find_slot_index X p ts tid = Inr r" using find by blast
qed

section \<open>Space\<close>

definition recs_bytes :: "rec list \<Rightarrow> nat" where
  "recs_bytes rs = (\<Sum>r \<leftarrow> rs. align8 (length (snd r)))"

text \<open>Room for one more record: it depends on the records of the page only, not on the
  order in which they were written.\<close>

definition roomy :: "rec list \<Rightarrow> nat \<Rightarrow> bool" where
  "roomy rs len \<longleftrightarrow> PAGE_HEADER_SIZE + recs_bytes rs + len + 32 * (length rs + 1) \<le> TAILER_OFFSET"

lemma aligned_bytes_recs: "page_ok X p h ss \<Longrightarrow> aligned_bytes ss = recs_bytes (page_recs p ss)"
  using sum_entries_of [of X p h ss ss]
  by (simp add: recs_bytes_def page_recs_def entries_of_def aligned_bytes_def o_def)

lemma insert_fits_roomy: "page_ok X p h ss \<Longrightarrow> insert_fits h (length ss) len \<longleftrightarrow> roomy (page_recs p ss) len"
  by (simp add: insert_fits_def roomy_def page_okD(5) aligned_bytes_recs)

section \<open>Insertion, deletion and update on maps\<close>

lemma insert_record_store:
  assumes X: "ext_ok X" and good: "good_page X p" and new: "page_map X p (ts, tid) = None"
    and room: "roomy (page_records_of X p) (length payload)"
  obtains pos p' where "insert_record X ts tid payload p = (Inr pos, p')" and "good_page X p'"
    and "page_map X p' = (page_map X p)((ts, tid) \<mapsto> payload)" and "page_links X p' = page_links X p"
    and "page_records_of X p' = insert_at pos ((ts, tid), payload) (page_records_of X p)"
proof -
  from good obtain h ss where ok: "page_ok X p h ss" and d: "distinct (map fst (page_recs p ss))"
    and m: "page_map X p = map_of (page_recs p ss)" and r: "page_records_of X p = page_recs p ss"
    and l: "page_links X p = (ph_prev_page h, ph_next_page h)"
    by (elim good_pageE)
  let ?s = "inserted_slot X h ts tid payload" and ?h = "inserted_header h (length ss) (length payload)"
  let ?pos = "insert_position ?s ss"
  have fit: "insert_fits h (length ss) (length payload)"
    using room by (simp add: r insert_fits_roomy [OF ok])
  obtain p' where run: "insert_record X ts tid payload p = (Inr ?pos, p')"
    and ok': "page_ok X p' ?h (insert_at ?pos ?s ss)"
    and recs: "page_recs p' (insert_at ?pos ?s ss) = insert_at ?pos ((ts, tid), payload) (page_recs p ss)"
    by (rule insert_record_page_ok [OF X ok fit])
  have notin: "(ts, tid) \<notin> fst ` set (page_recs p ss)" using new by (simp add: m map_of_eq_None_iff)
  have "distinct (map fst (insert_at ?pos ((ts, tid), payload) (page_recs p ss)))"
    using d notin by (simp add: map_insert_at distinct_insert_at)
  then have d': "distinct (map fst (page_recs p' (insert_at ?pos ?s ss)))" by (simp only: recs)
  show thesis
  proof (rule that [OF run good_pageI(1) [OF ok' d']])
    show "page_map X p' = (page_map X p)((ts, tid) \<mapsto> payload)"
      by (simp add: good_pageI(2) [OF ok' d'] recs m map_of_insert_at [OF notin])
    show "page_links X p' = page_links X p" by (simp add: good_pageI(3) [OF ok' d'] l)
    show "page_records_of X p' = insert_at ?pos ((ts, tid), payload) (page_records_of X p)"
      by (simp add: rep_records_of [OF page_okD(1) [OF ok']] recs r)
  qed
qed

lemma insert_record_full:
  assumes "good_page X p" and "\<not> roomy (page_records_of X p) (length payload)"
  shows "insert_record X ts tid payload p = (Inl (EC InsufficientBufferSpace), p)"
proof -
  obtain h ss where ok: "page_ok X p h ss" and r: "page_records_of X p = page_recs p ss"
    using assms(1) by (elim good_pageE)
  then have "\<not> insert_fits h (length ss) (length payload)" using assms(2) by (simp add: insert_fits_roomy [OF ok])
  then show ?thesis by (rule insert_record_no_space [OF ok])
qed

lemma delete_record_store:
  assumes X: "ext_ok X" and good: "good_page X p" and i: "i < length (page_records_of X p)"
  obtains p' where "delete_record X i p = (Inr (), p')" and "good_page X p'"
    and "page_map X p' = (page_map X p)(fst (page_records_of X p ! i) := None)"
    and "page_links X p' = page_links X p" and "page_records_of X p' = remove_at i (page_records_of X p)"
proof -
  from good obtain h ss where ok: "page_ok X p h ss" and d: "distinct (map fst (page_recs p ss))"
    and m: "page_map X p = map_of (page_recs p ss)" and r: "page_records_of X p = page_recs p ss"
    and l: "page_links X p = (ph_prev_page h, ph_next_page h)"
    by (elim good_pageE)
  have i': "i < length ss" using i by (simp add: r)
  obtain p' h' ss' where run: "delete_record X i p = (Inr (), p')" and ok': "page_ok X p' h' ss'"
    and recs: "page_recs p' ss' = remove_at i (page_recs p ss)" and b: "bumped h h'"
    by (rule delete_record_ok [OF X ok i'])
  have d': "distinct (map fst (page_recs p' ss'))" using d by (simp add: recs map_remove_at distinct_remove_at)
  show thesis
  proof (rule that [OF run good_pageI(1) [OF ok' d']])
    show "page_map X p' = (page_map X p)(fst (page_records_of X p ! i) := None)"
      using i' by (simp add: good_pageI(2) [OF ok' d'] recs m r map_of_remove_at [OF _ d])
    show "page_links X p' = page_links X p" using b by (simp add: good_pageI(3) [OF ok' d'] l bumped_def)
    show "page_records_of X p' = remove_at i (page_records_of X p)"
      by (simp add: rep_records_of [OF page_okD(1) [OF ok']] recs r)
  qed
qed

lemma delete_record_out_of_range:
  assumes "good_page X p" and "\<not> i < length (page_records_of X p)"
  shows "delete_record X i p = (Inl (EC Decode), p)"
proof -
  obtain h ss where rep: "page_rep X p h ss" and r: "page_records_of X p = page_recs p ss"
    using assms(1) by (elim good_pageE)
  then show ?thesis
    using assms(2)
    by (simp add: delete_record_def bind_se_read(1) [of mut_check_page_len, OF rep_mut_check_len [OF rep]]
        bind_se_read(1) [of "read_all_slots X", OF rep_read_all_slots [OF rep]] fail_se_def)
qed

definition updated_slot :: "ext \<Rightarrow> u64 \<Rightarrow> u64 \<Rightarrow> byte list \<Rightarrow> RecordSlot" where
  "updated_slot X ts tid payload =
     (RecordSlot_new 0 (of_nat (length payload)) ts tid)\<lparr>rs_checksum := crc16 X payload\<rparr>"

definition update_entries ::
    "ext \<Rightarrow> byte list \<Rightarrow> RecordSlot list \<Rightarrow> nat \<Rightarrow> u64 \<Rightarrow> u64 \<Rightarrow> byte list \<Rightarrow> entry list" where
  "update_entries X p ss i ts tid payload =
     entries_of p (remove_at i ss) @ [(updated_slot X ts tid payload, payload)]"

lemma sort_key_map: "sort_key f (map g xs) = map g (sort_key (\<lambda>x. f (g x)) xs)"
proof -
  have ins: "insort_key f (g x) (map g ys) = map g (insort_key (\<lambda>x. f (g x)) x ys)" for x ys
    by (induction ys) simp_all
  show ?thesis by (induction xs) (simp_all add: ins)
qed

lemma length_update_entries: "i < length ss \<Longrightarrow> length (update_entries X p ss i ts tid payload) = length ss"
  by (simp add: update_entries_def length_remove_at)

lemma update_position:
  obtains j where "position (\<lambda>s. slot_key s = slot_key (updated_slot X ts tid payload))
    (sort_key slot_key (map fst (update_entries X p ss i ts tid payload))) = Some j"
proof (cases "position (\<lambda>s. slot_key s = slot_key (updated_slot X ts tid payload))
    (sort_key slot_key (map fst (update_entries X p ss i ts tid payload)))")
  case None
  have "updated_slot X ts tid payload \<in> set (sort_key slot_key (map fst (update_entries X p ss i ts tid payload)))"
    by (simp add: update_entries_def)
  then show ?thesis using None unfolding position_None_iff by blast
qed (rule that)

lemma update_record_unfold:
  assumes ok: "page_ok X p h ss" and i: "i < length ss"
  obtains j where "\<And>p'. rebuild_from_entries X (update_entries X p ss i ts tid payload) p = (Inr (), p') \<Longrightarrow>
      update_record X i ts tid payload p = (Inr j, p')"
    and "\<And>e p'. rebuild_from_entries X (update_entries X p ss i ts tid payload) p = (Inl e, p') \<Longrightarrow>
      update_record X i ts tid payload p = (Inl e, p')"
    and "j < length ss"
    and "slot_key (fst (sorted_entries (update_entries X p ss i ts tid payload) ! j)) =
      slot_key (updated_slot X ts tid payload)"
proof -
  note rep = page_okD(1) [OF ok]
  let ?es = "update_entries X p ss i ts tid payload" and ?new = "updated_slot X ts tid payload"
  obtain j where j: "position (\<lambda>s. slot_key s = slot_key ?new) (sort_key slot_key (map fst ?es)) = Some j"
    by (rule update_position)
  have run: "update_record X i ts tid payload p =
      bind_se (rebuild_from_entries X ?es) (\<lambda>_. return_se j) p"
    using i j
    by (simp add: update_record_def bind_se_read(1) [of mut_check_page_len, OF rep_mut_check_len [OF rep]]
        bind_se_read(1) [of "read_all_slots X", OF rep_read_all_slots [OF rep]]
        bind_se_read(1) [of "materialize_entries X (remove_at i ss)",
          OF materialize_page_ok [OF ok set_remove_at_subset]]
        Let_def update_entries_def [symmetric] updated_slot_def [symmetric] bind_se_lift del: map_append)
  have jn: "j < length ss" using position_SomeD [OF j] i by (simp add: length_update_entries)
  have "slot_key (map fst (sorted_entries ?es) ! j) = slot_key ?new"
    using position_SomeD [OF j] unfolding sort_key_map sorted_entries_def by blast
  then have "slot_key (fst (sorted_entries ?es ! j)) = slot_key ?new"
    using jn i by (simp add: length_update_entries)
  then show thesis
    by (rule that [rotated 3]) (use run jn in \<open>simp_all add: bind_se_def return_se_eval\<close>)
qed

lemma keys_update_entries:
  assumes "distinct (map fst (page_recs p ss))" and "i < length ss"
    and key: "fst (page_recs p ss ! i) = (ts, tid)"
  shows "distinct (map fst (entry_recs (sorted_entries (update_entries X p ss i ts tid payload))))"
    and "map_of (entry_recs (sorted_entries (update_entries X p ss i ts tid payload))) =
      (map_of (page_recs p ss))((ts, tid) \<mapsto> payload)"
proof -
  let ?es = "update_entries X p ss i ts tid payload" and ?rs = "remove_at i (page_recs p ss)"
  have recs: "entry_recs ?es = ?rs @ [((ts, tid), payload)]"
    by (simp add: update_entries_def entry_recs_def entries_of_def page_recs_def map_remove_at
        updated_slot_def RecordSlot_new_def o_def)
  have map_rs: "map_of ?rs = (map_of (page_recs p ss))((ts, tid) := None)"
    using map_of_remove_at [OF _ assms(1), of i] assms(2) key by simp
  then have "map_of ?rs (ts, tid) = None" by simp
  then have notin: "(ts, tid) \<notin> fst ` set ?rs" by (simp only: map_of_eq_None_iff not_False_eq_True)
  have d: "distinct (map fst (entry_recs ?es))"
    using distinct_remove_at [OF assms(1), of i] notin
    unfolding recs map_append distinct_append set_map map_remove_at [symmetric] by auto
  have ms: "mset (entry_recs (sorted_entries ?es)) = mset (entry_recs ?es)"
    by (simp add: entry_recs_def sorted_entries_def)
  then have "mset (map fst (entry_recs (sorted_entries ?es))) = mset (map fst (entry_recs ?es))"
    by (simp only: mset_map)
  then show d': "distinct (map fst (entry_recs (sorted_entries ?es)))"
    using d mset_eq_imp_distinct_iff by blast
  have "map_of (entry_recs (sorted_entries ?es)) = map_of (entry_recs ?es)"
    using map_of_inject_set [OF d' d] mset_eq_setD [OF ms] by simp
  also have "\<dots> = (map_of ?rs)((ts, tid) \<mapsto> payload)"
    unfolding recs using \<open>map_of ?rs (ts, tid) = None\<close>
    by (auto simp: map_add_def fun_eq_iff split: option.split)
  finally show "map_of (entry_recs (sorted_entries ?es)) = (map_of (page_recs p ss))((ts, tid) \<mapsto> payload)"
    by (simp add: map_rs)
qed

lemma update_fits:
  assumes "page_ok X p h ss" and "i < length ss"
    and "PAGE_HEADER_SIZE + recs_bytes (remove_at i (page_recs p ss)) + align8 (length payload) +
      32 * length ss \<le> TAILER_OFFSET"
  shows "rebuild_fits (update_entries X p ss i ts tid payload)"
proof -
  let ?es = "update_entries X p ss i ts tid payload"
  have "(\<Sum>e \<leftarrow> sorted_entries ?es. align8 (length (snd e))) = (\<Sum>e \<leftarrow> ?es. align8 (length (snd e)))"
  proof -
    have "mset (map (\<lambda>e. align8 (length (snd e))) (sorted_entries ?es)) = mset (map (\<lambda>e. align8 (length (snd e))) ?es)"
      by (simp add: sorted_entries_def)
    then have "sum_mset (mset (map (\<lambda>e. align8 (length (snd e))) (sorted_entries ?es))) =
        sum_mset (mset (map (\<lambda>e. align8 (length (snd e))) ?es))" by (rule arg_cong)
    then show ?thesis by (simp only: sum_mset_sum_list)
  qed
  also have "\<dots> = recs_bytes (remove_at i (page_recs p ss)) + align8 (length payload)"
    by (simp add: update_entries_def recs_bytes_def entries_of_def page_recs_def map_remove_at o_def)
  finally have "align8 (packed_end (sorted_entries ?es) PAGE_HEADER_SIZE) + 32 * length ss \<le> TAILER_OFFSET"
    using assms(3) by (simp add: align8_packed_end)
  then show ?thesis
    using align8_bounds(1) [of "packed_end (sorted_entries ?es) PAGE_HEADER_SIZE"]
    by (simp add: rebuild_fits_def length_update_entries [OF assms(2)])
qed

lemma update_record_store:
  assumes X: "ext_ok X" and good: "good_page X p" and i: "i < length (page_records_of X p)"
    and key: "fst (page_records_of X p ! i) = (ts, tid)"
  obtains (updated) j p' where "update_record X i ts tid payload p = (Inr j, p')" and "good_page X p'"
      and "page_map X p' = (page_map X p)((ts, tid) \<mapsto> payload)" and "page_links X p' = page_links X p"
      and "j < length (page_records_of X p')" and "page_records_of X p' ! j = ((ts, tid), payload)"
  | (full) p' where "update_record X i ts tid payload p = (Inl (EC InsufficientBufferSpace), p')"
      and "TAILER_OFFSET < PAGE_HEADER_SIZE + recs_bytes (remove_at i (page_records_of X p)) +
        align8 (length payload) + 32 * length (page_records_of X p)"
proof -
  from good obtain h ss where ok: "page_ok X p h ss" and d: "distinct (map fst (page_recs p ss))"
    and m: "page_map X p = map_of (page_recs p ss)" and r: "page_records_of X p = page_recs p ss"
    and l: "page_links X p = (ph_prev_page h, ph_next_page h)"
    by (elim good_pageE)
  note rep = page_okD(1) [OF ok]
  let ?es = "update_entries X p ss i ts tid payload"
  let ?ss = "rebuilt_slots X ?es"
  let ?h = "rebuilt_header h ?ss (of_nat (packed_end (sorted_entries ?es) PAGE_HEADER_SIZE))"
  have i': "i < length ss" and key': "fst (page_recs p ss ! i) = (ts, tid)" using i key by (simp_all add: r)
  obtain j where succ: "\<And>p'. rebuild_from_entries X ?es p = (Inr (), p') \<Longrightarrow>
      update_record X i ts tid payload p = (Inr j, p')"
    and err: "\<And>e p'. rebuild_from_entries X ?es p = (Inl e, p') \<Longrightarrow>
      update_record X i ts tid payload p = (Inl e, p')"
    and j: "j < length ss"
    and jkey: "slot_key (fst (sorted_entries ?es ! j)) = slot_key (updated_slot X ts tid payload)"
    by (rule update_record_unfold [OF ok i', of ts tid payload]) blast
  show thesis
  proof (cases "rebuild_fits ?es")
    case True
    obtain p' where run: "rebuild_from_entries X ?es p = (Inr (), p')" and ok': "page_ok X p' ?h ?ss"
      and recs: "page_recs p' ?ss = entry_recs (sorted_entries ?es)"
      by (rule rebuild_from_entries_ok [OF X rep True])
    have d': "distinct (map fst (page_recs p' ?ss))"
      unfolding recs by (rule keys_update_entries(1) [OF d i' key'])
    have map': "map_of (page_recs p' ?ss) = (map_of (page_recs p ss))((ts, tid) \<mapsto> payload)"
      unfolding recs by (rule keys_update_entries(2) [OF d i' key'])
    have r': "page_records_of X p' = page_recs p' ?ss" by (rule rep_records_of [OF page_okD(1) [OF ok']])
    have len: "length ?ss = length ss" using i' by (simp add: rebuilt_slots_def length_update_entries)
    have jfst: "fst (page_recs p' ?ss ! j) = (ts, tid)"
      using jkey j i' unfolding recs
      by (simp add: entry_recs_def length_update_entries case_prod_unfold slot_key_def updated_slot_def RecordSlot_new_def)
    have "page_recs p' ?ss ! j \<in> set (page_recs p' ?ss)" using j len by simp
    then have "map_of (page_recs p' ?ss) (ts, tid) = Some (snd (page_recs p' ?ss ! j))"
      using jfst d' by (metis map_of_is_SomeI prod.collapse)
    then have "snd (page_recs p' ?ss ! j) = payload" by (simp add: map')
    then have at_j: "page_recs p' ?ss ! j = ((ts, tid), payload)" using jfst by (simp add: prod_eq_iff)
    show thesis
      by (rule updated [OF succ [OF run] good_pageI(1) [OF ok' d']])
        (use at_j j len in \<open>simp_all add: good_pageI(2,3) [OF ok' d'] map' m l r'\<close>)
  next
    case False
    have "32 * length ?es \<le> TAILER_OFFSET"
      using page_okD(2) [OF ok] by (simp add: length_update_entries [OF i'] space_ok_def)
    then obtain p' where run: "rebuild_from_entries X ?es p = (Inl (EC InsufficientBufferSpace), p')"
      using rebuild_from_entries_full [OF X rep False] by blast
    show thesis
      by (rule full [OF err [OF run]]) (use update_fits [OF ok i'] False in \<open>force simp: r not_le [symmetric]\<close>)
  qed
qed

end
