(* ===== verification/Page_Image.thy ===== *)
theory Page_Image
  imports Page_Store
begin

text \<open>
  Whole page images, \<open>storage/time_series/time_series_file/page.rs\<close>: building them from
  records, stamping the log sequence number, and finalising the checksum before
  an image reaches the data file.
\<close>

record TimeSeriesRecord =
  ts_timestamp :: u64
  ts_tuple_id :: u64
  ts_payload :: "byte list"
  ts_page_id :: PageId
  ts_slot_index :: nat

definition finalize_page_image_checksum :: "ext \<Rightarrow> unit pm" where
  "finalize_page_image_checksum X = refresh_tailer_checksum X"

definition stamp_page_image_lsn :: "ext \<Rightarrow> LSN \<Rightarrow> unit pm" where
  "stamp_page_image_lsn X lsn =
     bind_se (read_se (pb_header X)) (\<lambda>header.
     update_se (on_range 0 PAGE_HEADER_SIZE (PageHeader_encode X (header\<lparr>ph_lsn := lsn\<rparr>))))"

definition page_image_checksum_valid :: "ext \<Rightarrow> byte list \<Rightarrow> bool rs" where
  "page_image_checksum_valid X img =
     bind_rs (pb_tailer X img) (\<lambda>tailer.
     bind_rs (header_lsn X img) (\<lambda>lsn.
     Inr (pt_lsn tailer = lsn \<and> is_ok (validate_checksum X tailer img))))"

definition empty_page_image :: "ext \<Rightarrow> PageId \<Rightarrow> u32 \<Rightarrow> u64 \<Rightarrow> u64 \<Rightarrow> byte list rs" where
  "empty_page_image X page_id tuple_format_version tuple_schema_hash tuple_flags =
     exec_se (init_empty_with_tuple_meta X page_id tuple_format_version tuple_schema_hash tuple_flags)
       (replicate PAGE_SIZE 0)"

definition build_entries_page_image ::
    "ext \<Rightarrow> PageId \<Rightarrow> PageId \<Rightarrow> PageId \<Rightarrow> TimeSeriesRecord list \<Rightarrow> u32 \<Rightarrow> u64 \<Rightarrow> u64 \<Rightarrow> byte list rs" where
  "build_entries_page_image X page_id prev_page_id next_page_id entries
       tuple_format_version tuple_schema_hash tuple_flags =
     bind_rs (empty_page_image X page_id tuple_format_version tuple_schema_hash tuple_flags) (\<lambda>page_buf.
     bind_rs (exec_se (set_page_links X prev_page_id next_page_id) page_buf) (\<lambda>page_buf.
     fold_rs (\<lambda>e. exec_se (insert_record X (ts_timestamp e) (ts_tuple_id e) (ts_payload e))) entries page_buf))"

definition page_entries_fit :: "ext \<Rightarrow> TimeSeriesRecord list \<Rightarrow> bool" where
  "page_entries_fit X entries =
     (case exec_se (init_empty X 0) (replicate PAGE_SIZE 0) of
        Inl _ \<Rightarrow> False
      | Inr page \<Rightarrow>
          is_ok (fold_rs (\<lambda>e. exec_se (insert_record X (ts_timestamp e) (ts_tuple_id e) (ts_payload e)))
                   entries page))"

text \<open>\<open>persisted_page_image\<close> of \<open>time_series_file.rs\<close>: the image that a flush writes.\<close>

definition persisted_page_image :: "ext \<Rightarrow> byte list \<Rightarrow> byte list rs" where
  "persisted_page_image X img =
     bind_rs (page_image_checksum_valid X img) (\<lambda>valid.
     if valid then Inr img else exec_se (finalize_page_image_checksum X) img)"

section \<open>Finalised images validate\<close>

lemma page_ok_tailer_patch:
  assumes X: "ext_ok X" and ok: "page_ok X p h ss"
  shows "page_ok X (patch TAILER_OFFSET (tailer_bytes X t) p) h ss"
    and "page_recs (patch TAILER_OFFSET (tailer_bytes X t) p) ss = page_recs p ss"
proof -
  let ?p = "patch TAILER_OFFSET (tailer_bytes X t) p"
  note rep = page_okD(1) [OF ok] and sp = page_okD(2) [OF ok]
  have len: "length p = PAGE_SIZE" using rep by (rule rep_length)
  have payload: "slot_payload ?p s = slot_payload p s" if "s \<in> set ss" for s
    using page_okD(4) [OF ok that] sp X len
    by (intro slot_payload_patch) (simp_all add: slot_layout_ok_def space_ok_def)
  have "page_rep X ?p h ss"
    unfolding page_rep_def
  proof (intro conjI allI impI)
    show "PageHeader_decode X ?p = Inr h" using rep_decode [OF rep] X len by (simp add: decode_patch_data)
    fix i assume i: "i < length ss"
    then have "32 * (i + 1) \<le> 32 * length ss" by simp
    then have "slot_at X ?p i = slot_at X p i"
      using sp len by (intro slot_at_patch_high) (simp_all add: space_ok_def)
    then show "slot_at X ?p i = ss ! i" using rep i by (simp add: page_rep_def)
  qed (use rep X len in \<open>simp_all add: page_rep_def length_patch\<close>)
  then show "page_ok X ?p h ss" using ok payload by (simp add: page_ok_def slot_layout_ok_def)
  show "page_recs ?p ss = page_recs p ss" using payload by (simp add: page_recs_def)
qed

lemma finalize_ok:
  assumes X: "ext_ok X" and ok: "page_ok X p h ss"
  obtains p' where "finalize_page_image_checksum X p = (Inr (), p')" and "page_ok X p' h ss"
    and "page_recs p' ss = page_recs p ss" and "tailer_ok X p' h"
proof -
  note rep = page_okD(1) [OF ok]
  have len: "length p = PAGE_SIZE" using rep by (rule rep_length)
  define t where "t = \<lparr>pt_lsn = ph_lsn h, pt_checksum = crc32 X (sub_slice 0 TAILER_OFFSET p)\<rparr>"
  let ?p = "patch TAILER_OFFSET (tailer_bytes X t) p"
  obtain t0 where t0: "PageTailer_decode X (sub_slice TAILER_OFFSET 4096 p) = Inr t0"
    using len by (simp add: PageTailer_decode_def length_sub_slice)
  have t_eq: "t0\<lparr>pt_lsn := ph_lsn h, pt_checksum := crc32 X (sub_slice 0 TAILER_OFFSET p)\<rparr> = t"
    by (cases t0) (simp add: t_def)
  have "finalize_page_image_checksum X p = (Inr (), ?p)"
    using t0 len on_range_tailer [OF X len, of t] rep_mut_header [OF rep]
    by (simp add: finalize_page_image_checksum_def refresh_tailer_checksum_def bind_se_def read_se_def
        index_range_def refresh_checksum_def checksum_for_page_def update_se_def t_eq)
  moreover have "tailer_ok X ?p h"
  proof -
    have "sub_slice TAILER_OFFSET 4096 ?p = tailer_bytes X t"
      using X len by (intro sub_slice_patch_same) simp_all
    then have "pb_tailer X ?p = Inr t"
      using PageTailer_decode_bytes [OF X, of t "[]"] X len
      by (simp add: pb_tailer_def pb_check_page_len_def length_patch)
    moreover have "sub_slice 0 TAILER_OFFSET ?p = sub_slice 0 TAILER_OFFSET p"
      using len by (intro sub_slice_patch_before) simp_all
    ultimately show ?thesis by (simp add: tailer_ok_def t_def)
  qed
  ultimately show thesis using that page_ok_tailer_patch [OF X ok] by blast
qed

lemma stamp_ok:
  assumes X: "ext_ok X" and ok: "page_ok X p h ss"
  obtains p' where "stamp_page_image_lsn X lsn p = (Inr (), p')" and "page_ok X p' (h\<lparr>ph_lsn := lsn\<rparr>) ss"
    and "page_recs p' ss = page_recs p ss"
proof -
  let ?h = "h\<lparr>ph_lsn := lsn\<rparr>"
  note rep = page_okD(1) [OF ok]
  have h: "header_wf ?h" "ph_magic ?h = PAGE_HEADER_MAGIC" "ph_version ?h = VERSION"
    "ph_record_count ?h = ph_record_count h" "ph_first_free_offset ?h = ph_first_free_offset h"
    "ph_free_bytes ?h = ph_free_bytes h"
    using rep_wf [OF rep] rep_magic [OF rep] by (simp_all add: header_wf_def)
  have "stamp_page_image_lsn X lsn p = (Inr (), patch 0 (header_bytes X ?h) p)"
    using on_range_header [OF X h(1) rep_length [OF rep]]
    by (simp add: stamp_page_image_lsn_def bind_se_def read_se_def rep_header [OF rep] update_se_def)
  then show thesis using that page_ok_header_patch [OF X ok h] by blast
qed

lemma validate_finalized:
  assumes "page_ok X p h ss" and "tailer_ok X p h"
  shows "validate_layout X p = Inr ()"
  using rep_validate_layout [OF page_okD(1) [OF assms(1)]] page_ok_layout [OF assms] by simp

end
