(* ===== verification/Page_Delta.thy ===== *)
theory Page_Delta
  imports Page_Image
begin

text \<open>
  Record-level physical logging of page changes.  The log types are those of
  \<open>wal/pl_entry.rs\<close> and \<open>wal/pl_batch.rs\<close>; the diff of two page images that a commit
  logs is \<open>time_series_file/plan.rs\<close>; the replay of a delta against the data file is
  \<open>time_series_file/wal.rs\<close>.  The data file is its bytes; a write beyond the end fills
  the gap with zeros, as on a POSIX file.
\<close>

section \<open>Log records\<close>

type_synonym OID = u128

record PLFileId =
  partition_id :: OID
  table_id :: OID
  file_index :: u32

record PLPageInit =
  init_prev_page :: PageId
  init_next_page :: PageId
  init_tuple_format_version :: u32
  init_tuple_schema_hash :: u64
  init_tuple_flags :: u64

record PLPageLinks =
  links_prev_page :: PageId
  links_next_page :: PageId

record PLRecordKey =
  key_timestamp :: u64
  key_tuple_id :: u64

record PLRecord =
  rec_timestamp :: u64
  rec_tuple_id :: u64
  rec_payload :: "byte list"

record PageDelta =
  pd_page_id :: PageId
  pd_init :: "PLPageInit option"
  pd_links :: "PLPageLinks option"
  pd_removes :: "PLRecordKey list"
  pd_upserts :: "PLRecord list"

datatype PLOp = PLCreate | PLDelete | PLPageDelta PageDelta

record PLEntry =
  ple_file :: PLFileId
  ple_ops :: "PLOp list"

record PLBatch =
  plb_entries :: "PLEntry list"

section \<open>Diffing two page images\<close>

definition page_record :: "ext \<Rightarrow> byte list \<Rightarrow> nat \<Rightarrow> PLRecord rs" where
  "page_record X page slot_index =
     bind_rs (slot_ref X page slot_index) (\<lambda>slot.
     bind_rs (record_bytes X page slot_index) (\<lambda>payload.
     Inr \<lparr>rec_timestamp = ref_timestamp X slot, rec_tuple_id = ref_tuple_id X slot,
          rec_payload = payload\<rparr>))"

definition page_record_key :: "ext \<Rightarrow> byte list \<Rightarrow> nat \<Rightarrow> PLRecordKey rs" where
  "page_record_key X page slot_index =
     bind_rs (slot_ref X page slot_index) (\<lambda>slot.
     Inr \<lparr>key_timestamp = ref_timestamp X slot, key_tuple_id = ref_tuple_id X slot\<rparr>)"

definition page_records :: "ext \<Rightarrow> byte list \<Rightarrow> PLRecord list rs" where
  "page_records X page = bind_rs (slot_count X page) (\<lambda>count. map_rs (page_record X page) [0..<count])"

definition page_init_delta :: "ext \<Rightarrow> PageId \<Rightarrow> byte list \<Rightarrow> PLOp rs" where
  "page_init_delta X page_id img =
     bind_rs (pb_header X img) (\<lambda>header.
     bind_rs (page_records X img) (\<lambda>upserts.
     Inr (PLPageDelta \<lparr>
       pd_page_id = page_id,
       pd_init = Some \<lparr>
         init_prev_page = ph_prev_page header, init_next_page = ph_next_page header,
         init_tuple_format_version = ph_tuple_format_version header,
         init_tuple_schema_hash = ph_tuple_schema_hash header,
         init_tuple_flags = ph_tuple_flags header\<rparr>,
       pd_links = None, pd_removes = [], pd_upserts = upserts\<rparr>)))"

text \<open>The merge pass of \<open>page_record_delta\<close> over both slot arrays.\<close>

function diff_loop ::
    "ext \<Rightarrow> byte list \<Rightarrow> byte list \<Rightarrow> nat \<Rightarrow> nat \<Rightarrow> nat \<Rightarrow> nat \<Rightarrow>
     PLRecordKey list \<Rightarrow> PLRecord list \<Rightarrow> (PLRecordKey list \<times> PLRecord list) rs" where
  "diff_loop X old_page new_page old_count new_count old_idx new_idx removes upserts =
     (if old_idx < old_count \<or> new_idx < new_count then
        if old_idx \<ge> old_count then
          bind_rs (page_record X new_page new_idx) (\<lambda>r.
          diff_loop X old_page new_page old_count new_count old_idx (new_idx + 1) removes (upserts @ [r]))
        else if new_idx \<ge> new_count then
          bind_rs (page_record_key X old_page old_idx) (\<lambda>k.
          diff_loop X old_page new_page old_count new_count (old_idx + 1) new_idx (removes @ [k]) upserts)
        else
          bind_rs (slot_ref X old_page old_idx) (\<lambda>old_slot.
          bind_rs (slot_ref X new_page new_idx) (\<lambda>new_slot.
          let old_key = (ref_timestamp X old_slot, ref_tuple_id X old_slot);
              new_key = (ref_timestamp X new_slot, ref_tuple_id X new_slot) in
          if old_key = new_key then
            bind_rs (record_bytes X old_page old_idx) (\<lambda>old_bytes.
            bind_rs (record_bytes X new_page new_idx) (\<lambda>new_bytes.
            bind_rs (if old_bytes \<noteq> new_bytes
                     then bind_rs (page_record X new_page new_idx) (\<lambda>r. Inr (upserts @ [r]))
                     else Inr upserts) (\<lambda>upserts'.
            diff_loop X old_page new_page old_count new_count (old_idx + 1) (new_idx + 1) removes upserts')))
          else if old_key < new_key then
            diff_loop X old_page new_page old_count new_count (old_idx + 1) new_idx
              (removes @ [\<lparr>key_timestamp = fst old_key, key_tuple_id = snd old_key\<rparr>]) upserts
          else
            bind_rs (page_record X new_page new_idx) (\<lambda>r.
            diff_loop X old_page new_page old_count new_count old_idx (new_idx + 1) removes (upserts @ [r]))))
      else Inr (removes, upserts))"
  by pat_completeness auto
termination
  by (relation "measure (\<lambda>(X, op, np, oc, nc, oi, ni, r, u). (oc - oi) + (nc - ni))") auto

declare diff_loop.simps [simp del]

definition page_record_delta :: "ext \<Rightarrow> PageId \<Rightarrow> byte list \<Rightarrow> byte list \<Rightarrow> PLOp option rs" where
  "page_record_delta X page_id old_image new_image =
     bind_rs (pb_header X old_image) (\<lambda>old_header.
     bind_rs (pb_header X new_image) (\<lambda>new_header.
     let links =
       (if ph_prev_page old_header \<noteq> ph_prev_page new_header \<or>
           ph_next_page old_header \<noteq> ph_next_page new_header
        then Some \<lparr>links_prev_page = ph_prev_page new_header, links_next_page = ph_next_page new_header\<rparr>
        else None) in
     bind_rs (slot_count X old_image) (\<lambda>old_count.
     bind_rs (slot_count X new_image) (\<lambda>new_count.
     bind_rs (diff_loop X old_image new_image old_count new_count 0 0 [] []) (\<lambda>(removes, upserts).
     if links = None \<and> removes = [] \<and> upserts = [] then Inr None
     else Inr (Some (PLPageDelta \<lparr>pd_page_id = page_id, pd_init = None, pd_links = links,
                                 pd_removes = removes, pd_upserts = upserts\<rparr>)))))))"

section \<open>The data file\<close>

type_synonym data_file = "byte list"

definition page_offset :: "PageId \<Rightarrow> u64 rs" where
  "page_offset page_id = ok_or (checked_mul page_id (of_nat PAGE_SIZE)) (EC IndexOutOfRange)"

definition file_len :: "data_file \<Rightarrow> nat" where
  "file_len f = length f"

definition read_exact_at :: "nat \<Rightarrow> nat \<Rightarrow> data_file \<Rightarrow> byte list rs" where
  "read_exact_at offset len f =
     (if offset + len \<le> length f then Inr (sub_slice offset (offset + len) f) else Inl (EC Io))"

definition write_all_at :: "nat \<Rightarrow> byte list \<Rightarrow> data_file \<Rightarrow> data_file" where
  "write_all_at offset payload f =
     (let padded = f @ replicate (offset + length payload - length f) 0
      in patch offset payload padded)"

section \<open>Replay\<close>

definition replay_remove :: "ext \<Rightarrow> PLRecordKey \<Rightarrow> byte list \<Rightarrow> byte list rs" where
  "replay_remove X key img =
     bind_rs (find_slot_index X img (key_timestamp key) (key_tuple_id key)) (\<lambda>found.
     bind_rs (ok_or found (EC Decode)) (\<lambda>slot_index.
     exec_se (delete_record X slot_index) img))"

definition replay_upsert :: "ext \<Rightarrow> PLRecord \<Rightarrow> byte list \<Rightarrow> byte list rs" where
  "replay_upsert X record img =
     bind_rs (find_slot_index X img (rec_timestamp record) (rec_tuple_id record)) (\<lambda>slot_index.
     case slot_index of
       Some slot_index \<Rightarrow>
         exec_se (update_record X slot_index (rec_timestamp record) (rec_tuple_id record) (rec_payload record)) img
     | None \<Rightarrow>
         (case insert_record X (rec_timestamp record) (rec_tuple_id record) (rec_payload record) img of
            (Inr _, img') \<Rightarrow> Inr img'
          | (Inl err, img') \<Rightarrow>
              if err = EC InsufficientBufferSpace then
                bind_rs (exec_se (compact X) img') (\<lambda>img''.
                exec_se (insert_record X (rec_timestamp record) (rec_tuple_id record) (rec_payload record)) img'')
              else Inl err))"

text \<open>The page bytes a delta produces from the page found on disk (\<open>None\<close> when the file does
  not reach that page).\<close>

definition replay_image :: "ext \<Rightarrow> PageDelta \<Rightarrow> LSN \<Rightarrow> byte list option \<Rightarrow> byte list rs" where
  "replay_image X delta batch_lsn disk_image =
     bind_rs (case pd_init delta of
         Some init \<Rightarrow>
           bind_rs (empty_page_image X (pd_page_id delta) (init_tuple_format_version init)
                      (init_tuple_schema_hash init) (init_tuple_flags init)) (\<lambda>img.
           exec_se (set_page_links X (init_prev_page init) (init_next_page init)) img)
       | None \<Rightarrow>
           bind_rs (ok_or disk_image (EC Decode)) (\<lambda>img.
           bind_rs (case pd_links delta of
               Some links \<Rightarrow> exec_se (set_page_links X (links_prev_page links) (links_next_page links)) img
             | None \<Rightarrow> Inr img) (\<lambda>img.
           fold_rs (replay_remove X) (pd_removes delta) img))) (\<lambda>img.
     bind_rs (fold_rs (replay_upsert X) (pd_upserts delta) img) (\<lambda>img.
     bind_rs (exec_se (stamp_page_image_lsn X batch_lsn) img) (\<lambda>img.
     exec_se (finalize_page_image_checksum X) img)))"

definition apply_recovered_page_delta :: "ext \<Rightarrow> PageDelta \<Rightarrow> LSN \<Rightarrow> data_file \<Rightarrow> data_file rs" where
  "apply_recovered_page_delta X delta batch_lsn f =
     bind_rs (page_offset (pd_page_id delta)) (\<lambda>offset.
     bind_rs (ok_or (checked_add offset (of_nat PAGE_SIZE)) Panic) (\<lambda>page_end.
     let page_present = file_len f \<ge> unat page_end in
     bind_rs (if page_present then
                bind_rs (read_exact_at (unat offset) PAGE_SIZE f) (\<lambda>img.
                bind_rs (validate_layout X img) (\<lambda>_. Inr (Some img)))
              else Inr None) (\<lambda>disk_image.
     bind_rs (case disk_image of
                Some img \<Rightarrow> bind_rs (pb_header X img) (\<lambda>h. Inr (ph_lsn h \<ge> batch_lsn))
              | None \<Rightarrow> Inr False) (\<lambda>skip.
     if skip then Inr f
     else bind_rs (replay_image X delta batch_lsn disk_image) (\<lambda>img.
          Inr (write_all_at (unat offset) img f))))))"

text \<open>A recovered entry.  The data file may be absent (\<open>None\<close>); it is created on demand.\<close>

type_synonym 'a file_op = "(data_file option, 'a) se"

definition ensure_file_exists :: "unit file_op" where
  "ensure_file_exists = write_se (\<lambda>f. Some (case f of None \<Rightarrow> [] | Some bs \<Rightarrow> bs))"

definition apply_recovered_op :: "ext \<Rightarrow> LSN \<Rightarrow> PLOp \<Rightarrow> unit file_op" where
  "apply_recovered_op X batch_lsn op =
     (case op of
        PLCreate \<Rightarrow> ensure_file_exists
      | PLDelete \<Rightarrow> write_se (\<lambda>_. None)
      | PLPageDelta delta \<Rightarrow>
          bind_se ensure_file_exists (\<lambda>_.
          update_se (\<lambda>f. bind_rs (ok_or f (EC Io)) (\<lambda>bs.
            bind_rs (apply_recovered_page_delta X delta batch_lsn bs) (\<lambda>bs'. Inr (Some bs'))))))"

definition apply_recovered_entry_async :: "ext \<Rightarrow> PLEntry \<Rightarrow> LSN \<Rightarrow> unit file_op" where
  "apply_recovered_entry_async X entry batch_lsn = fold_se (apply_recovered_op X batch_lsn) (ple_ops entry)"

definition handle_entry :: "ext \<Rightarrow> PLFileId \<Rightarrow> PLBatch \<Rightarrow> LSN \<Rightarrow> unit file_op" where
  "handle_entry X file_id batch start_lsn =
     fold_se (\<lambda>item. if ple_file item \<noteq> file_id then return_se ()
                     else apply_recovered_entry_async X item start_lsn) (plb_entries batch)"

end
