(* ===== verification/Page_Replay.thy ===== *)
theory Page_Replay
  imports Page_Delta
begin

text \<open>
  Correctness of physical logging: the diff of two page images, replayed against
  the first, gives the records and links of the second.  The argument has three
  parts: the merge pass computes a difference of sorted record lists; removing
  and upserting records are map operations (the interface \<open>record_store\<close>); applying a
  difference to a map gives the other map.
\<close>

section \<open>Differences of sorted record lists\<close>

function rec_diff :: "rec list \<Rightarrow> rec list \<Rightarrow> rec_key list \<times> rec list" where
  "rec_diff [] ns = ([], ns)"
| "rec_diff (old # os) [] = (map fst (old # os), [])"
| "rec_diff (old # os) (new # ns) =
     (if fst old = fst new then
        (let (r, u) = rec_diff os ns in (r, if snd old \<noteq> snd new then new # u else u))
      else if fst old < fst new then
        (let (r, u) = rec_diff os (new # ns) in (fst old # r, u))
      else
        (let (r, u) = rec_diff (old # os) ns in (r, new # u)))"
  by pat_completeness auto
termination
  by (relation "measure (\<lambda>(os, ns). length os + length ns)") auto

lemma keys_ok_Cons: "keys_ok (r # rs) \<longleftrightarrow> keys_ok rs \<and> (\<forall>k \<in> fst ` set rs. fst r < k)"
  by (auto simp: keys_ok_def order_less_le)

lemma keys_ok_map_of_below:
  assumes "keys_ok (r # rs)" and "k \<le> fst r"
  shows "map_of rs k = None"
proof -
  have "k \<notin> fst ` set rs" using assms by (auto simp: keys_ok_Cons dest: leD)
  then show ?thesis by (simp add: map_of_eq_None_iff)
qed

lemma rec_diff_spec:
  assumes "rec_diff os ns = (r, u)" and "keys_ok os" and "keys_ok ns"
  shows "set r = fst ` set os - fst ` set ns \<and> distinct r \<and> distinct (map fst u) \<and>
    set u = {x \<in> set ns. map_of os (fst x) \<noteq> Some (snd x)}"
  using assms
proof (induction os ns arbitrary: r u rule: rec_diff.induct)
  case (1 ns)
  then show ?case by (auto simp: keys_ok_def)
next
  case (2 old os)
  then have "r = map fst (old # os)" "u = []" by auto
  then show ?case using 2(2) by (simp add: keys_ok_def)
next
  case (3 old os new ns)
  note os = keys_ok_Cons [of old os] and ns = keys_ok_Cons [of new ns]
  have d: "fst old \<notin> fst ` set os" "fst new \<notin> fst ` set ns" using 3(5,6) by (auto simp: os ns)
  consider (eq) "fst old = fst new" | (lt) "fst old \<noteq> fst new" "fst old < fst new"
    | (gt) "fst old \<noteq> fst new" "\<not> fst old < fst new" by blast
  then show ?case
  proof cases
    case eq
    obtain r0 u0 where rec: "rec_diff os ns = (r0, u0)" by fastforce
    have IH: "set r0 = fst ` set os - fst ` set ns \<and> distinct r0 \<and> distinct (map fst u0) \<and>
        set u0 = {x \<in> set ns. map_of os (fst x) \<noteq> Some (snd x)}"
      using 3(1) [OF eq rec] 3(5,6) by (simp add: os ns)
    have ru: "r = r0" "u = (if snd old \<noteq> snd new then new # u0 else u0)" using 3(4) eq rec by auto
    have "x \<in> set ns \<Longrightarrow> fst x \<noteq> fst old" for x using d(2) eq by (metis image_eqI)
    then have "{x \<in> set (new # ns). map_of (old # os) (fst x) \<noteq> Some (snd x)} =
        (if snd old \<noteq> snd new then insert new else id) {x \<in> set ns. map_of os (fst x) \<noteq> Some (snd x)}"
      using eq by (cases old) (auto simp: prod_eq_iff)
    moreover have "fst new \<notin> fst ` set u0" using IH d by auto
    ultimately show ?thesis using IH ru eq d by (auto simp: id_def)
  next
    case lt
    obtain r0 u0 where rec: "rec_diff os (new # ns) = (r0, u0)" by fastforce
    have IH: "set r0 = fst ` set os - fst ` set (new # ns) \<and> distinct r0 \<and> distinct (map fst u0) \<and>
        set u0 = {x \<in> set (new # ns). map_of os (fst x) \<noteq> Some (snd x)}"
      using 3(2) [OF lt rec] 3(5,6) by (simp add: os)
    have ru: "r = fst old # r0" "u = u0" using 3(4) lt rec by auto
    have "fst old \<noteq> fst x" if "x \<in> set (new # ns)" for x
      using that lt 3(6) by (auto simp: ns dest: order.strict_trans)
    then have same: "{x \<in> set (new # ns). map_of (old # os) (fst x) \<noteq> Some (snd x)} =
        {x \<in> set (new # ns). map_of os (fst x) \<noteq> Some (snd x)}" and gone: "fst old \<notin> fst ` set (new # ns)"
      by (cases old; auto)+
    show ?thesis
      unfolding ru same
    proof (intro conjI)
      show "set (fst old # r0) = fst ` set (old # os) - fst ` set (new # ns)"
        using IH gone by (simp add: insert_Diff_if)
      have "fst old \<notin> set r0" using IH d(1) by simp
      then show "distinct (fst old # r0)" using IH by simp
    qed (use IH in blast)+
  next
    case gt
    obtain r0 u0 where rec: "rec_diff (old # os) ns = (r0, u0)" by fastforce
    have IH: "set r0 = fst ` set (old # os) - fst ` set ns \<and> distinct r0 \<and> distinct (map fst u0) \<and>
        set u0 = {x \<in> set ns. map_of (old # os) (fst x) \<noteq> Some (snd x)}"
      using 3(3) [OF gt rec] 3(5,6) by (simp add: ns)
    have ru: "r = r0" "u = new # u0" using 3(4) gt rec by auto
    have less: "fst new < fst old" using gt by simp
    then have "map_of (old # os) (fst new) = None"
      using 3(5) by (auto simp: os map_of_eq_None_iff dest: order.strict_trans)
    moreover have "fst new \<notin> fst ` set (old # os)"
      using less 3(5) by (auto simp: os dest: order.strict_trans)
    moreover have "fst new \<notin> fst ` set u0" using IH d by auto
    ultimately show ?thesis using IH ru by auto
  qed
qed

text \<open>Removing and upserting the difference turns the old map into the new one.\<close>

lemma rec_diff_apply:
  assumes "rec_diff os ns = (r, u)" and "keys_ok os" and "keys_ok ns"
  shows "(map_of os |` (- set r)) ++ map_of u = map_of ns"
proof
  fix k
  from rec_diff_spec [OF assms]
  have r: "set r = fst ` set os - fst ` set ns" and u: "distinct (map fst u)"
    and su: "set u = {x \<in> set ns. map_of os (fst x) \<noteq> Some (snd x)}" by blast+
  have dn: "distinct (map fst ns)" using assms by (simp add: keys_ok_def)
  have u_iff: "map_of u k = Some v \<longleftrightarrow> map_of ns k = Some v \<and> map_of os k \<noteq> Some v" for v
    unfolding map_of_eq_Some_iff [OF u] map_of_eq_Some_iff [OF dn] su by simp
  show "((map_of os |` (- set r)) ++ map_of u) k = map_of ns k"
  proof (cases "map_of ns k")
    case None
    then have "k \<notin> fst ` set ns" by (simp add: map_of_eq_None_iff)
    then have "k \<notin> set r \<Longrightarrow> map_of os k = None" by (simp add: r map_of_eq_None_iff)
    moreover have "map_of u k = None" using u_iff None by (metis not_None_eq)
    ultimately show ?thesis using None by (simp add: map_add_def restrict_map_def)
  next
    case (Some v)
    then have "k \<in> fst ` set ns" by (metis map_of_eq_None_iff option.distinct(1))
    then have "k \<notin> set r" by (simp add: r)
    moreover have "map_of u k = (if map_of os k = Some v then None else Some v)"
      using u_iff [of v] u_iff [of "the (map_of u k)"] Some by (cases "map_of u k") auto
    ultimately show ?thesis using Some by (simp add: map_add_def restrict_map_def)
  qed
qed

section \<open>The merge pass computes the difference\<close>

definition pl_key :: "rec_key \<Rightarrow> PLRecordKey" where
  "pl_key k = \<lparr>key_timestamp = fst k, key_tuple_id = snd k\<rparr>"

definition pl_record :: "rec \<Rightarrow> PLRecord" where
  "pl_record r = \<lparr>rec_timestamp = fst (fst r), rec_tuple_id = snd (fst r), rec_payload = snd r\<rparr>"

lemma page_ok_record_bytes:
  assumes ok: "page_ok X p h ss" and i: "i < length ss"
  shows "record_bytes X p i = Inr (snd (page_recs p ss ! i))"
proof -
  have "slot_layout_ok X p (unat (ph_first_free_offset h)) (ss ! i)" using page_okD(4) [OF ok] i by simp
  then have "PAGE_HEADER_SIZE \<le> unat (rs_offset (ss ! i))"
    and "unat (rs_offset (ss ! i)) + unat (rs_size (ss ! i)) \<le> TAILER_OFFSET - 32 * length ss"
    using page_okD(2) [OF ok] unfolding slot_layout_ok_def space_ok_def by linarith+
  then show ?thesis
    using rep_record_bytes [OF page_okD(1) [OF ok] i] i by (simp add: page_recs_nth)
qed

lemma page_ok_slot_ref:
  assumes ok: "page_ok X p h ss" and i: "i < length ss"
  obtains r where "slot_ref X p i = Inr r" and "(ref_timestamp X r, ref_tuple_id X r) = fst (page_recs p ss ! i)"
proof (rule rep_slot_ref [OF page_okD(1) [OF ok] i])
  fix r assume r: "slot_ref X p i = Inr r" "ref_to_owned X r = ss ! i"
  show thesis by (rule that [OF r(1)]) (simp add: owned_fields [OF r(2)] page_recs_nth [OF i])
qed

lemma page_ok_page_record:
  assumes "page_ok X p h ss" and "i < length ss"
  shows "page_record X p i = Inr (pl_record (page_recs p ss ! i))"
    and "page_record_key X p i = Inr (pl_key (fst (page_recs p ss ! i)))"
proof -
  obtain r where "slot_ref X p i = Inr r" and "(ref_timestamp X r, ref_tuple_id X r) = fst (page_recs p ss ! i)"
    by (rule page_ok_slot_ref [OF assms])
  then show "page_record X p i = Inr (pl_record (page_recs p ss ! i))"
    and "page_record_key X p i = Inr (pl_key (fst (page_recs p ss ! i)))"
    by (simp_all add: page_record_def page_record_key_def page_ok_record_bytes [OF assms] pl_record_def
        pl_key_def prod_eq_iff)
qed

lemma page_ok_page_records:
  assumes "page_ok X p h ss"
  shows "page_records X p = Inr (map pl_record (page_recs p ss))"
proof -
  have "map_rs (page_record X p) [0..<length ss] = Inr (map (\<lambda>i. pl_record (page_recs p ss ! i)) [0..<length ss])"
    by (rule map_rs_total) (simp add: page_ok_page_record [OF assms])
  moreover have "map (\<lambda>i. pl_record (page_recs p ss ! i)) [0..<length ss] = map pl_record (page_recs p ss)"
    by (rule nth_equalityI) simp_all
  ultimately show ?thesis by (simp add: page_records_def rep_slot_count [OF page_okD(1) [OF assms]])
qed

lemma diff_loop_rec_diff:
  assumes old: "page_ok X po ho so" and new: "page_ok X pn hn sn"
    and "oi \<le> length so" and "ni \<le> length sn"
    and "rec_diff (drop oi (page_recs po so)) (drop ni (page_recs pn sn)) = (r, u)"
  shows "diff_loop X po pn (length so) (length sn) oi ni removes upserts =
    Inr (removes @ map pl_key r, upserts @ map pl_record u)"
  using assms(3-5)
proof (induction "(length so - oi) + (length sn - ni)" arbitrary: oi ni removes upserts r u rule: less_induct)
  case less
  let ?os = "page_recs po so" and ?ns = "page_recs pn sn"
  note step = diff_loop.simps [of X po pn "length so" "length sn" oi ni removes upserts]
  have dn: "drop ni ?ns = ?ns ! ni # drop (Suc ni) ?ns" if "ni < length sn"
    using that by (simp add: Cons_nth_drop_Suc)
  have do': "drop oi ?os = ?os ! oi # drop (Suc oi) ?os" if "oi < length so"
    using that by (simp add: Cons_nth_drop_Suc)
  consider (fin) "oi = length so" "ni = length sn" | (onlynew) "oi = length so" "ni < length sn"
    | (onlyold) "oi < length so" "ni = length sn" | (both) "oi < length so" "ni < length sn"
    using less.prems(1,2) by linarith
  then show ?case
  proof cases
    case fin
    then show ?thesis unfolding step using less.prems(3) by simp
  next
    case onlynew
    have ru: "r = []" "u = ?ns ! ni # drop (Suc ni) ?ns" using less.prems(3) onlynew dn by auto
    have IH: "diff_loop X po pn (length so) (length sn) oi (Suc ni) removes (upserts @ [pl_record (?ns ! ni)]) =
        Inr (removes @ map pl_key [], (upserts @ [pl_record (?ns ! ni)]) @ map pl_record (drop (Suc ni) ?ns))"
      by (rule less.hyps) (use onlynew in simp_all)
    then show ?thesis unfolding step using onlynew ru by (simp add: page_ok_page_record [OF new])
  next
    case onlyold
    have ru: "r = fst (?os ! oi) # map fst (drop (Suc oi) ?os)" "u = []" using less.prems(3) onlyold do' by auto
    have rest: "rec_diff (drop (Suc oi) ?os) (drop ni ?ns) = (map fst (drop (Suc oi) ?os), [])"
      using onlyold by (cases "drop (Suc oi) ?os") simp_all
    have IH: "diff_loop X po pn (length so) (length sn) (Suc oi) ni (removes @ [pl_key (fst (?os ! oi))]) upserts =
        Inr ((removes @ [pl_key (fst (?os ! oi))]) @ map pl_key (map fst (drop (Suc oi) ?os)), upserts @ map pl_record [])"
      by (rule less.hyps) (use onlyold rest in simp_all)
    then show ?thesis unfolding step using onlyold ru by (simp add: page_ok_page_record [OF old])
  next
    case both
    obtain ro where ro: "slot_ref X po oi = Inr ro" "(ref_timestamp X ro, ref_tuple_id X ro) = fst (?os ! oi)"
      by (rule page_ok_slot_ref [OF old both(1)])
    obtain rn where rn: "slot_ref X pn ni = Inr rn" "(ref_timestamp X rn, ref_tuple_id X rn) = fst (?ns ! ni)"
      by (rule page_ok_slot_ref [OF new both(2)])
    have diff: "rec_diff (?os ! oi # drop (Suc oi) ?os) (?ns ! ni # drop (Suc ni) ?ns) = (r, u)"
      using less.prems(3) both do' dn by simp
    have step': "diff_loop X po pn (length so) (length sn) oi ni removes upserts =
      (if fst (?os ! oi) = fst (?ns ! ni) then
         diff_loop X po pn (length so) (length sn) (oi + 1) (ni + 1) removes
           (if snd (?os ! oi) \<noteq> snd (?ns ! ni) then upserts @ [pl_record (?ns ! ni)] else upserts)
       else if fst (?os ! oi) < fst (?ns ! ni) then
         diff_loop X po pn (length so) (length sn) (oi + 1) ni (removes @ [pl_key (fst (?os ! oi))]) upserts
       else diff_loop X po pn (length so) (length sn) oi (ni + 1) removes (upserts @ [pl_record (?ns ! ni)]))"
      unfolding step using both
      by (simp add: ro(1) rn(1) ro(2) [symmetric] rn(2) [symmetric] page_ok_record_bytes [OF old]
          page_ok_record_bytes [OF new] page_ok_page_record [OF new] Let_def pl_key_def)
    consider (eq) "fst (?os ! oi) = fst (?ns ! ni)"
      | (lt) "fst (?os ! oi) \<noteq> fst (?ns ! ni)" "fst (?os ! oi) < fst (?ns ! ni)"
      | (gt) "fst (?os ! oi) \<noteq> fst (?ns ! ni)" "\<not> fst (?os ! oi) < fst (?ns ! ni)" by blast
    then show ?thesis
    proof cases
      case eq
      obtain r0 u0 where rec: "rec_diff (drop (Suc oi) ?os) (drop (Suc ni) ?ns) = (r0, u0)" by fastforce
      have ru: "r = r0" "u = (if snd (?os ! oi) \<noteq> snd (?ns ! ni) then ?ns ! ni # u0 else u0)"
        using diff eq rec by auto
      have "diff_loop X po pn (length so) (length sn) (oi + 1) (ni + 1) removes us =
          Inr (removes @ map pl_key r0, us @ map pl_record u0)" for us
        by (rule less.hyps) (use both rec in simp_all)
      then show ?thesis using step' eq ru by simp
    next
      case lt
      obtain r0 u0 where rec: "rec_diff (drop (Suc oi) ?os) (?ns ! ni # drop (Suc ni) ?ns) = (r0, u0)" by fastforce
      have ru: "r = fst (?os ! oi) # r0" "u = u0" using diff lt rec by auto
      have "diff_loop X po pn (length so) (length sn) (oi + 1) ni rs upserts =
          Inr (rs @ map pl_key r0, upserts @ map pl_record u0)" for rs
        by (rule less.hyps) (use both rec dn in simp_all)
      then show ?thesis using step' lt ru by simp
    next
      case gt
      obtain r0 u0 where rec: "rec_diff (?os ! oi # drop (Suc oi) ?os) (drop (Suc ni) ?ns) = (r0, u0)" by fastforce
      have ru: "r = r0" "u = ?ns ! ni # u0" using diff gt rec by auto
      have "diff_loop X po pn (length so) (length sn) oi (ni + 1) removes us =
          Inr (removes @ map pl_key r0, us @ map pl_record u0)" for us
        by (rule less.hyps) (use both rec do' in simp_all)
      then show ?thesis using step' gt ru by simp
    qed
  qed
qed

section \<open>Space taken by a set of records\<close>

text \<open>Payload bytes rounded up to the record alignment, plus one slot each.\<close>

definition map_need :: "(rec_key \<rightharpoonup> byte list) \<Rightarrow> nat" where
  "map_need m = (\<Sum>k \<in> dom m. align8 (length (the (m k))) + 32)"

abbreviation (input) page_capacity :: nat where
  "page_capacity \<equiv> TAILER_OFFSET - PAGE_HEADER_SIZE"

lemma map_need_mono:
  assumes "finite (dom M)" and "dom m \<subseteq> dom M"
    and "\<And>k v w. m k = Some v \<Longrightarrow> M k = Some w \<Longrightarrow> length v \<le> length w"
  shows "map_need m \<le> map_need M"
proof -
  have "map_need m \<le> (\<Sum>k \<in> dom m. align8 (length (the (M k))) + 32)"
    unfolding map_need_def
  proof (rule sum_mono)
    fix k assume "k \<in> dom m"
    then obtain v w where "m k = Some v" "M k = Some w" using assms(2) by blast
    then show "align8 (length (the (m k))) + 32 \<le> align8 (length (the (M k))) + 32"
      using assms(3) by (simp add: align8_mono)
  qed
  also have "\<dots> \<le> map_need M" unfolding map_need_def by (rule sum_mono2 [OF assms(1,2)]) simp
  finally show ?thesis .
qed

lemma map_need_upd:
  assumes "finite (dom m)"
  shows "map_need (m(k \<mapsto> v)) = map_need (m(k := None)) + align8 (length v) + 32"
proof -
  have same: "(\<Sum>x \<in> dom m - {k}. align8 (length (the ((m(k \<mapsto> v)) x))) + 32) =
      (\<Sum>x \<in> dom m - {k}. align8 (length (the ((m(k := None)) x))) + 32)"
    by (rule sum.cong) simp_all
  have doms: "dom (m(k \<mapsto> v)) = insert k (dom m - {k})" "dom (m(k := None)) = dom m - {k}" by auto
  show ?thesis
    unfolding map_need_def doms same [symmetric] by (subst sum.insert) (use assms in auto)
qed

lemma map_need_map_of:
  assumes "distinct (map fst rs)"
  shows "map_need (map_of rs) = recs_bytes rs + 32 * length rs"
proof -
  have "map_need (map_of rs) = (\<Sum>k \<leftarrow> map fst rs. align8 (length (the (map_of rs k))) + 32)"
    by (simp only: map_need_def dom_map_of_conv_image_fst sum_list_distinct_conv_sum_set [OF assms] set_map)
  also have "\<dots> = (\<Sum>r \<leftarrow> rs. align8 (length (snd r)) + 32)"
    unfolding map_map o_def using assms by (intro arg_cong [of _ _ sum_list] map_cong) auto
  also have "\<dots> = recs_bytes rs + 32 * length rs" by (simp add: recs_bytes_def sum_list_addf sum_list_triv)
  finally show ?thesis .
qed

text \<open>The largest content between two versions of a page: for every record of the new
  version, the longer of its two payloads.\<close>

definition peak_map :: "(rec_key \<rightharpoonup> byte list) \<Rightarrow> (rec_key \<rightharpoonup> byte list) \<Rightarrow> rec_key \<rightharpoonup> byte list" where
  "peak_map old new k =
     (case new k of
        None \<Rightarrow> None
      | Some w \<Rightarrow> (case old k of Some v \<Rightarrow> if length v > length w then Some v else Some w | None \<Rightarrow> Some w))"

lemma dom_peak_map [simp]: "dom (peak_map old new) = dom new"
  by (auto simp: peak_map_def split: option.splits)

section \<open>Record stores\<close>

text \<open>
  What replay relies on.  \<open>remove\<close> deletes a record that is present and reports one
  that is not; \<open>upsert\<close> may run out of space, and otherwise sets the record.  Neither
  touches the links.
\<close>

locale record_store =
  fixes inv :: "'p \<Rightarrow> bool"
    and content :: "'p \<Rightarrow> rec_key \<rightharpoonup> byte list"
    and links :: "'p \<Rightarrow> PageId \<times> PageId"
    and remove :: "rec_key \<Rightarrow> 'p \<Rightarrow> 'p rs"
    and upsert :: "rec \<Rightarrow> 'p \<Rightarrow> 'p rs"
  assumes remove_present: "inv p \<Longrightarrow> content p k \<noteq> None \<Longrightarrow>
      \<exists>p'. remove k p = Inr p' \<and> inv p' \<and> content p' = (content p)(k := None) \<and> links p' = links p"
    and remove_absent: "inv p \<Longrightarrow> content p k = None \<Longrightarrow> remove k p = Inl (EC Decode)"
    and upsert_sets: "inv p \<Longrightarrow> upsert r p = Inr p' \<Longrightarrow>
      inv p' \<and> content p' = (content p)(fst r \<mapsto> snd r) \<and> links p' = links p"
    and upsert_total: "inv p \<Longrightarrow> map_need ((content p)(fst r \<mapsto> snd r)) \<le> page_capacity \<Longrightarrow>
      is_ok (upsert r p)"
begin

lemma removes_present:
  assumes "inv p" and "distinct ks" and "set ks \<subseteq> dom (content p)"
  shows "\<exists>p'. fold_rs remove ks p = Inr p' \<and> inv p' \<and> content p' = content p |` (- set ks) \<and> links p' = links p"
  using assms
proof (induction ks arbitrary: p)
  case (Cons k ks)
  obtain q where q: "remove k p = Inr q" "inv q" "content q = (content p)(k := None)" "links q = links p"
    using remove_present [OF Cons.prems(1), of k] Cons.prems(3) by auto
  have "set ks \<subseteq> dom (content q)" using Cons.prems(2,3) by (auto simp: q)
  then obtain p' where "fold_rs remove ks q = Inr p'" "inv p'" "content p' = content q |` (- set ks)"
    "links p' = links q"
    using Cons.IH [OF q(2)] Cons.prems(2) by auto
  moreover have "content q |` (- set ks) = content p |` (- set (k # ks))"
    by (auto simp: q restrict_map_def)
  ultimately show ?case using q by simp
qed (simp add: restrict_map_def)

lemma upserts_set:
  assumes "fold_rs upsert rs p = Inr p'" and "inv p" and "distinct (map fst rs)"
  shows "inv p' \<and> content p' = content p ++ map_of rs \<and> links p' = links p"
  using assms
proof (induction rs arbitrary: p)
  case (Cons r rs)
  from Cons.prems(1) obtain q where q: "upsert r p = Inr q" and rest: "fold_rs upsert rs q = Inr p'"
    by (auto simp: rs_simps)
  note uq = upsert_sets [OF Cons.prems(2) q]
  have "map_of rs (fst r) = None" using Cons.prems(3) by (auto simp: map_of_eq_None_iff)
  then have eq: "content q ++ map_of rs = content p ++ map_of (r # rs)"
    using uq by (cases r) (auto simp: map_add_def fun_eq_iff split: option.split)
  have "inv p' \<and> content p' = content q ++ map_of rs \<and> links p' = links q"
    by (rule Cons.IH [OF rest]) (use uq Cons.prems(3) in auto)
  then show ?case unfolding eq using uq by metis
qed simp

text \<open>Upserts succeed when the largest content on the way fits.\<close>

lemma upserts_total:
  assumes "inv p" and "finite (dom M)" and "map_need M \<le> page_capacity"
    and "dom (content p) \<subseteq> dom M" and "\<And>k v w. content p k = Some v \<Longrightarrow> M k = Some w \<Longrightarrow> length v \<le> length w"
    and "\<And>r w. r \<in> set rs \<Longrightarrow> fst r \<in> dom M" and "\<And>r w. r \<in> set rs \<Longrightarrow> M (fst r) = Some w \<Longrightarrow> length (snd r) \<le> length w"
  shows "is_ok (fold_rs upsert rs p)"
  using assms(1,4-)
proof (induction rs arbitrary: p)
  case (Cons r rs)
  let ?m = "(content p)(fst r \<mapsto> snd r)"
  have len: "length v \<le> length w" if "?m k = Some v" "M k = Some w" for k v w
    using that Cons.prems(3) [of k v w] Cons.prems(5) [of r w] by (auto split: if_splits)
  have dom: "dom ?m \<subseteq> dom M" using Cons.prems(2,4) by auto
  have "map_need ?m \<le> map_need M" by (rule map_need_mono [OF assms(2) dom len])
  then have "is_ok (upsert r p)" using upsert_total [OF Cons.prems(1)] assms(3) by (meson le_trans)
  then obtain q where q: "upsert r p = Inr q" by (auto simp: is_ok_iff)
  note uq = upsert_sets [OF Cons.prems(1) q]
  have "is_ok (fold_rs upsert rs q)"
  proof (rule Cons.IH)
    show "dom (content q) \<subseteq> dom M" using uq dom by simp
    show "length v \<le> length w" if "content q k = Some v" "M k = Some w" for k v w
      using that len [of k v w] uq by simp
  qed (use uq Cons.prems in auto)
  then show ?case by (simp add: q rs_simps)
qed (simp add: rs_simps is_ok_iff)

text \<open>Replaying a difference against the old content gives the new content.\<close>

lemma replay_difference:
  assumes "inv p" and "content p = map_of os" and "keys_ok os" and "keys_ok ns"
    and diff: "rec_diff os ns = (r, u)"
    and run: "bind_rs (fold_rs remove r p) (fold_rs upsert u) = Inr p'"
  shows "inv p' \<and> content p' = map_of ns \<and> links p' = links p"
proof -
  from rec_diff_spec [OF diff assms(3,4)]
  have r: "set r = fst ` set os - fst ` set ns" "distinct r" and u: "distinct (map fst u)" by blast+
  have "set r \<subseteq> dom (content p)" unfolding assms(2) dom_map_of_conv_image_fst r(1) by (rule Diff_subset)
  then obtain q where q: "fold_rs remove r p = Inr q" "inv q" "content q = content p |` (- set r)" "links q = links p"
    using removes_present [OF assms(1) r(2)] by blast
  have "fold_rs upsert u q = Inr p'" using run q(1) by (simp add: rs_simps)
  from upserts_set [OF this q(2) u] show ?thesis
    unfolding q(3,4) assms(2) rec_diff_apply [OF diff assms(3,4)] .
qed

lemma replay_difference_total:
  assumes "inv p" and "content p = map_of os" and "keys_ok os" and "keys_ok ns"
    and diff: "rec_diff os ns = (r, u)" and fits: "map_need (peak_map (map_of os) (map_of ns)) \<le> page_capacity"
  shows "is_ok (bind_rs (fold_rs remove r p) (fold_rs upsert u))"
proof -
  from rec_diff_spec [OF diff assms(3,4)]
  have r: "set r = fst ` set os - fst ` set ns" "distinct r" and u: "set u \<subseteq> set ns" by blast+
  have "set r \<subseteq> dom (content p)" unfolding assms(2) dom_map_of_conv_image_fst r(1) by (rule Diff_subset)
  then obtain q where q: "fold_rs remove r p = Inr q" "inv q" "content q = content p |` (- set r)"
    using removes_present [OF assms(1) r(2)] by blast
  let ?M = "peak_map (map_of os) (map_of ns)"
  have new: "map_of ns (fst x) = Some (snd x)" if "x \<in> set u" for x
    using that u assms(4) by (cases x) (auto simp: keys_ok_def)
  have "is_ok (fold_rs upsert u q)"
  proof (rule upserts_total [OF q(2) _ fits])
    show "finite (dom ?M)" by (simp add: finite_dom_map_of)
    show "dom (content q) \<subseteq> dom ?M"
      unfolding q(3) assms(2) dom_peak_map dom_restrict dom_map_of_conv_image_fst r(1) by blast
    show "length v \<le> length w" if "content q k = Some v" "?M k = Some w" for k v w
      using that by (auto simp: q(3) assms(2) peak_map_def restrict_map_def split: option.splits if_splits)
    show "fst x \<in> dom ?M" if "x \<in> set u" for x using new [OF that] by auto
    show "length (snd x) \<le> length w" if "x \<in> set u" "?M (fst x) = Some w" for x w
      using new [OF that(1)] that(2) by (auto simp: peak_map_def split: option.splits if_splits)
  qed
  then show ?thesis by (simp add: q(1) rs_simps)
qed

end

section \<open>Pages are record stores\<close>

definition page_remove :: "ext \<Rightarrow> rec_key \<Rightarrow> byte list \<Rightarrow> byte list rs" where
  "page_remove X k = replay_remove X (pl_key k)"

definition page_upsert :: "ext \<Rightarrow> rec \<Rightarrow> byte list \<Rightarrow> byte list rs" where
  "page_upsert X r = replay_upsert X (pl_record r)"

lemma page_find_cases:
  assumes "good_page X p"
  shows "(find_slot_index X p (fst k) (snd k) = Inr None \<and> page_map X p k = None) \<or>
    (\<exists>i. find_slot_index X p (fst k) (snd k) = Inr (Some i) \<and> page_map X p k \<noteq> None)"
proof -
  obtain r where r: "find_slot_index X p (fst k) (snd k) = Inr r"
    using find_slot_index_map(3) [OF assms] by blast
  show ?thesis
  proof (cases r)
    case None
    then show ?thesis using r find_slot_index_map(1) [OF assms, of "fst k" "snd k"] by simp
  next
    case (Some i)
    then show ?thesis using r find_slot_index_map(2) [OF assms, of "fst k" "snd k" i] by simp
  qed
qed

lemma page_remove_present:
  assumes X: "ext_ok X" and good: "good_page X p" and k: "page_map X p k \<noteq> None"
  shows "\<exists>p'. page_remove X k p = Inr p' \<and> good_page X p' \<and> page_map X p' = (page_map X p)(k := None) \<and>
    page_links X p' = page_links X p"
proof -
  obtain i where find: "find_slot_index X p (fst k) (snd k) = Inr (Some i)"
    using page_find_cases [OF good, of k] k by blast
  have i: "i < length (page_records_of X p)" "fst (page_records_of X p ! i) = k"
    using find_slot_index_map(2) [OF good find] by simp_all
  obtain p' where "delete_record X i p = (Inr (), p')" "good_page X p'"
    "page_map X p' = (page_map X p)(fst (page_records_of X p ! i) := None)" "page_links X p' = page_links X p"
    by (rule delete_record_store [OF X good i(1)])
  then show ?thesis using find i by (simp add: page_remove_def replay_remove_def pl_key_def exec_se_def)
qed

lemma page_remove_absent:
  assumes good: "good_page X p" and k: "page_map X p k = None"
  shows "page_remove X k p = Inl (EC Decode)"
proof -
  have "find_slot_index X p (fst k) (snd k) = Inr None"
    using page_find_cases [OF good, of k] k by blast
  then show ?thesis by (simp add: page_remove_def replay_remove_def pl_key_def)
qed

text \<open>Compaction keeps the records; it fails only when they do not fit in key order.\<close>

lemma compact_store:
  assumes X: "ext_ok X" and good: "good_page X p"
  obtains (compacted) p' where "compact X p = (Inr (), p')" and "good_page X p'"
      and "page_records_of X p' = page_records_of X p" and "page_links X p' = page_links X p"
  | (full) p' where "compact X p = (Inl (EC InsufficientBufferSpace), p')"
proof -
  from good obtain h ss where ok: "page_ok X p h ss" and d: "distinct (map fst (page_recs p ss))"
    and r: "page_records_of X p = page_recs p ss" and l: "page_links X p = (ph_prev_page h, ph_next_page h)"
    by (elim good_pageE)
  note rep = page_okD(1) [OF ok]
  let ?es = "entries_of p ss"
  have es: "sorted_entries ?es = ?es" by (rule sorted_entries_of [OF page_okD(3) [OF ok]])
  have unfold: "compact X p = rebuild_from_entries X ?es p"
    by (simp add: compact_def compact_with_slots_def
        bind_se_read(1) [of "read_all_slots X", OF rep_read_all_slots [OF rep]]
        bind_se_read(1) [of "materialize_entries X ss", OF materialize_page_ok [OF ok subset_refl]])
  show thesis
  proof (cases "rebuild_fits ?es")
    case True
    obtain p' where run: "rebuild_from_entries X ?es p = (Inr (), p')"
      and ok': "page_ok X p' (rebuilt_header h (rebuilt_slots X ?es) (of_nat (packed_end (sorted_entries ?es) PAGE_HEADER_SIZE)))
        (rebuilt_slots X ?es)"
      and recs: "page_recs p' (rebuilt_slots X ?es) = entry_recs (sorted_entries ?es)"
      by (rule rebuild_from_entries_ok [OF X rep True])
    have recs': "page_recs p' (rebuilt_slots X ?es) = page_recs p ss" using recs by (simp add: es)
    then have d': "distinct (map fst (page_recs p' (rebuilt_slots X ?es)))" using d by simp
    show thesis
      by (rule compacted [OF _ good_pageI(1) [OF ok' d']])
        (use run in \<open>simp_all add: unfold good_pageI(3) [OF ok' d'] rep_records_of [OF page_okD(1) [OF ok']] recs' r l\<close>)
  next
    case False
    have "32 * length ?es \<le> TAILER_OFFSET" using page_okD(2) [OF ok] by (simp add: space_ok_def)
    then show thesis using full rebuild_from_entries_full [OF X rep False] unfold by auto
  qed
qed

text \<open>An upsert that finds no room fails for good: what decides is the records of the page,
  which compaction keeps.\<close>

lemma page_upsert_absent:
  assumes X: "ext_ok X" and good: "good_page X p" and new: "page_map X p (fst r) = None"
  shows "page_upsert X r p =
    (if roomy (page_records_of X p) (length (snd r))
     then exec_se (insert_record X (fst (fst r)) (snd (fst r)) (snd r)) p
     else Inl (EC InsufficientBufferSpace))"
proof -
  obtain ts tid payload where r: "r = ((ts, tid), payload)" by (metis prod.exhaust)
  have find: "find_slot_index X p ts tid = Inr None" using page_find_cases [OF good, of "fst r"] new by (auto simp: r)
  show ?thesis
  proof (cases "roomy (page_records_of X p) (length payload)")
    case True
    have "page_map X p (ts, tid) = None" using new by (simp add: r)
    then obtain pos p' where "insert_record X ts tid payload p = (Inr pos, p')"
      by (rule insert_record_store [OF X good _ True])
    then show ?thesis using find True by (simp add: page_upsert_def replay_upsert_def pl_record_def r exec_se_def)
  next
    case False
    note full = insert_record_full [OF good False, of ts tid]
    have "bind_rs (exec_se (compact X) p) (exec_se (insert_record X ts tid payload)) = Inl (EC InsufficientBufferSpace)"
    proof (rule compact_store [OF X good])
      fix p' assume "compact X p = (Inr (), p')" "good_page X p'" "page_records_of X p' = page_records_of X p"
      then show ?thesis using insert_record_full [of X p' payload ts tid] False by (simp add: exec_se_def)
    qed (simp add: exec_se_def)
    then show ?thesis using find full False by (simp add: page_upsert_def replay_upsert_def pl_record_def r)
  qed
qed

lemma page_upsert_sets:
  assumes X: "ext_ok X" and good: "good_page X p" and run: "page_upsert X r p = Inr p'"
  shows "good_page X p' \<and> page_map X p' = (page_map X p)(fst r \<mapsto> snd r) \<and> page_links X p' = page_links X p"
proof -
  obtain ts tid payload where r: "r = ((ts, tid), payload)" by (metis prod.exhaust)
  show ?thesis
  proof (cases "page_map X p (ts, tid)")
    case None
    then have room: "roomy (page_records_of X p) (length payload)"
      and ins: "exec_se (insert_record X ts tid payload) p = Inr p'"
      using run page_upsert_absent [OF X good, of r] by (auto simp: r split: if_splits)
    show ?thesis
      by (rule insert_record_store [OF X good None room]) (use ins in \<open>auto simp: r exec_se_def\<close>)
  next
    case (Some v)
    then obtain i where find: "find_slot_index X p ts tid = Inr (Some i)"
      using page_find_cases [OF good, of "(ts, tid)"] by auto
    have i: "i < length (page_records_of X p)" "fst (page_records_of X p ! i) = (ts, tid)"
      using find_slot_index_map(2) [OF good find] by simp_all
    have upd: "exec_se (update_record X i ts tid payload) p = Inr p'"
      using run find by (simp add: page_upsert_def replay_upsert_def pl_record_def r)
    show ?thesis
      by (rule update_record_store [OF X good i, of payload]) (use upd in \<open>auto simp: r exec_se_def\<close>)
  qed
qed

lemma good_page_need:
  assumes "good_page X p"
  shows "finite (dom (page_map X p))"
    and "map_need (page_map X p) = recs_bytes (page_records_of X p) + 32 * length (page_records_of X p)"
  using good_page_keys_ok [OF assms] map_need_map_of
  by (simp_all add: page_map_def keys_ok_def finite_dom_map_of)

lemma page_upsert_total:
  assumes X: "ext_ok X" and good: "good_page X p"
    and fits: "map_need ((page_map X p)(fst r \<mapsto> snd r)) \<le> page_capacity"
  shows "is_ok (page_upsert X r p)"
proof -
  obtain ts tid payload where r: "r = ((ts, tid), payload)" by (metis prod.exhaust)
  let ?rs = "page_records_of X p"
  show ?thesis
  proof (cases "page_map X p (ts, tid)")
    case None
    then have "(page_map X p)((ts, tid) := None) = page_map X p" by (rule fun_upd_idem)
    then have "recs_bytes ?rs + 32 * length ?rs + align8 (length payload) + 32 \<le> page_capacity"
      using fits map_need_upd [OF good_page_need(1) [OF good], of "(ts, tid)" payload]
      by (simp add: r good_page_need(2) [OF good])
    then have room: "roomy ?rs (length payload)" using align8_bounds(1) [of "length payload"] by (simp add: roomy_def)
    show ?thesis
      by (rule insert_record_store [OF X good None room])
        (use page_upsert_absent [OF X good, of r] None room in \<open>simp add: r exec_se_def is_ok_iff\<close>)
  next
    case (Some v)
    then obtain i where find: "find_slot_index X p ts tid = Inr (Some i)"
      using page_find_cases [OF good, of "(ts, tid)"] by auto
    have i: "i < length ?rs" "fst (?rs ! i) = (ts, tid)"
      using find_slot_index_map(2) [OF good find] by simp_all
    have d: "distinct (map fst ?rs)" using good_page_keys_ok [OF good] by (simp add: keys_ok_def)
    have "map_of (remove_at i ?rs) = (page_map X p)((ts, tid) := None)"
      using map_of_remove_at [OF i(1) d] by (simp add: i(2) page_map_def)
    moreover have "distinct (map fst (remove_at i ?rs))" using d by (simp add: map_remove_at distinct_remove_at)
    ultimately have "map_need ((page_map X p)((ts, tid) := None)) =
        recs_bytes (remove_at i ?rs) + 32 * length (remove_at i ?rs)"
      using map_need_map_of by metis
    then have "recs_bytes (remove_at i ?rs) + 32 * length ?rs + align8 (length payload) \<le> page_capacity"
      using fits map_need_upd [OF good_page_need(1) [OF good], of "(ts, tid)" payload] length_remove_at [OF i(1)] i(1)
      by (simp add: r)
    then show ?thesis
      using find by (cases rule: update_record_store [OF X good i, of payload])
        (simp_all add: page_upsert_def replay_upsert_def pl_record_def r exec_se_def is_ok_iff)
  qed
qed

section \<open>The interface is implemented\<close>

locale page_env =
  fixes X :: ext
  assumes env_ok: "ext_ok X"
begin

end

sublocale page_env \<subseteq> page_store: record_store "good_page X" "page_map X" "page_links X" "page_remove X" "page_upsert X"
proof
  show "is_ok (page_upsert X r p)"
    if "good_page X p" "map_need ((page_map X p)(fst r \<mapsto> snd r)) \<le> page_capacity" for p r
    by (rule page_upsert_total [OF env_ok that])
qed (rule page_remove_present [OF env_ok] page_remove_absent page_upsert_sets [OF env_ok]; assumption)+

context page_env
begin

lemmas upserts_set = page_store.upserts_set
lemmas upserts_total = page_store.upserts_total
lemmas replay_difference = page_store.replay_difference
lemmas replay_difference_total = page_store.replay_difference_total

end

interpretation le_pages: page_env le_ext
  by unfold_locales (rule ext_ok_le_ext)

end
