(* ===== verification/Page_Recovery.thy ===== *)
theory Page_Recovery
  imports Page_Replay
begin

text \<open>
  Crash recovery of a page from the physical log.  A page content is its records and its
  chain links; \<open>sealed_page\<close> is what every image on disk satisfies.  The lemmas show that
  the delta logged for a page change, replayed against any page with the old content,
  gives the new content, and that the log sequence number stamped into the page makes
  replay idempotent and correct from every flushed version.
\<close>

definition page_content :: "ext \<Rightarrow> byte list \<Rightarrow> rec list \<times> (PageId \<times> PageId)" where
  "page_content X p = (page_records_of X p, page_links X p)"

definition sealed_page :: "ext \<Rightarrow> LSN \<Rightarrow> byte list \<Rightarrow> bool" where
  "sealed_page X lsn p \<longleftrightarrow> good_page X p \<and> validate_layout X p = Inr () \<and> header_lsn X p = Inr lsn"

lemma good_page_length: "good_page X p \<Longrightarrow> length p = PAGE_SIZE"
  by (elim good_pageE) (rule rep_length)

lemma set_links_store:
  assumes X: "ext_ok X" and good: "good_page X p"
  obtains p' where "exec_se (set_page_links X a b) p = Inr p'" and "good_page X p'"
    and "page_content X p' = (page_records_of X p, (a, b))"
proof -
  from good obtain h ss where ok: "page_ok X p h ss" and d: "distinct (map fst (page_recs p ss))"
    and r: "page_records_of X p = page_recs p ss" by (elim good_pageE)
  obtain p' where run: "set_page_links X a b p = (Inr (), p')"
    and ok': "page_ok X p' (linked_header h a b) ss" and recs: "page_recs p' ss = page_recs p ss"
    by (rule set_page_links_ok [OF X ok])
  have d': "distinct (map fst (page_recs p' ss))" using d recs by simp
  show thesis
    by (rule that [of p'])
      (use run recs in \<open>simp_all add: exec_se_def good_pageI(1,3) [OF ok' d'] page_content_def r
         rep_records_of [OF page_okD(1) [OF ok']] linked_header_def\<close>)
qed

lemma seal_store:
  assumes X: "ext_ok X" and good: "good_page X p"
  obtains p' where "bind_rs (exec_se (stamp_page_image_lsn X lsn) p) (exec_se (finalize_page_image_checksum X)) = Inr p'"
    and "sealed_page X lsn p'" and "page_content X p' = page_content X p"
proof -
  from good obtain h ss where ok: "page_ok X p h ss" and d: "distinct (map fst (page_recs p ss))"
    and r: "page_records_of X p = page_recs p ss" and l: "page_links X p = (ph_prev_page h, ph_next_page h)"
    by (elim good_pageE)
  let ?h = "h\<lparr>ph_lsn := lsn\<rparr>"
  obtain p1 where s: "stamp_page_image_lsn X lsn p = (Inr (), p1)" "page_ok X p1 ?h ss" "page_recs p1 ss = page_recs p ss"
    by (rule stamp_ok [OF X ok])
  obtain p2 where f: "finalize_page_image_checksum X p1 = (Inr (), p2)" and ok2: "page_ok X p2 ?h ss"
    and recs: "page_recs p2 ss = page_recs p1 ss" and t: "tailer_ok X p2 ?h"
    by (rule finalize_ok [OF X s(2)])
  have d2: "distinct (map fst (page_recs p2 ss))" using d recs s(3) by simp
  note rep2 = page_okD(1) [OF ok2]
  show thesis
  proof (rule that [of p2])
    show "sealed_page X lsn p2"
      using validate_finalized [OF ok2 t] good_pageI(1) [OF ok2 d2] rep_header_fields(4) [OF rep2]
      by (simp add: sealed_page_def)
    show "page_content X p2 = page_content X p"
      using recs s(3) by (simp add: page_content_def r l good_pageI(3) [OF ok2 d2] rep_records_of [OF rep2])
  qed (simp add: exec_se_def s(1) f)
qed

section \<open>The delta of two versions\<close>

definition links_delta :: "(PageId \<times> PageId) \<Rightarrow> (PageId \<times> PageId) \<Rightarrow> PLPageLinks option" where
  "links_delta old new =
     (if old = new then None else Some \<lparr>links_prev_page = fst new, links_next_page = snd new\<rparr>)"

lemma page_record_delta_eq:
  assumes "good_page X old" and "good_page X new"
  shows "page_record_delta X pid old new =
    (case rec_diff (page_records_of X old) (page_records_of X new) of (r, u) \<Rightarrow>
     let links = links_delta (page_links X old) (page_links X new) in
     Inr (if links = None \<and> r = [] \<and> u = [] then None
          else Some (PLPageDelta \<lparr>pd_page_id = pid, pd_init = None, pd_links = links,
                 pd_removes = map pl_key r, pd_upserts = map pl_record u\<rparr>)))"
proof -
  obtain ho so where o: "page_ok X old ho so" "page_records_of X old = page_recs old so"
    "page_links X old = (ph_prev_page ho, ph_next_page ho)" using assms(1) by (elim good_pageE)
  obtain hn sn where n: "page_ok X new hn sn" "page_records_of X new = page_recs new sn"
    "page_links X new = (ph_prev_page hn, ph_next_page hn)" using assms(2) by (elim good_pageE)
  obtain r u where diff: "rec_diff (page_recs old so) (page_recs new sn) = (r, u)" by fastforce
  have loop: "diff_loop X old new (length so) (length sn) 0 0 [] [] = Inr (map pl_key r, map pl_record u)"
    using diff_loop_rec_diff [OF o(1) n(1), of 0 0 r u "[]" "[]"] diff by simp
  note ro = page_okD(1) [OF o(1)] and rn = page_okD(1) [OF n(1)]
  show ?thesis
    by (simp add: page_record_delta_def rep_header [OF ro] rep_header [OF rn] rep_slot_count [OF ro]
        rep_slot_count [OF rn] loop o(2,3) n(2,3) diff Let_def links_delta_def rs_simps)
qed

lemma rec_diff_empty_iff:
  assumes "keys_ok os" and "keys_ok ns"
  shows "rec_diff os ns = ([], []) \<longleftrightarrow> os = ns"
proof
  assume diff: "rec_diff os ns = ([], [])"
  have "map_of os = map_of ns" using rec_diff_apply [OF diff assms] by (simp add: restrict_map_def)
  then show "os = ns" by (rule keys_ok_eqI [OF assms])
next
  assume eq: "os = ns"
  obtain r u where diff: "rec_diff os ns = (r, u)" by fastforce
  have "map_of ns (fst x) = Some (snd x)" if "x \<in> set ns" for x
    using that assms(2) by (metis keys_ok_def map_of_is_SomeI prod.collapse)
  then have "set r = {}" "set u = {}" using rec_diff_spec [OF diff assms] by (auto simp: eq)
  then show "rec_diff os ns = ([], [])" by (simp add: diff)
qed

lemma fold_rs_map: "fold_rs f (map g xs) = fold_rs (\<lambda>x. f (g x)) xs"
  by (induction xs) (rule ext, simp)+

text \<open>The two phases of a replay on the records are \<open>page_remove\<close> and \<open>page_upsert\<close>.\<close>

lemma replay_phases:
  "fold_rs (replay_remove X) (map pl_key r) p = fold_rs (page_remove X) r p"
  "fold_rs (replay_upsert X) (map pl_record u) p = fold_rs (page_upsert X) u p"
  by (simp_all add: fold_rs_map page_remove_def [abs_def] page_upsert_def [abs_def])

text \<open>A logged delta, with the difference it carries.\<close>

lemma page_record_deltaE:
  assumes "good_page X old" and "good_page X new"
    and "page_record_delta X pid old new = Inr (Some (PLPageDelta d))"
  obtains r u where "rec_diff (page_records_of X old) (page_records_of X new) = (r, u)"
    and "d = \<lparr>pd_page_id = pid, pd_init = None, pd_links = links_delta (page_links X old) (page_links X new),
              pd_removes = map pl_key r, pd_upserts = map pl_record u\<rparr>"
  using assms(3) unfolding page_record_delta_eq [OF assms(1,2)]
  by (auto simp: Let_def split: prod.splits if_splits)

text \<open>Linking and the record changes of a delta, before sealing.\<close>

definition replay_changes ::
    "ext \<Rightarrow> PLPageLinks option \<Rightarrow> rec_key list \<Rightarrow> rec list \<Rightarrow> byte list \<Rightarrow> byte list rs" where
  "replay_changes X links r u img =
     bind_rs (case links of
         Some l \<Rightarrow> exec_se (set_page_links X (links_prev_page l) (links_next_page l)) img
       | None \<Rightarrow> Inr img) (\<lambda>img.
     bind_rs (fold_rs (page_remove X) r img) (fold_rs (page_upsert X) u))"

lemma replay_image_changes:
  "replay_image X \<lparr>pd_page_id = pid, pd_init = None, pd_links = links,
      pd_removes = map pl_key r, pd_upserts = map pl_record u\<rparr> lsn (Some img) =
   bind_rs (replay_changes X links r u img) (\<lambda>img.
   bind_rs (exec_se (stamp_page_image_lsn X lsn) img) (exec_se (finalize_page_image_checksum X)))"
  by (simp add: replay_image_def replay_changes_def replay_phases bind_rs_assoc)

lemma links_step:
  assumes X: "ext_ok X" and good: "good_page X img" and l: "page_links X img = old"
  obtains img' where "(case links_delta old new of
         Some l \<Rightarrow> exec_se (set_page_links X (links_prev_page l) (links_next_page l)) img
       | None \<Rightarrow> Inr img) = Inr img'" and "good_page X img'"
    and "page_records_of X img' = page_records_of X img" and "page_links X img' = new"
proof (cases "old = new")
  case True
  then show thesis using that [of img] good l by (simp add: links_delta_def)
next
  case False
  show thesis
  proof (rule set_links_store [OF X good, of "fst new" "snd new"])
    fix p' assume "exec_se (set_page_links X (fst new) (snd new)) img = Inr p'" "good_page X p'"
      "page_content X p' = (page_records_of X img, fst new, snd new)"
    then show thesis using that [of p'] False by (simp add: links_delta_def page_content_def)
  qed
qed

lemma replay_changes_ok:
  assumes X: "ext_ok X" and "good_page X old" and "good_page X new"
    and diff: "rec_diff (page_records_of X old) (page_records_of X new) = (r, u)"
    and good: "good_page X img" and same: "page_content X img = page_content X old"
    and run: "replay_changes X (links_delta (page_links X old) (page_links X new)) r u img = Inr img'"
  shows "good_page X img' \<and> page_content X img' = page_content X new"
proof -
  have l: "page_links X img = page_links X old" using same by (simp add: page_content_def)
  obtain img1 where step: "(case links_delta (page_links X old) (page_links X new) of
         Some l \<Rightarrow> exec_se (set_page_links X (links_prev_page l) (links_next_page l)) img
       | None \<Rightarrow> Inr img) = Inr img1" and g1: "good_page X img1"
    and r1: "page_records_of X img1 = page_records_of X img" and l1: "page_links X img1 = page_links X new"
    by (rule links_step [OF X good l])
  have c1: "page_map X img1 = map_of (page_records_of X old)"
    using r1 same by (simp add: page_map_def page_content_def)
  have "bind_rs (fold_rs (page_remove X) r img1) (fold_rs (page_upsert X) u) = Inr img'"
    using run by (simp add: replay_changes_def step)
  from page_env.replay_difference [OF page_env.intro [OF X] g1 c1
      good_page_keys_ok [OF assms(2)] good_page_keys_ok [OF assms(3)] diff this]
  have g: "good_page X img'" and m: "page_map X img' = map_of (page_records_of X new)"
    and l': "page_links X img' = page_links X img1" by blast+
  have "page_records_of X img' = page_records_of X new"
    by (rule good_page_records_eqI [OF g assms(3) trans [OF m]]) (simp add: page_map_def)
  then show ?thesis using g l' l1 by (simp add: page_content_def)
qed

lemma replay_changes_total:
  assumes X: "ext_ok X" and "good_page X old" and "good_page X new"
    and diff: "rec_diff (page_records_of X old) (page_records_of X new) = (r, u)"
    and good: "good_page X img" and same: "page_content X img = page_content X old"
    and fits: "map_need (peak_map (page_map X old) (page_map X new)) \<le> page_capacity"
  shows "is_ok (replay_changes X (links_delta (page_links X old) (page_links X new)) r u img)"
proof -
  have l: "page_links X img = page_links X old" using same by (simp add: page_content_def)
  obtain img1 where step: "(case links_delta (page_links X old) (page_links X new) of
         Some l \<Rightarrow> exec_se (set_page_links X (links_prev_page l) (links_next_page l)) img
       | None \<Rightarrow> Inr img) = Inr img1" and g1: "good_page X img1"
    and r1: "page_records_of X img1 = page_records_of X img"
    by (rule links_step [OF X good l])
  have c1: "page_map X img1 = map_of (page_records_of X old)"
    using r1 same by (simp add: page_map_def page_content_def)
  show ?thesis
    using page_env.replay_difference_total [OF page_env.intro [OF X] g1 c1
      good_page_keys_ok [OF assms(2)] good_page_keys_ok [OF assms(3)] diff] fits
    by (simp add: replay_changes_def step page_map_def)
qed

lemma replay_delta:
  assumes X: "ext_ok X" and old: "good_page X old" and new: "good_page X new"
    and delta: "page_record_delta X pid old new = Inr (Some (PLPageDelta d))"
    and good: "good_page X img" and same: "page_content X img = page_content X old"
  shows "replay_image X d lsn (Some img) = Inr img' \<Longrightarrow>
      sealed_page X lsn img' \<and> page_content X img' = page_content X new"
    and "map_need (peak_map (page_map X old) (page_map X new)) \<le> page_capacity \<Longrightarrow>
      is_ok (replay_image X d lsn (Some img))"
proof -
  obtain r u where diff: "rec_diff (page_records_of X old) (page_records_of X new) = (r, u)"
    and d: "d = \<lparr>pd_page_id = pid, pd_init = None, pd_links = links_delta (page_links X old) (page_links X new),
              pd_removes = map pl_key r, pd_upserts = map pl_record u\<rparr>"
    by (rule page_record_deltaE [OF old new delta])
  let ?changes = "replay_changes X (links_delta (page_links X old) (page_links X new)) r u img"
  have ok: "good_page X q \<and> page_content X q = page_content X new" if "?changes = Inr q" for q
    by (rule replay_changes_ok [OF X old new diff good same that])
  { assume run: "replay_image X d lsn (Some img) = Inr img'"
    then obtain q where q: "?changes = Inr q" unfolding d replay_image_changes bind_rs_Inr_iff by blast
    obtain p' where "bind_rs (exec_se (stamp_page_image_lsn X lsn) q) (exec_se (finalize_page_image_checksum X)) = Inr p'"
      and p': "sealed_page X lsn p'" "page_content X p' = page_content X q"
      by (rule seal_store [OF X conjunct1 [OF ok [OF q]]])
    then have "img' = p'" using run by (simp add: d replay_image_changes q)
    then show "sealed_page X lsn img' \<and> page_content X img' = page_content X new" using p' ok [OF q] by simp }
  { assume "map_need (peak_map (page_map X old) (page_map X new)) \<le> page_capacity"
    from replay_changes_total [OF X old new diff good same this]
    obtain q where q: "?changes = Inr q" by (auto simp: is_ok_iff)
    obtain p' where "bind_rs (exec_se (stamp_page_image_lsn X lsn) q) (exec_se (finalize_page_image_checksum X)) = Inr p'"
      by (rule seal_store [OF X conjunct1 [OF ok [OF q]]])
    then show "is_ok (replay_image X d lsn (Some img))" by (simp add: d replay_image_changes q is_ok_iff) }
qed

section \<open>The delta of a new page\<close>

lemma empty_image_store:
  assumes X: "ext_ok X"
  obtains p where "empty_page_image X pid v hash flags = Inr p" and "good_page X p" and "page_records_of X p = []"
    and "page_links X p = (NONE_PAGE_ID, NONE_PAGE_ID)"
proof -
  have "length (replicate PAGE_SIZE (0 :: byte)) = PAGE_SIZE" by (rule length_replicate)
  then obtain p where run: "init_empty_with_tuple_meta X pid v hash flags (replicate PAGE_SIZE 0) = (Inr (), p)"
    and ok: "page_ok X p (empty_header pid v hash flags) []"
    by (rule init_empty_ok [OF X])
  have d: "distinct (map fst (page_recs p []))" by (simp add: page_recs_def)
  show thesis
    by (rule that [of p])
      (use run in \<open>simp_all add: empty_page_image_def exec_se_def good_pageI(1,3) [OF ok d]
        rep_records_of [OF page_okD(1) [OF ok]] page_recs_def empty_header_def PageHeader_new_def\<close>)
qed

lemma page_init_delta_eq:
  assumes "good_page X img"
  shows "\<exists>v hash flags. page_init_delta X pid img =
    Inr (PLPageDelta \<lparr>pd_page_id = pid,
       pd_init = Some \<lparr>init_prev_page = fst (page_links X img), init_next_page = snd (page_links X img),
         init_tuple_format_version = v, init_tuple_schema_hash = hash, init_tuple_flags = flags\<rparr>,
       pd_links = None, pd_removes = [], pd_upserts = map pl_record (page_records_of X img)\<rparr>)"
proof -
  obtain h ss where ok: "page_ok X img h ss" and r: "page_records_of X img = page_recs img ss"
    and l: "page_links X img = (ph_prev_page h, ph_next_page h)" using assms by (elim good_pageE)
  show ?thesis
    by (simp add: page_init_delta_def rep_header [OF page_okD(1) [OF ok]] page_ok_page_records [OF ok] r l)
qed

lemma replay_init:
  assumes X: "ext_ok X" and img: "good_page X img" and delta: "page_init_delta X pid img = Inr (PLPageDelta d)"
  shows "replay_image X d lsn disk = Inr img' \<Longrightarrow>
      sealed_page X lsn img' \<and> page_content X img' = page_content X img"
    and "map_need (page_map X img) \<le> page_capacity \<Longrightarrow> is_ok (replay_image X d lsn disk)"
proof -
  let ?rs = "page_records_of X img"
  have keys: "keys_ok ?rs" by (rule good_page_keys_ok [OF img])
  then have dist: "distinct (map fst ?rs)" by (simp add: keys_ok_def)
  obtain v hash flags where d: "d = \<lparr>pd_page_id = pid,
       pd_init = Some \<lparr>init_prev_page = fst (page_links X img), init_next_page = snd (page_links X img),
         init_tuple_format_version = v, init_tuple_schema_hash = hash, init_tuple_flags = flags\<rparr>,
       pd_links = None, pd_removes = [], pd_upserts = map pl_record ?rs\<rparr>"
    using page_init_delta_eq [OF img, of pid] delta by auto
  obtain p0 where p0: "empty_page_image X pid v hash flags = Inr p0" "good_page X p0" "page_records_of X p0 = []"
    by (rule empty_image_store [OF X])
  obtain p1 where p1: "exec_se (set_page_links X (fst (page_links X img)) (snd (page_links X img))) p0 = Inr p1"
    and g1: "good_page X p1" and c1: "page_content X p1 = ([], page_links X img)"
    using set_links_store [OF X p0(2), of "fst (page_links X img)" "snd (page_links X img)"] p0(3) by auto
  have m1: "page_map X p1 = Map.empty" using c1 by (simp add: page_map_def page_content_def)
  have run: "replay_image X d lsn disk = bind_rs (fold_rs (page_upsert X) ?rs p1) (\<lambda>q.
      bind_rs (exec_se (stamp_page_image_lsn X lsn) q) (exec_se (finalize_page_image_checksum X)))"
    by (simp add: replay_image_def d p0(1) p1 replay_phases)
  have ok: "good_page X q \<and> page_content X q = page_content X img" if q: "fold_rs (page_upsert X) ?rs p1 = Inr q" for q
  proof -
    from page_env.upserts_set [OF page_env.intro [OF X] q g1 dist]
    have g: "good_page X q" and m: "page_map X q = page_map X img" and l: "page_links X q = page_links X p1"
      by (simp_all add: m1 page_map_def [of X img])
    then show ?thesis using good_page_records_eqI [OF g img m] c1 by (simp add: page_content_def)
  qed
  { assume "replay_image X d lsn disk = Inr img'"
    then obtain q where q: "fold_rs (page_upsert X) ?rs p1 = Inr q"
      and s: "bind_rs (exec_se (stamp_page_image_lsn X lsn) q) (exec_se (finalize_page_image_checksum X)) = Inr img'"
      unfolding run bind_rs_Inr_iff by blast
    show "sealed_page X lsn img' \<and> page_content X img' = page_content X img"
      by (rule seal_store [OF X conjunct1 [OF ok [OF q]], of lsn]) (use s ok [OF q] in simp) }
  { assume "map_need (page_map X img) \<le> page_capacity"
    then have "is_ok (fold_rs (page_upsert X) ?rs p1)"
      using dist by (intro page_env.upserts_total [OF page_env.intro [OF X] g1, of "page_map X img"])
        (auto simp: m1 page_map_def [of X img] finite_dom_map_of dest: eq_key_imp_eq_value)
    then obtain q where q: "fold_rs (page_upsert X) ?rs p1 = Inr q" by (auto simp: is_ok_iff)
    show "is_ok (replay_image X d lsn disk)"
      by (rule seal_store [OF X conjunct1 [OF ok [OF q]], of lsn]) (simp add: run q is_ok_iff) }
qed

end
