(* ===== verification/Page_Length.thy ===== *)
theory Page_Length
  imports Page_Recovery
begin

text \<open>
  The page buffer is a fixed-size slice in the code, so no operation can change its length;
  here that is a property of the byte-list model, on every path including the failing ones.
  It gives the frame property of replay: a delta for one page leaves all others alone.
\<close>

definition keeps_len :: "(byte list, 'a) se \<Rightarrow> bool" where
  "keeps_len m \<longleftrightarrow> (\<forall>p. length (snd (m p)) = length p)"

named_theorems keeps \<open>operations that keep the length of the page\<close>

lemma keeps_bind [keeps]:
  assumes "keeps_len m" and "\<And>a. keeps_len (k a)"
  shows "keeps_len (bind_se m k)"
  unfolding keeps_len_def
proof
  fix p
  obtain r q where m: "m p = (r, q)" by (cases "m p")
  then have "length q = length p" using assms(1) by (metis keeps_len_def snd_conv)
  then show "length (snd (bind_se m k p)) = length p"
    using assms(2) m by (cases r) (simp_all add: bind_se_def keeps_len_def)
qed

lemma keeps_basic [keeps]:
  "keeps_len (read_se f)" "keeps_len (return_se a)" "keeps_len (fail_se e)" "keeps_len (lift_se r)"
  by (simp_all add: keeps_len_def read_se_def return_se_def fail_se_def lift_se_def)

lemma keeps_if [keeps]: "keeps_len m \<Longrightarrow> keeps_len n \<Longrightarrow> keeps_len (if b then m else n)"
  by simp

lemma keeps_case_prod [keeps]: "(\<And>a b. keeps_len (f a b)) \<Longrightarrow> keeps_len (case p of (a, b) \<Rightarrow> f a b)"
  by (cases p) simp

lemma keeps_update:
  assumes "\<And>p q. f p = Inr q \<Longrightarrow> length q = length p"
  shows "keeps_len (update_se f)"
  unfolding keeps_len_def
proof
  fix p
  show "length (snd (update_se f p)) = length p"
    using assms [of p] by (cases "f p") (simp_all add: update_se_def)
qed

text \<open>A write through a range replaces it by as many bytes.\<close>

lemma length_sub_slice_in: "a \<le> b \<Longrightarrow> b \<le> length xs \<Longrightarrow> length (sub_slice a b xs) = b - a"
  by (simp add: sub_slice_def)

lemma keeps_on_range:
  assumes "\<And>bs bs'. f bs = Inr bs' \<Longrightarrow> length bs' = length bs"
  shows "keeps_len (update_se (on_range a b f))"
proof (rule keeps_update)
  fix p q assume "on_range a b f p = Inr q"
  then obtain bs' where "a \<le> b" "b \<le> length p" "f (sub_slice a b p) = Inr bs'" "q = patch a bs' p"
    by (auto simp: on_range_def index_range_def rs_simps split: if_splits)
  then show "length q = length p"
    using assms [of "sub_slice a b p" bs'] by (simp add: length_sub_slice_in patch_def)
qed

lemma keeps_copy_within [keeps]: "keeps_len (update_se (copy_within a b dest))"
  by (rule keeps_update) (auto simp: copy_within_def patch_def sub_slice_def split: if_splits)

lemma keeps_copy_from_slice [keeps]: "keeps_len (update_se (on_range a b (copy_from_slice src)))"
  by (rule keeps_on_range) (auto simp: copy_from_slice_def split: if_splits)

lemma keeps_fill_zero [keeps]: "keeps_len (update_se (on_range a b fill_zero))"
  by (rule keeps_on_range) (simp add: fill_zero_def)

lemma keeps_slot [keeps]: "ext_ok X \<Longrightarrow> keeps_len (update_se (on_range a b (RecordSlot_encode X s)))"
  by (rule keeps_on_range) (auto simp: RecordSlot_encode_def rs_simps Let_def length_patch ensure_def split: if_splits)

lemma keeps_tailer [keeps]: "ext_ok X \<Longrightarrow> keeps_len (update_se (on_range a b (PageTailer_encode X t)))"
  by (rule keeps_on_range) (auto simp: PageTailer_encode_def rs_simps length_patch ensure_def split: if_splits)

lemma length_PageHeader_write:
  "ext_ok X \<Longrightarrow> header_wf h \<Longrightarrow> 128 \<le> length out \<Longrightarrow> length (PageHeader_write X h out) = length out"
  by (simp add: PageHeader_write_eq length_patch)

lemma keeps_header [keeps]:
  assumes "ext_ok X" and "header_wf h"
  shows "keeps_len (update_se (on_range a b (PageHeader_encode X h)))"
  by (rule keeps_on_range)
    (auto simp: PageHeader_encode_def rs_simps ensure_def length_PageHeader_write [OF assms] split: if_splits)

text \<open>A header read from a page has its reserved bytes.\<close>

lemma mut_header_wf: "mut_header X p = Inr h \<Longrightarrow> header_wf h"
  by (auto simp: mut_header_def pb_header_def rs_simps dest: PageHeader_decode_wf)

lemma pb_header_wf: "pb_header X p = Inr h \<Longrightarrow> header_wf h"
  by (auto simp: pb_header_def rs_simps dest: PageHeader_decode_wf)

lemma keeps_read_wf:
  assumes "\<And>h. header_wf h \<Longrightarrow> keeps_len (k h)" and "\<And>p h. hdr p = Inr h \<Longrightarrow> header_wf h"
  shows "keeps_len (bind_se (read_se hdr) k)"
  unfolding keeps_len_def
proof
  fix p
  show "length (snd (bind_se (read_se hdr) k p)) = length p"
    using assms(1) assms(2) [of p] by (cases "hdr p") (simp_all add: bind_se_def read_se_def keeps_len_def)
qed

lemma keeps_read_header [keeps]:
  "(\<And>h. header_wf h \<Longrightarrow> keeps_len (k h)) \<Longrightarrow> keeps_len (bind_se (read_se (mut_header X)) k)"
  "(\<And>h. header_wf h \<Longrightarrow> keeps_len (k h)) \<Longrightarrow> keeps_len (bind_se (read_se (pb_header X)) k)"
  by (erule keeps_read_wf, erule mut_header_wf, erule keeps_read_wf, erule pb_header_wf)


lemma keeps_init: "ext_ok X \<Longrightarrow> keeps_len (init_empty_with_tuple_meta X pid v hash flags)"
  unfolding init_empty_with_tuple_meta_def Let_def
  by (intro keeps) (simp_all add: keeps_len_def write_se_def header_wf_def PageHeader_new_def)

lemma keeps_set_page_links: "ext_ok X \<Longrightarrow> keeps_len (set_page_links X a b)"
  unfolding set_page_links_def Let_def by (intro keeps) (simp_all add: header_wf_def)

lemma keeps_insert_slot_bytes [keeps]: "ext_ok X \<Longrightarrow> keeps_len (insert_slot_bytes X pos slot)"
  unfolding insert_slot_bytes_def Let_def by (intro keeps)

lemma keeps_rewrite_header [keeps]:
  "ext_ok X \<Longrightarrow> header_wf h \<Longrightarrow> keeps_len (rewrite_header_after_insert X h n ff lr)"
  unfolding rewrite_header_after_insert_def Let_def by (intro keeps) (simp_all add: header_wf_def)

lemma keeps_insert_record: "ext_ok X \<Longrightarrow> keeps_len (insert_record X ts tid payload)"
  unfolding insert_record_def Let_def by (intro keeps)

lemma keeps_rebuild_loop [keeps]: "keeps_len (rebuild_loop X es n slots)"
proof (induction es arbitrary: n slots)
  case (Cons e es)
  then show ?case unfolding rebuild_loop.simps Let_def by (cases e) (simp only: rebuild_loop.simps Let_def, intro keeps)
qed (simp only: rebuild_loop.simps, intro keeps)

lemma keeps_write_slots [keeps]: "ext_ok X \<Longrightarrow> keeps_len (write_slots X i slots)"
proof (induction slots arbitrary: i)
  case (Cons s slots)
  then show ?case unfolding write_slots.simps by (intro keeps)
qed (simp only: write_slots.simps, intro keeps)

lemma keeps_rewrite_slots [keeps]: "ext_ok X \<Longrightarrow> keeps_len (rewrite_header_and_slots X pid slots ff)"
  unfolding rewrite_header_and_slots_def Let_def by (intro keeps) (simp_all add: header_wf_def)

lemma keeps_rebuild [keeps]: "ext_ok X \<Longrightarrow> keeps_len (rebuild_from_entries X es)"
  unfolding rebuild_from_entries_def Let_def by (intro keeps)

lemma keeps_compact_with_slots [keeps]: "ext_ok X \<Longrightarrow> keeps_len (compact_with_slots X slots)"
  unfolding compact_with_slots_def Let_def by (intro keeps)

lemma keeps_compact: "ext_ok X \<Longrightarrow> keeps_len (compact X)"
  unfolding compact_def Let_def by (intro keeps)

lemma keeps_delete_record: "ext_ok X \<Longrightarrow> keeps_len (delete_record X i)"
  unfolding delete_record_def Let_def by (intro keeps)

lemma keeps_update_record: "ext_ok X \<Longrightarrow> keeps_len (update_record X i ts tid payload)"
  unfolding update_record_def Let_def by (intro keeps)

lemma keeps_finalize: "ext_ok X \<Longrightarrow> keeps_len (finalize_page_image_checksum X)"
  unfolding finalize_page_image_checksum_def refresh_tailer_checksum_def Let_def by (intro keeps)

lemma keeps_stamp: "ext_ok X \<Longrightarrow> keeps_len (stamp_page_image_lsn X lsn)"
  unfolding stamp_page_image_lsn_def by (intro keeps) (simp_all add: header_wf_def)

section \<open>Replayed images are pages\<close>

lemma exec_keeps: "keeps_len m \<Longrightarrow> exec_se m p = Inr q \<Longrightarrow> length q = length p"
  unfolding keeps_len_def exec_se_def by (cases "m p") (auto dest: spec [of _ p] split: sum.splits)

lemma length_replay_remove: "ext_ok X \<Longrightarrow> replay_remove X k p = Inr q \<Longrightarrow> length q = length p"
  by (auto simp: replay_remove_def rs_simps dest: exec_keeps [OF keeps_delete_record])

lemma length_replay_upsert:
  assumes X: "ext_ok X" and run: "replay_upsert X r p = Inr q"
  shows "length q = length p"
proof -
  obtain found where f: "find_slot_index X p (rec_timestamp r) (rec_tuple_id r) = Inr found"
    using run by (auto simp: replay_upsert_def rs_simps)
  show ?thesis
  proof (cases found)
    case (Some i)
    then show ?thesis using run f exec_keeps [OF keeps_update_record [OF X]] by (simp add: replay_upsert_def)
  next
    case None
    obtain res p1 where ins: "insert_record X (rec_timestamp r) (rec_tuple_id r) (rec_payload r) p = (res, p1)"
      by (cases "insert_record X (rec_timestamp r) (rec_tuple_id r) (rec_payload r) p")
    have l1: "length p1 = length p" using keeps_insert_record [OF X] ins by (metis keeps_len_def snd_conv)
    show ?thesis
    proof (cases res)
      case (Inr i)
      then show ?thesis using run f None ins l1 by (simp add: replay_upsert_def)
    next
      case (Inl e)
      then have "bind_rs (exec_se (compact X) p1) (exec_se (insert_record X (rec_timestamp r) (rec_tuple_id r) (rec_payload r))) = Inr q"
        using run f None ins by (simp add: replay_upsert_def split: if_splits)
      then obtain p2 where "exec_se (compact X) p1 = Inr p2"
        and "exec_se (insert_record X (rec_timestamp r) (rec_tuple_id r) (rec_payload r)) p2 = Inr q"
        by (auto simp: rs_simps)
      then show ?thesis using l1 exec_keeps [OF keeps_compact [OF X]] exec_keeps [OF keeps_insert_record [OF X]] by metis
    qed
  qed
qed

lemma fold_rs_length:
  assumes "\<And>x p q. f x p = Inr q \<Longrightarrow> length q = length (p :: byte list)"
  shows "fold_rs f xs p = Inr q \<Longrightarrow> length q = length p"
  by (induction xs arbitrary: p) (auto simp: rs_simps dest: assms)

lemma length_replay_folds:
  "ext_ok X \<Longrightarrow> fold_rs (replay_remove X) ks p = Inr q \<Longrightarrow> length q = length p"
  "ext_ok X \<Longrightarrow> fold_rs (replay_upsert X) rs p = Inr q \<Longrightarrow> length q = length p"
  using fold_rs_length length_replay_remove length_replay_upsert by metis+

lemma length_replay_image:
  assumes X: "ext_ok X" and disk: "\<And>img. disk = Some img \<Longrightarrow> length img = PAGE_SIZE"
    and run: "replay_image X d lsn disk = Inr q"
  shows "length q = PAGE_SIZE"
proof -
  note ex = exec_keeps [OF keeps_set_page_links [OF X]] exec_keeps [OF keeps_stamp [OF X]]
    exec_keeps [OF keeps_finalize [OF X]] exec_keeps [OF keeps_init [OF X]]
    length_replay_folds [OF X]
  show ?thesis
  proof (cases "pd_init d")
    case None
    then obtain img where "disk = Some img" using run by (cases disk) (auto simp: replay_image_def)
    then show ?thesis
      using run None disk by (auto simp: replay_image_def rs_simps split: option.splits dest!: ex)
  next
    case (Some i)
    then show ?thesis using run by (auto simp: replay_image_def empty_page_image_def rs_simps dest!: ex)
  qed
qed

end
