(* ===== verification/File_Recovery.thy ===== *)
theory File_Recovery
  imports Page_Length
begin

text \<open>
  Replay at the level of the data file.  \<open>disk_page\<close> is the page that the file holds under a
  page id.  A delta changes its own page only, is skipped when the page is as new as the
  batch, and a whole log brings a page from any version that was flushed to the last one.
\<close>

definition disk_page :: "data_file \<Rightarrow> PageId \<Rightarrow> byte list option" where
  "disk_page f pid =
     (if unat pid * PAGE_SIZE + PAGE_SIZE \<le> length f
      then Some (sub_slice (unat pid * PAGE_SIZE) (unat pid * PAGE_SIZE + PAGE_SIZE) f) else None)"

definition addressable :: "PageId \<Rightarrow> bool" where
  "addressable pid \<longleftrightarrow> unat pid * PAGE_SIZE + PAGE_SIZE < 2 ^ 64"

lemma disk_page_length: "disk_page f pid = Some img \<Longrightarrow> length img = PAGE_SIZE"
  by (auto simp: disk_page_def sub_slice_def split: if_splits)

lemma length_write_all_at:
  "length (write_all_at off bs f) = max (length f) (off + length bs)"
  by (simp add: write_all_at_def patch_def)

lemma disk_page_write_same:
  assumes "length img = PAGE_SIZE"
  shows "disk_page (write_all_at (unat pid * PAGE_SIZE) img f) pid = Some img"
proof -
  have "sub_slice (unat pid * PAGE_SIZE) (unat pid * PAGE_SIZE + PAGE_SIZE) (write_all_at (unat pid * PAGE_SIZE) img f) = img"
    unfolding write_all_at_def Let_def by (rule sub_slice_patch_same) (simp_all add: assms)
  then show ?thesis by (simp add: disk_page_def length_write_all_at assms)
qed

lemma sub_slice_append_left: "b \<le> length xs \<Longrightarrow> sub_slice a b (xs @ ys) = sub_slice a b xs"
  by (simp add: sub_slice_def)

text \<open>A write that stops early leaves every other page alone too.\<close>

lemma disk_page_write_short:
  assumes len: "length img \<le> PAGE_SIZE" and neq: "q \<noteq> pid" and old: "disk_page f q = Some p"
  shows "disk_page (write_all_at (unat pid * PAGE_SIZE) img f) q = Some p"
proof -
  let ?g = "f @ replicate (unat pid * PAGE_SIZE + length img - length f) 0"
  have reach: "unat q * PAGE_SIZE + PAGE_SIZE \<le> length f"
    and p: "p = sub_slice (unat q * PAGE_SIZE) (unat q * PAGE_SIZE + PAGE_SIZE) f"
    using old by (auto simp: disk_page_def split: if_splits)
  have fit: "unat pid * PAGE_SIZE + length img \<le> length ?g" by simp
  have g: "sub_slice (unat q * PAGE_SIZE) (unat q * PAGE_SIZE + PAGE_SIZE) ?g = p"
    unfolding p by (rule sub_slice_append_left [OF reach])
  have "unat q < unat pid \<or> unat pid < unat q" using neq by (metis linorder_neqE_nat word_unat_eq_iff)
  then have "unat q * PAGE_SIZE + PAGE_SIZE \<le> unat pid * PAGE_SIZE \<or> unat pid * PAGE_SIZE + PAGE_SIZE \<le> unat q * PAGE_SIZE"
    by auto
  then have "sub_slice (unat q * PAGE_SIZE) (unat q * PAGE_SIZE + PAGE_SIZE) (patch (unat pid * PAGE_SIZE) img ?g) =
      sub_slice (unat q * PAGE_SIZE) (unat q * PAGE_SIZE + PAGE_SIZE) ?g"
  proof
    assume "unat q * PAGE_SIZE + PAGE_SIZE \<le> unat pid * PAGE_SIZE"
    then show ?thesis by (rule sub_slice_patch_before) (use fit in linarith)
  next
    assume "unat pid * PAGE_SIZE + PAGE_SIZE \<le> unat q * PAGE_SIZE"
    then have "unat pid * PAGE_SIZE + length img \<le> unat q * PAGE_SIZE" using len by linarith
    then show ?thesis by (rule sub_slice_patch_after) (rule fit)
  qed
  then have "sub_slice (unat q * PAGE_SIZE) (unat q * PAGE_SIZE + PAGE_SIZE) (write_all_at (unat pid * PAGE_SIZE) img f) = p"
    unfolding write_all_at_def Let_def g .
  then show ?thesis using reach by (simp add: disk_page_def length_write_all_at)
qed

lemma disk_page_write_other:
  assumes "length img = PAGE_SIZE" and "q \<noteq> pid" and "disk_page f q = Some p"
  shows "disk_page (write_all_at (unat pid * PAGE_SIZE) img f) q = Some p"
  by (rule disk_page_write_short[OF eq_refl[OF assms(1)] assms(2,3)])

section \<open>One delta\<close>

lemma page_offset_eq:
  assumes "addressable pid"
  shows "\<exists>off. page_offset pid = Inr off \<and> unat off = unat pid * PAGE_SIZE \<and>
    (\<exists>e. checked_add off (of_nat PAGE_SIZE) = Some e \<and> unat e = unat pid * PAGE_SIZE + PAGE_SIZE)"
proof -
  have four: "unat (of_nat PAGE_SIZE :: u64) = PAGE_SIZE" by simp
  have "unat pid * unat (of_nat PAGE_SIZE :: u64) < 2 ^ 64"
    unfolding four using assms by (simp add: addressable_def)
  then obtain off where off: "checked_mul pid (of_nat PAGE_SIZE) = Some off"
    by (simp only: checked_mul_def if_True)
  then have u: "unat off = unat pid * PAGE_SIZE" using unat_checked_mul [OF off] four by simp
  then have lt: "unat off + unat (of_nat PAGE_SIZE :: u64) < 2 ^ 64"
    unfolding four using assms by (simp add: addressable_def)
  then have "checked_add off (of_nat PAGE_SIZE) = Some (off + of_nat PAGE_SIZE)" by (simp only: checked_add_def if_True)
  moreover have "unat (off + of_nat PAGE_SIZE) = unat pid * PAGE_SIZE + PAGE_SIZE"
    using unat_add_lem [THEN iffD1, of off "of_nat PAGE_SIZE"] lt four u by simp
  ultimately show ?thesis using off u by (simp add: page_offset_def)
qed

definition replay_skips :: "ext \<Rightarrow> LSN \<Rightarrow> byte list option \<Rightarrow> bool rs" where
  "replay_skips X lsn disk =
     (case disk of
        None \<Rightarrow> Inr False
      | Some img \<Rightarrow> bind_rs (validate_layout X img) (\<lambda>_. bind_rs (pb_header X img) (\<lambda>h. Inr (ph_lsn h \<ge> lsn))))"

lemma apply_delta_eq:
  assumes "addressable (pd_page_id d)"
  shows "apply_recovered_page_delta X d lsn f =
    bind_rs (replay_skips X lsn (disk_page f (pd_page_id d))) (\<lambda>skip.
    if skip then Inr f
    else bind_rs (replay_image X d lsn (disk_page f (pd_page_id d))) (\<lambda>img.
         Inr (write_all_at (unat (pd_page_id d) * PAGE_SIZE) img f)))"
proof -
  obtain off e where "page_offset (pd_page_id d) = Inr off" "unat off = unat (pd_page_id d) * PAGE_SIZE"
    "checked_add off (of_nat PAGE_SIZE) = Some e" "unat e = unat (pd_page_id d) * PAGE_SIZE + PAGE_SIZE"
    using page_offset_eq [OF assms] by blast
  then show ?thesis
    by (simp add: apply_recovered_page_delta_def disk_page_def file_len_def read_exact_at_def replay_skips_def
        bind_rs_assoc cong: if_cong)
qed

lemma sealed_skips:
  assumes "sealed_page X l img"
  shows "replay_skips X lsn (Some img) = Inr (l \<ge> lsn)"
proof -
  obtain h ss where "page_rep X img h ss" using assms by (auto simp: sealed_page_def elim: good_pageE)
  then show ?thesis
    using assms rep_header [of X img h ss] rep_header_fields(4) [of X img h ss]
    by (auto simp: replay_skips_def sealed_page_def)
qed

lemma apply_delta_addressable:
  assumes "apply_recovered_page_delta X d lsn f = Inr f'"
  shows "addressable (pd_page_id d)"
proof -
  have four: "unat (of_nat PAGE_SIZE :: u64) = PAGE_SIZE" by simp
  obtain off e where off: "checked_mul (pd_page_id d) (of_nat PAGE_SIZE) = Some off"
    and e: "checked_add off (of_nat PAGE_SIZE) = Some e"
    using assms by (auto simp: apply_recovered_page_delta_def page_offset_def rs_simps)
  have "unat off + unat (of_nat PAGE_SIZE :: u64) < 2 ^ 64"
    using e unfolding checked_add_def by (auto split: if_splits)
  then show ?thesis using unat_checked_mul [OF off] unfolding four addressable_def by simp
qed

text \<open>A delta leaves every other page of the file as it is.\<close>

lemma apply_delta_frame:
  assumes X: "ext_ok X" and run: "apply_recovered_page_delta X d lsn f = Inr f'"
    and neq: "pid \<noteq> pd_page_id d" and page: "disk_page f pid = Some img"
  shows "disk_page f' pid = Some img"
proof -
  have ad: "addressable (pd_page_id d)" by (rule apply_delta_addressable [OF run])
  consider "f' = f" | new where "replay_image X d lsn (disk_page f (pd_page_id d)) = Inr new"
      "f' = write_all_at (unat (pd_page_id d) * PAGE_SIZE) new f"
    using run unfolding apply_delta_eq [OF ad] by (auto simp: rs_simps split: if_splits)
  then show ?thesis
  proof cases
    case (2 new)
    have "length new = PAGE_SIZE"
      by (rule length_replay_image [OF X _ 2(1)]) (rule disk_page_length)
    then show ?thesis unfolding 2(2) by (rule disk_page_write_other [OF _ neq page])
  qed (simp add: page)
qed

lemma apply_delta_old:
  assumes "addressable (pd_page_id d)" and "disk_page f (pd_page_id d) = Some img"
    and "sealed_page X l img" and "lsn \<le> l"
  shows "apply_recovered_page_delta X d lsn f = Inr f"
  using assms by (simp add: apply_delta_eq sealed_skips)

lemma page_record_delta_id:
  assumes "good_page X old" and "good_page X new"
    and "page_record_delta X pid old new = Inr (Some (PLPageDelta d))"
  shows "pd_page_id d = pid"
  by (rule page_record_deltaE [OF assms]) simp

lemma apply_delta_new:
  assumes X: "ext_ok X" and old: "good_page X old" and new: "good_page X new"
    and delta: "page_record_delta X pid old new = Inr (Some (PLPageDelta d))"
    and page: "disk_page f pid = Some img" and seal: "sealed_page X l img"
    and same: "page_content X img = page_content X old" and lsn: "l < lsn"
    and run: "apply_recovered_page_delta X d lsn f = Inr f'"
  shows "\<exists>img'. disk_page f' pid = Some img' \<and> sealed_page X lsn img' \<and> page_content X img' = page_content X new"
proof -
  note id = page_record_delta_id [OF old new delta]
  note run' = run [unfolded apply_delta_eq [OF apply_delta_addressable [OF run]] id page sealed_skips [OF seal]]
  have good: "good_page X img" using seal by (simp add: sealed_page_def)
  obtain img' where rep: "replay_image X d lsn (Some img) = Inr img'"
    and f': "f' = write_all_at (unat pid * PAGE_SIZE) img' f"
    using run' lsn by (auto simp: rs_simps split: if_splits)
  note ok = replay_delta(1) [OF X old new delta good same rep]
  then have "length img' = PAGE_SIZE" by (auto simp: sealed_page_def dest: good_page_length)
  then show ?thesis unfolding f' using ok disk_page_write_same by blast
qed

section \<open>The whole log\<close>

text \<open>The deltas of a recovered log for one file, in replay order.\<close>

fun op_deltas :: "LSN \<Rightarrow> PLOp list \<Rightarrow> (LSN \<times> PageDelta) list" where
  "op_deltas lsn [] = []"
| "op_deltas lsn (PLPageDelta d # ops) = (lsn, d) # op_deltas lsn ops"
| "op_deltas lsn (op # ops) = op_deltas lsn ops"

fun log_deltas :: "PLFileId \<Rightarrow> (LSN \<times> PLBatch) list \<Rightarrow> (LSN \<times> PageDelta) list" where
  "log_deltas fid [] = []"
| "log_deltas fid ((lsn, batch) # log) =
     concat (map (\<lambda>e. op_deltas lsn (ple_ops e)) (filter (\<lambda>e. ple_file e = fid) (plb_entries batch))) @
     log_deltas fid log"

definition replay_deltas :: "ext \<Rightarrow> (LSN \<times> PageDelta) list \<Rightarrow> data_file \<Rightarrow> data_file rs" where
  "replay_deltas X = fold_rs (\<lambda>(lsn, d). apply_recovered_page_delta X d lsn)"

text \<open>\<open>logged X pid p log p'\<close>: the log takes page \<open>pid\<close> from version \<open>p\<close> to version \<open>p'\<close>.\<close>

inductive logged :: "ext \<Rightarrow> PageId \<Rightarrow> byte list \<Rightarrow> (LSN \<times> PageDelta) list \<Rightarrow> byte list \<Rightarrow> bool"
  for X pid where
  logged_nil: "good_page X p \<Longrightarrow> logged X pid p [] p"
| logged_other: "pd_page_id d \<noteq> pid \<Longrightarrow> logged X pid p log p' \<Longrightarrow> logged X pid p ((lsn, d) # log) p'"
| logged_change: "good_page X old \<Longrightarrow> good_page X new \<Longrightarrow>
    page_record_delta X pid old new = Inr (Some (PLPageDelta d)) \<Longrightarrow> logged X pid new log p' \<Longrightarrow>
    logged X pid old ((lsn, d) # log) p'"

definition page_lsns :: "PageId \<Rightarrow> (LSN \<times> PageDelta) list \<Rightarrow> LSN list" where
  "page_lsns pid log = map fst (filter (\<lambda>(lsn, d). pd_page_id d = pid) log)"

lemma page_lsns_simps [simp]:
  "page_lsns pid [] = []"
  "page_lsns pid ((lsn, d) # log) = (if pd_page_id d = pid then lsn # page_lsns pid log else page_lsns pid log)"
  by (simp_all add: page_lsns_def)

text \<open>Deltas not newer than the page on disk change nothing on it.\<close>

lemma replay_flushed:
  assumes X: "ext_ok X" and "replay_deltas X log f = Inr f'" and "disk_page f pid = Some img"
    and seal: "sealed_page X l img" and "\<forall>lsn \<in> set (page_lsns pid log). lsn \<le> l"
  shows "disk_page f' pid = Some img"
  using assms(2,3,5)
proof (induction log arbitrary: f)
  case (Cons e log)
  obtain lsn d where e: "e = (lsn, d)" by (cases e)
  obtain f1 where f1: "apply_recovered_page_delta X d lsn f = Inr f1" and rest: "replay_deltas X log f1 = Inr f'"
    using Cons.prems(1) by (auto simp: replay_deltas_def e rs_simps)
  have "disk_page f1 pid = Some img"
  proof (cases "pd_page_id d = pid")
    case True
    then have "apply_recovered_page_delta X d lsn f = Inr f"
      using apply_delta_old [OF apply_delta_addressable [OF f1] _ seal] Cons.prems(2,3) by (simp add: e)
    then show ?thesis using f1 Cons.prems(2) by simp
  next
    case False
    then show ?thesis using apply_delta_frame [OF X f1 _ Cons.prems(2)] by blast
  qed
  then show ?case using Cons.IH [OF rest] Cons.prems(3) by (simp add: e split: if_splits)
qed (simp add: replay_deltas_def)

text \<open>Newer deltas are applied one by one.\<close>

lemma replay_missing:
  assumes X: "ext_ok X" and "logged X pid p log p'" and "replay_deltas X log f = Inr f'"
    and "disk_page f pid = Some img" and "sealed_page X l img" and "page_content X img = page_content X p"
    and "sorted_wrt (<) (l # page_lsns pid log)"
  shows "\<exists>img'. disk_page f' pid = Some img' \<and> sealed_page X (last (l # page_lsns pid log)) img' \<and>
    page_content X img' = page_content X p'"
  using assms(2-)
proof (induction arbitrary: f img l rule: logged.induct)
  case (logged_nil p)
  then show ?case by (simp add: replay_deltas_def)
next
  case (logged_other d p log p' lsn)
  obtain f1 where f1: "apply_recovered_page_delta X d lsn f = Inr f1" and rest: "replay_deltas X log f1 = Inr f'"
    using logged_other.prems(1) by (auto simp: replay_deltas_def rs_simps)
  have "disk_page f1 pid = Some img"
    using apply_delta_frame [OF X f1 _ logged_other.prems(2)] logged_other.hyps(1) by blast
  from logged_other.IH [OF rest this logged_other.prems(3,4)] show ?case
    using logged_other.hyps(1) logged_other.prems(5) by simp
next
  case (logged_change old new d log p' lsn)
  note id = page_record_delta_id [OF logged_change.hyps(1-3)]
  obtain f1 where f1: "apply_recovered_page_delta X d lsn f = Inr f1" and rest: "replay_deltas X log f1 = Inr f'"
    using logged_change.prems(1) by (auto simp: replay_deltas_def rs_simps)
  have "l < lsn" using logged_change.prems(5) id by simp
  from apply_delta_new [OF X logged_change.hyps(1-3) logged_change.prems(2-4) this f1]
  obtain img1 where i1: "disk_page f1 pid = Some img1" "sealed_page X lsn img1" "page_content X img1 = page_content X new"
    by blast
  from logged_change.IH [OF rest i1] show ?case using id logged_change.prems(5) by simp
qed

section \<open>From batches to deltas\<close>

text \<open>The recovery handler, called on the recovered batches in order.\<close>

definition replay_batches :: "ext \<Rightarrow> PLFileId \<Rightarrow> (LSN \<times> PLBatch) list \<Rightarrow> unit file_op" where
  "replay_batches X fid = fold_se (\<lambda>(lsn, batch). handle_entry X fid batch lsn)"

definition no_delete :: "PLFileId \<Rightarrow> (LSN \<times> PLBatch) list \<Rightarrow> bool" where
  "no_delete fid log \<longleftrightarrow>
     (\<forall>(lsn, batch) \<in> set log. \<forall>e \<in> set (plb_entries batch). ple_file e = fid \<longrightarrow> PLDelete \<notin> set (ple_ops e))"

lemma bind_se_Inr_iff: "bind_se m k s = (Inr b, t) \<longleftrightarrow> (\<exists>a u. m s = (Inr a, u) \<and> k a u = (Inr b, t))"
  by (cases "m s") (auto simp: bind_se_def split: sum.split)

lemma replay_deltas_simps [simp]:
  "replay_deltas X [] f = Inr f"
  "replay_deltas X ((lsn, d) # log) f = bind_rs (apply_recovered_page_delta X d lsn f) (replay_deltas X log)"
  by (simp_all add: replay_deltas_def)

lemma replay_deltas_append: "replay_deltas X (a @ b) f = bind_rs (replay_deltas X a f) (replay_deltas X b)"
  by (simp add: replay_deltas_def fold_rs_append)

lemma recovered_ops_iff:
  assumes "PLDelete \<notin> set ops"
  shows "fold_se (apply_recovered_op X lsn) ops (Some f) = (Inr u, s) \<longleftrightarrow>
    (\<exists>f'. s = Some f' \<and> replay_deltas X (op_deltas lsn ops) f = Inr f')"
  using assms
proof (induction ops arbitrary: f)
  case Nil
  then show ?case by (auto simp: return_se_def)
next
  case (Cons op ops)
  show ?case
  proof (cases op)
    case PLCreate
    then have "apply_recovered_op X lsn op (Some f) = (Inr (), Some f)"
      by (simp add: apply_recovered_op_def ensure_file_exists_def write_se_def)
    then show ?thesis using Cons PLCreate by (simp add: bind_se_Inr_iff)
  next
    case PLDelete
    then show ?thesis using Cons.prems by simp
  next
    case (PLPageDelta d)
    have "apply_recovered_op X lsn op (Some f) =
        (case apply_recovered_page_delta X d lsn f of Inl e \<Rightarrow> (Inl e, Some f) | Inr f' \<Rightarrow> (Inr (), Some f'))"
      by (simp add: PLPageDelta apply_recovered_op_def ensure_file_exists_def write_se_def bind_se_def update_se_def
          split: sum.split)
    then show ?thesis using Cons PLPageDelta by (auto simp: bind_se_Inr_iff split: sum.split)
  qed
qed

lemma recovered_entries_iff:
  assumes "\<forall>e \<in> set es. ple_file e = fid \<longrightarrow> PLDelete \<notin> set (ple_ops e)"
  shows "fold_se (\<lambda>item. if ple_file item \<noteq> fid then return_se ()
                     else apply_recovered_entry_async X item lsn) es (Some f) = (Inr u, s) \<longleftrightarrow>
    (\<exists>f'. s = Some f' \<and>
      replay_deltas X (concat (map (\<lambda>e. op_deltas lsn (ple_ops e)) (filter (\<lambda>e. ple_file e = fid) es))) f = Inr f')"
  using assms
proof (induction es arbitrary: f)
  case Nil
  then show ?case by (auto simp: return_se_def)
next
  case (Cons e es)
  then show ?case
    by (cases "ple_file e = fid")
      (auto simp: bind_se_Inr_iff return_se_def apply_recovered_entry_async_def recovered_ops_iff replay_deltas_append rs_simps)
qed

lemma replay_batches_iff:
  assumes "no_delete fid log"
  shows "replay_batches X fid log (Some f) = (Inr u, s) \<longleftrightarrow>
    (\<exists>f'. s = Some f' \<and> replay_deltas X (log_deltas fid log) f = Inr f')"
  using assms
proof (induction log arbitrary: f)
  case Nil
  then show ?case by (auto simp: replay_batches_def return_se_def)
next
  case (Cons b log)
  obtain lsn batch where b: "b = (lsn, batch)" by (cases b)
  have del: "\<forall>e \<in> set (plb_entries batch). ple_file e = fid \<longrightarrow> PLDelete \<notin> set (ple_ops e)" "no_delete fid log"
    using Cons.prems by (auto simp: no_delete_def b)
  show ?case
    using Cons.IH [OF del(2)]
    by (auto simp: replay_batches_def b bind_se_Inr_iff handle_entry_def recovered_entries_iff [OF del(1)]
        replay_deltas_append rs_simps)
qed

lemma log_deltas_append: "log_deltas fid (a @ b) = log_deltas fid a @ log_deltas fid b"
  by (induction a) auto

lemma recovery_reaches_last:
  assumes X: "ext_ok X" and del: "no_delete fid (flushed @ missing)"
    and log: "logged X pid p1 (log_deltas fid missing) p2"
    and disk: "disk_page f pid = Some img" "sealed_page X l img" "page_content X img = page_content X p1"
    and old: "\<forall>lsn \<in> set (page_lsns pid (log_deltas fid flushed)). lsn \<le> l"
    and new: "sorted_wrt (<) (l # page_lsns pid (log_deltas fid missing))"
    and run: "replay_batches X fid (flushed @ missing) (Some f) = (Inr (), s)"
  shows "\<exists>f' img'. s = Some f' \<and> disk_page f' pid = Some img' \<and>
    sealed_page X (last (l # page_lsns pid (log_deltas fid missing))) img' \<and> page_content X img' = page_content X p2"
proof -
  obtain f1 f' where s: "s = Some f'" and f1: "replay_deltas X (log_deltas fid flushed) f = Inr f1"
    and f': "replay_deltas X (log_deltas fid missing) f1 = Inr f'"
    using run by (auto simp: replay_batches_iff [OF del] log_deltas_append replay_deltas_append rs_simps)
  have "disk_page f1 pid = Some img" by (rule replay_flushed [OF X f1 disk(1,2) old])
  from replay_missing [OF X log f' this disk(2,3) new] s show ?thesis by blast
qed

end
