(* ===== verification/Page_Properties.thy ===== *)
theory Page_Properties
  imports File_Recovery
begin

text \<open>
  The contract of the slotted page: what its users may rely on, for every well-formed page.
  The sample pages at the beginning are the concrete inputs of the witnesses.
\<close>

section \<open>Sample pages\<close>

definition blank_page :: "PageId \<Rightarrow> byte list" where
  "blank_page pid = (case empty_page_image le_ext pid 0 0 0 of Inr p \<Rightarrow> p | Inl _ \<Rightarrow> [])"

definition one_page :: "byte list" where
  "one_page = snd (insert_record le_ext 5 1 [7] (blank_page 0))"

definition seal_image :: "ext \<Rightarrow> LSN \<Rightarrow> byte list \<Rightarrow> byte list rs" where
  "seal_image X lsn p = bind_rs (exec_se (stamp_page_image_lsn X lsn) p) (exec_se (finalize_page_image_checksum X))"

definition sealed_sample :: "LSN \<Rightarrow> byte list \<Rightarrow> byte list" where
  "sealed_sample lsn p = (case seal_image le_ext lsn p of Inr q \<Rightarrow> q | Inl _ \<Rightarrow> [])"

lemma blank_page:
  "good_page le_ext (blank_page pid)" "page_records_of le_ext (blank_page pid) = []"
  "page_links le_ext (blank_page pid) = (NONE_PAGE_ID, NONE_PAGE_ID)"
  by (rule empty_image_store [OF ext_ok_le_ext, of pid 0 0 0]; simp add: blank_page_def)+

lemma blank_page_map: "page_map le_ext (blank_page pid) = Map.empty"
  by (simp add: page_map_def blank_page)

lemma roomy_nil: "roomy [] n \<longleftrightarrow> n \<le> 3924"
  by (simp add: roomy_def recs_bytes_def)

lemma one_page:
  "good_page le_ext one_page" "page_records_of le_ext one_page = [((5, 1), [7])]"
  "page_links le_ext one_page = (NONE_PAGE_ID, NONE_PAGE_ID)"
proof -
  have "page_map le_ext (blank_page 0) (5, 1) = None" by (simp add: blank_page_map)
  moreover have "roomy (page_records_of le_ext (blank_page 0)) (length ([7] :: byte list))"
    by (simp add: blank_page roomy_nil)
  ultimately obtain pos p' where p': "insert_record le_ext 5 1 [7] (blank_page 0) = (Inr pos, p')"
    "good_page le_ext p'" "page_links le_ext p' = page_links le_ext (blank_page 0)"
    "page_records_of le_ext p' = insert_at pos ((5, 1), [7]) (page_records_of le_ext (blank_page 0))"
    by (rule insert_record_store [OF ext_ok_le_ext blank_page(1)])
  then have "one_page = p'" by (simp add: one_page_def)
  then show "good_page le_ext one_page" "page_records_of le_ext one_page = [((5, 1), [7])]"
    "page_links le_ext one_page = (NONE_PAGE_ID, NONE_PAGE_ID)"
    using p' by (simp_all add: blank_page insert_at_def)
qed

lemma one_page_map: "page_map le_ext one_page = [(5, 1) \<mapsto> [7]]"
  by (simp add: page_map_def one_page)

lemma sealed_sample:
  assumes "good_page le_ext p"
  shows "seal_image le_ext lsn p = Inr (sealed_sample lsn p)" "sealed_page le_ext lsn (sealed_sample lsn p)"
    "page_content le_ext (sealed_sample lsn p) = page_content le_ext p"
  by (rule seal_store [OF ext_ok_le_ext assms, of lsn]; simp add: sealed_sample_def seal_image_def)+

section \<open>Insertion, lookup, update, deletion\<close>

text \<open>C3: \<open>insert_record\<close> of a key that is not on the page.  It succeeds exactly when the payload and
  one slot fit into what the records of the page leave free.  On success the page stays well formed, the new
  record sits at the returned index of the key-sorted record list, every other record and the chain links
  are unchanged.  On failure the error is \<open>InsufficientBufferSpace\<close> and no byte of the page has changed.\<close>

theorem insert_record_correct:
  assumes "ext_ok X" and "good_page X p" and "page_map X p (ts, tid) = None"
  shows "case insert_record X ts tid payload p of
      (Inr pos, p') \<Rightarrow> roomy (page_records_of X p) (length payload) \<and> good_page X p' \<and>
        page_records_of X p' = insert_at pos ((ts, tid), payload) (page_records_of X p) \<and>
        page_links X p' = page_links X p
    | (Inl e, p') \<Rightarrow> \<not> roomy (page_records_of X p) (length payload) \<and>
        e = EC InsufficientBufferSpace \<and> p' = p"
proof (cases "roomy (page_records_of X p) (length payload)")
  case True
  show ?thesis by (rule insert_record_store [OF assms True]) (simp add: True)
next
  case False
  then show ?thesis by (simp add: insert_record_full [OF assms(2)])
qed

theorem insert_record_correct_witness:
  "good_page le_ext (blank_page 3) \<and>
   (case insert_record le_ext 5 1 [7] (blank_page 3) of
      (Inr pos, p') \<Rightarrow> good_page le_ext p' \<and> page_records_of le_ext p' = [((5, 1), [7])]
    | (Inl e, p') \<Rightarrow> False)"
  using insert_record_correct [OF ext_ok_le_ext blank_page(1), of 3 5 1 "[7]"]
  by (auto simp: blank_page blank_page_map roomy_nil insert_at_def split: prod.splits sum.splits)

text \<open>C6: \<open>find_slot_index\<close>, the binary search of the slot array, never fails on a well-formed page and finds
  exactly the records that are there: it answers \<open>Some i\<close> for the index of the record with that timestamp
  and tuple id, and \<open>None\<close> when the page holds no such record.\<close>

theorem find_slot_index_correct:
  assumes "good_page X p"
  shows "find_slot_index X p ts tid = Inr (position (\<lambda>r. fst r = (ts, tid)) (page_records_of X p))"
proof -
  obtain h ss where ok: "page_ok X p h ss" and r: "page_records_of X p = page_recs p ss"
    using assms by (elim good_pageE)
  show ?thesis unfolding r by (rule find_slot_index_position [OF ok])
qed

theorem find_slot_index_correct_witness:
  "good_page le_ext one_page \<and> find_slot_index le_ext one_page 5 1 = Inr (Some 0) \<and>
   find_slot_index le_ext one_page 5 2 = Inr None"
  using find_slot_index_correct [OF one_page(1), of 5 1] find_slot_index_correct [OF one_page(1), of 5 2]
  by (simp add: one_page)

text \<open>C5: \<open>delete_record\<close> of an existing slot always succeeds, although it rebuilds the whole page: removing
  a record frees more than any change of alignment padding can cost.  The record is gone, all others stay in order,
  and the links are kept; an index outside the slot array is rejected with \<open>Decode\<close> and leaves the page alone.\<close>

theorem delete_record_correct:
  assumes "ext_ok X" and "good_page X p"
  shows "case delete_record X i p of
      (Inr _, p') \<Rightarrow> i < length (page_records_of X p) \<and> good_page X p' \<and>
        page_records_of X p' = remove_at i (page_records_of X p) \<and> page_links X p' = page_links X p
    | (Inl e, p') \<Rightarrow> \<not> i < length (page_records_of X p) \<and> e = EC Decode \<and> p' = p"
proof (cases "i < length (page_records_of X p)")
  case True
  show ?thesis by (rule delete_record_store [OF assms True]) (simp add: True)
next
  case False
  then have "delete_record X i p = (Inl (EC Decode), p)" by (rule delete_record_out_of_range [OF assms(2)])
  then show ?thesis using False by simp
qed

theorem delete_record_correct_witness:
  "good_page le_ext one_page \<and>
   (case delete_record le_ext 0 one_page of
      (Inr _, p') \<Rightarrow> good_page le_ext p' \<and> page_records_of le_ext p' = []
    | (Inl e, p') \<Rightarrow> False)"
  using delete_record_correct [OF ext_ok_le_ext one_page(1), of 0]
  by (auto simp: one_page remove_at_def split: prod.splits sum.splits)

text \<open>C4: \<open>update_record\<close> with the key of the slot it replaces.  When it succeeds the page is well formed, the
  payload is replaced, no other record changes and the returned index holds the new record; it fails only with
  \<open>InsufficientBufferSpace\<close>, and only if the new payload does not fit.\<close>

theorem update_record_correct:
  assumes "ext_ok X" and "good_page X p" and "i < length (page_records_of X p)"
    and "fst (page_records_of X p ! i) = (ts, tid)"
  shows "case update_record X i ts tid payload p of
      (Inr j, p') \<Rightarrow> good_page X p' \<and> page_map X p' = (page_map X p)((ts, tid) \<mapsto> payload) \<and>
        page_links X p' = page_links X p \<and> j < length (page_records_of X p') \<and>
        page_records_of X p' ! j = ((ts, tid), payload)
    | (Inl e, p') \<Rightarrow> e = EC InsufficientBufferSpace \<and>
        TAILER_OFFSET < PAGE_HEADER_SIZE + recs_bytes (remove_at i (page_records_of X p)) +
          align8 (length payload) + 32 * length (page_records_of X p)"
  by (rule update_record_store [OF assms, of payload]) simp_all

theorem update_record_correct_witness:
  "good_page le_ext one_page \<and>
   (case update_record le_ext 0 5 1 [8, 9] one_page of
      (Inr j, p') \<Rightarrow> good_page le_ext p' \<and> page_map le_ext p' = [(5, 1) \<mapsto> [8, 9]]
    | (Inl e, p') \<Rightarrow> False)"
  using update_record_correct [OF ext_ok_le_ext one_page(1), of 0 5 1 "[8, 9]"]
  by (auto simp: one_page one_page_map remove_at_def recs_bytes_def align8_def split: prod.splits sum.splits)

section \<open>Validation and sealing\<close>

text \<open>C7: \<open>validate_layout\<close> accepts a 4096-byte image exactly when it decodes to a header and slots that
  satisfy the declarative layout: the free region is consistent, the slots are sorted by key, every record
  is aligned, lies inside the data region and matches its checksum, and the tailer carries the header's LSN and the
  checksum of the page.\<close>

theorem validate_layout_correct:
  assumes "length page = PAGE_SIZE"
  shows "validate_layout X page = Inr () \<longleftrightarrow> (\<exists>h ss. page_rep X page h ss \<and> layout_ok X page h ss)"
  using validate_layout_rep [OF assms] rep_validate_layout by metis

theorem validate_layout_correct_witness:
  "length (sealed_sample 9 one_page) = PAGE_SIZE \<and> validate_layout le_ext (sealed_sample 9 one_page) = Inr () \<and>
   (\<exists>h ss. page_rep le_ext (sealed_sample 9 one_page) h ss \<and> layout_ok le_ext (sealed_sample 9 one_page) h ss)"
proof -
  note s = sealed_sample(2) [OF one_page(1), of 9]
  have len: "length (sealed_sample 9 one_page) = PAGE_SIZE"
    using s by (auto simp: sealed_page_def dest: good_page_length)
  then show ?thesis using validate_layout_correct [OF len, of le_ext] s by (simp add: sealed_page_def)
qed

text \<open>C8: stamping a log sequence number and finalising the checksum, the two steps before an image reaches
  the data file, never fail on a well-formed page; the result passes \<open>validate_layout\<close>, carries that LSN,
  and holds the same records and links.\<close>

theorem seal_image_correct:
  assumes "ext_ok X" and "good_page X p"
  shows "\<exists>q. bind_rs (exec_se (stamp_page_image_lsn X lsn) p) (exec_se (finalize_page_image_checksum X)) = Inr q \<and>
    validate_layout X q = Inr () \<and> header_lsn X q = Inr lsn \<and>
    page_records_of X q = page_records_of X p \<and> page_links X q = page_links X p"
  by (rule seal_store [OF assms, of lsn]) (simp add: sealed_page_def page_content_def)

theorem seal_image_correct_witness:
  "good_page le_ext one_page \<and>
   (\<exists>q. bind_rs (exec_se (stamp_page_image_lsn le_ext 9) one_page) (exec_se (finalize_page_image_checksum le_ext)) = Inr q \<and>
    validate_layout le_ext q = Inr () \<and> page_records_of le_ext q = [((5, 1), [7])])"
  using seal_image_correct [OF ext_ok_le_ext one_page(1), of 9] by (auto simp: one_page)

section \<open>Codecs\<close>

text \<open>the page header round trip.  Encoding a current-version header into any buffer of at least
  128 bytes and decoding it gives the header back, and no byte after the header is touched.\<close>

lemma page_header_roundtrip:
  assumes "ext_ok X" and "header_wf h" and "ph_magic h = PAGE_HEADER_MAGIC" and "ph_version h = VERSION"
    and "PAGE_HEADER_SIZE \<le> length out"
  shows "\<exists>buf. PageHeader_encode X h out = Inr buf \<and> PageHeader_decode X buf = Inr h \<and>
    length buf = length out \<and> drop PAGE_HEADER_SIZE buf = drop PAGE_HEADER_SIZE out"
proof -
  have "drop PAGE_HEADER_SIZE (PageHeader_write X h out) = drop PAGE_HEADER_SIZE out"
    using assms by (simp add: PageHeader_write_eq patch_def)
  then show ?thesis
    using PageHeader_decode_write [OF assms(1,2,5,3,4)] PageHeader_write_frame(1) [OF assms(1,2,5)] assms(5)
    by (simp add: PageHeader_encode_def ensure_def)
qed

text \<open>the record slot round trip.  A slot written into a 32-byte slot is read back
  unchanged by the eager decoder, and the zero-copy view reads the same fields.\<close>

lemma record_slot_roundtrip:
  assumes "ext_ok X" and "length out = RECORD_SLOT_SIZE"
  shows "bind_rs (RecordSlot_encode X s out) (RecordSlot_decode X) = Inr s \<and>
    bind_rs (bind_rs (RecordSlot_encode X s out) RecordSlotRef_new) (\<lambda>r. Inr (ref_to_owned X r)) = Inr s"
  using assms
  by (simp add: RecordSlot_encode_eq RecordSlot_decode_ref patch_def RecordSlotRef_new_def ref_to_owned_bytes ensure_def
      bind_rs_assoc)

text \<open>no page operation changes the length of the page buffer, on success or failure, whatever the
  bytes it is called on.\<close>

lemma page_length_kept:
  assumes "ext_ok X"
  shows "length (snd (insert_record X ts tid payload p)) = length p \<and>
    length (snd (delete_record X i p)) = length p \<and>
    length (snd (update_record X i ts tid payload p)) = length p \<and>
    length (snd (compact X p)) = length p \<and>
    length (snd (set_page_links X a b p)) = length p \<and>
    length (snd (finalize_page_image_checksum X p)) = length p"
  using keeps_insert_record [OF assms] keeps_delete_record [OF assms] keeps_update_record [OF assms]
    keeps_compact [OF assms] keeps_set_page_links [OF assms] keeps_finalize [OF assms]
  unfolding keeps_len_def by blast

end
