(* ===== verification/Recovery_Properties.thy ===== *)
theory Recovery_Properties
  imports Page_Properties
begin

text \<open>
  What crash recovery of a time-series data file promises: the contract of the physical log
  written by \<open>plan.rs\<close> and replayed by \<open>wal.rs\<close>.
\<close>

section \<open>Sample log\<close>

definition sample_delta :: PageDelta where
  "sample_delta = \<lparr>pd_page_id = 0, pd_init = None, pd_links = None, pd_removes = [],
     pd_upserts = [\<lparr>rec_timestamp = 5, rec_tuple_id = 1, rec_payload = [7]\<rparr>]\<rparr>"

definition sample_file :: PLFileId where
  "sample_file = \<lparr>partition_id = 1, table_id = 2, file_index = 0\<rparr>"

definition sample_batch :: PLBatch where
  "sample_batch = \<lparr>plb_entries = [\<lparr>ple_file = sample_file, ple_ops = [PLCreate, PLPageDelta sample_delta]\<rparr>]\<rparr>"

definition sample_disk :: data_file where
  "sample_disk = sealed_sample 1 (blank_page 0)"

lemma sample_delta:
  "page_record_delta le_ext 0 (blank_page 0) one_page = Inr (Some (PLPageDelta sample_delta))"
  by (simp add: page_record_delta_eq [OF blank_page(1) one_page(1)] blank_page one_page links_delta_def
      sample_delta_def pl_record_def)

lemma sample_fits: "map_need (peak_map (page_map le_ext (blank_page 0)) (page_map le_ext one_page)) \<le> page_capacity"
proof -
  have "peak_map (page_map le_ext (blank_page 0)) (page_map le_ext one_page) = [(5, 1) \<mapsto> [7]]"
    by (auto simp: peak_map_def blank_page_map one_page_map)
  then show ?thesis by (simp add: map_need_def align8_def)
qed

lemma sample_disk_page:
  "disk_page sample_disk 0 = Some sample_disk" "sealed_page le_ext 1 sample_disk"
  "page_content le_ext sample_disk = page_content le_ext (blank_page 0)"
proof -
  show s: "sealed_page le_ext 1 sample_disk" "page_content le_ext sample_disk = page_content le_ext (blank_page 0)"
    unfolding sample_disk_def by (rule sealed_sample(2,3) [OF blank_page(1)])+
  then have "length sample_disk = PAGE_SIZE" by (auto simp: sealed_page_def dest: good_page_length)
  then show "disk_page sample_disk 0 = Some sample_disk" by (simp add: disk_page_def sub_slice_def)
qed

lemma sample_apply: "\<exists>f'. apply_recovered_page_delta le_ext sample_delta 5 sample_disk = Inr f'"
proof -
  have ad: "addressable (pd_page_id sample_delta)" by (simp add: addressable_def sample_delta_def)
  have id: "pd_page_id sample_delta = 0" by (simp add: sample_delta_def)
  have "good_page le_ext sample_disk" using sample_disk_page(2) by (simp add: sealed_page_def)
  from replay_delta(2) [OF ext_ok_le_ext blank_page(1) one_page(1) sample_delta this sample_disk_page(3) sample_fits, of 5]
  show ?thesis
    by (auto simp: apply_delta_eq [OF ad] id sample_disk_page(1) sealed_skips [OF sample_disk_page(2)] is_ok_iff)
qed

section \<open>One page change\<close>

text \<open>C2: what a commit logs for a changed page is enough to redo it.  Let \<open>old\<close> and \<open>new\<close> be the two images
  that \<open>page_record_delta\<close> compared.  Replaying the delta on any image with the records and links of \<open>old\<close>
  either fails or gives an image with the records and links of \<open>new\<close> that passes \<open>validate_layout\<close> and carries the
  batch LSN; and it does not fail if the larger version of every record of \<open>new\<close> fits the page.\<close>

theorem delta_replay_roundtrip:
  assumes "ext_ok X" and "good_page X old" and "good_page X new"
    and "page_record_delta X pid old new = Inr (Some (PLPageDelta d))"
    and "good_page X img" and "page_content X img = page_content X old"
  shows "(case replay_image X d lsn (Some img) of
        Inr img' \<Rightarrow> page_content X img' = page_content X new \<and> validate_layout X img' = Inr () \<and>
          header_lsn X img' = Inr lsn
      | Inl e \<Rightarrow> map_need (peak_map (page_map X old) (page_map X new)) > page_capacity)"
  using replay_delta [OF assms, of lsn] by (auto simp: sealed_page_def is_ok_iff not_le [symmetric] split: sum.split)

theorem delta_replay_roundtrip_witness:
  "page_record_delta le_ext 0 (blank_page 0) one_page = Inr (Some (PLPageDelta sample_delta)) \<and>
   (case replay_image le_ext sample_delta 5 (Some (blank_page 0)) of
      Inr img' \<Rightarrow> page_records_of le_ext img' = [((5, 1), [7])] \<and> validate_layout le_ext img' = Inr ()
    | Inl e \<Rightarrow> False)"
  using delta_replay_roundtrip [OF ext_ok_le_ext blank_page(1) one_page(1) sample_delta blank_page(1) refl, of 5] sample_fits
  by (auto simp: sample_delta page_content_def one_page split: sum.splits)

text \<open>C10: \<open>page_record_delta\<close> never fails on well-formed images, and it logs nothing exactly when the two
  images hold the same records and the same links.\<close>

theorem delta_none_iff_unchanged:
  assumes "good_page X old" and "good_page X new"
  shows "(\<exists>op. page_record_delta X pid old new = Inr op) \<and>
    (page_record_delta X pid old new = Inr None \<longleftrightarrow>
       page_records_of X old = page_records_of X new \<and> page_links X old = page_links X new)"
proof -
  obtain r u where diff: "rec_diff (page_records_of X old) (page_records_of X new) = (r, u)" by fastforce
  have "r = [] \<and> u = [] \<longleftrightarrow> page_records_of X old = page_records_of X new"
    using rec_diff_empty_iff [OF good_page_keys_ok [OF assms(1)] good_page_keys_ok [OF assms(2)]] diff by simp
  then show ?thesis by (auto simp: page_record_delta_eq [OF assms] diff Let_def links_delta_def)
qed

theorem delta_none_iff_unchanged_witness:
  "good_page le_ext (blank_page 0) \<and> good_page le_ext one_page \<and>
   page_record_delta le_ext 0 one_page one_page = Inr None \<and>
   page_record_delta le_ext 0 (blank_page 0) one_page \<noteq> Inr None"
  using delta_none_iff_unchanged [OF one_page(1) one_page(1), of 0]
    delta_none_iff_unchanged [OF blank_page(1) one_page(1), of 0 0]
  by (simp add: blank_page one_page)

text \<open>the delta of a newly allocated page carries the whole page.  Replayed with the page absent from the
  file, or with any older image in its place, it either fails or rebuilds an image with the same records and links that
  passes validation and carries the batch LSN; it does not fail if the records fit the page when each payload
  is rounded up to the record alignment.\<close>

lemma init_replay_roundtrip:
  assumes "ext_ok X" and "good_page X img" and "page_init_delta X pid img = Inr (PLPageDelta d)"
  shows "(case replay_image X d lsn disk of
        Inr img' \<Rightarrow> page_content X img' = page_content X img \<and> validate_layout X img' = Inr () \<and>
          header_lsn X img' = Inr lsn
      | Inl e \<Rightarrow> map_need (page_map X img) > page_capacity)"
  using replay_init [OF assms, of lsn disk] by (auto simp: sealed_page_def is_ok_iff not_le [symmetric] split: sum.split)

section \<open>The data file\<close>

text \<open>replaying a delta never touches another page: every other page that the data file holds is, byte for byte,
  what it was before, whether the delta is skipped, applied or extends the file.\<close>

lemma delta_frame:
  assumes "ext_ok X" and "apply_recovered_page_delta X d lsn f = Inr f'"
    and "pid \<noteq> pd_page_id d" and "disk_page f pid = Some img"
  shows "disk_page f' pid = Some img"
  by (rule apply_delta_frame [OF assms])

text \<open>C9: replay is idempotent.  After a page delta has been applied for a batch, replaying it again, or replaying any delta
  of that page with an older or equal LSN, leaves the whole file unchanged.\<close>

theorem replay_idempotent:
  assumes "ext_ok X" and "good_page X old" and "good_page X new"
    and "page_record_delta X pid old new = Inr (Some (PLPageDelta d))"
    and "disk_page f pid = Some img" and "sealed_page X l img" and "page_content X img = page_content X old"
    and "l < lsn" and "apply_recovered_page_delta X d lsn f = Inr f'"
    and "pd_page_id d' = pid" and "lsn' \<le> lsn"
  shows "apply_recovered_page_delta X d' lsn' f' = Inr f'"
proof -
  obtain img' where "disk_page f' pid = Some img'" "sealed_page X lsn img'"
    using apply_delta_new [OF assms(1-9)] by blast
  moreover have "addressable pid"
    using apply_delta_addressable [OF assms(9)] page_record_delta_id [OF assms(2-4)] by simp
  ultimately show ?thesis using apply_delta_old [of d' f' img' X lsn lsn'] assms(10,11) by simp
qed

theorem replay_idempotent_witness:
  "\<exists>f'. apply_recovered_page_delta le_ext sample_delta 5 sample_disk = Inr f' \<and>
    apply_recovered_page_delta le_ext sample_delta 5 f' = Inr f' \<and>
    apply_recovered_page_delta le_ext sample_delta 3 f' = Inr f'"
proof -
  obtain f' where f': "apply_recovered_page_delta le_ext sample_delta 5 sample_disk = Inr f'" using sample_apply by blast
  have id: "pd_page_id sample_delta = 0" by (simp add: sample_delta_def)
  show ?thesis
    using f' replay_idempotent [OF ext_ok_le_ext blank_page(1) one_page(1) sample_delta sample_disk_page _ f' id]
    by auto
qed

text \<open>C1: crash recovery is correct from every flushed version of a page.  The log consists of batches whose
  deltas for the page are all contained in the image on disk (LSN at most the page's stamp), followed by batches
  that are not (increasing LSNs above the stamp); flushes may have persisted any version, and the batches may
  change any other pages in between.  When the replay of the whole log succeeds, the page on disk holds the records
  and links of the last logged version, validates, and is stamped with the LSN of the last batch that changed it.\<close>

theorem recovery_from_any_flush:
  assumes "ext_ok X" and "no_delete fid (flushed @ missing)"
    and "logged X pid p1 (log_deltas fid missing) p2"
    and "disk_page f pid = Some img" and "sealed_page X l img" and "page_content X img = page_content X p1"
    and "\<forall>lsn \<in> set (page_lsns pid (log_deltas fid flushed)). lsn \<le> l"
    and "sorted_wrt (<) (l # page_lsns pid (log_deltas fid missing))"
    and "replay_batches X fid (flushed @ missing) (Some f) = (Inr (), s)"
  shows "\<exists>f' img'. s = Some f' \<and> disk_page f' pid = Some img' \<and> page_content X img' = page_content X p2 \<and>
    validate_layout X img' = Inr () \<and>
    header_lsn X img' = Inr (last (l # page_lsns pid (log_deltas fid missing)))"
  using recovery_reaches_last [OF assms] by (auto simp: sealed_page_def)

theorem recovery_from_any_flush_witness:
  "\<exists>s f' img'. replay_batches le_ext sample_file [(1, sample_batch), (5, sample_batch)] (Some sample_disk) = (Inr (), s) \<and>
    s = Some f' \<and> disk_page f' 0 = Some img' \<and> page_records_of le_ext img' = [((5, 1), [7])] \<and>
    header_lsn le_ext img' = Inr 5"
proof -
  have id: "pd_page_id sample_delta = 0" by (simp add: sample_delta_def)
  have deltas: "log_deltas sample_file [(l, sample_batch)] = [(l, sample_delta)]" for l
    by (simp add: sample_batch_def)
  have del: "no_delete sample_file ([(1, sample_batch)] @ [(5, sample_batch)])"
    by (simp add: no_delete_def sample_batch_def)
  have logged: "logged le_ext 0 (blank_page 0) (log_deltas sample_file [(5, sample_batch)]) one_page"
    unfolding deltas
    by (rule logged_change [OF blank_page(1) one_page(1) sample_delta logged_nil [OF one_page(1)]])
  have skip: "apply_recovered_page_delta le_ext sample_delta 1 sample_disk = Inr sample_disk"
    by (rule apply_delta_old [of _ _ sample_disk _ 1])
      (simp_all add: id addressable_def sample_disk_page)
  obtain s where run: "replay_batches le_ext sample_file ([(1, sample_batch)] @ [(5, sample_batch)]) (Some sample_disk) = (Inr (), s)"
    unfolding replay_batches_iff [OF del] log_deltas_append deltas
    using sample_apply skip by auto
  show ?thesis
    using recovery_from_any_flush [OF ext_ok_le_ext del logged sample_disk_page _ _ run] run
    by (auto simp: deltas page_lsns_def id page_content_def one_page simp del: log_deltas.simps)
qed

section \<open>Where replay stops\<close>

text \<open>C11: an upsert of a new record during replay fails exactly when the records already on the page leave no
  room for it; the compaction and second attempt after a full insert can never succeed, because
  compaction keeps the records and the room depends on them alone.\<close>

theorem replay_upsert_full_iff:
  assumes "ext_ok X" and "good_page X p" and "page_map X p (ts, tid) = None"
  shows "replay_upsert X \<lparr>rec_timestamp = ts, rec_tuple_id = tid, rec_payload = payload\<rparr> p =
    (if roomy (page_records_of X p) (length payload) then exec_se (insert_record X ts tid payload) p
     else Inl (EC InsufficientBufferSpace))"
  using page_upsert_absent [OF assms(1,2), of "((ts, tid), payload)"] assms(3)
  by (simp add: page_upsert_def pl_record_def)

theorem replay_upsert_full_iff_witness:
  "good_page le_ext one_page \<and>
   replay_upsert le_ext \<lparr>rec_timestamp = 6, rec_tuple_id = 1, rec_payload = replicate 4000 0\<rparr> one_page =
     Inl (EC InsufficientBufferSpace)"
  using replay_upsert_full_iff [OF ext_ok_le_ext one_page(1), of 6 1 "replicate 4000 0"]
  by (simp add: one_page one_page_map roomy_def recs_bytes_def align8_def)

text \<open>A page filled to the last byte: 1952 bytes inserted first, 1940 bytes with a smaller key second.\<close>

definition tight_page :: "byte list" where
  "tight_page = snd (insert_record le_ext 4 1 (replicate 1940 0)
     (snd (insert_record le_ext 9 1 (replicate 1952 0) (blank_page 0))))"

abbreviation (input) tight_recs :: "rec list" where
  "tight_recs \<equiv> [((4, 1), replicate 1940 0), ((9, 1), replicate 1952 0)]"

lemma insert_sample:
  assumes "good_page le_ext p" and "page_map le_ext p (ts, tid) = None"
    and "roomy (page_records_of le_ext p) (length payload)"
  shows "good_page le_ext (snd (insert_record le_ext ts tid payload p))"
    and "page_map le_ext (snd (insert_record le_ext ts tid payload p)) = (page_map le_ext p)((ts, tid) \<mapsto> payload)"
  by (rule insert_record_store [OF ext_ok_le_ext assms]; simp)+

lemma tight_page: "good_page le_ext tight_page" "page_records_of le_ext tight_page = tight_recs"
proof -
  let ?B = "replicate 1952 0 :: byte list" and ?A = "replicate 1940 0 :: byte list"
  let ?p1 = "snd (insert_record le_ext 9 1 ?B (blank_page 0))"
  have p1: "good_page le_ext ?p1" "page_map le_ext ?p1 = [(9, 1) \<mapsto> ?B]"
    using insert_sample [OF blank_page(1) [of 0], of 9 1 ?B] by (simp_all add: blank_page_map blank_page roomy_nil)
  have "keys_ok [((9, 1), ?B)]" by (simp add: keys_ok_def)
  then have r1: "page_records_of le_ext ?p1 = [((9, 1), ?B)]"
    using keys_ok_eqI [OF good_page_keys_ok [OF p1(1)]] p1(2) by (simp add: page_map_def)
  have room: "roomy (page_records_of le_ext ?p1) (length ?A)"
    by (simp add: r1 roomy_def recs_bytes_def align8_def)
  have new: "page_map le_ext ?p1 (4, 1) = None" by (simp add: p1(2))
  note p2 = insert_sample [OF p1(1) new room]
  show good: "good_page le_ext tight_page" unfolding tight_page_def by (rule p2(1))
  have "page_map le_ext tight_page = map_of tight_recs"
    unfolding tight_page_def p2(2) p1(2) by auto
  moreover have "keys_ok tight_recs" by (simp add: keys_ok_def)
  ultimately show "page_records_of le_ext tight_page = tight_recs"
    using keys_ok_eqI [OF good_page_keys_ok [OF good]] by (simp add: page_map_def)
qed

text \<open>C12: a page that the write path filled completely cannot always be rebuilt from the log.  The two records
  of \<open>tight_page\<close> fit because the unpadded end of the second one is the last byte before the slots; replay inserts
  them in key order, pads the first one, and the second no longer fits: replaying the page's own init
  delta fails with \<open>InsufficientBufferSpace\<close> for every batch LSN.\<close>

theorem full_page_not_replayable:
  "\<exists>d. page_init_delta le_ext 0 tight_page = Inr (PLPageDelta d) \<and>
     (\<forall>lsn. replay_image le_ext d lsn None = Inl (EC InsufficientBufferSpace))"
proof -
  let ?A = "replicate 1940 0 :: byte list" and ?B = "replicate 1952 0 :: byte list"
  let ?l = "page_links le_ext tight_page"
  obtain v hash flags where d: "page_init_delta le_ext 0 tight_page = Inr (PLPageDelta \<lparr>pd_page_id = 0,
       pd_init = Some \<lparr>init_prev_page = fst ?l, init_next_page = snd ?l,
         init_tuple_format_version = v, init_tuple_schema_hash = hash, init_tuple_flags = flags\<rparr>,
       pd_links = None, pd_removes = [], pd_upserts = map pl_record tight_recs\<rparr>)"
    using page_init_delta_eq [OF tight_page(1), of 0] unfolding tight_page(2) by blast
  obtain p0 where p0: "empty_page_image le_ext 0 v hash flags = Inr p0" "good_page le_ext p0" "page_records_of le_ext p0 = []"
    by (rule empty_image_store [OF ext_ok_le_ext])
  obtain p1 where p1: "exec_se (set_page_links le_ext (fst ?l) (snd ?l)) p0 = Inr p1" "good_page le_ext p1"
    "page_content le_ext p1 = (page_records_of le_ext p0, (fst ?l, snd ?l))"
    by (rule set_links_store [OF ext_ok_le_ext p0(2)])
  have r1: "page_records_of le_ext p1 = []" using p1(3) p0(3) by (simp add: page_content_def)
  have m1: "page_map le_ext p1 (4, 1) = None" by (simp add: page_map_def r1)
  have room: "roomy (page_records_of le_ext p1) (length ?A)" by (simp add: r1 roomy_nil)
  obtain pos p2 where p2: "insert_record le_ext 4 1 ?A p1 = (Inr pos, p2)" "good_page le_ext p2"
    "page_records_of le_ext p2 = insert_at pos ((4, 1), ?A) (page_records_of le_ext p1)"
    by (rule insert_record_store [OF ext_ok_le_ext p1(2) m1 room])
  have r2: "page_records_of le_ext p2 = [((4, 1), ?A)]" using p2(3) by (simp add: r1 insert_at_def)
  have first: "page_upsert le_ext ((4, 1), ?A) p1 = Inr p2"
    using page_upsert_absent [OF ext_ok_le_ext p1(2), of "((4, 1), ?A)"] m1 room p2(1) by (simp add: exec_se_def)
  have second: "page_upsert le_ext ((9, 1), ?B) p2 = Inl (EC InsufficientBufferSpace)"
    using page_upsert_absent [OF ext_ok_le_ext p2(2), of "((9, 1), ?B)"]
    by (simp add: page_map_def r2 roomy_def recs_bytes_def align8_def)
  show ?thesis
    unfolding d using p0(1) p1(1) first second
    by (simp add: replay_image_def page_upsert_def)
qed

text \<open>C13: a hole in the data file blocks recovery.  If a page inside the file length was never written (all zeros, as after a
  crash in which a later page of the same flush reached the disk first), replay rejects every delta for that page,
  including the init delta that would define it completely.\<close>

theorem hole_blocks_replay:
  assumes "addressable (pd_page_id d)" and "disk_page f (pd_page_id d) = Some (replicate PAGE_SIZE 0)"
  shows "\<exists>e. apply_recovered_page_delta le_ext d lsn f = Inl (EC e)"
proof -
  have "le_to_word (replicate n 0) = (0 :: u32)" for n by (induction n) simp_all
  then have "le_read_u32 le_ext (replicate 4 0) = 0" by (simp only: le_ext_def ext.simps)
  then have "\<exists>e. validate_layout le_ext (replicate 4096 0) = Inl (EC e)"
    by (simp add: validate_layout_def pb_header_def pb_check_page_len_def ensure_def PageHeader_decode_def
        sub_slice_def compat_rs_check_magic)
  then show ?thesis using assms by (auto simp: apply_delta_eq replay_skips_def)
qed

theorem hole_blocks_replay_witness:
  "disk_page (replicate 8192 0) 1 = Some (replicate PAGE_SIZE 0) \<and>
   (\<exists>e. apply_recovered_page_delta le_ext (sample_delta\<lparr>pd_page_id := 1\<rparr>) 5 (replicate 8192 0) = Inl (EC e))"
  using hole_blocks_replay [of "sample_delta\<lparr>pd_page_id := 1\<rparr>" "replicate 8192 0" 5]
  by (simp add: disk_page_def sub_slice_def addressable_def)

end
