(* ===== verification/Log_Frame.thy ===== *)
theory Log_Frame
  imports Page_Delta
begin

text \<open>
  Write-ahead log frames: \<open>wal/format/latest.rs\<close> and the frame scanners of
  \<open>wal/worker_log.rs\<close>.  A log entry is serialised, cut into parts and each part framed with a
  header and a tailer.  The serialisation crate is a parameter: a pair of functions that
  may fail.
\<close>

section \<open>Header and tailer\<close>

abbreviation (input) LOG_FRAME_HEADER_SIZE :: nat where "LOG_FRAME_HEADER_SIZE \<equiv> 24"
abbreviation (input) LOG_FRAME_TAILER_SIZE :: nat where "LOG_FRAME_TAILER_SIZE \<equiv> 8"
abbreviation (input) LOG_FRAME_MAGIC :: u32 where "LOG_FRAME_MAGIC \<equiv> 0x4C47464D"

record LogFrameHeader =
  lf_magic :: u32
  lf_version :: u32
  lf_lsn :: LSN
  lf_size :: u32
  lf_n_part :: u32

record LogFrameTailer =
  lt_n_part :: u32
  lt_checksum :: u32

definition LogFrameHeader_new :: "LSN \<Rightarrow> u32 \<Rightarrow> nat \<Rightarrow> LogFrameHeader" where
  "LogFrameHeader_new lsn n_part sz =
     \<lparr>lf_magic = LOG_FRAME_MAGIC, lf_version = LOG_FRAME_CURRENT_VERSION, lf_lsn = lsn,
      lf_size = of_nat sz, lf_n_part = n_part\<rparr>"

definition LogFrameHeader_encode :: "LogFrameHeader \<Rightarrow> byte list \<Rightarrow> byte list" where
  "LogFrameHeader_encode h out =
     out @ to_be_bytes 4 (lf_magic h) @ to_be_bytes 4 (lf_version h) @ to_be_bytes 8 (lf_lsn h) @
     to_be_bytes 4 (lf_size h) @ to_be_bytes 4 (lf_n_part h)"

definition peek_header :: "byte list \<Rightarrow> LogFrameHeader rs" where
  "peek_header input =
     bind_rs (ensure (\<not> length input < LOG_FRAME_HEADER_SIZE) (EC Decode)) (\<lambda>_.
     let magic = from_be_bytes (sub_slice 0 4 input);
         version = from_be_bytes (sub_slice 4 8 input);
         lsn = from_be_bytes (sub_slice 8 16 input);
         sz = from_be_bytes (sub_slice 16 20 input);
         n_part = from_be_bytes (sub_slice 20 24 input) in
     bind_rs (compat_rs (check_magic LogFrame magic)) (\<lambda>_.
     Inr \<lparr>lf_magic = magic, lf_version = version, lf_lsn = lsn, lf_size = sz, lf_n_part = n_part\<rparr>))"

definition LogFrameHeader_decode :: "byte list \<Rightarrow> LogFrameHeader rs" where
  "LogFrameHeader_decode input =
     bind_rs (ensure (\<not> length input < LOG_FRAME_HEADER_SIZE) (EC Decode)) (\<lambda>_.
     bind_rs (peek_header input) (\<lambda>header.
     bind_rs (compat_rs (check_version LogFrame (lf_version header))) (\<lambda>_.
     Inr header)))"

definition payload_checksum :: "ext \<Rightarrow> byte list \<Rightarrow> u32" where
  "payload_checksum X payload = ucast (crc64 X payload)"

definition LogFrameTailer_new :: "ext \<Rightarrow> u32 \<Rightarrow> byte list \<Rightarrow> LogFrameTailer" where
  "LogFrameTailer_new X n_part payload = \<lparr>lt_n_part = n_part, lt_checksum = payload_checksum X payload\<rparr>"

definition LogFrameTailer_encode :: "LogFrameTailer \<Rightarrow> byte list \<Rightarrow> byte list" where
  "LogFrameTailer_encode t out = out @ to_be_bytes 4 (lt_n_part t) @ to_be_bytes 4 (lt_checksum t)"

definition LogFrameTailer_decode :: "byte list \<Rightarrow> LogFrameTailer rs" where
  "LogFrameTailer_decode input =
     bind_rs (ensure (\<not> length input < LOG_FRAME_TAILER_SIZE) (EC Decode)) (\<lambda>_.
     Inr \<lparr>lt_n_part = from_be_bytes (sub_slice 0 4 input), lt_checksum = from_be_bytes (sub_slice 4 8 input)\<rparr>)"

section \<open>Writing frames\<close>

text \<open>The serialisation crate, for entries of type \<open>'l\<close>.\<close>

record 'l entry_codec =
  msg_to_vec :: "'l \<Rightarrow> byte list option"
  msg_from_slice :: "byte list \<Rightarrow> 'l option"

function chunks :: "nat \<Rightarrow> 'a list \<Rightarrow> 'a list list" where
  "chunks n xs = (if n = 0 \<or> xs = [] then [] else take n xs # chunks n (drop n xs))"
  by pat_completeness auto
termination
  by (relation "measure (\<lambda>(n, xs). length xs)") auto

declare chunks.simps [simp del]

definition div_ceil :: "nat \<Rightarrow> nat \<Rightarrow> nat" where
  "div_ceil a b = (a + b - 1) div b"

definition make_frame :: "ext \<Rightarrow> LSN \<Rightarrow> u32 \<Rightarrow> byte list \<Rightarrow> byte list" where
  "make_frame X lsn remaining chunk =
     (let header = LogFrameHeader_new lsn remaining (length chunk);
          tailer = LogFrameTailer_new X remaining chunk
      in LogFrameTailer_encode tailer (LogFrameHeader_encode header [] @ chunk))"

fun frame_loop :: "ext \<Rightarrow> nat \<Rightarrow> nat \<Rightarrow> byte list list \<Rightarrow> u64 \<Rightarrow> byte list list \<times> u64" where
  "frame_loop X total_parts index [] next_lsn = ([], next_lsn)"
| "frame_loop X total_parts index (chunk # rest) next_lsn =
     (let remaining = of_nat (total_parts - index - 1);
          (frames, next') = frame_loop X total_parts (index + 1) rest (next_lsn + 1)
      in (make_frame X next_lsn remaining chunk # frames, next'))"

definition serialize_entry :: "ext \<Rightarrow> 'l entry_codec \<Rightarrow> 'l \<Rightarrow> nat \<Rightarrow> (u64, byte list list) se" where
  "serialize_entry X C value max_part_size =
     bind_se (lift_se (ok_or (msg_to_vec C value) (EC Encode))) (\<lambda>payload.
     if max_part_size \<le> LOG_FRAME_HEADER_SIZE + LOG_FRAME_TAILER_SIZE then fail_se (EC Parse)
     else
     let max_payload_size = max_part_size - LOG_FRAME_HEADER_SIZE - LOG_FRAME_TAILER_SIZE;
         total_parts = max (div_ceil (length payload) max_payload_size) 1
     in (\<lambda>next_lsn. let (frames, next') = frame_loop X total_parts 0 (chunks max_payload_size payload) next_lsn
                     in (Inr frames, next')))"

section \<open>Reading frames\<close>

definition frame_len :: "byte list \<Rightarrow> nat rs" where
  "frame_len input =
     bind_rs (ensure (\<not> length input < LOG_FRAME_HEADER_SIZE + LOG_FRAME_TAILER_SIZE) (EC Decode)) (\<lambda>_.
     bind_rs (peek_header (sub_slice 0 LOG_FRAME_HEADER_SIZE input)) (\<lambda>header.
     let payload_end = LOG_FRAME_HEADER_SIZE + unat (lf_size header);
         expected_len = payload_end + LOG_FRAME_TAILER_SIZE in
     bind_rs (ensure (\<not> length input < expected_len) (EC Decode)) (\<lambda>_.
     Inr expected_len)))"

definition ensure_latest_frame :: "ext \<Rightarrow> byte list \<Rightarrow> byte list rs" where
  "ensure_latest_frame X frame =
     bind_rs (index_range 0 LOG_FRAME_HEADER_SIZE frame) (\<lambda>bs.
     bind_rs (peek_header bs) (\<lambda>header.
     bind_rs (compat_rs (check_version LogFrame (lf_version header))) (\<lambda>_.
     if lf_version header = LOG_FRAME_CURRENT_VERSION then Inr frame
     else env_upgrade X LogFrame (lf_version header) frame)))"

definition split_frame_exact :: "ext \<Rightarrow> byte list \<Rightarrow> (LogFrameHeader \<times> byte list \<times> LogFrameTailer) rs" where
  "split_frame_exact X frame =
     bind_rs (frame_len frame) (\<lambda>expected_len.
     bind_rs (ensure (\<not> length frame \<noteq> expected_len) (EC Decode)) (\<lambda>_.
     bind_rs (ensure_latest_frame X frame) (\<lambda>migrated.
     bind_rs (index_range 0 LOG_FRAME_HEADER_SIZE migrated) (\<lambda>hb.
     bind_rs (LogFrameHeader_decode hb) (\<lambda>header.
     let payload_end = LOG_FRAME_HEADER_SIZE + unat (lf_size header) in
     bind_rs (index_range LOG_FRAME_HEADER_SIZE payload_end migrated) (\<lambda>payload.
     bind_rs (index_range payload_end (length migrated) migrated) (\<lambda>tb.
     bind_rs (LogFrameTailer_decode tb) (\<lambda>tailer.
     bind_rs (ensure (\<not> lf_n_part header \<noteq> lt_n_part tailer) (EC Decode)) (\<lambda>_.
     bind_rs (ensure (\<not> payload_checksum X payload \<noteq> lt_checksum tailer) (EC Decode)) (\<lambda>_.
     Inr (header, payload, tailer)))))))))))"

definition split_frame :: "ext \<Rightarrow> byte list \<Rightarrow> (LogFrameHeader \<times> byte list \<times> LogFrameTailer) rs" where
  "split_frame X frame = split_frame_exact X frame"

definition frame_lsn :: "ext \<Rightarrow> byte list \<Rightarrow> LSN rs" where
  "frame_lsn X frame = bind_rs (split_frame X frame) (\<lambda>(header, _, _). Inr (lf_lsn header))"

definition frame_lsns :: "ext \<Rightarrow> byte list list \<Rightarrow> LSN list rs" where
  "frame_lsns X frames = map_rs (frame_lsn X) frames"

definition last_frame_lsn :: "ext \<Rightarrow> byte list list \<Rightarrow> LSN rs" where
  "last_frame_lsn X frames =
     bind_rs (ok_or (if frames = [] then None else Some (last frames)) (EC Decode)) (frame_lsn X)"

fun payload_loop :: "ext \<Rightarrow> nat \<Rightarrow> nat \<Rightarrow> byte list list \<Rightarrow> byte list \<Rightarrow> byte list rs" where
  "payload_loop X total_parts index [] payload = Inr payload"
| "payload_loop X total_parts index (frame # rest) payload =
     bind_rs (split_frame X frame) (\<lambda>(header, body, _).
     let expected_remaining = of_nat (total_parts - index - 1) in
     bind_rs (ensure (\<not> lf_n_part header \<noteq> expected_remaining) (EC Decode)) (\<lambda>_.
     payload_loop X total_parts (index + 1) rest (payload @ body)))"

definition deserialize_frames_payload :: "ext \<Rightarrow> byte list list \<Rightarrow> byte list rs" where
  "deserialize_frames_payload X frames =
     bind_rs (ensure (\<not> frames = []) (EC Decode)) (\<lambda>_.
     payload_loop X (length frames) 0 frames [])"

definition deserialize_entry :: "ext \<Rightarrow> 'l entry_codec \<Rightarrow> byte list list \<Rightarrow> 'l rs" where
  "deserialize_entry X C parts =
     bind_rs (deserialize_frames_payload X parts) (\<lambda>payload.
     ok_or (msg_from_slice C payload) (EC Decode))"

text \<open>The two \<open>&mut\<close> arguments of \<open>decode_entries_with_pending\<close> are its state.\<close>

record pending_state =
  pending_frames :: "byte list list"
  pending_start_lsn :: "LSN option"

definition pending_init :: pending_state where
  "pending_init = \<lparr>pending_frames = [], pending_start_lsn = None\<rparr>"

fun decode_loop :: "ext \<Rightarrow> 'l entry_codec \<Rightarrow> byte list list \<Rightarrow> pending_state \<Rightarrow> ((LSN \<times> 'l) list \<times> pending_state) rs" where
  "decode_loop X C [] st = Inr ([], st)"
| "decode_loop X C (frame # rest) st =
     bind_rs (split_frame X frame) (\<lambda>(header, _, _).
     let start = (if pending_frames st = [] then Some (lf_lsn header) else pending_start_lsn st);
         frames = pending_frames st @ [frame] in
     if lf_n_part header \<noteq> 0 then
       decode_loop X C rest \<lparr>pending_frames = frames, pending_start_lsn = start\<rparr>
     else
       bind_rs (deserialize_entry X C frames) (\<lambda>entry.
       bind_rs (ok_or start (EC Internal)) (\<lambda>start_lsn.
       bind_rs (decode_loop X C rest \<lparr>pending_frames = [], pending_start_lsn = None\<rparr>) (\<lambda>(result, st').
       Inr ((start_lsn, entry) # result, st')))))"

definition decode_entries_with_pending ::
    "ext \<Rightarrow> 'l entry_codec \<Rightarrow> byte list list \<Rightarrow> pending_state \<Rightarrow> ((LSN \<times> 'l) list \<times> pending_state) rs" where
  "decode_entries_with_pending X C frames st =
     bind_rs (if pending_start_lsn st = None \<and> pending_frames st \<noteq> [] then
                bind_rs (split_frame X (hd (pending_frames st))) (\<lambda>(header, _, _).
                Inr (st\<lparr>pending_start_lsn := Some (lf_lsn header)\<rparr>))
              else Inr st) (decode_loop X C frames)"

text \<open>\<open>decode_pl_batches\<close> and \<open>decode_xl_batches\<close>: the same function at the two batch types.\<close>

definition decode_batches :: "ext \<Rightarrow> 'l entry_codec \<Rightarrow> byte list list \<Rightarrow> 'l list rs" where
  "decode_batches X C frames =
     bind_rs (decode_entries_with_pending X C frames pending_init) (\<lambda>(entries, st).
     bind_rs (ensure (\<not> pending_frames st \<noteq> []) (EC Decode)) (\<lambda>_.
     Inr (map snd entries)))"

section \<open>Scanning a chunk\<close>

lemma frame_len_bounds:
  assumes "frame_len input = Inr n"
  shows "LOG_FRAME_HEADER_SIZE + LOG_FRAME_TAILER_SIZE \<le> n" and "n \<le> length input"
  using assms by (auto simp: frame_len_def rs_simps Let_def ensure_def split: if_splits)

function decode_frames :: "ext \<Rightarrow> byte list \<Rightarrow> byte list list rs" where
  "decode_frames X payload =
     (if payload = [] then Inr []
      else
      bind_rs (frame_len payload) (\<lambda>next_frame_len.
      let frame = take next_frame_len payload in
      bind_rs (split_frame X frame) (\<lambda>_.
      bind_rs (decode_frames X (drop next_frame_len payload)) (\<lambda>frames.
      Inr (frame # frames)))))"
  by pat_completeness auto
termination
proof (relation "measure (\<lambda>(X, payload). length payload)")
  fix X :: ext and payload :: "byte list" and n x y
  assume "payload \<noteq> []" and "frame_len payload = Inr n"
  then have "0 < n" "payload \<noteq> []" using frame_len_bounds(1) [of payload n] by auto
  then show "((X, drop n payload), X, payload) \<in> measure (\<lambda>(X, payload). length payload)" by simp
qed simp

declare decode_frames.simps [simp del]

record ValidFramePrefix =
  valid_len :: nat
  prefix_frames :: "byte list list"
  max_lsn :: "LSN option"
  corrupt_reason :: "fault option"

function scan_loop :: "ext \<Rightarrow> byte list \<Rightarrow> nat \<Rightarrow> byte list list \<Rightarrow> LSN option \<Rightarrow> ValidFramePrefix" where
  "scan_loop X remaining offset frames lsn_max =
     (if remaining = [] then
        \<lparr>valid_len = offset, prefix_frames = frames, max_lsn = lsn_max, corrupt_reason = None\<rparr>
      else
      case frame_len remaining of
        Inl e \<Rightarrow> \<lparr>valid_len = offset, prefix_frames = frames, max_lsn = lsn_max, corrupt_reason = Some e\<rparr>
      | Inr next_frame_len \<Rightarrow>
          let frame = take next_frame_len remaining in
          (case split_frame X frame of
             Inl e \<Rightarrow> \<lparr>valid_len = offset, prefix_frames = frames, max_lsn = lsn_max, corrupt_reason = Some e\<rparr>
           | Inr (header, _, _) \<Rightarrow>
               scan_loop X (drop next_frame_len remaining) (offset + next_frame_len) (frames @ [frame])
                 (Some (case lsn_max of None \<Rightarrow> lf_lsn header | Some current \<Rightarrow> max current (lf_lsn header)))))"
  by pat_completeness auto
termination
proof (relation "measure (\<lambda>(X, remaining, _). length remaining)")
  fix X :: ext and remaining :: "byte list" and offset frames lsn_max n frame h r b t
  assume "remaining \<noteq> []" and "frame_len remaining = Inr n"
  then have "0 < n" "remaining \<noteq> []" using frame_len_bounds(1) [of remaining n] by auto
  then show "((X, drop n remaining, offset + n, frames @ [frame],
      Some (case lsn_max of None \<Rightarrow> lf_lsn h | Some current \<Rightarrow> max current (lf_lsn h))), X, remaining, offset, frames, lsn_max)
    \<in> measure (\<lambda>(X, remaining, _). length remaining)" by simp
qed simp

declare scan_loop.simps [simp del]

definition scan_valid_frame_prefix :: "ext \<Rightarrow> byte list \<Rightarrow> ValidFramePrefix" where
  "scan_valid_frame_prefix X payload = scan_loop X payload 0 [] None"

definition decode_frames_allow_trailing :: "ext \<Rightarrow> byte list \<Rightarrow> byte list list rs" where
  "decode_frames_allow_trailing X payload = Inr (prefix_frames (scan_valid_frame_prefix X payload))"

section \<open>Recovery of a typed log\<close>

text \<open>\<open>recover\<close>, \<open>recover_async\<close> and \<open>recover_async_with_handler\<close> of \<open>typed_worker_log.rs\<close> run the same
  loop.  The chunk files are given by their contents, in sequence order; the handler updates
  a state \<open>'s\<close> and may fail.\<close>

definition decode_chunk_frames_for_recovery :: "ext \<Rightarrow> byte list \<Rightarrow> byte list list" where
  "decode_chunk_frames_for_recovery X bytes = prefix_frames (scan_valid_frame_prefix X bytes)"

fun recover_loop ::
    "ext \<Rightarrow> 'l entry_codec \<Rightarrow> ('l \<Rightarrow> LSN \<Rightarrow> ('s, unit) se) \<Rightarrow> byte list list \<Rightarrow> pending_state \<Rightarrow> ('s, unit) se" where
  "recover_loop X C handle [] st = return_se ()"
| "recover_loop X C handle (bytes # rest) st =
     (if bytes = [] then recover_loop X C handle rest st
      else
      let frames = decode_chunk_frames_for_recovery X bytes in
      bind_se (lift_se (decode_entries_with_pending X C frames st)) (\<lambda>(entries, st').
      bind_se (fold_se (\<lambda>(start_lsn, entry). handle entry start_lsn) entries) (\<lambda>_.
      recover_loop X C handle rest st')))"

definition recover ::
    "ext \<Rightarrow> 'l entry_codec \<Rightarrow> ('l \<Rightarrow> LSN \<Rightarrow> ('s, unit) se) \<Rightarrow> ('s, unit) se \<Rightarrow> byte list list \<Rightarrow> ('s, unit) se" where
  "recover X C handle finish chunk_files =
     bind_se (recover_loop X C handle chunk_files pending_init) (\<lambda>_. finish)"

end
