(* ===== verification/Log_Codec.thy ===== *)
theory Log_Codec
  imports Log_Frame
begin

text \<open>
  Facts about log frames: a frame is read back as it was written, the scanners cut a chunk into
  exactly its valid frames, and decoding does not depend on where a chunk ends.
\<close>

section \<open>One frame\<close>

lemma length_to_be_bytes [simp]: "length (to_be_bytes n w) = n"
  by (simp add: to_be_bytes_def)

lemma from_be_bytes_inverse [simp]:
  "from_be_bytes (to_be_bytes 4 (a :: u32)) = a" "from_be_bytes (to_be_bytes 8 (b :: u64)) = b"
  by (rule be32.rd_wr, rule be64.rd_wr)

lemma length_make_frame: "length (make_frame X lsn r chunk) = LOG_FRAME_HEADER_SIZE + length chunk + LOG_FRAME_TAILER_SIZE"
  by (simp add: make_frame_def LogFrameHeader_encode_def LogFrameTailer_encode_def Let_def)

definition frame_head :: "LSN \<Rightarrow> u32 \<Rightarrow> nat \<Rightarrow> byte list" where
  "frame_head lsn r n = LogFrameHeader_encode (LogFrameHeader_new lsn r n) []"

definition frame_tail :: "ext \<Rightarrow> u32 \<Rightarrow> byte list \<Rightarrow> byte list" where
  "frame_tail X r chunk = LogFrameTailer_encode (LogFrameTailer_new X r chunk) []"

lemma make_frame_parts: "make_frame X lsn r chunk = frame_head lsn r (length chunk) @ chunk @ frame_tail X r chunk"
  by (simp add: make_frame_def frame_head_def frame_tail_def LogFrameTailer_encode_def Let_def)

lemma length_frame_head [simp]: "length (frame_head lsn r n) = 24"
  by (simp add: frame_head_def LogFrameHeader_encode_def)

lemma length_frame_tail [simp]: "length (frame_tail X r chunk) = 8"
  by (simp add: frame_tail_def LogFrameTailer_encode_def)

lemma sub_slice_split:
  assumes "length a = n" and "length b = m"
  shows "sub_slice n (n + m) (a @ b @ c) = b" "sub_slice 0 n (a @ d) = a"
  using assms by (simp_all add: sub_slice_def)

lemma peek_frame_head: "peek_header (frame_head lsn r n) = Inr (LogFrameHeader_new lsn r n)"
  by (simp add: peek_header_def frame_head_def LogFrameHeader_encode_def LogFrameHeader_new_def
      sub_slice_def compat_rs_check_magic Let_def)

lemma decode_frame_tail: "LogFrameTailer_decode (frame_tail X r chunk) = Inr (LogFrameTailer_new X r chunk)"
  by (simp add: LogFrameTailer_decode_def frame_tail_def LogFrameTailer_encode_def LogFrameTailer_new_def sub_slice_def)

lemma peek_header_prefix: "24 \<le> length input \<Longrightarrow> peek_header (sub_slice 0 24 input) = peek_header input"
  by (simp add: peek_header_def sub_slice_def drop_take min_def)

lemma frame_len_eq:
  assumes "LOG_FRAME_HEADER_SIZE + LOG_FRAME_TAILER_SIZE \<le> length input"
  shows "frame_len input = bind_rs (peek_header input) (\<lambda>h.
     bind_rs (ensure (LOG_FRAME_HEADER_SIZE + unat (lf_size h) + LOG_FRAME_TAILER_SIZE \<le> length input) (EC Decode)) (\<lambda>_.
     Inr (LOG_FRAME_HEADER_SIZE + unat (lf_size h) + LOG_FRAME_TAILER_SIZE)))"
  using assms by (simp add: frame_len_def peek_header_prefix Let_def not_less)

lemma peek_header_append: "24 \<le> length a \<Longrightarrow> peek_header (a @ b) = peek_header a"
  using peek_header_prefix [of a] peek_header_prefix [of "a @ b"] by (simp add: sub_slice_def)

lemma frame_len_append:
  assumes "frame_len f = Inr (length f)"
  shows "frame_len (f @ rest) = Inr (length f)"
proof -
  have len: "32 \<le> length f" using frame_len_bounds(1) [OF assms] by simp
  obtain h where "peek_header f = Inr h" "24 + unat (lf_size h) + 8 = length f"
    using assms len by (auto simp: frame_len_eq rs_simps)
  then show ?thesis using len by (simp add: frame_len_eq peek_header_append)
qed

text \<open>A proper prefix of a frame is recognised as truncated.\<close>

lemma frame_len_torn:
  assumes "frame_len f = Inr (length f)" and "k < length f"
  shows "frame_len (take k f) = Inl (EC Decode)"
proof (cases "k < 32")
  case True
  then show ?thesis using assms by (simp add: frame_len_def)
next
  case False
  have len: "32 \<le> length f" using frame_len_bounds(1) [OF assms(1)] by simp
  obtain h where h: "peek_header f = Inr h" "24 + unat (lf_size h) + 8 = length f"
    using assms(1) len by (auto simp: frame_len_eq rs_simps)
  have "peek_header (take k f) = peek_header f"
    using peek_header_append [of "take k f" "drop k f"] False len by simp
  then show ?thesis using False len assms(2) h by (simp add: frame_len_eq)
qed

lemma split_frame_len: "split_frame X f = Inr r \<Longrightarrow> frame_len f = Inr (length f)"
  by (auto simp: split_frame_def split_frame_exact_def rs_simps ensure_def split: if_splits)

lemma version_check: "compat_rs (check_version LogFrame LOG_FRAME_CURRENT_VERSION) = Inr ()"
  by (simp add: compat_rs_check_version)

lemma split_make_frame:
  assumes "length chunk < 2 ^ 32"
  shows "split_frame X (make_frame X lsn r chunk) =
    Inr (LogFrameHeader_new lsn r (length chunk), chunk, LogFrameTailer_new X r chunk)"
proof -
  let ?f = "make_frame X lsn r chunk" and ?h = "LogFrameHeader_new lsn r (length chunk)"
  have sz: "unat (lf_size ?h) = length chunk" using assms by (simp add: LogFrameHeader_new_def unsigned_of_nat take_bit_nat_eq_self)
  have peek: "peek_header ?f = Inr ?h"
    using peek_header_append [of "frame_head lsn r (length chunk)"] by (simp add: make_frame_parts peek_frame_head)
  have head: "sub_slice 0 24 ?f = frame_head lsn r (length chunk)"
    by (simp add: make_frame_parts sub_slice_def)
  have body: "sub_slice 24 (24 + length chunk) ?f = chunk" by (simp add: make_frame_parts sub_slice_def)
  have tail: "sub_slice (24 + length chunk) (32 + length chunk) ?f = frame_tail X r chunk"
    by (simp add: make_frame_parts sub_slice_def)
  have len: "frame_len ?f = Inr (length ?f)"
    by (simp add: frame_len_eq length_make_frame peek sz)
  have latest: "ensure_latest_frame X ?f = Inr ?f"
    by (simp add: ensure_latest_frame_def index_range_def length_make_frame head peek_frame_head version_check LogFrameHeader_new_def)
  have dec: "LogFrameHeader_decode (frame_head lsn r (length chunk)) = Inr ?h"
    by (simp add: LogFrameHeader_decode_def peek_frame_head version_check LogFrameHeader_new_def)
  have np: "lf_n_part ?h = r" "lt_n_part (LogFrameTailer_new X r chunk) = r"
    "lt_checksum (LogFrameTailer_new X r chunk) = payload_checksum X chunk"
    by (simp_all add: LogFrameHeader_new_def LogFrameTailer_new_def)
  show ?thesis
    unfolding split_frame_def split_frame_exact_def
    by (simp add: len latest index_range_def head dec sz body tail decode_frame_tail np length_make_frame)
qed

section \<open>Many frames\<close>

definition valid_frame :: "ext \<Rightarrow> byte list \<Rightarrow> bool" where
  "valid_frame X f \<longleftrightarrow> is_ok (split_frame X f)"

lemma valid_frameE:
  assumes "valid_frame X f"
  obtains h b t where "split_frame X f = Inr (h, b, t)" and "frame_len f = Inr (length f)"
proof -
  obtain r where r: "split_frame X f = Inr r" using assms by (auto simp: valid_frame_def is_ok_iff)
  obtain h b t where "r = (h, b, t)" by (cases r) auto
  then show thesis using that r split_frame_len [OF r] by simp
qed

definition join_lsn :: "LSN option \<Rightarrow> LSN \<Rightarrow> LSN option" where
  "join_lsn m l = Some (case m of None \<Rightarrow> l | Some current \<Rightarrow> max current l)"

definition frame_lsn_of :: "ext \<Rightarrow> byte list \<Rightarrow> LSN" where
  "frame_lsn_of X f = (case split_frame X f of Inr (h, _, _) \<Rightarrow> lf_lsn h | Inl _ \<Rightarrow> 0)"

lemma valid_frame_nonempty: "valid_frame X f \<Longrightarrow> f \<noteq> []"
  by (erule valid_frameE) (auto dest: frame_len_bounds(1))

lemma scan_frames:
  assumes "\<forall>f \<in> set fs. valid_frame X f"
  shows "scan_loop X (concat fs @ rest) off acc m =
    scan_loop X rest (off + length (concat fs)) (acc @ fs) (foldl join_lsn m (map (frame_lsn_of X) fs))"
  using assms
proof (induction fs arbitrary: off acc m)
  case (Cons f fs)
  obtain h b t where f: "split_frame X f = Inr (h, b, t)" "frame_len f = Inr (length f)"
    using Cons.prems by (auto elim: valid_frameE)
  have "f \<noteq> []" using Cons.prems valid_frame_nonempty [of X f] by simp
  moreover have "frame_len (f @ concat fs @ rest) = Inr (length f)" by (rule frame_len_append [OF f(2)])
  ultimately have "scan_loop X (concat (f # fs) @ rest) off acc m =
      scan_loop X (concat fs @ rest) (off + length f) (acc @ [f]) (join_lsn m (frame_lsn_of X f))"
    using f(1) by (subst scan_loop.simps) (simp add: join_lsn_def frame_lsn_of_def Let_def)
  then show ?case using Cons.IH Cons.prems by (simp add: add.assoc)
qed simp

text \<open>Where a scan stops: at the end, or where no valid frame begins.\<close>

definition no_frame :: "ext \<Rightarrow> byte list \<Rightarrow> bool" where
  "no_frame X rest \<longleftrightarrow>
     (case frame_len rest of Inl _ \<Rightarrow> True | Inr n \<Rightarrow> \<not> valid_frame X (take n rest))"

lemma scan_stop:
  assumes "rest = [] \<or> no_frame X rest"
  shows "\<exists>e. scan_loop X rest off acc m =
    \<lparr>valid_len = off, prefix_frames = acc, max_lsn = m, corrupt_reason = e\<rparr> \<and> (e = None \<longleftrightarrow> rest = [])"
proof (cases "rest = []")
  case True
  then show ?thesis by (simp add: scan_loop.simps)
next
  case False
  show ?thesis
  proof (cases "frame_len rest")
    case (Inl e)
    then show ?thesis using False by (simp add: scan_loop.simps [of X rest])
  next
    case (Inr n)
    then have "\<not> is_ok (split_frame X (take n rest))"
      using assms False by (simp add: no_frame_def valid_frame_def)
    then obtain e where "split_frame X (take n rest) = Inl e" by (cases "split_frame X (take n rest)") (auto simp: is_ok_iff)
    then show ?thesis using False Inr by (simp add: scan_loop.simps [of X rest] Let_def)
  qed
qed

lemma frame_decomposition:
  "\<exists>fs rest. payload = concat fs @ rest \<and> (\<forall>f \<in> set fs. valid_frame X f) \<and> (rest = [] \<or> no_frame X rest)"
proof (induction "length payload" arbitrary: payload rule: less_induct)
  case less
  show ?case
  proof (cases "payload = [] \<or> no_frame X payload")
    case True
    then show ?thesis by (intro exI [of _ "[]"] exI [of _ payload]) simp
  next
    case False
    then obtain n where n: "frame_len payload = Inr n" "valid_frame X (take n payload)"
      by (auto simp: no_frame_def split: sum.splits)
    have "length (drop n payload) < length payload" using frame_len_bounds [OF n(1)] by simp
    from less [OF this] obtain fs rest where fs: "drop n payload = concat fs @ rest"
      "\<forall>f \<in> set fs. valid_frame X f" "rest = [] \<or> no_frame X rest" by blast
    have "payload = concat (take n payload # fs) @ rest" using fs(1) append_take_drop_id [of n payload] by simp
    then show ?thesis using fs(2,3) n(2) by (intro exI [of _ "take n payload # fs"] exI [of _ rest]) simp
  qed
qed

lemma scan_prefix:
  assumes "\<forall>f \<in> set fs. valid_frame X f" and "rest = [] \<or> no_frame X rest"
  shows "\<exists>e. scan_valid_frame_prefix X (concat fs @ rest) =
    \<lparr>valid_len = length (concat fs), prefix_frames = fs, max_lsn = foldl join_lsn None (map (frame_lsn_of X) fs),
     corrupt_reason = e\<rparr> \<and> (e = None \<longleftrightarrow> rest = [])"
  using scan_stop [OF assms(2), of "length (concat fs)" fs] by (simp add: scan_valid_frame_prefix_def scan_frames [OF assms(1)])

lemma torn_no_frame: "valid_frame X f \<Longrightarrow> k < length f \<Longrightarrow> no_frame X (take k f)"
  by (erule valid_frameE) (simp add: no_frame_def frame_len_torn)

text \<open>The strict decoder accepts exactly the payloads that are a sequence of frames.\<close>

lemma decode_frames_iff:
  "decode_frames X payload = Inr fs \<longleftrightarrow> payload = concat fs \<and> (\<forall>f \<in> set fs. valid_frame X f)"
proof (induction "length payload" arbitrary: payload fs rule: less_induct)
  case less
  show ?case
  proof (cases "payload = []")
    case True
    have "fs = [] \<longleftrightarrow> concat fs = [] \<and> (\<forall>f \<in> set fs. valid_frame X f)"
      using valid_frame_nonempty by (cases fs) auto
    moreover have "decode_frames X [] = Inr []" by (simp add: decode_frames.simps)
    ultimately show ?thesis using True by auto
  next
    case False
    show ?thesis
    proof
      assume "decode_frames X payload = Inr fs"
      then obtain n gs where n: "frame_len payload = Inr n" "is_ok (split_frame X (take n payload))"
        and gs: "decode_frames X (drop n payload) = Inr gs" "fs = take n payload # gs"
        using False by (auto simp: decode_frames.simps [of X payload] rs_simps Let_def is_ok_iff)
      have "length (drop n payload) < length payload" using frame_len_bounds [OF n(1)] by simp
      from less [OF this, of gs] gs(1) have "drop n payload = concat gs" "\<forall>f \<in> set gs. valid_frame X f" by simp_all
      then show "payload = concat fs \<and> (\<forall>f \<in> set fs. valid_frame X f)"
        using append_take_drop_id [of n payload] gs(2) n(2) by (simp add: valid_frame_def)
    next
      assume fs: "payload = concat fs \<and> (\<forall>f \<in> set fs. valid_frame X f)"
      then obtain f gs where f: "fs = f # gs" using False by (cases fs) auto
      obtain h b t where s: "split_frame X f = Inr (h, b, t)" "frame_len f = Inr (length f)"
        using fs f by (auto elim: valid_frameE)
      have len: "frame_len payload = Inr (length f)" using fs f frame_len_append [OF s(2)] by simp
      have "length (concat gs) < length payload" using fs f valid_frame_nonempty [of X f] by simp
      from less [OF this, of gs] have "decode_frames X (concat gs) = Inr gs" using fs f by simp
      then show "decode_frames X payload = Inr fs"
        using False len fs f s by (subst decode_frames.simps) (simp add: Let_def)
    qed
  qed
qed

section \<open>Entries\<close>

lemma decode_loop_append:
  "decode_loop X C (xs @ ys) st =
     bind_rs (decode_loop X C xs st) (\<lambda>(rs, st').
     bind_rs (decode_loop X C ys st') (\<lambda>(rs', st''). Inr (rs @ rs', st'')))"
proof (induction xs arbitrary: st)
  case Nil
  then show ?case by (cases "decode_loop X C ys st") auto
next
  case (Cons x xs)
  then show ?case
    by (auto simp: bind_rs_assoc Let_def case_prod_unfold intro!: bind_rs_cong)
qed

end
