(* ===== verification/Log_Entries.thy ===== *)
theory Log_Entries
  imports Log_Codec
begin

text \<open>
  Log entries over frames: splitting a payload into parts and joining them again, decoding a
  sequence of entries, and what recovery makes of a log whose last entry was cut off.
\<close>

section \<open>Parts of a payload\<close>

lemma chunks_Nil [simp]: "chunks n [] = []"
  by (simp add: chunks.simps)

lemma concat_chunks: "0 < n \<Longrightarrow> concat (chunks n xs) = xs"
proof (induction n xs rule: chunks.induct)
  case (1 n xs)
  then show ?case by (cases "xs = []") (simp_all add: chunks.simps [of n xs])
qed

lemma chunks_length: "c \<in> set (chunks n xs) \<Longrightarrow> length c \<le> n"
proof (induction n xs rule: chunks.induct)
  case (1 n xs)
  then show ?case by (cases "n = 0 \<or> xs = []") (auto simp: chunks.simps [of n xs])
qed

lemma div_ceil_step: "0 < n \<Longrightarrow> n < m \<Longrightarrow> div_ceil m n = Suc (div_ceil (m - n) n)"
proof -
  assume n: "0 < n" "n < m"
  have "(n + k) div n = Suc (k div n)" for k using n(1) div_add_self1 [of n k] by auto
  moreover have "m + n - 1 = n + (m - 1)" "m - n + n - 1 = m - 1" using n by simp_all
  ultimately show ?thesis unfolding div_ceil_def by (simp only:)
qed

lemma length_chunks: "0 < n \<Longrightarrow> length (chunks n xs) = div_ceil (length xs) n"
proof (induction n xs rule: chunks.induct)
  case (1 n xs)
  show ?case
  proof (cases "length xs \<le> n")
    case True
    have "(length xs + n - 1) div n = 1" if "xs \<noteq> []"
      by (rule div_nat_eqI) (use that True 1(2) in \<open>cases xs; simp\<close>)+
    then show ?thesis
      using True 1(2) by (cases "xs = []") (simp_all add: chunks.simps [of n xs] div_ceil_def)
  next
    case False
    then have "xs \<noteq> []" "n < length xs" using 1(2) by auto
    then show ?thesis using 1 by (simp add: chunks.simps [of n xs] div_ceil_step)
  qed
qed

text \<open>The frames of an entry whose payload was cut into \<open>cs\<close>, starting at \<open>lsn\<close>.\<close>

definition part_frame :: "ext \<Rightarrow> byte list list \<Rightarrow> LSN \<Rightarrow> nat \<Rightarrow> byte list" where
  "part_frame X cs lsn i = make_frame X (lsn + of_nat i) (of_nat (length cs - i - 1)) (cs ! i)"

definition entry_frames :: "ext \<Rightarrow> byte list list \<Rightarrow> LSN \<Rightarrow> byte list list" where
  "entry_frames X cs lsn = map (part_frame X cs lsn) [0..<length cs]"

lemma length_entry_frames [simp]: "length (entry_frames X cs lsn) = length cs"
  by (simp add: entry_frames_def)

lemma nth_entry_frames: "i < length cs \<Longrightarrow> entry_frames X cs lsn ! i = part_frame X cs lsn i"
  by (simp add: entry_frames_def)

lemma frame_loop_eq:
  "frame_loop X parts index cs lsn =
     (map (\<lambda>i. make_frame X (lsn + of_nat i) (of_nat (parts - (index + i) - 1)) (cs ! i)) [0..<length cs],
      lsn + of_nat (length cs))"
proof (induction cs arbitrary: index lsn)
  case (Cons c cs)
  have "[0..<length (c # cs)] = 0 # map Suc [0..<length cs]" 
    by (simp add: upt_conv_Cons map_Suc_upt del: upt_Suc)
  then show ?case using Cons by (simp add: o_def add.assoc)
qed simp

lemma frame_loop_entry: "frame_loop X (length cs) 0 cs lsn = (entry_frames X cs lsn, lsn + of_nat (length cs))"
  by (simp add: frame_loop_eq entry_frames_def part_frame_def [abs_def])

text \<open>Parts that fit their 32-bit counters.\<close>

definition parts_ok :: "byte list list \<Rightarrow> bool" where
  "parts_ok cs \<longleftrightarrow> cs \<noteq> [] \<and> length cs \<le> 2 ^ 32 \<and> (\<forall>c \<in> set cs. length c < 2 ^ 32)"

lemma serialize_entry_frames:
  assumes "msg_to_vec C v = Some payload" and "payload \<noteq> []" and "32 < m"
  shows "serialize_entry X C v m lsn =
    (Inr (entry_frames X (chunks (m - 32) payload) lsn), lsn + of_nat (length (chunks (m - 32) payload)))"
proof -
  have "0 < m - 32" using assms(3) by simp
  note len = length_chunks [OF this, of payload]
  have "1 \<le> length (chunks (m - 32) payload)" using assms(2,3) by (simp add: chunks.simps)
  then have "max (div_ceil (length payload) (m - 32)) 1 = length (chunks (m - 32) payload)"
    unfolding len [symmetric] by (simp add: max_def)
  then show ?thesis
    using assms(1,3)
    by (simp add: serialize_entry_def bind_se_def lift_se_def frame_loop_entry Let_def)
qed

lemma split_part_frame:
  assumes "parts_ok cs" and "i < length cs"
  shows "\<exists>h t. split_frame X (part_frame X cs lsn i) = Inr (h, cs ! i, t) \<and> lf_lsn h = lsn + of_nat i \<and>
    lf_n_part h = of_nat (length cs - i - 1)"
  using assms split_make_frame [of "cs ! i" X]
  by (simp add: part_frame_def parts_ok_def LogFrameHeader_new_def)

lemma valid_entry_frames: "parts_ok cs \<Longrightarrow> \<forall>f \<in> set (entry_frames X cs lsn). valid_frame X f"
  using split_part_frame by (fastforce simp: entry_frames_def valid_frame_def is_ok_iff)

text \<open>The parts of one entry are joined to its payload.\<close>

lemma payload_loop_entry:
  assumes "parts_ok cs" and "i \<le> length cs"
  shows "payload_loop X (length cs) i (drop i (entry_frames X cs lsn)) acc = Inr (acc @ concat (drop i cs))"
  using assms(2)
proof (induction "length cs - i" arbitrary: i acc)
  case (Suc n)
  then have i: "i < length cs" by simp
  then have "drop i (entry_frames X cs lsn) = part_frame X cs lsn i # drop (Suc i) (entry_frames X cs lsn)"
    using Cons_nth_drop_Suc [of i "entry_frames X cs lsn"] by (simp add: nth_entry_frames)
  moreover have "concat (drop i cs) = cs ! i @ concat (drop (Suc i) cs)"
    using Cons_nth_drop_Suc [OF i] by (metis concat.simps(2))
  moreover obtain h t where "split_frame X (part_frame X cs lsn i) = Inr (h, cs ! i, t)"
    "lf_n_part h = of_nat (length cs - i - 1)" using split_part_frame [OF assms(1) i] by blast
  ultimately show ?case using Suc(1) [of "Suc i"] Suc(2) i by simp
qed simp

lemma deserialize_entry_frames:
  assumes "parts_ok cs"
  shows "deserialize_entry X C (entry_frames X cs lsn) = ok_or (msg_from_slice C (concat cs)) (EC Decode)"
proof -
  have "entry_frames X cs lsn \<noteq> []" using assms by (simp add: parts_ok_def entry_frames_def)
  then show ?thesis
    using payload_loop_entry [OF assms, of 0 X lsn "[]"]
    by (simp add: deserialize_entry_def deserialize_frames_payload_def)
qed

section \<open>Sequences of entries\<close>

lemma n_part_zero_iff:
  assumes "length cs \<le> 2 ^ 32" and "i < length cs"
  shows "(of_nat (length cs - i - 1) :: u32) = 0 \<longleftrightarrow> i = length cs - 1"
proof -
  have "unat (of_nat (length cs - i - 1) :: u32) = length cs - i - 1"
    by (rule unat_u32_small) (use assms in simp)
  then have "(of_nat (length cs - i - 1) :: u32) = 0 \<longleftrightarrow> length cs - i - 1 = 0" by (metis unat_eq_zero)
  then show ?thesis using assms(2) by auto
qed

text \<open>Reading the remaining frames of an entry, with frames \<open>P\<close> and the first \<open>i\<close> frames of the entry pending.\<close>

lemma decode_loop_parts:
  assumes ok: "parts_ok cs" and "i < length cs"
    and "st = \<lparr>pending_frames = P @ take i (entry_frames X cs lsn), pending_start_lsn = ps\<rparr>"
    and "if P = [] \<and> i = 0 then s = lsn else ps = Some s"
  shows "decode_loop X C (drop i (entry_frames X cs lsn) @ rest) st =
    bind_rs (deserialize_entry X C (P @ entry_frames X cs lsn)) (\<lambda>v.
    bind_rs (decode_loop X C rest pending_init) (\<lambda>(rs, st'). Inr ((s, v) # rs, st')))"
  using assms(2-)
proof (induction "length cs - i" arbitrary: i st ps)
  case (Suc n)
  let ?fs = "entry_frames X cs lsn"
  have i: "i < length ?fs" using Suc.prems(1) by simp
  have step: "drop i ?fs = part_frame X cs lsn i # drop (Suc i) ?fs"
    using Cons_nth_drop_Suc [OF i] Suc.prems(1) by (simp add: nth_entry_frames)
  have frames: "pending_frames st @ [part_frame X cs lsn i] = P @ take (Suc i) ?fs"
    using i Suc.prems(1,2) by (simp add: take_Suc_conv_app_nth nth_entry_frames)
  obtain h t where h: "split_frame X (part_frame X cs lsn i) = Inr (h, cs ! i, t)" "lf_lsn h = lsn + of_nat i"
    "lf_n_part h = of_nat (length cs - i - 1)" using split_part_frame [OF ok Suc.prems(1)] by blast
  have zero: "lf_n_part h = 0 \<longleftrightarrow> i = length cs - 1"
    unfolding h(3) using ok Suc.prems(1) by (intro n_part_zero_iff) (simp_all add: parts_ok_def)
  have "take i ?fs = [] \<longleftrightarrow> i = 0" using i by (cases ?fs) auto
  then have start: "(if pending_frames st = [] then Some (lf_lsn h) else pending_start_lsn st) = Some s"
    using Suc.prems(2,3) h(2) by (auto split: if_splits)
  show ?case
  proof (cases "i = length cs - 1")
    case True
    then have "take (Suc i) ?fs = ?fs" "drop (Suc i) ?fs = []" using Suc.prems(1) by simp_all
    then show ?thesis
      unfolding step using h(1) zero True start frames by (simp add: Let_def pending_init_def)
  next
    case False
    have "decode_loop X C (drop (Suc i) ?fs @ rest) \<lparr>pending_frames = P @ take (Suc i) ?fs, pending_start_lsn = Some s\<rparr> =
        bind_rs (deserialize_entry X C (P @ ?fs)) (\<lambda>v.
        bind_rs (decode_loop X C rest pending_init) (\<lambda>(rs, st'). Inr ((s, v) # rs, st')))"
      by (rule Suc.hyps(1)) (use Suc.prems(1) Suc.hyps(2) False in auto)
    then show ?thesis unfolding step using h(1) zero False start frames by (simp add: Let_def)
  qed
qed simp

lemma decode_loop_entry:
  assumes "parts_ok cs" and "msg_from_slice C (concat cs) = Some v"
  shows "decode_loop X C (entry_frames X cs lsn @ rest) pending_init =
    bind_rs (decode_loop X C rest pending_init) (\<lambda>(rs, st'). Inr ((lsn, v) # rs, st'))"
  using decode_loop_parts [OF assms(1), of 0 pending_init "[]" X lsn None lsn C rest] assms
  by (simp add: parts_ok_def pending_init_def deserialize_entry_frames)

text \<open>Some frames of an entry, not all: they stay pending.\<close>

definition pending_after :: "ext \<Rightarrow> byte list list \<Rightarrow> LSN \<Rightarrow> nat \<Rightarrow> pending_state" where
  "pending_after X cs lsn k =
     \<lparr>pending_frames = take k (entry_frames X cs lsn), pending_start_lsn = (if k = 0 then None else Some lsn)\<rparr>"

lemma decode_loop_partial:
  assumes ok: "parts_ok cs" and k: "k < length cs" and "i \<le> k"
  shows "decode_loop X C (drop i (take k (entry_frames X cs lsn))) (pending_after X cs lsn i) =
    Inr ([], pending_after X cs lsn k)"
  using assms(3)
proof (induction "k - i" arbitrary: i)
  case 0
  then show ?case by (simp add: pending_after_def)
next
  case (Suc n)
  let ?fs = "entry_frames X cs lsn"
  have ik: "i < k" using Suc.hyps(2) by simp
  have i: "i < length (take k ?fs)" using ik k by simp
  have step: "drop i (take k ?fs) = part_frame X cs lsn i # drop (Suc i) (take k ?fs)"
    using Cons_nth_drop_Suc [OF i] ik k by (simp add: nth_entry_frames)
  have il: "i < length cs" using ik k by simp
  obtain h t where h: "split_frame X (part_frame X cs lsn i) = Inr (h, cs ! i, t)" "lf_lsn h = lsn + of_nat i"
    "lf_n_part h = of_nat (length cs - i - 1)" using split_part_frame [OF ok il] by blast
  have "lf_n_part h \<noteq> 0"
    unfolding h(3) using ok ik k n_part_zero_iff [of cs i] il by (simp add: parts_ok_def)
  moreover have "take i ?fs = [] \<longleftrightarrow> i = 0" using i by (cases ?fs) auto
  moreover have "take i ?fs @ [part_frame X cs lsn i] = take (Suc i) ?fs"
    using il by (simp add: take_Suc_conv_app_nth nth_entry_frames)
  ultimately have "decode_loop X C (drop i (take k ?fs)) (pending_after X cs lsn i) =
      decode_loop X C (drop (Suc i) (take k ?fs)) (pending_after X cs lsn (Suc i))"
    unfolding step using h(1,2) by (auto simp: pending_after_def Let_def)
  then show ?case using Suc.hyps ik by simp
qed

text \<open>The frames a writer produces for a list of entries, with the LSN each entry starts at.
  \<open>log_frames\<close> is \<open>None\<close> when an entry cannot be serialised.\<close>

fun log_frames :: "ext \<Rightarrow> 'l entry_codec \<Rightarrow> nat \<Rightarrow> 'l list \<Rightarrow> LSN \<Rightarrow> (byte list list \<times> (LSN \<times> 'l) list \<times> LSN) rs" where
  "log_frames X C m [] lsn = Inr ([], [], lsn)"
| "log_frames X C m (v # vs) lsn =
     (case serialize_entry X C v m lsn of
        (Inl e, _) \<Rightarrow> Inl e
      | (Inr fs, lsn') \<Rightarrow>
          bind_rs (log_frames X C m vs lsn') (\<lambda>(gs, es, lsn''). Inr (fs @ gs, (lsn, v) # es, lsn'')))"

text \<open>What is relied on of the serialisation crate: what was written is read back, and no entry
  is empty.  The size bound keeps the part counter within 32 bits.\<close>

definition codec_ok :: "'l entry_codec \<Rightarrow> bool" where
  "codec_ok C \<longleftrightarrow>
     (\<forall>v bs. msg_to_vec C v = Some bs \<longrightarrow> bs \<noteq> [] \<and> length bs < 2 ^ 32 \<and> msg_from_slice C bs = Some v)"

lemma codec_parts_ok:
  assumes "codec_ok C" and "msg_to_vec C v = Some payload" and "0 < n"
  shows "parts_ok (chunks n payload)" and "msg_from_slice C (concat (chunks n payload)) = Some v"
proof -
  have p: "payload \<noteq> []" "length payload < 2 ^ 32" "msg_from_slice C payload = Some v"
    using assms(1,2) by (auto simp: codec_ok_def)
  have le: "length c \<le> length payload" if "c \<in> set (chunks n payload)" for c
  proof -
    have "length c \<le> length (concat (chunks n payload))"
      using that by (simp add: length_concat member_le_sum_list)
    then show ?thesis by (simp add: concat_chunks [OF assms(3)])
  qed
  have "div_ceil (length payload) n \<le> length payload"
  proof -
    have "length payload + n - 1 < Suc (length payload) * n"
      using p(1) assms(3) by (cases n) (auto simp: algebra_simps Suc_le_eq)
    then show ?thesis unfolding div_ceil_def by (metis less_Suc_eq_le less_mult_imp_div_less)
  qed
  then have "length (chunks n payload) \<le> 2 ^ 32" using p(2) by (simp add: length_chunks [OF assms(3)])
  moreover have "chunks n payload \<noteq> []" using p(1) assms(3) by (simp add: chunks.simps)
  ultimately show "parts_ok (chunks n payload)"
    using p(2) le by (auto simp: parts_ok_def dest: order.strict_trans1)
  show "msg_from_slice C (concat (chunks n payload)) = Some v" using p(3) by (simp add: concat_chunks [OF assms(3)])
qed

lemma serialize_entryE:
  assumes "codec_ok C" and "serialize_entry X C v m lsn = (Inr fs, lsn')"
  obtains cs where "fs = entry_frames X cs lsn" and "parts_ok cs" and "msg_from_slice C (concat cs) = Some v"
    and "lsn' = lsn + of_nat (length cs)"
proof -
  obtain payload where p: "msg_to_vec C v = Some payload" and m: "32 < m"
    using assms(2)
    by (cases "msg_to_vec C v") (auto simp: serialize_entry_def bind_se_def lift_se_def fail_se_def split: if_splits)
  have "payload \<noteq> []" using assms(1) p by (auto simp: codec_ok_def)
  note ser = serialize_entry_frames [OF p this m, of X lsn]
  show thesis
    using that [OF _ codec_parts_ok [OF assms(1) p, of "m - 32"]] assms(2) ser m by simp
qed

lemma decode_log_frames:
  assumes "codec_ok C" and "log_frames X C m vs lsn = Inr (fs, es, lsn')"
  shows "decode_loop X C (fs @ rest) pending_init =
      bind_rs (decode_loop X C rest pending_init) (\<lambda>(rs, st). Inr (es @ rs, st)) \<and>
    (\<forall>f \<in> set fs. valid_frame X f) \<and> map snd es = vs"
  using assms(2)
proof (induction vs arbitrary: lsn fs es)
  case Nil
  then show ?case by (cases "decode_loop X C rest pending_init") auto
next
  case (Cons v vs)
  obtain fs1 lsn1 where s: "serialize_entry X C v m lsn = (Inr fs1, lsn1)"
    using Cons.prems by (cases "serialize_entry X C v m lsn") (auto split: sum.splits)
  obtain gs es' where rest: "log_frames X C m vs lsn1 = Inr (gs, es', lsn')" "fs = fs1 @ gs" "es = (lsn, v) # es'"
    using Cons.prems s by (auto simp: rs_simps)
  obtain cs where cs: "fs1 = entry_frames X cs lsn" "parts_ok cs" "msg_from_slice C (concat cs) = Some v"
    by (rule serialize_entryE [OF assms(1) s])
  show ?case
    using decode_loop_entry [OF cs(2,3), of X lsn "gs @ rest"] Cons.IH [OF rest(1)] rest(2,3) cs(1) valid_entry_frames [OF cs(2), of X lsn]
    by (auto simp: bind_rs_assoc case_prod_unfold)
qed

section \<open>Recovery\<close>

definition pending_ok :: "pending_state \<Rightarrow> bool" where
  "pending_ok st \<longleftrightarrow> pending_frames st = [] \<or> pending_start_lsn st \<noteq> None"

lemma pending_ok_init [simp]: "pending_ok pending_init"
  by (simp add: pending_ok_def pending_init_def)

lemma decode_entries_pending_ok:
  "pending_ok st \<Longrightarrow> decode_entries_with_pending X C frames st = decode_loop X C frames st"
  by (auto simp: decode_entries_with_pending_def pending_ok_def)

lemma decode_loop_pending_ok:
  assumes "decode_loop X C frames st = Inr (es, st')" and "pending_ok st"
  shows "pending_ok st'"
  using assms
proof (induction frames arbitrary: st es)
  case (Cons f frames)
  obtain h b t where f: "split_frame X f = Inr (h, b, t)"
    using Cons.prems(1) by (cases "split_frame X f") auto
  show ?case
  proof (cases "lf_n_part h = 0")
    case True
    then obtain es1 where "decode_loop X C frames \<lparr>pending_frames = [], pending_start_lsn = None\<rparr> = Inr (es1, st')"
      using Cons.prems(1) f by (auto simp: Let_def rs_simps)
    then show ?thesis by (rule Cons.IH) (simp add: pending_ok_def)
  next
    case False
    then have "decode_loop X C frames \<lparr>pending_frames = pending_frames st @ [f],
        pending_start_lsn = (if pending_frames st = [] then Some (lf_lsn h) else pending_start_lsn st)\<rparr> = Inr (es, st')"
      using Cons.prems(1) f by (simp add: Let_def)
    then show ?thesis by (rule Cons.IH) (use Cons.prems(2) in \<open>auto simp: pending_ok_def\<close>)
  qed
qed simp

lemma fold_se_append: "fold_se f (xs @ ys) = bind_se (fold_se f xs) (\<lambda>_. fold_se f ys)"
proof (induction xs)
  case Nil
  then show ?case by (auto simp: bind_se_def return_se_def fun_eq_iff)
next
  case (Cons x xs)
  then show ?case by (auto simp: bind_se_def fun_eq_iff split: sum.split prod.split)
qed

text \<open>A chunk file: valid frames, then bytes that are not a frame.\<close>

abbreviation chunk_file :: "byte list list \<times> byte list \<Rightarrow> byte list" where
  "chunk_file c \<equiv> concat (fst c) @ snd c"

definition chunk_ok :: "ext \<Rightarrow> byte list list \<times> byte list \<Rightarrow> bool" where
  "chunk_ok X c \<longleftrightarrow> (\<forall>f \<in> set (fst c). valid_frame X f) \<and> (snd c = [] \<or> no_frame X (snd c))"

lemma chunk_frames: "chunk_ok X c \<Longrightarrow> decode_chunk_frames_for_recovery X (chunk_file c) = fst c"
  using scan_prefix [of "fst c" X "snd c"] by (auto simp: chunk_ok_def decode_chunk_frames_for_recovery_def)

lemma chunk_file_empty: "chunk_ok X c \<Longrightarrow> chunk_file c = [] \<Longrightarrow> fst c = []"
  using valid_frame_nonempty by (cases "fst c") (auto simp: chunk_ok_def)

text \<open>Recovery hands the decoded entries to the handler in log order, wherever the chunk files are cut.\<close>

lemma recover_loop_entries:
  assumes "\<forall>c \<in> set cs. chunk_ok X c" and "pending_ok st"
    and "decode_loop X C (concat (map fst cs)) st = Inr (es, st')"
  shows "recover_loop X C handle (map chunk_file cs) st = fold_se (\<lambda>(start_lsn, entry). handle entry start_lsn) es"
  using assms
proof (induction cs arbitrary: st es)
  case (Cons c cs)
  obtain es1 st1 es2 where d1: "decode_loop X C (fst c) st = Inr (es1, st1)"
    and d2: "decode_loop X C (concat (map fst cs)) st1 = Inr (es2, st')" and es: "es = es1 @ es2"
    using Cons.prems(3) by (auto simp: decode_loop_append rs_simps)
  have IH: "recover_loop X C handle (map chunk_file cs) st1 = fold_se (\<lambda>(start_lsn, entry). handle entry start_lsn) es2"
    by (rule Cons.IH [OF _ decode_loop_pending_ok [OF d1 Cons.prems(2)] d2]) (use Cons.prems(1) in simp)
  show ?case
  proof (cases "chunk_file c = []")
    case True
    then have "fst c = []" using Cons.prems(1) chunk_file_empty [of X c] by simp
    then show ?thesis using True d1 IH es by simp
  next
    case False
    then have "recover_loop X C handle (map chunk_file (c # cs)) st =
        bind_se (fold_se (\<lambda>(start_lsn, entry). handle entry start_lsn) es1) (\<lambda>_. recover_loop X C handle (map chunk_file cs) st1)"
      using chunk_frames [of X c] Cons.prems(1,2) d1
      by (simp only: list.map recover_loop.simps if_False) (simp add: decode_entries_pending_ok bind_se_def lift_se_def fun_eq_iff)
    then show ?thesis using IH es by (simp add: fold_se_append)
  qed
qed simp

text \<open>Frames that do not decode make recovery fail.\<close>

definition handler_total :: "('l \<Rightarrow> LSN \<Rightarrow> ('s, unit) se) \<Rightarrow> bool" where
  "handler_total handle \<longleftrightarrow> (\<forall>v lsn s. fst (handle v lsn s) = Inr ())"

lemma fold_handler_total:
  assumes "handler_total handle"
  shows "\<exists>t. fold_se (\<lambda>(start_lsn, entry). handle entry start_lsn) es s = (Inr (), t)"
proof (induction es arbitrary: s)
  case (Cons e es)
  obtain l v where e: "e = (l, v)" by (cases e)
  obtain t where "handle v l s = (Inr (), t)" using assms unfolding handler_total_def by (metis prod.collapse)
  then show ?case using Cons.IH [of t] by (simp add: e bind_se_def)
qed (simp add: return_se_def)

lemma recover_loop_error:
  assumes h: "handler_total handle" and "\<forall>c \<in> set cs. chunk_ok X c" and "pending_ok st"
    and "decode_loop X C (concat (map fst cs)) st = Inl e"
  shows "\<exists>t. recover_loop X C handle (map chunk_file cs) st s = (Inl e, t)"
  using assms(2-)
proof (induction cs arbitrary: st s)
  case (Cons c cs)
  have chunk: "decode_chunk_frames_for_recovery X (chunk_file c) = fst c" using chunk_frames [of X c] Cons.prems(1) by simp
  show ?case
  proof (cases "chunk_file c = []")
    case True
    then have "fst c = []" using Cons.prems(1) chunk_file_empty [of X c] by simp
    then show ?thesis using True Cons by simp
  next
    case False
    show ?thesis
    proof (cases "decode_loop X C (fst c) st")
      case (Inl e')
      then have "e' = e" using Cons.prems(3) by (simp add: decode_loop_append)
      then show ?thesis using False Inl chunk Cons.prems(2)
        by (simp only: list.map recover_loop.simps if_False) (simp add: decode_entries_pending_ok bind_se_def lift_se_def)
    next
      case (Inr a)
      obtain es1 st1 where a: "a = (es1, st1)" by (cases a)
      have rest: "decode_loop X C (concat (map fst cs)) st1 = Inl e"
        using Cons.prems(3) Inr a by (cases "decode_loop X C (concat (map fst cs)) st1") (auto simp: decode_loop_append)
      obtain t where t: "fold_se (\<lambda>(start_lsn, entry). handle entry start_lsn) es1 s = (Inr (), t)"
        using fold_handler_total [OF h] by blast
      have "recover_loop X C handle (map chunk_file (c # cs)) st s = recover_loop X C handle (map chunk_file cs) st1 t"
        using False Inr a chunk Cons.prems(2) t
        by (simp only: list.map recover_loop.simps if_False) (simp add: decode_entries_pending_ok bind_se_def lift_se_def)
      then show ?thesis
        using Cons.IH [OF _ decode_loop_pending_ok [of X C "fst c" st es1] rest, of t] Cons.prems(1,2) Inr a by auto
    qed
  qed
qed simp

section \<open>An unfinished entry followed by another\<close>

lemma payload_loop_append:
  "payload_loop X n i (xs @ ys) acc = bind_rs (payload_loop X n i xs acc) (payload_loop X n (i + length xs) ys)"
  by (induction xs arbitrary: i acc) (simp_all add: bind_rs_assoc case_prod_unfold Let_def)

lemma payload_loop_shifted:
  assumes ok: "parts_ok cs" and "i \<le> length cs" and "k \<le> length cs"
  shows "payload_loop X (length cs + j) (i + j) (drop i (take k (entry_frames X cs lsn))) acc =
    Inr (acc @ concat (drop i (take k cs)))"
  using assms(2)
proof (induction "k - i" arbitrary: i acc)
  case 0
  then show ?case using assms(3) by simp
next
  case (Suc n)
  have ik: "i < k" using Suc.hyps(2) by simp
  then have i: "i < length cs" "i < length (take k (entry_frames X cs lsn))" "i < length (take k cs)"
    using assms(3) by simp_all
  have "drop i (take k (entry_frames X cs lsn)) = part_frame X cs lsn i # drop (Suc i) (take k (entry_frames X cs lsn))"
    using Cons_nth_drop_Suc [OF i(2)] i(1) ik by (simp add: nth_entry_frames)
  moreover have "concat (drop i (take k cs)) = cs ! i @ concat (drop (Suc i) (take k cs))"
    using Cons_nth_drop_Suc [OF i(3)] ik by (metis concat.simps(2) nth_take)
  moreover obtain h t where "split_frame X (part_frame X cs lsn i) = Inr (h, cs ! i, t)"
    "lf_n_part h = of_nat (length cs - i - 1)" using split_part_frame [OF ok i(1)] by blast
  moreover have "length cs + j - (i + j) - 1 = length cs - i - 1" by simp
  ultimately show ?case using Suc.hyps(1) [of "Suc i"] Suc.hyps(2) ik i(1) by simp
qed

text \<open>The first \<open>k\<close> frames of one entry followed by all frames of another are read as one entry: the
  part counters fit only when the second entry is as long as what is missing of the first.\<close>

lemma deserialize_merged:
  assumes "parts_ok cs" and "parts_ok ds" and "0 < k" and "length cs = k + length ds"
  shows "deserialize_entry X C (take k (entry_frames X cs lsn) @ entry_frames X ds lsn') =
    ok_or (msg_from_slice C (concat (take k cs) @ concat ds)) (EC Decode)"
proof -
  have "payload_loop X (length cs) 0 (take k (entry_frames X cs lsn)) [] = Inr (concat (take k cs))"
    using payload_loop_shifted [OF assms(1), of 0 k X 0 lsn "[]"] assms(4) by simp
  moreover have "payload_loop X (length cs) k (entry_frames X ds lsn') (concat (take k cs)) =
      Inr (concat (take k cs) @ concat ds)"
    using payload_loop_shifted [OF assms(2), of 0 "length ds" X k lsn' "concat (take k cs)"] assms(4)
    by (simp add: add.commute)
  ultimately show ?thesis
    using assms(2-4)
    by (simp add: deserialize_entry_def deserialize_frames_payload_def payload_loop_append parts_ok_def entry_frames_def)
qed

lemma deserialize_mismatch:
  assumes "parts_ok cs" and "0 < k" and "k < length cs" and "length cs \<noteq> k + length gs" and "k + length gs \<le> 2 ^ 32"
  shows "deserialize_entry X C (take k (entry_frames X cs lsn) @ gs) = Inl (EC Decode)"
proof -
  let ?fs = "take k (entry_frames X cs lsn) @ gs"
  have len: "length ?fs = k + length gs" using assms(3) by simp
  have fs: "?fs = part_frame X cs lsn 0 # tl ?fs"
    using assms(2,3) nth_entry_frames [of 0 cs X lsn] length_entry_frames [of X cs lsn]
    by (cases "entry_frames X cs lsn"; cases cs; cases k) auto
  obtain h t where h: "split_frame X (part_frame X cs lsn 0) = Inr (h, cs ! 0, t)" "lf_n_part h = of_nat (length cs - 1)"
    using split_part_frame [OF assms(1), of 0] assms(3) by (metis diff_zero gr_implies_not0 not_gr_zero)
  have "lf_n_part h \<noteq> of_nat (k + length gs - 1)"
  proof
    assume "lf_n_part h = of_nat (k + length gs - 1)"
    then have "unat (of_nat (length cs - 1) :: u32) = unat (of_nat (k + length gs - 1) :: u32)" using h(2) by simp
    moreover have "length cs - 1 < 2 ^ 32" "k + length gs - 1 < 2 ^ 32"
      using assms(1,2,5) by (auto simp: parts_ok_def)
    ultimately have "length cs - 1 = k + length gs - 1" by (simp only: unat_u32_small)
    then show False using assms(2-4) by simp
  qed
  then have "payload_loop X (k + length gs) 0 (part_frame X cs lsn 0 # tl ?fs) [] = Inl (EC Decode)"
    using h(1) by (simp add: Let_def)
  moreover have "?fs \<noteq> []" using fs by (metis list.distinct(1))
  ultimately show ?thesis
    unfolding deserialize_entry_def deserialize_frames_payload_def len using fs by simp
qed

lemma decode_dangling:
  assumes "parts_ok cs" and "parts_ok ds" and "0 < k" and "k < length cs"
  shows "decode_loop X C (take k (entry_frames X cs lsn) @ entry_frames X ds lsn' @ rest) pending_init =
    bind_rs (deserialize_entry X C (take k (entry_frames X cs lsn) @ entry_frames X ds lsn')) (\<lambda>v.
    bind_rs (decode_loop X C rest pending_init) (\<lambda>(rs, st'). Inr ((lsn, v) # rs, st')))"
proof -
  have "entry_frames X cs lsn \<noteq> []" using assms(1) by (simp add: parts_ok_def entry_frames_def)
  moreover have "pending_init = pending_after X cs lsn 0" by (simp add: pending_init_def pending_after_def)
  moreover from this have "decode_loop X C (take k (entry_frames X cs lsn)) pending_init = Inr ([], pending_after X cs lsn k)"
    using decode_loop_partial [OF assms(1,4), of 0 X C lsn] by simp
  ultimately show ?thesis
    using decode_loop_parts [OF assms(2), of 0 "pending_after X cs lsn k" "take k (entry_frames X cs lsn)" X lsn' "Some lsn" lsn C rest] assms(2-4)
    by (simp add: decode_loop_append [of X C "take k (entry_frames X cs lsn)"] pending_after_def parts_ok_def case_prod_unfold)
qed

end
