(* ===== verification/Wal_Layout.thy ===== *)
theory Wal_Layout
  imports Log_Entries "HOL-Library.AList"
begin

text \<open>
  The chunk files of a worker log: \<open>wal/worker_wal_backend/layout.rs\<close>, \<open>batching.rs\<close>, \<open>sync_policy.rs\<close>
  and \<open>state.rs\<close>.  A path is a directory and a file name; a disk is an association list from
  paths to contents, in the order \<open>read_dir\<close> lists them.  \<open>short_uuid\<close> stands for the
  \<open>short_uuid\<close> crate.  Directory creation, listing and reading of files that exist succeed.
\<close>

type_synonym path = "string \<times> string"
type_synonym disk = "(path \<times> byte list) list"

section \<open>Decimal numbers\<close>

definition digit_char :: "nat \<Rightarrow> char" where "digit_char d = char_of (48 + d)"

definition digit_value :: "char \<Rightarrow> nat option" where
  "digit_value c = (let n = of_char c in if 48 \<le> n \<and> n < 58 then Some (n - 48) else None)"

fun show_nat :: "nat \<Rightarrow> string" where
  "show_nat n = (if n < 10 then [digit_char n] else show_nat (n div 10) @ [digit_char (n mod 10)])"

declare show_nat.simps [simp del]

text \<open>\<open>str::parse::<u64>\<close>: an optional plus sign, then at least one digit, and a value below \<open>2^64\<close>.\<close>

fun parse_digits :: "string \<Rightarrow> nat \<Rightarrow> nat option" where
  "parse_digits [] acc = Some acc"
| "parse_digits (c # cs) acc = (case digit_value c of None \<Rightarrow> None | Some d \<Rightarrow> parse_digits cs (10 * acc + d))"

definition parse_u64 :: "string \<Rightarrow> u64 option" where
  "parse_u64 s =
     (let ds = (case s of [] \<Rightarrow> [] | c # cs \<Rightarrow> if c = CHR ''+'' then cs else s) in
      if ds = [] then None
      else case parse_digits ds 0 of
        None \<Rightarrow> None
      | Some n \<Rightarrow> if n < 2 ^ 64 then Some (of_nat n) else None)"

section \<open>Configuration\<close>

record WorkerLogBatching =
  wb_trigger_bytes :: nat
  wb_trigger_frames :: nat
  wb_max_wait :: nat
  wb_max_batch_bytes :: nat
  wb_sessions_per_step :: nat
  wb_bytes_per_step :: nat
  wb_frames_per_step :: nat
  wb_max_trigger_bytes :: nat
  wb_max_trigger_frames :: nat

text \<open>Durations are nanoseconds.\<close>

definition WorkerLogBatching_new :: "nat \<Rightarrow> nat \<Rightarrow> nat \<Rightarrow> nat \<Rightarrow> WorkerLogBatching" where
  "WorkerLogBatching_new trigger_bytes trigger_frames max_wait max_batch_bytes =
     \<lparr>wb_trigger_bytes = trigger_bytes, wb_trigger_frames = trigger_frames, wb_max_wait = max_wait,
      wb_max_batch_bytes = max_batch_bytes, wb_sessions_per_step = 8, wb_bytes_per_step = 32 * 1024,
      wb_frames_per_step = 16, wb_max_trigger_bytes = 512 * 1024, wb_max_trigger_frames = 256\<rparr>"

definition with_session_scaling :: "WorkerLogBatching \<Rightarrow> nat \<Rightarrow> nat \<Rightarrow> nat \<Rightarrow> nat \<Rightarrow> nat \<Rightarrow> WorkerLogBatching" where
  "with_session_scaling b sessions_per_step bytes_per_step frames_per_step max_trigger_bytes max_trigger_frames =
     b\<lparr>wb_sessions_per_step := sessions_per_step, wb_bytes_per_step := bytes_per_step,
       wb_frames_per_step := frames_per_step, wb_max_trigger_bytes := max_trigger_bytes,
       wb_max_trigger_frames := max_trigger_frames\<rparr>"

definition WorkerLogBatching_default :: WorkerLogBatching where
  "WorkerLogBatching_default = WorkerLogBatching_new (64 * 1024) 32 (200 * 1000) (256 * 1024)"

datatype WalSyncPolicy = Commit | Periodic nat

record WorkerLogLayout =
  wl_log_dir :: string
  wl_log_oid :: u128
  wl_chunk_size :: u64
  wl_short_oid :: string
  wl_batching :: WorkerLogBatching
  wl_sync_policy :: WalSyncPolicy

definition layout_new_inner :: "(u128 \<Rightarrow> string) \<Rightarrow> string \<Rightarrow> u128 \<Rightarrow> u64 \<Rightarrow> WorkerLogLayout" where
  "layout_new_inner short_uuid log_dir log_oid chunk_size =
     \<lparr>wl_log_dir = log_dir, wl_log_oid = log_oid, wl_chunk_size = chunk_size,
      wl_short_oid = short_uuid log_oid, wl_batching = WorkerLogBatching_default, wl_sync_policy = Commit\<rparr>"

definition layout_is_invalid :: "WorkerLogLayout \<Rightarrow> bool" where
  "layout_is_invalid L \<longleftrightarrow> wl_log_oid L = 0"

definition layout_new :: "(u128 \<Rightarrow> string) \<Rightarrow> string \<Rightarrow> u128 \<Rightarrow> u64 \<Rightarrow> WorkerLogLayout rs" where
  "layout_new short_uuid log_dir log_oid chunk_size =
     (if chunk_size = 0 then Inl (EC Parse) else Inr (layout_new_inner short_uuid log_dir log_oid chunk_size))"

definition with_batching :: "WorkerLogLayout \<Rightarrow> WorkerLogBatching \<Rightarrow> WorkerLogLayout" where
  "with_batching L b = L\<lparr>wl_batching := b\<rparr>"

definition with_sync_policy :: "WorkerLogLayout \<Rightarrow> WalSyncPolicy \<Rightarrow> WorkerLogLayout" where
  "with_sync_policy L p = L\<lparr>wl_sync_policy := p\<rparr>"

definition chunk_path :: "WorkerLogLayout \<Rightarrow> u64 \<Rightarrow> path" where
  "chunk_path L sequence = (wl_log_dir L, wl_short_oid L @ ''.'' @ show_nat (unat sequence) @ ''.xl'')"

definition frame_size_limit :: "WorkerLogLayout \<Rightarrow> nat" where
  "frame_size_limit L = unat (wl_chunk_size L)"

section \<open>Scanning the directory\<close>

definition starts_with :: "string \<Rightarrow> string \<Rightarrow> bool" where
  "starts_with s p \<longleftrightarrow> take (length p) s = p"

definition ends_with :: "string \<Rightarrow> string \<Rightarrow> bool" where
  "ends_with s p \<longleftrightarrow> length p \<le> length s \<and> drop (length s - length p) s = p"

text \<open>The slice \<open>&file_name[prefix.len()..file_name.len() - suffix.len()]\<close> is out of range when the
  prefix and the suffix overlap.\<close>

definition parse_chunk_sequence :: "WorkerLogLayout \<Rightarrow> path \<Rightarrow> u64 option rs" where
  "parse_chunk_sequence L p =
     (let file_name = snd p;
          prefix = wl_short_oid L @ ''.'';
          suffix = ''.xl'' in
      if \<not> starts_with file_name prefix \<or> \<not> ends_with file_name suffix then Inr None
      else if length file_name - length suffix < length prefix then Inl Panic
      else
      let sequence = drop (length prefix) (take (length file_name - length suffix) file_name) in
      Inr (parse_u64 sequence))"

definition read_dir :: "disk \<Rightarrow> string \<Rightarrow> path list" where
  "read_dir d dir = filter (\<lambda>p. fst p = dir) (remdups (map fst d))"

definition read_all :: "disk \<Rightarrow> path \<Rightarrow> byte list rs" where
  "read_all d p = ok_or (map_of d p) (EC Io)"

fun collect_chunks :: "WorkerLogLayout \<Rightarrow> path list \<Rightarrow> (u64 \<times> path) list rs" where
  "collect_chunks L [] = Inr []"
| "collect_chunks L (p # ps) =
     bind_rs (parse_chunk_sequence L p) (\<lambda>parsed.
     bind_rs (collect_chunks L ps) (\<lambda>entries.
     Inr (case parsed of None \<Rightarrow> entries | Some sequence \<Rightarrow> (sequence, p) # entries)))"

definition chunk_paths_sorted :: "WorkerLogLayout \<Rightarrow> disk \<Rightarrow> path list rs" where
  "chunk_paths_sorted L d =
     bind_rs (collect_chunks L (read_dir d (wl_log_dir L))) (\<lambda>entries.
     Inr (map snd (sort_key fst entries)))"

definition max_opt :: "u64 option \<Rightarrow> u64 \<Rightarrow> u64 option" where
  "max_opt m x = Some (case m of None \<Rightarrow> x | Some current \<Rightarrow> max current x)"

definition max_sequence :: "WorkerLogLayout \<Rightarrow> disk \<Rightarrow> u64 option rs" where
  "max_sequence L d =
     fold_rs (\<lambda>p m. bind_rs (parse_chunk_sequence L p) (\<lambda>parsed.
         Inr (case parsed of None \<Rightarrow> m | Some sequence \<Rightarrow> max_opt m sequence)))
       (read_dir d (wl_log_dir L)) None"

definition next_after :: "LSN option \<Rightarrow> LSN" where
  "next_after m = (case m of None \<Rightarrow> 0 | Some lsn \<Rightarrow> saturating_add lsn 1)"

definition scan_next_lsn :: "ext \<Rightarrow> WorkerLogLayout \<Rightarrow> disk \<Rightarrow> LSN rs" where
  "scan_next_lsn X L d =
     bind_rs (chunk_paths_sorted L d) (\<lambda>paths.
     bind_rs (fold_rs (\<lambda>p m. bind_rs (read_all d p) (\<lambda>bytes.
         Inr (case max_lsn (scan_valid_frame_prefix X bytes) of None \<Rightarrow> m | Some lsn \<Rightarrow> max_opt m lsn)))
       paths None) (\<lambda>m. Inr (next_after m)))"

record WorkerLogTail =
  wt_current_sequence :: "u64 option"
  wt_current_size :: u64
  wt_next_sequence :: u64
  wt_next_lsn :: LSN

definition tail_of :: "WorkerLogLayout \<Rightarrow> u64 \<Rightarrow> u64 \<Rightarrow> LSN \<Rightarrow> WorkerLogTail rs" where
  "tail_of L sequence tail_size lsn =
     bind_rs (id_add sequence 1) (\<lambda>next_seq.
     Inr (if tail_size < wl_chunk_size L
       then \<lparr>wt_current_sequence = Some sequence, wt_current_size = tail_size, wt_next_sequence = next_seq, wt_next_lsn = lsn\<rparr>
       else \<lparr>wt_current_sequence = None, wt_current_size = 0, wt_next_sequence = next_seq, wt_next_lsn = lsn\<rparr>))"

definition empty_tail :: WorkerLogTail where
  "empty_tail = \<lparr>wt_current_sequence = None, wt_current_size = 0, wt_next_sequence = 0, wt_next_lsn = 0\<rparr>"

definition scan_tail :: "ext \<Rightarrow> WorkerLogLayout \<Rightarrow> disk \<Rightarrow> WorkerLogTail rs" where
  "scan_tail X L d =
     bind_rs (max_sequence L d) (\<lambda>m.
     case m of
       None \<Rightarrow> Inr empty_tail
     | Some sequence \<Rightarrow>
         bind_rs (read_all d (chunk_path L sequence)) (\<lambda>bytes.
         bind_rs (scan_next_lsn X L d) (\<lambda>lsn.
         tail_of L sequence (of_nat (length bytes)) lsn)))"

text \<open>\<open>chunk_sequences_async\<close> probes chunk files from 0 on until one is missing.\<close>

definition path_exists :: "disk \<Rightarrow> path \<Rightarrow> bool" where
  "path_exists d p \<longleftrightarrow> map_of d p \<noteq> None"

partial_function (option) probe_loop :: "WorkerLogLayout \<Rightarrow> disk \<Rightarrow> u64 \<Rightarrow> u64 list \<Rightarrow> u64 list option" where
  "probe_loop L d sequence sequences =
     (if \<not> path_exists d (chunk_path L sequence) then Some sequences
      else probe_loop L d (saturating_add sequence 1) (sequences @ [sequence]))"

definition chunk_sequences_async :: "WorkerLogLayout \<Rightarrow> disk \<Rightarrow> u64 list rs" where
  "chunk_sequences_async L d = ok_or (probe_loop L d 0 []) Diverge"

definition truncate_file_to :: "disk \<Rightarrow> path \<Rightarrow> nat \<Rightarrow> disk" where
  "truncate_file_to d p len =
     (case map_of d p of
        None \<Rightarrow> d
      | Some bytes \<Rightarrow> AList.update p (take len bytes @ replicate (len - length bytes) 0) d)"

text \<open>One iteration of the walk over the chunks: the largest LSN and the size of the last chunk so
  far, and the disk with the tail of the chunk cut off.\<close>

definition walk_chunk ::
    "ext \<Rightarrow> WorkerLogLayout \<Rightarrow> u64 \<Rightarrow> u64 \<Rightarrow> LSN option \<times> u64 \<times> disk \<Rightarrow> (LSN option \<times> u64 \<times> disk) rs" where
  "walk_chunk X L sequence chunk_sequence = (\<lambda>(lsn_max, tail_size, d).
     let p = chunk_path L chunk_sequence in
     bind_rs (read_all d p) (\<lambda>bytes.
     let prefix = scan_valid_frame_prefix X bytes;
         size = (if corrupt_reason prefix = None then of_nat (length bytes) else of_nat (valid_len prefix));
         d' = (if corrupt_reason prefix = None then d else truncate_file_to d p (valid_len prefix));
         lsn_max' = (case max_lsn prefix of None \<Rightarrow> lsn_max | Some lsn \<Rightarrow> max_opt lsn_max lsn);
         tail_size' = (if chunk_sequence = sequence then size else tail_size) in
     Inr (lsn_max', tail_size', d')))"

definition scan_tail_async :: "ext \<Rightarrow> WorkerLogLayout \<Rightarrow> disk \<Rightarrow> (WorkerLogTail \<times> disk) rs" where
  "scan_tail_async X L d =
     bind_rs (chunk_sequences_async L d) (\<lambda>sequences.
     if sequences = [] then Inr (empty_tail, d)
     else
     let sequence = last sequences in
     bind_rs (fold_rs (walk_chunk X L sequence) sequences (None, 0, d)) (\<lambda>(lsn_max, tail_size, d').
     bind_rs (tail_of L sequence tail_size (next_after lsn_max)) (\<lambda>t. Inr (t, d'))))"

section \<open>Reserving space\<close>

text \<open>The cached file handle is identified by the path it was opened on.\<close>

record ChunkedWorkerLog =
  cl_layout :: WorkerLogLayout
  cl_current_sequence :: "u64 option"
  cl_current_size :: u64
  cl_current_file :: "(path \<times> path) option"
  cl_next_sequence :: u64

record AppendReservation =
  ar_path :: path
  ar_offset :: u64
  ar_flush_after_write :: bool

definition ChunkedWorkerLog_new :: "WorkerLogLayout \<Rightarrow> WorkerLogTail \<Rightarrow> ChunkedWorkerLog" where
  "ChunkedWorkerLog_new L t =
     \<lparr>cl_layout = L, cl_current_sequence = wt_current_sequence t, cl_current_size = wt_current_size t,
      cl_current_file = None, cl_next_sequence = wt_next_sequence t\<rparr>"

definition reserve_append :: "u64 \<Rightarrow> ChunkedWorkerLog \<Rightarrow> (AppendReservation \<times> ChunkedWorkerLog) rs" where
  "reserve_append payload_len s =
     (let L = cl_layout s in
      if payload_len = 0 then
        Inr (\<lparr>ar_path = chunk_path L (case cl_current_sequence s of None \<Rightarrow> cl_next_sequence s | Some q \<Rightarrow> q),
              ar_offset = cl_current_size s, ar_flush_after_write = False\<rparr>, s)
      else if payload_len > wl_chunk_size L then
        bind_rs (id_add (cl_next_sequence s) 1) (\<lambda>next_seq.
        Inr (\<lparr>ar_path = chunk_path L (cl_next_sequence s), ar_offset = 0, ar_flush_after_write = True\<rparr>,
             s\<lparr>cl_next_sequence := next_seq, cl_current_sequence := None, cl_current_size := 0\<rparr>))
      else
      bind_rs (if cl_current_sequence s = None then Inr True
               else bind_rs (id_add (cl_current_size s) payload_len) (\<lambda>size. Inr (size > wl_chunk_size L))) (\<lambda>fresh.
      bind_rs (if fresh
               then bind_rs (id_add (cl_next_sequence s) 1) (\<lambda>next_seq.
                      Inr (s\<lparr>cl_current_sequence := Some (cl_next_sequence s), cl_current_size := 0, cl_next_sequence := next_seq\<rparr>))
               else Inr s) (\<lambda>s1.
      bind_rs (ok_or (cl_current_sequence s1) Panic) (\<lambda>sequence.
      let offset = cl_current_size s1 in
      bind_rs (id_add (cl_current_size s1) payload_len) (\<lambda>size.
      let s2 = s1\<lparr>cl_current_size := size\<rparr>;
          s3 = (if cl_current_size s2 \<ge> wl_chunk_size L
                then s2\<lparr>cl_current_sequence := None, cl_current_size := 0\<rparr> else s2) in
      Inr (\<lparr>ar_path = chunk_path L sequence, ar_offset = offset, ar_flush_after_write = False\<rparr>, s3))))))"

definition current_path :: "ChunkedWorkerLog \<Rightarrow> path option" where
  "current_path s = map_option (chunk_path (cl_layout s)) (cl_current_sequence s)"

definition take_current_file :: "path \<Rightarrow> ChunkedWorkerLog \<Rightarrow> path option \<times> ChunkedWorkerLog" where
  "take_current_file p s =
     (case cl_current_file s of
        None \<Rightarrow> (None, s)
      | Some (cached_path, file) \<Rightarrow>
          if cached_path = p then (Some file, s\<lparr>cl_current_file := None\<rparr>)
          else (None, s\<lparr>cl_current_file := Some (cached_path, file)\<rparr>))"

definition store_current_file :: "path \<Rightarrow> path \<Rightarrow> ChunkedWorkerLog \<Rightarrow> path option \<times> ChunkedWorkerLog" where
  "store_current_file p file s =
     (case current_path s of
        None \<Rightarrow> (Some file, s)
      | Some cur \<Rightarrow>
          if cur \<noteq> p then (Some file, s)
          else (map_option snd (cl_current_file s), s\<lparr>cl_current_file := Some (p, file)\<rparr>))"

fun reserve_appends :: "byte list list \<Rightarrow> ChunkedWorkerLog \<Rightarrow> (AppendReservation list \<times> ChunkedWorkerLog) rs" where
  "reserve_appends [] s = Inr ([], s)"
| "reserve_appends (frame # frames) s =
     bind_rs (reserve_append (of_nat (length frame)) s) (\<lambda>(r, s').
     bind_rs (reserve_appends frames s') (\<lambda>(rs, s''). Inr (r # rs, s'')))"

end
