(* ===== verification/Wal_Flush.thy ===== *)
theory Wal_Flush
  imports Wal_Layout
begin

text \<open>
  The write path of a worker log: \<open>wal/worker_wal_backend/backend.rs\<close>, \<open>file_cache.rs\<close> and the
  group-commit queue of \<open>flush.rs\<close>.  The state of \<open>WorkerLogInner\<close> is passed explicitly; mutexes
  are never poisoned.  The operating system is part of the state: \<open>os_files\<close> is what a read sees,
  \<open>os_durable\<close> is what a power loss leaves, and \<open>fsync\<close> copies a file from the first to the second.
  The argument \<open>F\<close> says which I/O calls fail, by their number, with which error and after how many
  bytes.  A flush round runs to its end; the polling of its future is not part of the model.  The
  ways of writing a batch (ring, direct and asynchronous file writes) and of syncing it differ in how
  the calls are issued, not in what they do to the files, and are modelled once.
\<close>

section \<open>The durability watermark\<close>

text \<open>The binary heap of \<open>WaitLsn\<close> is its ascending list of elements; \<open>wait_notified\<close> counts the
  calls of \<open>notify_waiters\<close>.\<close>

record WaitLsn =
  next_wait_lsn :: u64
  ready_lsns :: "u64 list"
  wait_notified :: nat

definition heap_push :: "u64 \<Rightarrow> u64 list \<Rightarrow> u64 list" where
  "heap_push = insort"

definition WaitLsn_new :: "LSN \<Rightarrow> LSN list \<Rightarrow> WaitLsn" where
  "WaitLsn_new lsn lsns = \<lparr>next_wait_lsn = lsn, ready_lsns = fold heap_push lsns [], wait_notified = 0\<rparr>"

fun ready_loop :: "u64 list \<Rightarrow> u64 \<Rightarrow> bool \<Rightarrow> u64 list \<times> u64 \<times> bool" where
  "ready_loop [] next advanced = ([], next, advanced)"
| "ready_loop (lsn # heap) next advanced =
     (if lsn < next then ready_loop heap next advanced
      else if lsn \<noteq> next then (lsn # heap, next, advanced)
      else ready_loop heap (saturating_add next 1) True)"

definition ready :: "LSN list \<Rightarrow> WaitLsn \<Rightarrow> WaitLsn" where
  "ready lsns w =
     (if lsns = [] then w
      else
      let heap = fold heap_push lsns (ready_lsns w);
          (heap', next, advanced) = ready_loop heap (next_wait_lsn w) False in
      if \<not> advanced then w\<lparr>ready_lsns := heap'\<rparr>
      else w\<lparr>ready_lsns := heap', next_wait_lsn := next, wait_notified := Suc (wait_notified w)\<rparr>)"

text \<open>The condition on which \<open>wait_advanced\<close> returns.\<close>

definition wait_over :: "WaitLsn \<Rightarrow> LSN \<Rightarrow> bool" where
  "wait_over w target \<longleftrightarrow> next_wait_lsn w > target"

section \<open>State\<close>

record QueuedLogBatch =
  qb_frames :: "byte list list"
  qb_lsns :: "LSN list"
  qb_bytes :: nat
  qb_enqueued_at :: nat
  qb_force_flush :: bool

record MergedWrite =
  mw_path :: path
  mw_offset :: u64
  mw_payload :: "byte list"

record PreparedFlushBatch =
  pf_writes :: "MergedWrite list"
  pf_flush_paths :: "path list"
  pf_ready_lsns :: "LSN list"

record EffectiveBatching =
  eb_trigger_bytes :: nat
  eb_trigger_frames :: nat
  eb_max_wait :: nat
  eb_max_batch_bytes :: nat

record os =
  os_files :: disk
  os_durable :: disk
  os_now :: nat
  os_calls :: nat

type_synonym faults = "nat \<Rightarrow> (fault \<times> nat) option"

record WorkerLogInner =
  wi_log_queue :: "QueuedLogBatch list"
  wi_batching :: WorkerLogBatching
  wi_active_sessions :: nat
  wi_next_lsn :: u64
  wi_flush_waiter :: WaitLsn
  wi_flush_rounds :: nat
  wi_sync_policy :: WalSyncPolicy
  wi_last_fsync :: nat
  wi_unsynced_paths :: "path list"
  wi_state :: ChunkedWorkerLog
  wi_os :: os

type_synonym 'a wal = "(WorkerLogInner, 'a) se"

definition from_tail :: "WorkerLogLayout \<Rightarrow> WorkerLogTail \<Rightarrow> os \<Rightarrow> WorkerLogInner" where
  "from_tail L t w =
     \<lparr>wi_log_queue = [], wi_batching = wl_batching L, wi_active_sessions = 0, wi_next_lsn = wt_next_lsn t,
      wi_flush_waiter = WaitLsn_new (wt_next_lsn t) [], wi_flush_rounds = 0, wi_sync_policy = wl_sync_policy L,
      wi_last_fsync = os_now w, wi_unsynced_paths = [], wi_state = ChunkedWorkerLog_new L t, wi_os = w\<rparr>"

text \<open>Opening scans the chunk files and cuts torn tails; the cut is synced.\<close>

definition backend_new :: "ext \<Rightarrow> WorkerLogLayout \<Rightarrow> os \<Rightarrow> WorkerLogInner rs" where
  "backend_new X L w =
     bind_rs (scan_tail_async X L (os_files w)) (\<lambda>(t, d).
     Inr (from_tail L t (w\<lparr>os_files := d, os_durable := d\<rparr>)))"

definition last_allocated_lsn :: "WorkerLogInner \<Rightarrow> LSN" where
  "last_allocated_lsn s = saturating_sub (wi_next_lsn s) 1"

definition periodic_fsync_interval :: "WorkerLogInner \<Rightarrow> nat option" where
  "periodic_fsync_interval s = (case wi_sync_policy s of Periodic interval \<Rightarrow> Some interval | Commit \<Rightarrow> None)"

section \<open>System calls\<close>

definition sys_call :: "faults \<Rightarrow> (nat \<Rightarrow> os \<Rightarrow> os) \<Rightarrow> (os \<Rightarrow> os) \<Rightarrow> unit wal" where
  "sys_call F on_fail on_ok s =
     (let w = wi_os s; w' = w\<lparr>os_calls := Suc (os_calls w)\<rparr> in
      case F (os_calls w) of
        None \<Rightarrow> (Inr (), s\<lparr>wi_os := on_ok w'\<rparr>)
      | Some (e, n) \<Rightarrow> (Inl e, s\<lparr>wi_os := on_fail n w'\<rparr>))"

definition file_write :: "nat \<Rightarrow> byte list \<Rightarrow> byte list \<Rightarrow> byte list" where
  "file_write off bs file =
     take off (file @ replicate (off - length file) 0) @ bs @ drop (off + length bs) file"

definition disk_write :: "path \<Rightarrow> nat \<Rightarrow> byte list \<Rightarrow> disk \<Rightarrow> disk" where
  "disk_write p off bs d =
     (case map_of d p of None \<Rightarrow> d | Some file \<Rightarrow> AList.update p (file_write off bs file) d)"

definition disk_create :: "path \<Rightarrow> disk \<Rightarrow> disk" where
  "disk_create p d = (if map_of d p = None then AList.update p [] d else d)"

definition disk_sync :: "path \<Rightarrow> disk \<Rightarrow> disk \<Rightarrow> disk" where
  "disk_sync p d durable = (case map_of d p of None \<Rightarrow> durable | Some file \<Rightarrow> AList.update p file durable)"

definition open_async :: "faults \<Rightarrow> path \<Rightarrow> path wal" where
  "open_async F p =
     bind_se (sys_call F (\<lambda>_ w. w) (\<lambda>w. w\<lparr>os_files := disk_create p (os_files w)\<rparr>)) (\<lambda>_. return_se p)"

definition write_all_at :: "faults \<Rightarrow> path \<Rightarrow> u64 \<Rightarrow> byte list \<Rightarrow> unit wal" where
  "write_all_at F file off bs =
     sys_call F (\<lambda>n w. w\<lparr>os_files := disk_write file (unat off) (take n bs) (os_files w)\<rparr>)
       (\<lambda>w. w\<lparr>os_files := disk_write file (unat off) bs (os_files w)\<rparr>)"

definition fsync :: "faults \<Rightarrow> path \<Rightarrow> unit wal" where
  "fsync F file = sys_call F (\<lambda>_ w. w) (\<lambda>w. w\<lparr>os_durable := disk_sync file (os_files w) (os_durable w)\<rparr>)"

definition close :: "faults \<Rightarrow> path \<Rightarrow> unit wal" where
  "close F file = sys_call F (\<lambda>_ w. w) (\<lambda>w. w)"

section \<open>The file cache\<close>

definition take_cached_file :: "path \<Rightarrow> path option wal" where
  "take_cached_file p s = (let (f, st) = take_current_file p (wi_state s) in (Inr f, s\<lparr>wi_state := st\<rparr>))"

definition put_cached_file :: "path \<Rightarrow> path \<Rightarrow> path option wal" where
  "put_cached_file p file s = (let (f, st) = store_current_file p file (wi_state s) in (Inr f, s\<lparr>wi_state := st\<rparr>))"

definition take_or_open_file :: "faults \<Rightarrow> path \<Rightarrow> path wal" where
  "take_or_open_file F p =
     bind_se (take_cached_file p) (\<lambda>f. case f of Some file \<Rightarrow> return_se file | None \<Rightarrow> open_async F p)"

definition release_file :: "faults \<Rightarrow> path \<Rightarrow> path \<Rightarrow> unit wal" where
  "release_file F p file =
     bind_se (put_cached_file p file) (\<lambda>f. case f of Some file \<Rightarrow> close F file | None \<Rightarrow> return_se ())"

text \<open>\<open>try_se m k\<close> runs \<open>m\<close> and hands its outcome, error or not, to \<open>k\<close>.\<close>

definition try_se :: "('s, 'a) se \<Rightarrow> ('a rs \<Rightarrow> ('s, 'b) se) \<Rightarrow> ('s, 'b) se" where
  "try_se m k s = (let (r, t) = m s in k r t)"

definition flush_path :: "faults \<Rightarrow> path \<Rightarrow> unit wal" where
  "flush_path F p =
     bind_se (take_or_open_file F p) (\<lambda>file.
     try_se (fsync F file) (\<lambda>flush_result.
     try_se (release_file F p file) (\<lambda>close_result.
     bind_se (lift_se flush_result) (\<lambda>_. lift_se close_result))))"

definition backend_flush :: "faults \<Rightarrow> unit wal" where
  "backend_flush F s =
     (case current_path (wi_state s) of None \<Rightarrow> (Inr (), s) | Some p \<Rightarrow> flush_path F p s)"

section \<open>Direct appends\<close>

definition append_reserved :: "faults \<Rightarrow> AppendReservation \<Rightarrow> byte list \<Rightarrow> unit wal" where
  "append_reserved F r payload =
     bind_se (take_or_open_file F (ar_path r)) (\<lambda>file.
     try_se (write_all_at F file (ar_offset r) payload) (\<lambda>write_result.
     try_se (if ar_flush_after_write r then fsync F file else return_se ()) (\<lambda>flush_result.
     try_se (release_file F (ar_path r) file) (\<lambda>close_result.
     bind_se (lift_se write_result) (\<lambda>_.
     bind_se (lift_se flush_result) (\<lambda>_. lift_se close_result))))))"

definition reserve :: "u64 \<Rightarrow> AppendReservation wal" where
  "reserve len s =
     (case reserve_append len (wi_state s) of
        Inl e \<Rightarrow> (Inl e, s) | Inr (r, st) \<Rightarrow> (Inr r, s\<lparr>wi_state := st\<rparr>))"

definition append_raw :: "faults \<Rightarrow> byte list \<Rightarrow> unit wal" where
  "append_raw F payload =
     (if payload = [] then return_se ()
      else bind_se (reserve (of_nat (length payload))) (\<lambda>r. append_reserved F r payload))"

definition complete_persisted_lsns :: "LSN list \<Rightarrow> unit wal" where
  "complete_persisted_lsns lsns =
     (if lsns = [] then return_se () else write_se (\<lambda>s. s\<lparr>wi_flush_waiter := ready lsns (wi_flush_waiter s)\<rparr>))"

definition append_frames :: "ext \<Rightarrow> faults \<Rightarrow> byte list list \<Rightarrow> unit wal" where
  "append_frames X F frames =
     bind_se (lift_se (frame_lsns X frames)) (\<lambda>lsns.
     try_se (fold_se (append_raw F) frames) (\<lambda>write_result.
     bind_se (complete_persisted_lsns lsns) (\<lambda>_. lift_se write_result)))"

definition backend_serialize_entry :: "ext \<Rightarrow> 'l entry_codec \<Rightarrow> 'l \<Rightarrow> byte list list wal" where
  "backend_serialize_entry X C entry s =
     (let (r, lsn) = serialize_entry X C entry (frame_size_limit (cl_layout (wi_state s))) (wi_next_lsn s) in
      (r, s\<lparr>wi_next_lsn := lsn\<rparr>))"

section \<open>Batching\<close>

definition sat :: "nat \<Rightarrow> nat" where "sat n = min n (2 ^ 64 - 1)"

definition effective_batching :: "WorkerLogInner \<Rightarrow> EffectiveBatching" where
  "effective_batching s =
     (let cfg = wi_batching s in
      case wi_sync_policy s of
        Periodic _ \<Rightarrow>
          \<lparr>eb_trigger_bytes = wb_trigger_bytes cfg, eb_trigger_frames = wb_trigger_frames cfg, eb_max_wait = 0,
           eb_max_batch_bytes = max (wb_max_batch_bytes cfg) (wb_trigger_bytes cfg)\<rparr>
      | Commit \<Rightarrow>
          let steps = wi_active_sessions s div wb_sessions_per_step cfg;
              trigger_bytes = min (sat (wb_trigger_bytes cfg + sat (steps * wb_bytes_per_step cfg)))
                (max (wb_max_trigger_bytes cfg) (wb_trigger_bytes cfg));
              trigger_frames = min (sat (wb_trigger_frames cfg + sat (steps * wb_frames_per_step cfg)))
                (max (wb_max_trigger_frames cfg) (wb_trigger_frames cfg));
              max_wait = max (min (wb_max_wait cfg * 2 ^ (min steps 6 - (if steps > 0 then 1 else 0))) 5000000)
                (wb_max_wait cfg) in
          \<lparr>eb_trigger_bytes = trigger_bytes, eb_trigger_frames = trigger_frames, eb_max_wait = max_wait,
           eb_max_batch_bytes = max (wb_max_batch_bytes cfg) trigger_bytes\<rparr>)"

definition should_start_flush :: "nat \<Rightarrow> QueuedLogBatch list \<Rightarrow> EffectiveBatching \<Rightarrow> bool" where
  "should_start_flush now queue b \<longleftrightarrow>
     queue \<noteq> [] \<and>
     (sum_list (map qb_bytes queue) \<ge> eb_trigger_bytes b \<or>
      sum_list (map (\<lambda>q. length (qb_frames q)) queue) \<ge> eb_trigger_frames b \<or>
      (\<exists>q \<in> set queue. qb_force_flush q \<or> now - qb_enqueued_at q \<ge> eb_max_wait b))"

text \<open>\<open>slots\<close> says which flush-task slots are taken.\<close>

definition is_flush_idle :: "bool list \<Rightarrow> WorkerLogInner \<Rightarrow> bool" where
  "is_flush_idle slots s \<longleftrightarrow> True \<notin> set slots \<and> wi_log_queue s = []"

definition next_flush_deadline :: "bool list \<Rightarrow> WorkerLogInner \<Rightarrow> nat option" where
  "next_flush_deadline slots s =
     (if False \<notin> set slots then None
      else if wi_log_queue s = [] then None
      else
      let b = effective_batching s in
      if should_start_flush (os_now (wi_os s)) (wi_log_queue s) b then Some (os_now (wi_os s))
      else Some (Min (set (map qb_enqueued_at (wi_log_queue s))) + eb_max_wait b))"

definition next_periodic_fsync_deadline :: "bool \<Rightarrow> WorkerLogInner \<Rightarrow> nat option" where
  "next_periodic_fsync_deadline fsync_task_active s =
     (case wi_sync_policy s of
        Commit \<Rightarrow> None
      | Periodic interval \<Rightarrow>
          if fsync_task_active then None
          else if wi_unsynced_paths s = [] then None
          else Some (wi_last_fsync s + interval))"

definition has_pending_periodic_fsync :: "WorkerLogInner \<Rightarrow> bool" where
  "has_pending_periodic_fsync s \<longleftrightarrow> wi_sync_policy s \<noteq> Commit \<and> wi_unsynced_paths s \<noteq> []"

definition flush_idle_interval :: "WorkerLogInner \<Rightarrow> nat" where
  "flush_idle_interval s =
     (let max_wait = eb_max_wait (effective_batching s) in if max_wait = 0 then 200000 else max_wait)"

section \<open>The periodic fsync\<close>

definition fsync_single_path :: "faults \<Rightarrow> path \<Rightarrow> unit wal" where
  "fsync_single_path F p =
     bind_se (take_or_open_file F p) (\<lambda>file.
     try_se (fsync F file) (\<lambda>fsync_result.
     try_se (release_file F p file) (\<lambda>release_result.
     bind_se (lift_se fsync_result) (\<lambda>_. lift_se release_result))))"

text \<open>The loop returns how many paths were synced before the first error.\<close>

fun fsync_loop :: "faults \<Rightarrow> path list \<Rightarrow> nat \<Rightarrow> (nat \<times> unit rs) wal" where
  "fsync_loop F [] fsynced = return_se (fsynced, Inr ())"
| "fsync_loop F (p # ps) fsynced =
     try_se (fsync_single_path F p) (\<lambda>r.
       case r of Inl e \<Rightarrow> return_se (fsynced, Inl e) | Inr _ \<Rightarrow> fsync_loop F ps (Suc fsynced))"

definition track_paths :: "path list \<Rightarrow> unit wal" where
  "track_paths ps = write_se (\<lambda>s. s\<lparr>wi_unsynced_paths := fold List.insert ps (wi_unsynced_paths s)\<rparr>)"

definition fsync_unsynced_paths :: "faults \<Rightarrow> unit wal" where
  "fsync_unsynced_paths F s =
     (let paths = wi_unsynced_paths s in
      bind_se (write_se (\<lambda>s. s\<lparr>wi_unsynced_paths := []\<rparr>)) (\<lambda>_.
      if paths = [] then return_se ()
      else
      bind_se (fsync_loop F paths 0) (\<lambda>(fsynced, result).
      bind_se (if is_ok result then return_se () else track_paths (drop fsynced paths)) (\<lambda>_.
      bind_se (lift_se result) (\<lambda>_.
      write_se (\<lambda>s. s\<lparr>wi_last_fsync := os_now (wi_os s)\<rparr>))))) s)"

definition maybe_periodic_fsync :: "faults \<Rightarrow> unit wal" where
  "maybe_periodic_fsync F s =
     (case wi_sync_policy s of
        Commit \<Rightarrow> (Inr (), s)
      | Periodic interval \<Rightarrow>
          if os_now (wi_os s) - wi_last_fsync s < interval then (Inr (), s) else fsync_unsynced_paths F s)"

section \<open>Flush rounds\<close>

definition enqueue_group_commit :: "byte list list \<Rightarrow> LSN list \<Rightarrow> bool \<Rightarrow> LSN wal" where
  "enqueue_group_commit frames lsns force_flush =
     bind_se (lift_se (ensure (frames \<noteq> []) (EC Internal))) (\<lambda>_.
     bind_se (lift_se (ensure (length frames = length lsns) (EC Internal))) (\<lambda>_.
     bind_se (write_se (\<lambda>s. s\<lparr>wi_log_queue := wi_log_queue s @
       [\<lparr>qb_frames = frames, qb_lsns = lsns, qb_bytes = sum_list (map length frames),
         qb_enqueued_at = os_now (wi_os s), qb_force_flush = force_flush\<rparr>]\<rparr>)) (\<lambda>_.
     return_se (last lsns))))"

fun drain_split :: "nat \<Rightarrow> QueuedLogBatch list \<Rightarrow> nat \<Rightarrow> nat \<Rightarrow> nat" where
  "drain_split max_batch_bytes [] total_bytes split_at = split_at"
| "drain_split max_batch_bytes (b # bs) total_bytes split_at =
     (if split_at > 0 \<and> sat (total_bytes + qb_bytes b) > max_batch_bytes then split_at
      else drain_split max_batch_bytes bs (sat (total_bytes + qb_bytes b)) (Suc split_at))"

definition drain_pending_batches :: "EffectiveBatching \<Rightarrow> QueuedLogBatch list wal" where
  "drain_pending_batches b s =
     (if wi_log_queue s = [] then (Inr [], s)
      else
      let k = max 1 (drain_split (eb_max_batch_bytes b) (wi_log_queue s) 0 0) in
      (Inr (take k (wi_log_queue s)), s\<lparr>wi_log_queue := drop k (wi_log_queue s)\<rparr>))"

text \<open>\<open>merged\<close> is kept with its last write first.\<close>

fun merge_loop :: "(AppendReservation \<times> byte list) list \<Rightarrow> MergedWrite list \<Rightarrow> MergedWrite list rs" where
  "merge_loop [] merged = Inr (rev merged)"
| "merge_loop ((r, frame) # rest) [] =
     merge_loop rest [\<lparr>mw_path = ar_path r, mw_offset = ar_offset r, mw_payload = frame\<rparr>]"
| "merge_loop ((r, frame) # rest) (m # ms) =
     (if mw_path m = ar_path r then
        bind_rs (id_add (mw_offset m) (of_nat (length (mw_payload m)))) (\<lambda>end_offset.
        if end_offset = ar_offset r
        then merge_loop rest (m\<lparr>mw_payload := mw_payload m @ frame\<rparr> # ms)
        else merge_loop rest (\<lparr>mw_path = ar_path r, mw_offset = ar_offset r, mw_payload = frame\<rparr> # m # ms))
      else merge_loop rest (\<lparr>mw_path = ar_path r, mw_offset = ar_offset r, mw_payload = frame\<rparr> # m # ms))"

definition merge_reserved_writes :: "AppendReservation list \<Rightarrow> byte list list \<Rightarrow> MergedWrite list rs" where
  "merge_reserved_writes reservations payload = merge_loop (zip reservations payload) []"

fun flush_paths_loop :: "AppendReservation list \<Rightarrow> path list \<Rightarrow> path list" where
  "flush_paths_loop [] seen = seen"
| "flush_paths_loop (r # rs) seen =
     flush_paths_loop rs (if ar_path r \<in> set seen then seen else seen @ [ar_path r])"

definition collect_flush_paths :: "AppendReservation list \<Rightarrow> path list" where
  "collect_flush_paths reservations = flush_paths_loop reservations []"

definition prepare_flush_batch :: "QueuedLogBatch list \<Rightarrow> PreparedFlushBatch wal" where
  "prepare_flush_batch pending s =
     (let frames = concat (map qb_frames pending);
          lsns = concat (map qb_lsns pending) in
      case reserve_appends frames (wi_state s) of
        Inl e \<Rightarrow> (Inl e, s)
      | Inr (reservations, st) \<Rightarrow>
          (bind_rs (merge_reserved_writes reservations frames) (\<lambda>writes.
             Inr \<lparr>pf_writes = writes, pf_flush_paths = collect_flush_paths reservations, pf_ready_lsns = lsns\<rparr>),
           s\<lparr>wi_state := st\<rparr>))"

text \<open>The open files of a round: paths with the handle held for each.\<close>

definition checkout_flush_file :: "faults \<Rightarrow> path \<Rightarrow> (path \<times> path) list \<Rightarrow> (path \<times> (path \<times> path) list) wal" where
  "checkout_flush_file F p open_files =
     (case map_of open_files p of
        Some file \<Rightarrow> return_se (file, AList.delete p open_files)
      | None \<Rightarrow> bind_se (take_or_open_file F p) (\<lambda>file. return_se (file, open_files)))"

fun release_flush_open_files :: "faults \<Rightarrow> (path \<times> path) list \<Rightarrow> unit wal" where
  "release_flush_open_files F [] = return_se ()"
| "release_flush_open_files F ((p, file) # rest) =
     bind_se (release_file F p file) (\<lambda>_. release_flush_open_files F rest)"

fun write_loop :: "faults \<Rightarrow> MergedWrite list \<Rightarrow> (path \<times> path) list \<Rightarrow> (path \<times> path) list wal" where
  "write_loop F [] open_files = return_se open_files"
| "write_loop F (m # ms) open_files =
     bind_se (checkout_flush_file F (mw_path m) open_files) (\<lambda>(file, open_files').
     bind_se (write_all_at F file (mw_offset m) (mw_payload m)) (\<lambda>_.
     write_loop F ms (AList.update (mw_path m) file open_files')))"

fun fsync_paths :: "faults \<Rightarrow> LSN list \<Rightarrow> path list \<Rightarrow> (path \<times> path) list \<Rightarrow> (path \<times> path) list wal" where
  "fsync_paths F lsns [] open_files = return_se open_files"
| "fsync_paths F lsns (p # ps) open_files =
     bind_se (checkout_flush_file F p open_files) (\<lambda>(file, open_files').
     let flushed_lsns = (if ps = [] then lsns else []) in
     bind_se (fsync F file) (\<lambda>_.
     bind_se (if flushed_lsns = [] then return_se () else complete_persisted_lsns flushed_lsns) (\<lambda>_.
     fsync_paths F lsns ps (AList.update p file open_files'))))"

definition execute_flush_batch ::
    "faults \<Rightarrow> PreparedFlushBatch \<Rightarrow> (path \<times> path) list \<Rightarrow> (path \<times> path) list wal" where
  "execute_flush_batch F prepared open_files s =
     (if pf_writes prepared = [] then return_se open_files
      else
      bind_se (write_loop F (pf_writes prepared) open_files) (\<lambda>open_files'.
      if wi_sync_policy s \<noteq> Commit then
        bind_se (complete_persisted_lsns (pf_ready_lsns prepared)) (\<lambda>_.
        bind_se (track_paths (pf_flush_paths prepared)) (\<lambda>_. return_se open_files'))
      else fsync_paths F (pf_ready_lsns prepared) (pf_flush_paths prepared) open_files')) s"

text \<open>Every round takes at least one batch off the queue, so the loop needs one iteration more than
  the queue has batches.\<close>

fun flush_loop :: "faults \<Rightarrow> nat \<Rightarrow> (path \<times> path) list \<Rightarrow> unit wal" where
  "flush_loop F 0 open_files = fail_se Diverge"
| "flush_loop F (Suc fuel) open_files = (\<lambda>s.
     bind_se (drain_pending_batches (effective_batching s)) (\<lambda>pending.
     if pending = [] then release_flush_open_files F open_files
     else
     bind_se (prepare_flush_batch pending) (\<lambda>prepared.
     bind_se (execute_flush_batch F prepared open_files) (\<lambda>open_files'.
     bind_se (write_se (\<lambda>s. s\<lparr>wi_flush_rounds := Suc (wi_flush_rounds s)\<rparr>)) (\<lambda>_.
     flush_loop F fuel open_files')))) s)"

definition run_flush_log :: "faults \<Rightarrow> unit wal" where
  "run_flush_log F s = flush_loop F (Suc (length (wi_log_queue s))) [] s"

definition flush_pending_batches :: "faults \<Rightarrow> unit wal" where
  "flush_pending_batches F s =
     (if wi_log_queue s \<noteq> [] \<and> should_start_flush (os_now (wi_os s)) (wi_log_queue s) (effective_batching s)
      then run_flush_log F s else (Inr (), s))"

text \<open>A group commit of a task that drives the flush itself.  \<open>wait_advanced\<close> returns once the
  watermark is past the last LSN of the entry; here no other task is left to advance it.\<close>

definition append_group_commit :: "faults \<Rightarrow> byte list list \<Rightarrow> LSN list \<Rightarrow> bool \<Rightarrow> unit wal" where
  "append_group_commit F frames lsns force_flush =
     (if frames = [] then return_se ()
      else
      bind_se (enqueue_group_commit frames lsns force_flush) (\<lambda>last_lsn.
      bind_se (run_flush_log F) (\<lambda>_.
      read_se (\<lambda>s. ensure (wait_over (wi_flush_waiter s) last_lsn) Diverge))))"

definition append_entry_group_commit :: "ext \<Rightarrow> 'l entry_codec \<Rightarrow> faults \<Rightarrow> 'l \<Rightarrow> unit wal" where
  "append_entry_group_commit X C F entry =
     bind_se (backend_serialize_entry X C entry) (\<lambda>frames.
     bind_se (lift_se (frame_lsns X frames)) (\<lambda>lsns.
     append_group_commit F frames lsns True))"

section \<open>Recovery from the chunk files\<close>

text \<open>\<open>TypedWorkerLog::recover\<close>, with the chunk files read from a disk.\<close>

definition typed_recover ::
    "ext \<Rightarrow> 'l entry_codec \<Rightarrow> WorkerLogLayout \<Rightarrow> disk \<Rightarrow> ('l \<Rightarrow> LSN \<Rightarrow> ('s, unit) se) \<Rightarrow> ('s, unit) se \<Rightarrow> ('s, unit) se" where
  "typed_recover X C L d handle finish =
     bind_se (lift_se (bind_rs (chunk_paths_sorted L d) (map_rs (read_all d)))) (recover X C handle finish)"

end
