(* ===== verification/Wal_Chunks.thy ===== *)
theory Wal_Chunks
  imports Wal_Layout
begin

text \<open>
  Lemmas on the chunk files of a worker log: chunk file names and their sequence numbers, and
  the space a reservation gives out.  A log is seen as a list of chunks, each a list of
  frames; \<open>place\<close> says where the next frame goes.
\<close>

section \<open>File names\<close>

lemma digit_value_char: "d < 10 \<Longrightarrow> digit_value (digit_char d) = Some d"
  by (simp add: digit_value_def digit_char_def Let_def)

lemma parse_digits_append:
  "parse_digits (xs @ ys) acc = (case parse_digits xs acc of None \<Rightarrow> None | Some a \<Rightarrow> parse_digits ys a)"
  by (induction xs arbitrary: acc) (auto split: option.split)

lemma parse_show_nat: "parse_digits (show_nat n) 0 = Some n"
proof (induction n rule: less_induct)
  case (less n)
  show ?case
  proof (cases "n < 10")
    case True
    then show ?thesis by (simp add: show_nat.simps [of n] digit_value_char)
  next
    case False
    then have "parse_digits (show_nat (n div 10)) 0 = Some (n div 10)" using less by simp
    then show ?thesis
      using False by (simp add: show_nat.simps [of n] parse_digits_append digit_value_char)
  qed
qed

lemma show_nat_digits: "c \<in> set (show_nat n) \<Longrightarrow> digit_value c \<noteq> None"
proof (induction n rule: less_induct)
  case (less n)
  show ?case
  proof (cases "n < 10")
    case True
    then show ?thesis using less.prems by (simp add: show_nat.simps [of n] digit_value_char)
  next
    case False
    then show ?thesis
      using less.prems less.IH [of "n div 10"] by (auto simp: show_nat.simps [of n] digit_value_char)
  qed
qed

lemma show_nat_nonempty: "show_nat n \<noteq> []"
  by (simp add: show_nat.simps [of n])

lemma parse_u64_show: "parse_u64 (show_nat (unat q)) = Some q"
proof -
  obtain c cs where s: "show_nat (unat q) = c # cs" using show_nat_nonempty by (cases "show_nat (unat q)") auto
  have "digit_value c \<noteq> None" using show_nat_digits [of c "unat q"] s by simp
  then have "c \<noteq> CHR ''+''" by (auto simp: digit_value_def Let_def)
  then show ?thesis using parse_show_nat [of "unat q"] unat_u64_bound [of q] s
    by (simp add: parse_u64_def del: unat_u64_bound)
qed

lemma parse_chunk_path: "parse_chunk_sequence L (chunk_path L q) = Inr (Some q)"
  using parse_u64_show [of q]
  by (simp add: parse_chunk_sequence_def chunk_path_def starts_with_def ends_with_def Let_def)

lemma chunk_path_inject [simp]: "chunk_path L q = chunk_path L r \<longleftrightarrow> q = r"
  by (metis Inr_inject option.inject parse_chunk_path)

lemma fst_chunk_path [simp]: "fst (chunk_path L q) = wl_log_dir L"
  by (simp add: chunk_path_def)

section \<open>Chunks\<close>

abbreviation frames_len :: "byte list list \<Rightarrow> nat" where
  "frames_len fs \<equiv> length (concat fs)"

definition place :: "nat \<Rightarrow> byte list \<Rightarrow> byte list list list \<Rightarrow> byte list list list" where
  "place n f fcs =
     (if fcs \<noteq> [] \<and> frames_len (last fcs) + length f \<le> n
      then butlast fcs @ [last fcs @ [f]] else fcs @ [[f]])"

lemma place_nonempty [simp]: "place n f fcs \<noteq> []"
  by (simp add: place_def)

lemma concat_place [simp]: "concat (place n f fcs) = concat fcs @ [f]"
  by (cases fcs rule: rev_cases) (auto simp: place_def)

lemma length_place: "length fcs \<le> length (place n f fcs)" "length (place n f fcs) \<le> Suc (length fcs)"
  by (cases fcs rule: rev_cases; auto simp: place_def)+

definition places :: "nat \<Rightarrow> byte list list \<Rightarrow> byte list list list \<Rightarrow> byte list list list" where
  "places n fs fcs = fold (place n) fs fcs"

lemma places_simps [simp]:
  "places n [] fcs = fcs" "places n (f # fs) fcs = places n fs (place n f fcs)"
  "places n (fs @ gs) fcs = places n gs (places n fs fcs)"
  by (simp_all add: places_def)

lemma concat_places [simp]: "concat (places n fs fcs) = concat fcs @ fs"
  by (induction fs arbitrary: fcs) simp_all

lemma length_places: "length (places n fs fcs) \<le> length fcs + length fs"
proof (induction fs arbitrary: fcs)
  case (Cons f fs)
  have "length (places n fs (place n f fcs)) \<le> length (place n f fcs) + length fs" by (rule Cons.IH)
  then show ?case using length_place(2) [of n f fcs] by simp
qed simp

text \<open>A chunk is open when there is room for more in it.\<close>

definition open_chunk :: "nat \<Rightarrow> byte list list list \<Rightarrow> bool" where
  "open_chunk n fcs \<longleftrightarrow> fcs \<noteq> [] \<and> frames_len (last fcs) < n"

definition log_state :: "ChunkedWorkerLog \<Rightarrow> byte list list list \<Rightarrow> bool" where
  "log_state s fcs \<longleftrightarrow>
     unat (cl_next_sequence s) = length fcs \<and>
     (if open_chunk (unat (wl_chunk_size (cl_layout s))) fcs
      then cl_current_sequence s = Some (of_nat (length fcs - 1)) \<and> unat (cl_current_size s) = frames_len (last fcs)
      else cl_current_sequence s = None \<and> cl_current_size s = 0)"

text \<open>Where a placed frame starts.\<close>

definition slot_path :: "WorkerLogLayout \<Rightarrow> byte list list list \<Rightarrow> path" where
  "slot_path L fcs = chunk_path L (of_nat (length fcs - 1))"

definition slot_offset :: "byte list list list \<Rightarrow> nat" where
  "slot_offset fcs = frames_len (butlast (last fcs))"

lemma unat_u64_small: "n < 2 ^ 64 \<Longrightarrow> unat (of_nat n :: u64) = n"
  by (simp add: unat_of_nat take_bit_nat_eq_self)

lemma id_add_eq: "unat a + unat b < 2 ^ 64 \<Longrightarrow> id_add a b = Inr (a + b)"
  by (simp add: id_add_def checked_add_def)

lemma unat_add_eq: "unat (a :: u64) + unat b < 2 ^ 64 \<Longrightarrow> unat (a + b) = unat a + unat b"
  by (simp add: unat_plus_if')

lemma of_nat_unat_eq: "unat (a :: u64) = n \<Longrightarrow> of_nat n = a"
  by auto

text \<open>The two ways a frame that fits a chunk is placed.\<close>

definition filled :: "u64 \<Rightarrow> ChunkedWorkerLog \<Rightarrow> ChunkedWorkerLog" where
  "filled used s =
     (if used \<ge> wl_chunk_size (cl_layout s) then s\<lparr>cl_current_sequence := None, cl_current_size := 0\<rparr>
      else s\<lparr>cl_current_size := used\<rparr>)"

lemma reserve_append_fresh:
  assumes "len \<noteq> 0" and "\<not> len > wl_chunk_size (cl_layout s)" and "id_add (cl_next_sequence s) 1 = Inr q"
    and "cl_current_sequence s = None \<or> (\<exists>t. id_add (cl_current_size s) len = Inr t \<and> t > wl_chunk_size (cl_layout s))"
  shows "reserve_append len s =
    Inr (\<lparr>ar_path = chunk_path (cl_layout s) (cl_next_sequence s), ar_offset = 0, ar_flush_after_write = False\<rparr>,
         filled len (s\<lparr>cl_current_sequence := Some (cl_next_sequence s), cl_current_size := 0, cl_next_sequence := q\<rparr>))"
proof -
  have "id_add 0 len = Inr len" using id_add_eq [of 0 len] unat_u64_bound [of len] by simp
  then show ?thesis using assms by (cases "cl_current_sequence s") (auto simp: reserve_append_def filled_def Let_def)
qed

lemma reserve_append_room:
  assumes "len \<noteq> 0" and "\<not> len > wl_chunk_size (cl_layout s)" and "cl_current_sequence s = Some q"
    and "id_add (cl_current_size s) len = Inr t" and "\<not> t > wl_chunk_size (cl_layout s)"
  shows "reserve_append len s =
    Inr (\<lparr>ar_path = chunk_path (cl_layout s) q, ar_offset = cl_current_size s, ar_flush_after_write = False\<rparr>, filled t s)"
  using assms by (simp add: reserve_append_def filled_def Let_def)

lemma filled_simps [simp]:
  "cl_layout (filled t s) = cl_layout s" "cl_current_file (filled t s) = cl_current_file s"
  "cl_next_sequence (filled t s) = cl_next_sequence s"
  by (simp_all add: filled_def)

lemma log_state_filled:
  assumes "fcs \<noteq> []" and "unat t = frames_len (last fcs)" and "unat (cl_next_sequence s) = length fcs"
    and "cl_current_sequence s = Some (of_nat (length fcs - 1))"
  shows "log_state (filled t s) fcs"
  using assms by (auto simp: log_state_def filled_def open_chunk_def word_le_nat_alt)

lemma reserve_append_place:
  assumes st: "log_state s fcs" and f: "f \<noteq> []"
    and small: "length f + unat (wl_chunk_size (cl_layout s)) < 2 ^ 64" and room: "Suc (length fcs) < 2 ^ 64"
  defines "n \<equiv> unat (wl_chunk_size (cl_layout s))"
  shows "\<exists>r s'. reserve_append (of_nat (length f)) s = Inr (r, s') \<and> log_state s' (place n f fcs) \<and>
    cl_layout s' = cl_layout s \<and> cl_current_file s' = cl_current_file s \<and>
    ar_path r = slot_path (cl_layout s) (place n f fcs) \<and> unat (ar_offset r) = slot_offset (place n f fcs)"
proof -
  let ?len = "of_nat (length f) :: u64"
  have len: "unat ?len = length f" using small by (simp add: unat_u64_small)
  have pos: "?len \<noteq> 0" using f len by (metis length_0_conv unat_0)
  have nxt: "id_add (cl_next_sequence s) 1 = Inr (cl_next_sequence s + 1)"
    "unat (cl_next_sequence s + 1) = Suc (length fcs)"
    using st room by (auto simp: log_state_def id_add_eq unat_add_eq)
  have nextq: "cl_next_sequence s = of_nat (length fcs)"
    using st of_nat_unat_eq [of "cl_next_sequence s" "length fcs"] by (simp add: log_state_def)
  have big: "?len > wl_chunk_size (cl_layout s) \<longleftrightarrow> n < length f"
    by (simp add: word_less_nat_alt len n_def)
  consider (huge) "n < length f"
    | (fresh) "length f \<le> n" "\<not> (fcs \<noteq> [] \<and> frames_len (last fcs) + length f \<le> n)"
    | (room) "length f \<le> n" "fcs \<noteq> []" "frames_len (last fcs) + length f \<le> n" by linarith
  then show ?thesis
  proof cases
    case huge
    then have "place n f fcs = fcs @ [[f]]" by (simp add: place_def)
    moreover have "reserve_append ?len s =
        Inr (\<lparr>ar_path = chunk_path (cl_layout s) (cl_next_sequence s), ar_offset = 0, ar_flush_after_write = True\<rparr>,
             s\<lparr>cl_next_sequence := cl_next_sequence s + 1, cl_current_sequence := None, cl_current_size := 0\<rparr>)"
      using huge by (simp add: reserve_append_def Let_def pos nxt(1) big)
    ultimately show ?thesis using huge nextq nxt(2)
      by (simp add: log_state_def slot_path_def slot_offset_def open_chunk_def n_def)
  next
    case fresh
    then have p: "place n f fcs = fcs @ [[f]]" by (auto simp: place_def)
    have "\<exists>t. id_add (cl_current_size s) ?len = Inr t \<and> t > wl_chunk_size (cl_layout s)" if "cl_current_sequence s \<noteq> None"
    proof -
      have "fcs \<noteq> []" "unat (cl_current_size s) = frames_len (last fcs)" "frames_len (last fcs) < n"
        using that st by (auto simp: log_state_def open_chunk_def n_def split: if_splits)
      then show ?thesis
        using fresh(2) small len by (auto simp: id_add_eq unat_add_eq word_less_nat_alt n_def)
    qed
    then have alt: "cl_current_sequence s = None \<or>
        (\<exists>t. id_add (cl_current_size s) ?len = Inr t \<and> t > wl_chunk_size (cl_layout s))" by blast
    have "reserve_append ?len s = Inr (\<lparr>ar_path = chunk_path (cl_layout s) (cl_next_sequence s), ar_offset = 0,
        ar_flush_after_write = False\<rparr>, filled ?len (s\<lparr>cl_current_sequence := Some (cl_next_sequence s), cl_current_size := 0,
        cl_next_sequence := cl_next_sequence s + 1\<rparr>))"
      using fresh(1) big by (intro reserve_append_fresh [OF pos _ nxt(1) alt]) auto
    moreover have "log_state (filled ?len (s\<lparr>cl_current_sequence := Some (cl_next_sequence s), cl_current_size := 0,
        cl_next_sequence := cl_next_sequence s + 1\<rparr>)) (place n f fcs)"
      by (rule log_state_filled) (use p len nxt(2) nextq in simp_all)
    ultimately show ?thesis using p nextq by (simp add: slot_path_def slot_offset_def)
  next
    case room
    then have p: "place n f fcs = butlast fcs @ [last fcs @ [f]]" by (simp add: place_def)
    have "0 < length f" using f by simp
    then have "open_chunk n fcs" using room(2,3) unfolding open_chunk_def by linarith
    then have cur: "cl_current_sequence s = Some (of_nat (length fcs - 1))" "unat (cl_current_size s) = frames_len (last fcs)"
      using st by (simp_all add: log_state_def n_def)
    have sum: "id_add (cl_current_size s) ?len = Inr (cl_current_size s + ?len)"
      "unat (cl_current_size s + ?len) = frames_len (last fcs) + length f"
      using room small cur(2) len by (auto simp: id_add_eq unat_add_eq n_def)
    have "\<not> cl_current_size s + ?len > wl_chunk_size (cl_layout s)"
      using room by (simp add: word_less_nat_alt sum(2) n_def)
    then have "reserve_append ?len s = Inr (\<lparr>ar_path = chunk_path (cl_layout s) (of_nat (length fcs - 1)),
        ar_offset = cl_current_size s, ar_flush_after_write = False\<rparr>, filled (cl_current_size s + ?len) s)"
      using room(1) big by (intro reserve_append_room [OF pos _ cur(1) sum(1)]) auto
    moreover have "log_state (filled (cl_current_size s + ?len) s) (place n f fcs)"
      by (rule log_state_filled) (use p sum(2) cur(1) st room in \<open>simp_all add: log_state_def\<close>)
    ultimately show ?thesis using p cur(2) room(2) by (simp add: slot_path_def slot_offset_def)
  qed
qed

section \<open>A disk that holds the chunks\<close>

definition holds :: "WorkerLogLayout \<Rightarrow> disk \<Rightarrow> byte list list list \<Rightarrow> bool" where
  "holds L d fcs \<longleftrightarrow>
     (\<forall>q. map_of d (chunk_path L q) = (if unat q < length fcs then Some (concat (fcs ! unat q)) else None))"

lemma holds_nth: "holds L d fcs \<Longrightarrow> unat q < length fcs \<Longrightarrow> map_of d (chunk_path L q) = Some (concat (fcs ! unat q))"
  by (simp add: holds_def)

lemma holds_cong: "map_of d = map_of d' \<Longrightarrow> holds L d fcs = holds L d' fcs"
  by (simp add: holds_def)

text \<open>The reservations of several frames are the places \<open>place\<close> gives them, one after the other.\<close>

fun slots :: "WorkerLogLayout \<Rightarrow> nat \<Rightarrow> byte list list \<Rightarrow> byte list list list \<Rightarrow> (path \<times> nat) list" where
  "slots L n [] fcs = []"
| "slots L n (f # fs) fcs =
     (slot_path L (place n f fcs), slot_offset (place n f fcs)) # slots L n fs (place n f fcs)"

lemma reserve_appends_places:
  assumes "log_state s fcs" and "cl_layout s = L" and "n = unat (wl_chunk_size L)"
    and "\<forall>f \<in> set fs. f \<noteq> [] \<and> length f + n < 2 ^ 64" and "length fcs + length fs < 2 ^ 64"
  shows "\<exists>rs s'. reserve_appends fs s = Inr (rs, s') \<and> log_state s' (places n fs fcs) \<and>
    cl_layout s' = L \<and> cl_current_file s' = cl_current_file s \<and>
    map (\<lambda>r. (ar_path r, unat (ar_offset r))) rs = slots L n fs fcs"
  using assms
proof (induction fs arbitrary: s fcs)
  case (Cons f fs)
  obtain r s1 where r: "reserve_append (of_nat (length f)) s = Inr (r, s1)" "log_state s1 (place n f fcs)"
    "cl_layout s1 = L" "cl_current_file s1 = cl_current_file s"
    "ar_path r = slot_path L (place n f fcs)" "unat (ar_offset r) = slot_offset (place n f fcs)"
    using reserve_append_place [of s fcs f] Cons.prems by auto
  obtain rs s' where "reserve_appends fs s1 = Inr (rs, s')" "log_state s' (places n fs (place n f fcs))"
    "cl_layout s' = L" "cl_current_file s' = cl_current_file s1"
    "map (\<lambda>r. (ar_path r, unat (ar_offset r))) rs = slots L n fs (place n f fcs)"
    using Cons.IH [OF r(2,3)] Cons.prems(3-5) length_place(2) [of n f fcs] by auto
  then show ?case using r by simp
qed simp

lemma place_slot:
  "last (place n f fcs) = butlast (last (place n f fcs)) @ [f]"
  by (simp add: place_def)

end
