(* ===== verification/Wal_Log.thy ===== *)
theory Wal_Log
  imports Wal_Flush Wal_Chunks
begin

text \<open>
  Lemmas on the write path of a worker log: the durability watermark, merged writes, and flush
  rounds in which no I/O call fails.
\<close>

section \<open>The watermark is the first LSN not reported\<close>

lemma ready_loop_spec:
  assumes "ready_loop heap next adv = (heap', next', adv')" and "sorted heap" and "U64_MAX \<notin> set heap"
  shows "next \<le> next' \<and> sorted heap' \<and> set heap' = {l \<in> set heap. next' < l} \<and> next' \<notin> set heap \<and>
    (\<forall>l. next \<le> l \<and> l < next' \<longrightarrow> l \<in> set heap) \<and> (adv' \<longleftrightarrow> adv \<or> next < next')"
  using assms
proof (induction heap "next" adv rule: ready_loop.induct)
  case (2 lsn heap nxt adv)
  consider (stale) "lsn < nxt" | (gap) "nxt < lsn" | (hit) "lsn = nxt" by (meson linorder_cases)
  then show ?case
  proof cases
    case stale
    have IH: "nxt \<le> next' \<and> sorted heap' \<and> set heap' = {l \<in> set heap. next' < l} \<and> next' \<notin> set heap \<and>
        (\<forall>l. nxt \<le> l \<and> l < next' \<longrightarrow> l \<in> set heap) \<and> (adv' \<longleftrightarrow> adv \<or> nxt < next')"
      by (rule 2(1)) (use 2(3-5) stale in simp_all)
    moreover from this have "lsn < next'" using stale by (meson order.strict_trans2)
    ultimately show ?thesis by auto
  next
    case gap
    then have "\<not> lsn < nxt" "lsn \<noteq> nxt" by (simp_all add: not_less order.strict_implies_order)
    then have "heap' = lsn # heap" "next' = nxt" "adv' = adv" using 2(3) by simp_all
    moreover have "\<forall>l \<in> set (lsn # heap). nxt < l" using 2(4) gap by auto
    ultimately show ?thesis using 2(4) by auto
  next
    case hit
    have up: "nxt < saturating_add nxt 1" using saturating_add_1_gt [of nxt] 2(5) hit by auto
    have between: "l = nxt" if "nxt \<le> l" "l < saturating_add nxt 1" for l
    proof -
      have "unat l < min (unat nxt + 1) (2 ^ 64 - 1)"
        using that(2) unat_saturating_add [of nxt 1] by (simp add: word_less_nat_alt)
      then show ?thesis using that(1) by (simp add: word_le_nat_alt word_unat_eq_iff)
    qed
    have IH: "saturating_add nxt 1 \<le> next' \<and> sorted heap' \<and> set heap' = {l \<in> set heap. next' < l} \<and> next' \<notin> set heap \<and>
        (\<forall>l. saturating_add nxt 1 \<le> l \<and> l < next' \<longrightarrow> l \<in> set heap) \<and> (adv' \<longleftrightarrow> True \<or> saturating_add nxt 1 < next')"
      by (rule 2(2)) (use 2(3-5) hit in auto)
    then have lt: "nxt < next'" using up by auto
    have "l \<in> set (lsn # heap)" if "nxt \<le> l" "l < next'" for l
      using that IH between [OF that(1)] hit by (cases "l < saturating_add nxt 1") auto
    then show ?thesis using IH lt hit by auto
  qed
qed auto

lemma fold_heap_push: "set (fold heap_push xs heap) = set xs \<union> set heap" "sorted heap \<Longrightarrow> sorted (fold heap_push xs heap)"
  by (induction xs arbitrary: heap) (auto simp: heap_push_def set_insort_key sorted_insort)

text \<open>\<open>waits b R w\<close>: of the LSNs from \<open>b\<close> on, those in \<open>R\<close> have been reported to \<open>w\<close>.\<close>

definition waits :: "LSN \<Rightarrow> LSN set \<Rightarrow> WaitLsn \<Rightarrow> bool" where
  "waits b R w \<longleftrightarrow>
     sorted (ready_lsns w) \<and> set (ready_lsns w) = {l \<in> R. next_wait_lsn w < l} \<and>
     b \<le> next_wait_lsn w \<and> next_wait_lsn w \<notin> R \<and> (\<forall>l. b \<le> l \<and> l < next_wait_lsn w \<longrightarrow> l \<in> R)"

lemma waits_new: "waits b {} (WaitLsn_new b [])"
  by (auto simp: waits_def WaitLsn_new_def)

lemma waits_ready:
  assumes "waits b R w" and "U64_MAX \<notin> R" and "U64_MAX \<notin> set lsns"
  shows "waits b (R \<union> set lsns) (ready lsns w)"
proof (cases "lsns = []")
  case False
  let ?heap = "fold heap_push lsns (ready_lsns w)"
  obtain heap' nx adv where l: "ready_loop ?heap (next_wait_lsn w) False = (heap', nx, adv)"
    using prod_cases3 by blast
  have "sorted ?heap" and set: "set ?heap = set lsns \<union> {l \<in> R. next_wait_lsn w < l}"
    using assms(1) fold_heap_push(1) [of lsns "ready_lsns w"] fold_heap_push(2) [of "ready_lsns w" lsns]
    by (simp_all add: waits_def)
  then have spec: "next_wait_lsn w \<le> nx \<and> sorted heap' \<and> set heap' = {l \<in> set ?heap. nx < l} \<and> nx \<notin> set ?heap \<and>
      (\<forall>l. next_wait_lsn w \<le> l \<and> l < nx \<longrightarrow> l \<in> set ?heap) \<and> (adv \<longleftrightarrow> False \<or> next_wait_lsn w < nx)"
    using assms by (intro ready_loop_spec [OF l]) auto
  have r: "next_wait_lsn (ready lsns w) = nx" "ready_lsns (ready lsns w) = heap'"
    using False l spec by (auto simp: ready_def Let_def)
  have "nx \<notin> R" using spec set assms(1) by (cases "nx = next_wait_lsn w") (auto simp: waits_def)
  moreover have "l \<in> R \<union> set lsns" if "b \<le> l" "l < nx" for l
    using that spec set assms(1) unfolding waits_def by (cases "l < next_wait_lsn w") (auto simp: not_less)
  moreover have "b \<le> nx" using spec assms(1) by (auto simp: waits_def)
  moreover have "nx \<notin> set lsns" using spec set by simp
  moreover have "{l \<in> set ?heap. nx < l} = {l \<in> R \<union> set lsns. nx < l}" using spec set by auto
  ultimately show ?thesis unfolding waits_def r using spec by auto
qed (use assms in \<open>simp add: ready_def\<close>)

lemma wait_over_iff:
  assumes "waits b R w" and "b \<le> target"
  shows "wait_over w target \<longleftrightarrow> (\<forall>l. b \<le> l \<and> l \<le> target \<longrightarrow> l \<in> R)"
proof
  assume "wait_over w target"
  then show "\<forall>l. b \<le> l \<and> l \<le> target \<longrightarrow> l \<in> R"
    using assms(1) by (auto simp: waits_def wait_over_def)
next
  assume all: "\<forall>l. b \<le> l \<and> l \<le> target \<longrightarrow> l \<in> R"
  have "b \<le> next_wait_lsn w" "next_wait_lsn w \<notin> R" using assms(1) by (simp_all add: waits_def)
  then show "wait_over w target" using all unfolding wait_over_def by (metis not_less)
qed

section \<open>Merged writes\<close>

definition disk_put :: "path \<times> nat \<Rightarrow> byte list \<Rightarrow> disk \<Rightarrow> disk" where
  "disk_put slot bs d = disk_write (fst slot) (snd slot) bs (disk_create (fst slot) d)"

definition exec_write :: "MergedWrite \<Rightarrow> disk \<Rightarrow> disk" where
  "exec_write m = disk_put (mw_path m, unat (mw_offset m)) (mw_payload m)"

lemma file_write_append: "file_write off (as @ bs) file = file_write (off + length as) bs (file_write off as file)"
proof -
  have "min (length file) off + (off - length file) = off" by simp
  then show ?thesis by (simp add: file_write_def ac_simps)
qed

lemma map_of_create: "map_of (disk_create p d) = (map_of d) (p := Some (case map_of d p of None \<Rightarrow> [] | Some f \<Rightarrow> f))"
  by (auto simp: disk_create_def update_conv' fun_eq_iff)

lemma map_of_put:
  "map_of (disk_put (p, off) bs d) =
     (map_of d) (p := Some (file_write off bs (case map_of d p of None \<Rightarrow> [] | Some f \<Rightarrow> f)))"
  by (auto simp: disk_put_def disk_write_def map_of_create update_conv' fun_eq_iff split: option.split)

lemma disk_put_append:
  "disk_put (p, off) (as @ bs) d = disk_put (p, off + length as) bs (disk_put (p, off) as d)"
proof -
  have c: "disk_create p (disk_put (p, off) as d) = disk_put (p, off) as d"
    by (simp add: disk_create_def map_of_put)
  obtain f where f: "map_of (disk_create p d) p = Some f" by (simp add: map_of_create)
  have "disk_put (p, off) as d = AList.update p (file_write off as f) (disk_create p d)"
    by (simp add: disk_put_def disk_write_def f)
  then have "disk_put (p, off + length as) bs (disk_put (p, off) as d) =
      AList.update p (file_write (off + length as) bs (file_write off as f)) (AList.update p (file_write off as f) (disk_create p d))"
    unfolding disk_put_def [of "(p, off + length as)"] fst_conv snd_conv c disk_write_def by (simp add: update_conv')
  then show ?thesis
    by (simp add: disk_put_def disk_write_def f file_write_append)
qed

text \<open>Merging adjacent writes changes nothing on disk.\<close>

lemma merge_loop_exec:
  assumes "\<forall>(r, frame) \<in> set rfs. unat (ar_offset r) + length frame < 2 ^ 64"
    and "\<forall>m \<in> set acc. unat (mw_offset m) + length (mw_payload m) < 2 ^ 64"
  shows "\<exists>ms. merge_loop rfs acc = Inr ms \<and> fold exec_write ms d =
    fold (\<lambda>(r, frame). disk_put (ar_path r, unat (ar_offset r)) frame) rfs (fold exec_write (rev acc) d)"
  using assms
proof (induction rfs arbitrary: acc)
  case (Cons rf rfs)
  obtain r frame where rf: "rf = (r, frame)" by (cases rf)
  let ?new = "\<lparr>mw_path = ar_path r, mw_offset = ar_offset r, mw_payload = frame\<rparr>"
  have bound: "unat (ar_offset r) + length frame < 2 ^ 64" using Cons.prems(1) rf by simp
  have IH: "\<exists>ms. merge_loop rfs acc' = Inr ms \<and> fold exec_write ms d =
      fold (\<lambda>(r, frame). disk_put (ar_path r, unat (ar_offset r)) frame) rfs (fold exec_write (rev acc') d)"
    if "\<forall>m \<in> set acc'. unat (mw_offset m) + length (mw_payload m) < 2 ^ 64" for acc'
    by (rule Cons.IH) (use Cons.prems(1) that in auto)
  have push: "\<exists>ms. merge_loop rfs (?new # acc) = Inr ms \<and> fold exec_write ms d =
      fold (\<lambda>(r, frame). disk_put (ar_path r, unat (ar_offset r)) frame) (rf # rfs) (fold exec_write (rev acc) d)"
    using IH [of "?new # acc"] Cons.prems(2) bound by (simp add: rf exec_write_def)
  show ?case
  proof (cases acc)
    case Nil
    then show ?thesis using push by (simp add: rf)
  next
    case (Cons m acc0)
    have m: "unat (mw_offset m) + length (mw_payload m) < 2 ^ 64" using Cons.prems(2) Cons by simp
    then have len: "unat (of_nat (length (mw_payload m)) :: u64) = length (mw_payload m)"
      by (intro unat_u64_small) simp
    have add: "id_add (mw_offset m) (of_nat (length (mw_payload m))) = Inr (mw_offset m + of_nat (length (mw_payload m)))"
      "unat (mw_offset m + of_nat (length (mw_payload m))) = unat (mw_offset m) + length (mw_payload m)"
      using m len by (simp_all add: id_add_eq unat_add_eq)
    show ?thesis
    proof (cases "mw_path m = ar_path r \<and> mw_offset m + of_nat (length (mw_payload m)) = ar_offset r")
      case True
      then have off: "unat (ar_offset r) = unat (mw_offset m) + length (mw_payload m)" using add(2) by simp
      have "exec_write (m\<lparr>mw_payload := mw_payload m @ frame\<rparr>) d' =
          disk_put (ar_path r, unat (ar_offset r)) frame (exec_write m d')" for d'
        using True by (simp add: exec_write_def disk_put_append off)
      moreover have "merge_loop (rf # rfs) acc = merge_loop rfs (m\<lparr>mw_payload := mw_payload m @ frame\<rparr> # acc0)"
        using True add(1) unfolding rf Cons by simp
      ultimately show ?thesis
        using IH [of "m\<lparr>mw_payload := mw_payload m @ frame\<rparr> # acc0"] Cons.prems(2) bound off
        unfolding Cons by (simp add: rf)
    next
      case False
      then have "merge_loop (rf # rfs) acc = merge_loop rfs (?new # acc)"
        using add(1) unfolding rf Cons by auto
      then show ?thesis using push by (simp only:)
    qed
  qed
qed simp

section \<open>Writing to the reserved places\<close>

lemma slot_offset_bound: "slot_offset (place n f fcs) + length f \<le> max n (length f)"
  by (auto simp: slot_offset_def place_def)

lemma slots_bound:
  assumes "\<forall>f \<in> set fs. length f + n < 2 ^ 64"
  shows "\<forall>(sl, f) \<in> set (zip (slots L n fs fcs) fs). snd sl + length f < 2 ^ 64"
  using assms
proof (induction fs arbitrary: fcs)
  case (Cons f fs)
  have "slot_offset (place n f fcs) + length f < 2 ^ 64"
    using slot_offset_bound [of n f fcs] Cons.prems by (simp add: le_max_iff_disj) linarith
  then show ?case using Cons by simp
qed simp

lemma holds_place:
  assumes h: "holds L d fcs" and len: "length fcs < 2 ^ 64"
  shows "holds L (disk_put (slot_path L (place n f fcs), slot_offset (place n f fcs)) f d) (place n f fcs)"
  unfolding holds_def
proof
  fix q
  let ?g = "place n f fcs"
  let ?k = "length ?g - 1"
  have k: "unat (of_nat ?k :: u64) = ?k" using length_place(2) [of n f fcs] len by (intro unat_u64_small) simp
  show "map_of (disk_put (slot_path L ?g, slot_offset ?g) f d) (chunk_path L q) =
      (if unat q < length ?g then Some (concat (?g ! unat q)) else None)"
  proof (cases "q = of_nat ?k")
    case True
    then have uq: "unat q = ?k" using k by simp
    have "file_write (slot_offset ?g) f (case map_of d (chunk_path L q) of None \<Rightarrow> [] | Some x \<Rightarrow> x) = concat (last ?g)"
      using holds_def [THEN iffD1, OF h] uq
      by (cases fcs rule: rev_cases) (auto simp: place_def slot_offset_def file_write_def)
    then show ?thesis using True uq by (simp add: map_of_put slot_path_def last_conv_nth)
  next
    case False
    then have "unat q \<noteq> ?k" using of_nat_unat_eq [of q ?k] by auto
    then have "(unat q < length ?g) = (unat q < length fcs)" "unat q < length fcs \<Longrightarrow> ?g ! unat q = fcs ! unat q"
      by (cases fcs rule: rev_cases; auto simp: place_def nth_append)+
    then show ?thesis using False h by (simp add: map_of_put slot_path_def holds_def)
  qed
qed

lemma holds_places:
  assumes "holds L d fcs" and "length fcs + length fs \<le> 2 ^ 64"
  shows "holds L (fold (\<lambda>(sl, f). disk_put sl f) (zip (slots L n fs fcs) fs) d) (places n fs fcs)"
  using assms
proof (induction fs arbitrary: d fcs)
  case (Cons f fs)
  have "holds L (disk_put (slot_path L (place n f fcs), slot_offset (place n f fcs)) f d) (place n f fcs)"
    using holds_place [OF Cons.prems(1)] Cons.prems(2) by simp
  then show ?case using Cons.IH Cons.prems(2) length_place(2) [of n f fcs] by simp
qed simp

lemma slots_chunk_paths: "sl \<in> set (slots L n fs fcs) \<Longrightarrow> fst sl \<in> range (chunk_path L)"
  by (induction fs arbitrary: fcs) (auto simp: slot_path_def)

end
