(* ===== verification/Wal_Rounds.thy ===== *)
theory Wal_Rounds
  imports Wal_Log
begin

text \<open>
  Flush rounds in which no I/O call fails: what a round leaves in the chunk files, when it
  reports LSNs, and that it always ends.
\<close>

abbreviation no_faults :: faults where "no_faults \<equiv> \<lambda>_. None"

section \<open>Handles\<close>

text \<open>A handle refers to the file it is filed under, and that file exists.\<close>

definition handle_ok :: "disk \<Rightarrow> path \<times> path \<Rightarrow> bool" where
  "handle_ok d h \<longleftrightarrow> fst h = snd h \<and> map_of d (fst h) \<noteq> None"

definition cache_ok :: "WorkerLogInner \<Rightarrow> bool" where
  "cache_ok s \<longleftrightarrow> (\<forall>h \<in> set_option (cl_current_file (wi_state s)). handle_ok (os_files (wi_os s)) h)"

text \<open>\<open>touched s t d e\<close>: the step from \<open>s\<close> to \<open>t\<close> changed at most the cached handle and the files, which
  are \<open>d\<close> afterwards, \<open>e\<close> of them durable.\<close>

definition touched :: "WorkerLogInner \<Rightarrow> WorkerLogInner \<Rightarrow> disk \<Rightarrow> disk \<Rightarrow> bool" where
  "touched s t d e \<longleftrightarrow>
     wi_log_queue t = wi_log_queue s \<and> wi_batching t = wi_batching s \<and> wi_active_sessions t = wi_active_sessions s \<and>
     wi_next_lsn t = wi_next_lsn s \<and> wi_flush_waiter t = wi_flush_waiter s \<and> wi_flush_rounds t = wi_flush_rounds s \<and>
     wi_sync_policy t = wi_sync_policy s \<and> wi_last_fsync t = wi_last_fsync s \<and>
     wi_unsynced_paths t = wi_unsynced_paths s \<and>
     cl_layout (wi_state t) = cl_layout (wi_state s) \<and> cl_current_sequence (wi_state t) = cl_current_sequence (wi_state s) \<and>
     cl_current_size (wi_state t) = cl_current_size (wi_state s) \<and>
     cl_next_sequence (wi_state t) = cl_next_sequence (wi_state s) \<and>
     os_files (wi_os t) = d \<and> os_durable (wi_os t) = e \<and> cache_ok t"

lemma touched_trans: "touched s t d e \<Longrightarrow> touched t u d' e' \<Longrightarrow> touched s u d' e'"
  by (simp add: touched_def)

lemma touched_refl: "cache_ok s \<Longrightarrow> touched s s (os_files (wi_os s)) (os_durable (wi_os s))"
  by (simp add: touched_def)

lemma touchedD:
  assumes "touched s t d e"
  shows "os_files (wi_os t) = d" "os_durable (wi_os t) = e" "cache_ok t"
    "wi_log_queue t = wi_log_queue s" "wi_flush_waiter t = wi_flush_waiter s" "wi_sync_policy t = wi_sync_policy s"
    "wi_next_lsn t = wi_next_lsn s" "cl_layout (wi_state t) = cl_layout (wi_state s)"
    "wi_unsynced_paths t = wi_unsynced_paths s"
    "log_state (wi_state t) = log_state (wi_state s)"
  using assms by (simp_all add: touched_def log_state_def fun_eq_iff)

lemma create_exists [simp]: "map_of d p = Some f \<Longrightarrow> disk_create p d = d"
  by (simp add: disk_create_def)

lemma handle_ok_create: "handle_ok d h \<Longrightarrow> handle_ok (disk_create p d) h"
  by (auto simp: handle_ok_def map_of_create)

lemma take_or_open_ok:
  assumes "cache_ok s"
  shows "\<exists>t. take_or_open_file no_faults p s = (Inr p, t) \<and>
    touched s t (disk_create p (os_files (wi_os s))) (os_durable (wi_os s))"
proof (cases "cl_current_file (wi_state s)")
  case None
  then show ?thesis
    by (simp add: take_or_open_file_def take_cached_file_def take_current_file_def open_async_def sys_call_def
        bind_se_def return_se_def touched_def cache_ok_def Let_def)
next
  case (Some h)
  then have h: "handle_ok (os_files (wi_os s)) h" using assms by (simp add: cache_ok_def)
  show ?thesis
  proof (cases "fst h = p")
    case True
    then have "snd h = p" "map_of (os_files (wi_os s)) p \<noteq> None" using h by (auto simp: handle_ok_def)
    then show ?thesis using Some True
      by (cases h) (auto simp: take_or_open_file_def take_cached_file_def take_current_file_def
          bind_se_def return_se_def touched_def cache_ok_def Let_def)
  next
    case False
    then show ?thesis using Some h handle_ok_create [OF h]
      by (cases h) (simp add: take_or_open_file_def take_cached_file_def take_current_file_def open_async_def sys_call_def
          bind_se_def return_se_def touched_def cache_ok_def Let_def)
  qed
qed

lemma release_ok:
  assumes "cache_ok s" and "map_of (os_files (wi_os s)) p \<noteq> None"
  shows "\<exists>t. release_file no_faults p p s = (Inr (), t) \<and> touched s t (os_files (wi_os s)) (os_durable (wi_os s))"
proof -
  have "handle_ok (os_files (wi_os s)) (p, p)" using assms(2) by (simp add: handle_ok_def)
  then show ?thesis
    using assms
    by (cases "current_path (wi_state s)"; cases "cl_current_file (wi_state s)")
      (auto simp: release_file_def put_cached_file_def store_current_file_def close_def sys_call_def
        bind_se_def return_se_def touched_def cache_ok_def Let_def)
qed

lemma checkout_ok:
  assumes "cache_ok s" and "\<forall>h \<in> set ofs. handle_ok (os_files (wi_os s)) h"
  shows "\<exists>t ofs'. checkout_flush_file no_faults p ofs s = (Inr (p, ofs'), t) \<and>
    touched s t (disk_create p (os_files (wi_os s))) (os_durable (wi_os s)) \<and>
    (\<forall>h \<in> set ofs'. handle_ok (disk_create p (os_files (wi_os s))) h)"
proof (cases "map_of ofs p")
  case None
  then show ?thesis
    using take_or_open_ok [OF assms(1), of p] assms(2) handle_ok_create [of "os_files (wi_os s)" _ p]
    by (force simp: checkout_flush_file_def bind_se_def return_se_def)
next
  case (Some h)
  then have "handle_ok (os_files (wi_os s)) (p, h)" using assms(2) by (meson map_of_SomeD)
  then have "h = p" "\<exists>f. map_of (os_files (wi_os s)) p = Some f" by (auto simp: handle_ok_def)
  moreover have "set (AList.delete p ofs) \<subseteq> set ofs" by (auto simp: AList.delete_eq)
  ultimately show ?thesis
    using Some assms touched_refl [OF assms(1)] by (auto simp: checkout_flush_file_def return_se_def)
qed

lemma handle_ok_write: "handle_ok (disk_write p off bs d) h = handle_ok d h"
  by (auto simp: handle_ok_def disk_write_def update_conv' split: option.split)

lemma write_ok:
  assumes "cache_ok s"
  shows "\<exists>t. write_all_at no_faults p off bs s = (Inr (), t) \<and>
    touched s t (disk_write p (unat off) bs (os_files (wi_os s))) (os_durable (wi_os s))"
  using assms
  by (simp add: write_all_at_def sys_call_def touched_def cache_ok_def Let_def handle_ok_write split: option.splits)

lemma fsync_ok:
  assumes "cache_ok s"
  shows "\<exists>t. fsync no_faults p s = (Inr (), t) \<and>
    touched s t (os_files (wi_os s)) (disk_sync p (os_files (wi_os s)) (os_durable (wi_os s)))"
  using assms by (simp add: fsync_def sys_call_def touched_def cache_ok_def Let_def)

lemma handles_update:
  assumes "\<forall>h \<in> set ofs. handle_ok d h" and "handle_ok d (p, p)"
  shows "\<forall>h \<in> set (AList.update p p ofs). handle_ok d h"
proof -
  have "set (AList.update p p ofs) \<subseteq> insert (p, p) (set ofs)" by (induction ofs) auto
  then show ?thesis using assms by auto
qed

lemma write_loop_ok:
  assumes "cache_ok s" and "\<forall>h \<in> set ofs. handle_ok (os_files (wi_os s)) h"
  shows "\<exists>t ofs'. write_loop no_faults ms ofs s = (Inr ofs', t) \<and>
    touched s t (fold exec_write ms (os_files (wi_os s))) (os_durable (wi_os s)) \<and>
    (\<forall>h \<in> set ofs'. handle_ok (fold exec_write ms (os_files (wi_os s))) h)"
  using assms
proof (induction ms arbitrary: s ofs)
  case Nil
  then show ?case using touched_refl by (auto simp: return_se_def)
next
  case (Cons m ms)
  let ?p = "mw_path m" and ?d = "os_files (wi_os s)"
  obtain t ofs1 where c: "checkout_flush_file no_faults ?p ofs s = (Inr (?p, ofs1), t)"
    "touched s t (disk_create ?p ?d) (os_durable (wi_os s))" "\<forall>h \<in> set ofs1. handle_ok (disk_create ?p ?d) h"
    using checkout_ok [OF Cons.prems] by blast
  obtain u where w: "write_all_at no_faults ?p (mw_offset m) (mw_payload m) t = (Inr (), u)"
    "touched t u (exec_write m ?d) (os_durable (wi_os s))"
    using write_ok [of t ?p "mw_offset m" "mw_payload m"] touchedD [OF c(2)] by (auto simp: exec_write_def disk_put_def)
  have "handle_ok (exec_write m ?d) (?p, ?p)" by (simp add: handle_ok_def exec_write_def map_of_put)
  moreover have "\<forall>h \<in> set ofs1. handle_ok (exec_write m ?d) h"
    using c(3) by (simp add: exec_write_def disk_put_def handle_ok_write)
  ultimately have ofs2: "\<forall>h \<in> set (AList.update ?p ?p ofs1). handle_ok (exec_write m ?d) h"
    using handles_update by blast
  obtain v ofs' where "write_loop no_faults ms (AList.update ?p ?p ofs1) u = (Inr ofs', v)"
    "touched u v (fold exec_write ms (exec_write m ?d)) (os_durable (wi_os s))"
    "\<forall>h \<in> set ofs'. handle_ok (fold exec_write ms (exec_write m ?d)) h"
    using Cons.IH [of u "AList.update ?p ?p ofs1"] touchedD [OF w(2)] ofs2 by auto
  then show ?case using c(1) w(1) touched_trans [OF touched_trans [OF c(2) w(2)]]
    by (auto simp: bind_se_def)
qed

definition with_waiter :: "WaitLsn \<Rightarrow> WorkerLogInner \<Rightarrow> WorkerLogInner" where
  "with_waiter w s = s\<lparr>wi_flush_waiter := w\<rparr>"

lemma touched_with_waiter: "touched s t d e \<Longrightarrow> touched (with_waiter w s) (with_waiter w t) d e"
  by (auto simp: touched_def with_waiter_def cache_ok_def)

lemma complete_eq: "complete_persisted_lsns lsns s = (Inr (), with_waiter (ready lsns (wi_flush_waiter s)) s)"
  by (simp add: complete_persisted_lsns_def return_se_def write_se_def with_waiter_def ready_def)

lemma fsync_paths_ok:
  assumes "cache_ok s" and "\<forall>h \<in> set ofs. handle_ok (os_files (wi_os s)) h"
    and "\<forall>p \<in> set ps. map_of (os_files (wi_os s)) p \<noteq> None" and "ps \<noteq> []"
  shows "\<exists>t ofs'. fsync_paths no_faults lsns ps ofs s = (Inr ofs', t) \<and>
    touched (with_waiter (ready lsns (wi_flush_waiter s)) s) t (os_files (wi_os s))
      (fold (\<lambda>p. disk_sync p (os_files (wi_os s))) ps (os_durable (wi_os s))) \<and>
    (\<forall>h \<in> set ofs'. handle_ok (os_files (wi_os s)) h)"
  using assms
proof (induction ps arbitrary: s ofs)
  case (Cons p ps)
  let ?d = "os_files (wi_os s)"
  obtain f where f: "map_of ?d p = Some f" using Cons.prems(3) by auto
  obtain t ofs1 where c: "checkout_flush_file no_faults p ofs s = (Inr (p, ofs1), t)"
    "touched s t ?d (os_durable (wi_os s))" "\<forall>h \<in> set ofs1. handle_ok ?d h"
    using checkout_ok [OF Cons.prems(1,2), of p] f by auto
  obtain u where w: "fsync no_faults p t = (Inr (), u)" "touched t u ?d (disk_sync p ?d (os_durable (wi_os s)))"
    using fsync_ok [of t p] touchedD [OF c(2)] by auto
  have su: "touched s u ?d (disk_sync p ?d (os_durable (wi_os s)))" by (rule touched_trans [OF c(2) w(2)])
  have ofs2: "\<forall>h \<in> set (AList.update p p ofs1). handle_ok ?d h"
    using c(3) f by (intro handles_update) (auto simp: handle_ok_def)
  show ?case
  proof (cases "ps = []")
    case True
    have "fsync_paths no_faults lsns [p] ofs s = (Inr (AList.update p p ofs1), with_waiter (ready lsns (wi_flush_waiter s)) u)"
      using c(1) w(1) touchedD(5) [OF su]
      by (auto simp: bind_se_def complete_eq return_se_def with_waiter_def ready_def)
    then show ?thesis using True touched_with_waiter [OF su] ofs2 by auto
  next
    case False
    obtain v ofs' where v: "fsync_paths no_faults lsns ps (AList.update p p ofs1) u = (Inr ofs', v)"
      "touched (with_waiter (ready lsns (wi_flush_waiter s)) u) v ?d
        (fold (\<lambda>p. disk_sync p ?d) ps (disk_sync p ?d (os_durable (wi_os s))))"
      "\<forall>h \<in> set ofs'. handle_ok ?d h"
      using Cons.IH [of u "AList.update p p ofs1"] touchedD [OF su] ofs2 Cons.prems(3) False by auto
    then show ?thesis using c(1) w(1) False touched_trans [OF touched_with_waiter [OF su] v(2)]
      by (auto simp: bind_se_def return_se_def)
  qed
qed simp

lemma release_all_ok:
  assumes "cache_ok s" and "\<forall>h \<in> set ofs. handle_ok (os_files (wi_os s)) h"
  shows "\<exists>t. release_flush_open_files no_faults ofs s = (Inr (), t) \<and>
    touched s t (os_files (wi_os s)) (os_durable (wi_os s))"
  using assms
proof (induction ofs arbitrary: s)
  case Nil
  then show ?case using touched_refl by (simp add: return_se_def)
next
  case (Cons h ofs)
  have h: "h = (fst h, fst h)" "map_of (os_files (wi_os s)) (fst h) \<noteq> None"
    using Cons.prems(2) by (auto simp: handle_ok_def prod_eq_iff)
  obtain t where t: "release_file no_faults (fst h) (fst h) s = (Inr (), t)"
    "touched s t (os_files (wi_os s)) (os_durable (wi_os s))" using release_ok [OF Cons.prems(1) h(2)] by blast
  obtain u where "release_flush_open_files no_faults ofs t = (Inr (), u)"
    "touched t u (os_files (wi_os s)) (os_durable (wi_os s))"
    using Cons.IH [of t] touchedD [OF t(2)] Cons.prems(2) by auto
  moreover have "release_flush_open_files no_faults (h # ofs) s = release_flush_open_files no_faults ofs t"
    using t(1) by (subst h(1)) (simp add: bind_se_def)
  ultimately show ?case using touched_trans [OF t(2)] by auto
qed

section \<open>One round\<close>

lemma map_of_sync: "map_of (disk_sync p d e) = (if map_of d p = None then map_of e else (map_of e) (p := map_of d p))"
  by (auto simp: disk_sync_def update_conv' fun_eq_iff split: option.split)

lemma sync_all:
  assumes "\<And>q. q \<notin> set ps \<Longrightarrow> map_of e q = map_of d q" and "\<forall>p \<in> set ps. map_of d p \<noteq> None"
  shows "map_of (fold (\<lambda>p. disk_sync p d) ps e) = map_of d"
  using assms
proof (induction ps arbitrary: e)
  case (Cons p ps)
  have "map_of (fold (\<lambda>p. disk_sync p d) ps (disk_sync p d e)) = map_of d"
    by (rule Cons.IH) (use Cons.prems in \<open>auto simp: map_of_sync\<close>)
  then show ?case by simp
qed (simp add: fun_eq_iff)

lemma flush_paths_loop_set: "set (flush_paths_loop rs seen) = set seen \<union> ar_path ` set rs"
  by (induction rs arbitrary: seen) auto

lemma set_collect_flush_paths: "set (collect_flush_paths rs) = ar_path ` set rs"
  by (simp add: collect_flush_paths_def flush_paths_loop_set)

text \<open>Files that are not written keep their contents; files that are written exist.\<close>

lemma fold_put_other: "p \<notin> fst ` set sls \<Longrightarrow>
    map_of (fold (\<lambda>(sl, f). disk_put sl f) (zip sls fs) d) p = map_of d p"
proof (induction sls arbitrary: fs d)
  case (Cons sl sls)
  then show ?case by (cases fs; cases sl) (auto simp: map_of_put)
qed simp

lemma fold_put_dom: "map_of d p \<noteq> None \<or> p \<in> fst ` set sls \<Longrightarrow> length sls = length fs \<Longrightarrow>
    map_of (fold (\<lambda>(sl, f). disk_put sl f) (zip sls fs) d) p \<noteq> None"
proof (induction sls arbitrary: fs d)
  case (Cons sl sls)
  obtain f fs' where fs: "fs = f # fs'" using Cons.prems(2) by (cases fs) auto
  have "map_of (disk_put sl f d) p \<noteq> None \<or> p \<in> fst ` set sls"
    using Cons.prems(1) by (cases sl) (auto simp: map_of_put)
  then show ?case using Cons.IH [of "disk_put sl f d" fs'] Cons.prems(2) fs by simp
qed simp

text \<open>No other file lies in the log directory.\<close>

definition dir_clean :: "WorkerLogLayout \<Rightarrow> disk \<Rightarrow> bool" where
  "dir_clean L d \<longleftrightarrow> (\<forall>p. fst p = wl_log_dir L \<and> p \<notin> range (chunk_path L) \<longrightarrow> map_of d p = None)"

definition log_inv :: "WorkerLogLayout \<Rightarrow> WorkerLogInner \<Rightarrow> byte list list list \<Rightarrow> bool" where
  "log_inv L s fcs \<longleftrightarrow>
     cl_layout (wi_state s) = L \<and> log_state (wi_state s) fcs \<and> wi_sync_policy s = Commit \<and>
     holds L (os_files (wi_os s)) fcs \<and> dir_clean L (os_files (wi_os s)) \<and>
     map_of (os_durable (wi_os s)) = map_of (os_files (wi_os s)) \<and> cache_ok s"

definition frame_ok :: "WorkerLogLayout \<Rightarrow> byte list \<Rightarrow> bool" where
  "frame_ok L f \<longleftrightarrow> f \<noteq> [] \<and> length f + unat (wl_chunk_size L) < 2 ^ 64"

lemma length_slots [simp]: "length (slots L n fs fcs) = length fs"
  by (induction fs arbitrary: fcs) simp_all

lemma merge_loop_nonempty: "merge_loop rfs acc = Inr ms \<Longrightarrow> rfs \<noteq> [] \<or> acc \<noteq> [] \<Longrightarrow> ms \<noteq> []"
  by (induction rfs acc arbitrary: ms rule: merge_loop.induct) (auto simp: rs_simps split: if_splits)

lemma prepare_ok:
  assumes inv: "log_inv L s fcs"
    and frames: "frames = concat (map qb_frames pending)" "frames \<noteq> []" "\<forall>f \<in> set frames. frame_ok L f"
    and room: "length fcs + length frames < 2 ^ 64"
  defines "n \<equiv> unat (wl_chunk_size L)" and "d \<equiv> os_files (wi_os s)"
  shows "\<exists>pr st. prepare_flush_batch pending s = (Inr pr, s\<lparr>wi_state := st\<rparr>) \<and> log_state st (places n frames fcs) \<and>
    cl_layout st = L \<and> cl_current_file st = cl_current_file (wi_state s) \<and> pf_writes pr \<noteq> [] \<and>
    pf_ready_lsns pr = concat (map qb_lsns pending) \<and> set (pf_flush_paths pr) = fst ` set (slots L n frames fcs) \<and>
    fold exec_write (pf_writes pr) d = fold (\<lambda>(sl, f). disk_put sl f) (zip (slots L n frames fcs) frames) d"
proof -
  let ?sls = "slots L n frames fcs"
  have nonempty: "\<forall>f \<in> set frames. f \<noteq> [] \<and> length f + n < 2 ^ 64" using frames(3) by (simp add: frame_ok_def n_def)
  obtain rs st where rs: "reserve_appends frames (wi_state s) = Inr (rs, st)" "log_state st (places n frames fcs)" "cl_layout st = L"
    "cl_current_file st = cl_current_file (wi_state s)" "map (\<lambda>r. (ar_path r, unat (ar_offset r))) rs = ?sls"
    using reserve_appends_places [of "wi_state s" fcs L n frames] inv nonempty room by (auto simp: log_inv_def n_def)
  have len: "length rs = length frames" using arg_cong [OF rs(5), of length] by simp
  have zip: "zip ?sls frames = map (\<lambda>(r, f). ((ar_path r, unat (ar_offset r)), f)) (zip rs frames)"
    unfolding rs(5) [symmetric] by (simp add: zip_map1 case_prod_unfold)
  have "\<forall>(r, f) \<in> set (zip rs frames). unat (ar_offset r) + length f < 2 ^ 64"
    using slots_bound [of frames n L fcs] nonempty unfolding zip by auto
  then obtain ms where ms: "merge_loop (zip rs frames) [] = Inr ms" "fold exec_write ms d =
      fold (\<lambda>(r, f). disk_put (ar_path r, unat (ar_offset r)) f) (zip rs frames) d"
    using merge_loop_exec [of "zip rs frames" "[]" d] by auto
  have "ms \<noteq> []" using merge_loop_nonempty [OF ms(1)] len frames(2) by (cases frames; cases rs) auto
  moreover have "fold exec_write ms d = fold (\<lambda>(sl, f). disk_put sl f) (zip ?sls frames) d"
    unfolding ms(2) zip by (simp add: fold_map comp_def case_prod_unfold)
  moreover have "set (collect_flush_paths rs) = fst ` set ?sls"
    unfolding set_collect_flush_paths rs(5) [symmetric] by force
  moreover have "prepare_flush_batch pending s =
      (Inr \<lparr>pf_writes = ms, pf_flush_paths = collect_flush_paths rs, pf_ready_lsns = concat (map qb_lsns pending)\<rparr>,
       s\<lparr>wi_state := st\<rparr>)"
    using rs(1) ms(1) frames(1) by (simp add: prepare_flush_batch_def merge_reserved_writes_def Let_def)
  ultimately show ?thesis using rs(2-4)
    by (intro exI [of _ "\<lparr>pf_writes = ms, pf_flush_paths = collect_flush_paths rs, pf_ready_lsns = concat (map qb_lsns pending)\<rparr>"]
        exI [of _ st]) simp
qed

lemma execute_ok:
  assumes "cache_ok s" and "wi_sync_policy s = Commit" and "pf_writes pr \<noteq> []"
    and "\<forall>h \<in> set ofs. handle_ok (os_files (wi_os s)) h"
  defines "d \<equiv> fold exec_write (pf_writes pr) (os_files (wi_os s))"
  assumes "pf_flush_paths pr \<noteq> []" and "\<forall>p \<in> set (pf_flush_paths pr). map_of d p \<noteq> None"
  shows "\<exists>t ofs'. execute_flush_batch no_faults pr ofs s = (Inr ofs', t) \<and>
    touched (with_waiter (ready (pf_ready_lsns pr) (wi_flush_waiter s)) s) t d
      (fold (\<lambda>p. disk_sync p d) (pf_flush_paths pr) (os_durable (wi_os s))) \<and> (\<forall>h \<in> set ofs'. handle_ok d h)"
proof -
  obtain t ofs1 where t: "write_loop no_faults (pf_writes pr) ofs s = (Inr ofs1, t)" "touched s t d (os_durable (wi_os s))"
    "\<forall>h \<in> set ofs1. handle_ok d h"
    using write_loop_ok [OF assms(1,4), of "pf_writes pr"] by (auto simp: d_def)
  obtain u ofs' where "fsync_paths no_faults (pf_ready_lsns pr) (pf_flush_paths pr) ofs1 t = (Inr ofs', u)"
    "touched (with_waiter (ready (pf_ready_lsns pr) (wi_flush_waiter s)) t) u d
      (fold (\<lambda>p. disk_sync p d) (pf_flush_paths pr) (os_durable (wi_os s)))" "\<forall>h \<in> set ofs'. handle_ok d h"
    using fsync_paths_ok [of t ofs1 "pf_flush_paths pr" "pf_ready_lsns pr"] touchedD [OF t(2)] t(3) assms(6,7) by auto
  then show ?thesis
    using t(1) assms(2,3) touched_trans [OF touched_with_waiter [OF t(2)]]
    by (auto simp: execute_flush_batch_def bind_se_def)
qed

lemma round_ok:
  assumes inv: "log_inv L s fcs" and ofs: "\<forall>h \<in> set ofs. handle_ok (os_files (wi_os s)) h"
    and frames: "frames = concat (map qb_frames pending)" "frames \<noteq> []" "\<forall>f \<in> set frames. frame_ok L f"
    and room: "length fcs + length frames < 2 ^ 64"
  shows "\<exists>t ofs'. bind_se (prepare_flush_batch pending) (\<lambda>pr. execute_flush_batch no_faults pr ofs) s = (Inr ofs', t) \<and>
    log_inv L t (places (unat (wl_chunk_size L)) frames fcs) \<and>
    (\<forall>h \<in> set ofs'. handle_ok (os_files (wi_os t)) h) \<and> wi_log_queue t = wi_log_queue s \<and>
    wi_next_lsn t = wi_next_lsn s \<and> wi_flush_waiter t = ready (concat (map qb_lsns pending)) (wi_flush_waiter s)"
proof -
  let ?n = "unat (wl_chunk_size L)" and ?d = "os_files (wi_os s)"
  let ?sls = "slots L ?n frames fcs" and ?g = "places ?n frames fcs"
  obtain pr st where pr: "prepare_flush_batch pending s = (Inr pr, s\<lparr>wi_state := st\<rparr>)" "log_state st ?g"
    "cl_layout st = L" "cl_current_file st = cl_current_file (wi_state s)" "pf_writes pr \<noteq> []"
    "pf_ready_lsns pr = concat (map qb_lsns pending)" "set (pf_flush_paths pr) = fst ` set ?sls"
    "fold exec_write (pf_writes pr) ?d = fold (\<lambda>(sl, f). disk_put sl f) (zip ?sls frames) ?d"
    using prepare_ok [OF inv frames room] by blast
  let ?s1 = "s\<lparr>wi_state := st\<rparr>" and ?d' = "fold exec_write (pf_writes pr) ?d"
  have exist: "\<forall>p \<in> set (pf_flush_paths pr). map_of ?d' p \<noteq> None"
    unfolding pr(7,8) using fold_put_dom [OF disjI2, of _ ?sls frames ?d] by auto
  have "?sls \<noteq> []" using frames(2) by (metis length_0_conv length_slots)
  then have paths: "pf_flush_paths pr \<noteq> []" using pr(7) by (metis image_is_empty set_empty)
  have s1: "cache_ok ?s1" "wi_sync_policy ?s1 = Commit" "\<forall>h \<in> set ofs. handle_ok (os_files (wi_os ?s1)) h"
    using inv ofs pr(4) by (simp_all add: log_inv_def cache_ok_def)
  obtain t ofs' where t: "execute_flush_batch no_faults pr ofs ?s1 = (Inr ofs', t)"
    "touched (with_waiter (ready (pf_ready_lsns pr) (wi_flush_waiter s)) ?s1) t ?d'
      (fold (\<lambda>p. disk_sync p ?d') (pf_flush_paths pr) (os_durable (wi_os s)))" "\<forall>h \<in> set ofs'. handle_ok ?d' h"
    using execute_ok [OF s1(1,2) pr(5) s1(3) paths] exist by auto
  have "map_of (fold (\<lambda>p. disk_sync p ?d') (pf_flush_paths pr) (os_durable (wi_os s))) = map_of ?d'"
    using inv pr(7,8) fold_put_other [of _ ?sls frames ?d] by (intro sync_all [OF _ exist]) (auto simp: log_inv_def)
  moreover have "holds L ?d' ?g" unfolding pr(8) using inv room by (intro holds_places) (auto simp: log_inv_def)
  moreover have "dir_clean L ?d'"
    unfolding pr(8) dir_clean_def using inv fold_put_other [of _ ?sls frames ?d] slots_chunk_paths [of _ L ?n frames fcs]
    by (metis (no_types, lifting) dir_clean_def imageE log_inv_def)
  ultimately have "log_inv L t ?g"
    using touchedD [OF t(2)] pr(2,3) inv by (simp add: log_inv_def with_waiter_def)
  then show ?thesis
    using pr(1,6) t(1,3) touchedD [OF t(2)] by (simp add: bind_se_def with_waiter_def)
qed

section \<open>All rounds\<close>

lemma drain_split_bound: "drain_split m qs b k \<le> k + length qs"
proof (induction qs arbitrary: b k)
  case (Cons q qs)
  then show ?case using Cons.IH [of "sat (b + qb_bytes q)" "Suc k"] by simp
qed simp

lemma drain_ok:
  assumes "wi_log_queue s \<noteq> []"
  obtains k where "0 < k" "k \<le> length (wi_log_queue s)"
    "drain_pending_batches b s = (Inr (take k (wi_log_queue s)), s\<lparr>wi_log_queue := drop k (wi_log_queue s)\<rparr>)"
proof
  let ?k = "max 1 (drain_split (eb_max_batch_bytes b) (wi_log_queue s) 0 0)"
  show "0 < ?k" by simp
  have "1 \<le> length (wi_log_queue s)" using assms by (cases "wi_log_queue s") auto
  then show "?k \<le> length (wi_log_queue s)"
    using drain_split_bound [of "eb_max_batch_bytes b" "wi_log_queue s" 0 0] by simp
  show "drain_pending_batches b s = (Inr (take ?k (wi_log_queue s)), s\<lparr>wi_log_queue := drop ?k (wi_log_queue s)\<rparr>)"
    using assms by (simp add: drain_pending_batches_def Let_def)
qed

definition batch_ok :: "WorkerLogLayout \<Rightarrow> QueuedLogBatch \<Rightarrow> bool" where
  "batch_ok L q \<longleftrightarrow> qb_frames q \<noteq> [] \<and> (\<forall>f \<in> set (qb_frames q). frame_ok L f)"

lemma concat_map_split: "concat (map h q) = concat (map h (take k q)) @ concat (map h (drop k q))"
  by (metis append_take_drop_id concat_append map_append)

lemma flush_step:
  assumes inv: "log_inv L s fcs" and ofs: "\<forall>h \<in> set ofs. handle_ok (os_files (wi_os s)) h"
    and batches: "\<forall>q \<in> set (wi_log_queue s). batch_ok L q" and q: "wi_log_queue s \<noteq> []"
    and room: "length fcs + length (concat (map qb_frames (wi_log_queue s))) < 2 ^ 64"
  shows "\<exists>k t ofs'. 0 < k \<and> k \<le> length (wi_log_queue s) \<and>
    flush_loop no_faults (Suc fuel) ofs s = flush_loop no_faults fuel ofs' t \<and>
    log_inv L t (places (unat (wl_chunk_size L)) (concat (map qb_frames (take k (wi_log_queue s)))) fcs) \<and>
    (\<forall>h \<in> set ofs'. handle_ok (os_files (wi_os t)) h) \<and> wi_log_queue t = drop k (wi_log_queue s) \<and>
    wi_next_lsn t = wi_next_lsn s \<and>
    wi_flush_waiter t = ready (concat (map qb_lsns (take k (wi_log_queue s)))) (wi_flush_waiter s)"
proof -
  let ?q = "wi_log_queue s" and ?n = "unat (wl_chunk_size L)"
  obtain k where k: "0 < k" "k \<le> length ?q"
    "drain_pending_batches (effective_batching s) s = (Inr (take k ?q), s\<lparr>wi_log_queue := drop k ?q\<rparr>)"
    by (rule drain_ok [OF q])
  let ?s1 = "s\<lparr>wi_log_queue := drop k ?q\<rparr>" and ?frames = "concat (map qb_frames (take k ?q))"
  have ne: "take k ?q \<noteq> []" using k(1) q by simp
  then have "hd (take k ?q) \<in> set (take k ?q)" by (rule hd_in_set)
  moreover have "batch_ok L q" if "q \<in> set (take k ?q)" for q using that batches by (meson in_set_takeD)
  ultimately have fr: "?frames \<noteq> []" "\<forall>f \<in> set ?frames. frame_ok L f" by (force simp: batch_ok_def)+
  have room1: "length fcs + length ?frames < 2 ^ 64" using room concat_map_split [of qb_frames ?q k] by simp
  have inv1: "log_inv L ?s1 fcs" and ofs1: "\<forall>h \<in> set ofs. handle_ok (os_files (wi_os ?s1)) h"
    using inv ofs by (simp_all add: log_inv_def cache_ok_def)
  obtain t ofs' where t: "bind_se (prepare_flush_batch (take k ?q)) (\<lambda>pr. execute_flush_batch no_faults pr ofs) ?s1 = (Inr ofs', t)"
    "log_inv L t (places ?n ?frames fcs)" "\<forall>h \<in> set ofs'. handle_ok (os_files (wi_os t)) h" "wi_log_queue t = drop k ?q"
    "wi_next_lsn t = wi_next_lsn s" "wi_flush_waiter t = ready (concat (map qb_lsns (take k ?q))) (wi_flush_waiter s)"
    using round_ok [OF inv1 ofs1 refl fr room1] by auto
  let ?t1 = "t\<lparr>wi_flush_rounds := Suc (wi_flush_rounds t)\<rparr>"
  have "flush_loop no_faults (Suc fuel) ofs s = flush_loop no_faults fuel ofs' ?t1"
    using k(3) t(1) ne by (auto simp: bind_se_def write_se_def split: prod.splits sum.splits)
  then show ?thesis
    using k(1,2) t(2-6) by (intro exI [of _ k] exI [of _ ?t1] exI [of _ ofs']) (auto simp: log_inv_def cache_ok_def)
qed

lemma flush_loop_ok:
  assumes "log_inv L s fcs" and "\<forall>h \<in> set ofs. handle_ok (os_files (wi_os s)) h"
    and "\<forall>q \<in> set (wi_log_queue s). batch_ok L q" and "length (wi_log_queue s) < fuel"
    and "length fcs + length (concat (map qb_frames (wi_log_queue s))) < 2 ^ 64"
  shows "\<exists>t lss. flush_loop no_faults fuel ofs s = (Inr (), t) \<and>
    log_inv L t (places (unat (wl_chunk_size L)) (concat (map qb_frames (wi_log_queue s))) fcs) \<and>
    wi_log_queue t = [] \<and> wi_next_lsn t = wi_next_lsn s \<and>
    concat lss = concat (map qb_lsns (wi_log_queue s)) \<and> wi_flush_waiter t = fold ready lss (wi_flush_waiter s)"
  using assms
proof (induction fuel arbitrary: s ofs fcs)
  case (Suc fuel)
  let ?q = "wi_log_queue s" and ?n = "unat (wl_chunk_size L)"
  show ?case
  proof (cases "?q = []")
    case True
    then have "drain_pending_batches (effective_batching s) s = (Inr [], s)" by (simp add: drain_pending_batches_def)
    moreover have "cache_ok s" using Suc.prems(1) by (simp add: log_inv_def)
    then obtain t where t: "release_flush_open_files no_faults ofs s = (Inr (), t)"
      "touched s t (os_files (wi_os s)) (os_durable (wi_os s))" using release_all_ok Suc.prems(2) by blast
    moreover have "log_inv L t fcs" using Suc.prems(1) touchedD [OF t(2)] by (simp add: log_inv_def)
    ultimately show ?thesis
      using True touchedD(4,5,7) [OF t(2)] by (intro exI [of _ t] exI [of _ "[]"]) (simp add: bind_se_def)
  next
    case False
    obtain k t ofs' where t: "0 < k" "k \<le> length ?q" "flush_loop no_faults (Suc fuel) ofs s = flush_loop no_faults fuel ofs' t"
      "log_inv L t (places ?n (concat (map qb_frames (take k ?q))) fcs)" "\<forall>h \<in> set ofs'. handle_ok (os_files (wi_os t)) h"
      "wi_log_queue t = drop k ?q" "wi_next_lsn t = wi_next_lsn s"
      "wi_flush_waiter t = ready (concat (map qb_lsns (take k ?q))) (wi_flush_waiter s)"
      using flush_step [OF Suc.prems(1-3) False Suc.prems(5), of fuel] by blast
    note cut = concat_map_split [of qb_frames ?q k] concat_map_split [of qb_lsns ?q k]
    have "length (places ?n (concat (map qb_frames (take k ?q))) fcs) + length (concat (map qb_frames (drop k ?q))) < 2 ^ 64"
      using length_places [of ?n "concat (map qb_frames (take k ?q))" fcs] Suc.prems(5) cut(1) by simp
    moreover have "\<forall>q \<in> set (drop k ?q). batch_ok L q" using Suc.prems(3) by (meson in_set_dropD)
    moreover have "length (drop k ?q) < fuel" using Suc.prems(4) t(1,2) by simp
    ultimately obtain u lss where u: "flush_loop no_faults fuel ofs' t = (Inr (), u)"
      "log_inv L u (places ?n (concat (map qb_frames (drop k ?q))) (places ?n (concat (map qb_frames (take k ?q))) fcs))"
      "wi_log_queue u = []" "wi_next_lsn u = wi_next_lsn s" "concat lss = concat (map qb_lsns (drop k ?q))"
      "wi_flush_waiter u = fold ready lss (wi_flush_waiter t)"
      using Suc.IH [OF t(4,5)] t(6,7) by auto
    then show ?thesis
      using t(3,8) cut by (intro exI [of _ u] exI [of _ "concat (map qb_lsns (take k ?q)) # lss"]) simp
  qed
qed simp

lemma waits_fold:
  assumes "waits b R w" and "U64_MAX \<notin> R" and "U64_MAX \<notin> set (concat lss)"
  shows "waits b (R \<union> set (concat lss)) (fold ready lss w)"
  using assms
proof (induction lss arbitrary: R w)
  case (Cons ls lss)
  have "waits b (R \<union> set ls \<union> set (concat lss)) (fold ready lss (ready ls w))"
    by (rule Cons.IH) (use Cons.prems waits_ready in auto)
  then show ?case by (simp add: Un_assoc)
qed simp

lemma ready_notified:
  "wait_notified w \<le> wait_notified (ready lsns w) \<and>
    (next_wait_lsn (ready lsns w) \<noteq> next_wait_lsn w \<longrightarrow> wait_notified w < wait_notified (ready lsns w))"
  by (simp add: ready_def Let_def split: prod.split)

lemma fold_ready_notified:
  "wait_notified w \<le> wait_notified (fold ready lss w) \<and>
    (next_wait_lsn (fold ready lss w) \<noteq> next_wait_lsn w \<longrightarrow> wait_notified w < wait_notified (fold ready lss w))"
proof (induction lss arbitrary: w)
  case (Cons ls lss)
  show ?case using ready_notified [of w ls] Cons.IH [of "ready ls w"] by fastforce
qed simp

end
