(* ===== verification/Wal_Recovery.thy ===== *)
theory Wal_Recovery
  imports Wal_Rounds
begin

text \<open>
  Group commit and recovery of a worker log together: what is acknowledged is durable, and what
  is durable is recovered; reopening a log after a crash.
\<close>

section \<open>LSNs of an entry\<close>

lemma length_part_frame: "length (part_frame X cs lsn i) = 32 + length (cs ! i)"
  by (simp add: part_frame_def length_make_frame)

lemma frame_lsns_entry:
  assumes "parts_ok cs"
  shows "frame_lsns X (entry_frames X cs lsn) = Inr (map (\<lambda>i. lsn + of_nat i) [0..<length cs])"
proof -
  have "frame_lsn X (part_frame X cs lsn i) = Inr (lsn + of_nat i)" if "i < length cs" for i
    using split_part_frame [OF assms that, of X lsn] by (auto simp: frame_lsn_def)
  then have "map_rs (frame_lsn X) (map (part_frame X cs lsn) ks) = Inr (map (\<lambda>i. lsn + of_nat i) ks)"
    if "set ks \<subseteq> {..<length cs}" for ks
    using that by (induction ks) auto
  then show ?thesis by (simp add: frame_lsns_def entry_frames_def subset_iff)
qed

lemma lsn_range:
  assumes "unat (lsn :: u64) + k < 2 ^ 64"
  shows "set (map (\<lambda>i. lsn + of_nat i) [0..<k]) = {lsn..<lsn + of_nat k}"
proof -
  have un: "unat (lsn + of_nat i) = unat lsn + i" if "i \<le> k" for i
    using that assms by (subst unat_add_eq) (auto simp: unat_u64_small)
  show ?thesis
  proof (intro equalityI subsetI)
    fix l assume "l \<in> set (map (\<lambda>i. lsn + of_nat i) [0..<k])"
    then obtain i where "i < k" "l = lsn + of_nat i" by auto
    then show "l \<in> {lsn..<lsn + of_nat k}" using un [of i] un [of k] by (simp add: word_le_nat_alt word_less_nat_alt)
  next
    fix l assume "l \<in> {lsn..<lsn + of_nat k}"
    then have l: "unat lsn \<le> unat l" "unat l < unat lsn + k" using un [of k] by (simp_all add: word_le_nat_alt word_less_nat_alt)
    then have "unat l = unat (lsn + of_nat (unat l - unat lsn))" using un [of "unat l - unat lsn"] by simp
    then have "l = lsn + of_nat (unat l - unat lsn)" by (simp only: word_unat_eq_iff)
    then show "l \<in> set (map (\<lambda>i. lsn + of_nat i) [0..<k])" using l by (metis (no_types, lifting) add.commute atLeast0LessThan imageI less_diff_conv2 list.set_map lessThan_iff set_upt)
  qed
qed

section \<open>Group commit\<close>

text \<open>The numbers of chunks and LSNs stay within 64 bits.\<close>

definition parts_of :: "'l entry_codec \<Rightarrow> WorkerLogLayout \<Rightarrow> 'l \<Rightarrow> byte list list" where
  "parts_of C L v = chunks (unat (wl_chunk_size L) - 32) (the (msg_to_vec C v))"

definition wal_room :: "WorkerLogInner \<Rightarrow> nat \<Rightarrow> bool" where
  "wal_room s k \<longleftrightarrow> unat (cl_next_sequence (wi_state s)) + k < 2 ^ 64 \<and> unat (wi_next_lsn s) + k < 2 ^ 64"

definition wal_layout_ok :: "WorkerLogLayout \<Rightarrow> bool" where
  "wal_layout_ok L \<longleftrightarrow> 32 < unat (wl_chunk_size L) \<and> unat (wl_chunk_size L) < 2 ^ 63"

text \<open>The queue is empty, and of the LSNs from \<open>b\<close> on all that were given out are durable.\<close>

definition wal_idle :: "LSN \<Rightarrow> WorkerLogInner \<Rightarrow> bool" where
  "wal_idle b s \<longleftrightarrow> wi_log_queue s = [] \<and> b \<le> wi_next_lsn s \<and> waits b {b..<wi_next_lsn s} (wi_flush_waiter s)"

lemma entry_frame_ok:
  assumes "wal_layout_ok L" and "f \<in> set (entry_frames X (parts_of C L v) lsn)"
  shows "frame_ok L f"
proof -
  obtain i where i: "i < length (parts_of C L v)" "f = part_frame X (parts_of C L v) lsn i"
    using assms(2) by (auto simp: entry_frames_def)
  then have "length (parts_of C L v ! i) \<le> unat (wl_chunk_size L) - 32"
    using chunks_length nth_mem unfolding parts_of_def by blast
  then have "length f \<le> unat (wl_chunk_size L)" "length f \<noteq> 0"
    using i(2) assms(1) by (auto simp: length_part_frame wal_layout_ok_def)
  then show ?thesis using assms(1) by (auto simp: frame_ok_def wal_layout_ok_def)
qed

lemma run_flush_ok:
  assumes "log_inv L s fcs" and "\<forall>q \<in> set (wi_log_queue s). batch_ok L q"
    and "length fcs + length (concat (map qb_frames (wi_log_queue s))) < 2 ^ 64"
  shows "\<exists>t lss. run_flush_log no_faults s = (Inr (), t) \<and>
    log_inv L t (places (unat (wl_chunk_size L)) (concat (map qb_frames (wi_log_queue s))) fcs) \<and>
    wi_log_queue t = [] \<and> wi_next_lsn t = wi_next_lsn s \<and>
    concat lss = concat (map qb_lsns (wi_log_queue s)) \<and> wi_flush_waiter t = fold ready lss (wi_flush_waiter s)"
  unfolding run_flush_log_def using assms by (intro flush_loop_ok) auto

lemma group_commit_ok:
  assumes inv: "log_inv L s fcs" and idle: "wal_idle b s" and C: "codec_ok C" and L: "wal_layout_ok L"
    and v: "msg_to_vec C v = Some payload" and room: "wal_room s (length (parts_of C L v))"
  defines "cs \<equiv> parts_of C L v" and "lsn \<equiv> wi_next_lsn s"
  shows "\<exists>t. append_entry_group_commit X C no_faults v s = (Inr (), t) \<and>
    log_inv L t (places (unat (wl_chunk_size L)) (entry_frames X cs lsn) fcs) \<and>
    wal_idle b t \<and> wi_next_lsn t = lsn + of_nat (length cs)"
proof -
  let ?m = "unat (wl_chunk_size L)" and ?k = "length cs"
  let ?fs = "entry_frames X cs lsn" and ?lsns = "map (\<lambda>i. lsn + of_nat i) [0..<length cs]"
  have "payload \<noteq> []" using C v by (auto simp: codec_ok_def)
  then have ser: "serialize_entry X C v ?m lsn = (Inr ?fs, lsn + of_nat ?k)"
    using serialize_entry_frames [OF v, of ?m X lsn] L v by (simp add: cs_def parts_of_def wal_layout_ok_def)
  have ok: "parts_ok cs" using codec_parts_ok(1) [OF C v] L v by (simp add: cs_def parts_of_def wal_layout_ok_def)
  then have k: "0 < ?k" by (auto simp: parts_ok_def)
  let ?s1 = "s\<lparr>wi_next_lsn := lsn + of_nat ?k\<rparr>"
  let ?batch = "\<lparr>qb_frames = ?fs, qb_lsns = ?lsns, qb_bytes = sum_list (map length ?fs), qb_enqueued_at = os_now (wi_os s), qb_force_flush = True\<rparr>"
  let ?s2 = "?s1\<lparr>wi_log_queue := [?batch]\<rparr>"
  have inv2: "log_inv L ?s2 fcs" using inv by (simp add: log_inv_def cache_ok_def)
  have ne: "?fs \<noteq> []" using k by (simp add: entry_frames_def)
  have batch: "batch_ok L ?batch" using ne L entry_frame_ok [of L _ X C v lsn] by (auto simp: batch_ok_def cs_def)
  have rm: "length fcs + ?k < 2 ^ 64" "unat lsn + ?k < 2 ^ 64"
    using room inv by (simp_all add: wal_room_def log_inv_def log_state_def cs_def lsn_def)
  obtain t lss where t: "run_flush_log no_faults ?s2 = (Inr (), t)" "log_inv L t (places ?m ?fs fcs)" "wi_log_queue t = []"
    "wi_next_lsn t = lsn + of_nat ?k" "concat lss = ?lsns" "wi_flush_waiter t = fold ready lss (wi_flush_waiter s)"
    using run_flush_ok [OF inv2] batch rm(1) by auto
  have un: "unat (lsn + of_nat i) = unat lsn + i" if "i \<le> ?k" for i
    using that rm(2) by (subst unat_add_eq) (auto simp: unat_u64_small)
  have below: "U64_MAX \<notin> {b..<x}" for x :: u64 by simp
  have "waits b ({b..<lsn} \<union> set (concat lss)) (wi_flush_waiter t)"
    unfolding t(6) by (rule waits_fold) (use idle below [of lsn] below [of "lsn + of_nat ?k"] lsn_range [OF rm(2)] in \<open>auto simp: wal_idle_def lsn_def t(5)\<close>)
  moreover have le: "b \<le> lsn" "lsn \<le> lsn + of_nat ?k"
    using idle un [of ?k] by (simp_all add: wal_idle_def lsn_def word_le_nat_alt)
  ultimately have w: "waits b {b..<lsn + of_nat ?k} (wi_flush_waiter t)"
    using lsn_range [OF rm(2)] ivl_disj_un_two(3) [OF le] unfolding t(5) by simp
  obtain j where j: "?k = Suc j" using k by (cases ?k) auto
  have unj: "unat (lsn + of_nat j) = unat lsn + j" and unk: "unat (lsn + of_nat ?k) = unat lsn + ?k"
    using j by (intro un, simp)+
  have "last ?lsns = lsn + of_nat j" unfolding j by simp
  moreover have "lsn \<le> lsn + of_nat j" "lsn + of_nat j < lsn + of_nat ?k"
    unfolding word_le_nat_alt word_less_nat_alt unj unk using j by simp_all
  ultimately have over: "wait_over (wi_flush_waiter t) (last ?lsns)"
    using wait_over_iff [OF w, of "last ?lsns"] le(1) by (auto intro: order.trans order.strict_trans1)
  have "append_entry_group_commit X C no_faults v s = (Inr (), t)"
    using ser frame_lsns_entry [OF ok, of X lsn] t(1) over idle inv ne
    by (simp add: append_entry_group_commit_def backend_serialize_entry_def append_group_commit_def enqueue_group_commit_def
        frame_size_limit_def bind_se_def lift_se_def write_se_def return_se_def read_se_def lsn_def log_inv_def wal_idle_def)
  then show ?thesis using t(2-4) w le by (auto simp: wal_idle_def)
qed

section \<open>Reading the chunk files\<close>

text \<open>A disk whose log directory holds chunk files with the given contents and nothing else.\<close>

definition chunk_files :: "WorkerLogLayout \<Rightarrow> disk \<Rightarrow> byte list list \<Rightarrow> bool" where
  "chunk_files L d bss \<longleftrightarrow> dir_clean L d \<and>
     (\<forall>q. map_of d (chunk_path L q) = (if unat q < length bss then Some (bss ! unat q) else None))"

lemma holds_chunk_files: "dir_clean L d \<Longrightarrow> holds L d fcs \<Longrightarrow> chunk_files L d (map concat fcs)"
  by (simp add: holds_def chunk_files_def)

lemma collect_chunk_paths: "collect_chunks L (map (chunk_path L) qs) = Inr (map (\<lambda>q. (q, chunk_path L q)) qs)"
  by (induction qs) (simp_all add: parse_chunk_path)

lemma set_read_dir: "set (read_dir d dir) = {p. fst p = dir \<and> map_of d p \<noteq> None}"
  by (auto simp: read_dir_def map_of_eq_None_iff)

lemma of_nat_list:
  assumes "n \<le> 2 ^ 64"
  shows "sorted (map (of_nat :: nat \<Rightarrow> u64) [0..<n])" "distinct (map (of_nat :: nat \<Rightarrow> u64) [0..<n])"
    "set (map (of_nat :: nat \<Rightarrow> u64) [0..<n]) = {q. unat q < n}"
proof -
  have un: "unat (of_nat i :: u64) = i" if "i < n" for i using that assms by (intro unat_u64_small) simp
  show "sorted (map (of_nat :: nat \<Rightarrow> u64) [0..<n])"
    using un by (auto simp: sorted_iff_nth_mono word_le_nat_alt)
  show "distinct (map (of_nat :: nat \<Rightarrow> u64) [0..<n])"
    using un by (auto simp: distinct_map inj_on_def) (metis un)
  show "set (map (of_nat :: nat \<Rightarrow> u64) [0..<n]) = {q. unat q < n}"
    using un by (auto simp: image_iff) (metis atLeastLessThan_iff le0 of_nat_unat_eq)
qed

lemma insort_tagged: "insort_key fst (q, f q) (map (\<lambda>q. (q, f q)) xs) = map (\<lambda>q. (q, f q)) (insort q xs)"
  by (induction xs) simp_all

lemma sort_tagged: "sort_key fst (map (\<lambda>q. (q, f q)) xs) = map (\<lambda>q. (q, f q)) (sort xs)"
  by (induction xs) (simp_all add: insort_tagged)

lemma chunk_paths_list:
  assumes "chunk_files L d bss" and "length bss \<le> 2 ^ 64"
  shows "chunk_paths_sorted L d = Inr (map (\<lambda>i. chunk_path L (of_nat i)) [0..<length bss])"
proof -
  let ?ps = "read_dir d (wl_log_dir L)"
  have "set ?ps = chunk_path L ` {q. unat q < length bss}"
    using assms(1) unfolding set_read_dir chunk_files_def dir_clean_def
    by (auto simp: image_iff split: if_splits) (metis (mono_tags) not_None_eq option.distinct(1) rangeE)
  then obtain qs where qs: "?ps = map (chunk_path L) qs" using ex_map_conv by (metis (no_types, lifting) imageE)
  have "set qs = {q. unat q < length bss}"
    using \<open>set ?ps = _\<close> unfolding qs by (simp add: inj_image_eq_iff inj_def)
  moreover have "distinct qs" using qs by (metis distinct_filter distinct_map distinct_remdups read_dir_def)
  ultimately have sorted: "sort qs = map of_nat [0..<length bss]"
    using of_nat_list [OF assms(2)] by (intro sorted_distinct_set_unique) simp_all
  then show ?thesis by (simp add: chunk_paths_sorted_def qs collect_chunk_paths sort_tagged comp_def)
qed

lemma read_chunks:
  assumes "chunk_files L d bss" and "length bss \<le> 2 ^ 64"
  shows "bind_rs (chunk_paths_sorted L d) (map_rs (read_all d)) = Inr bss"
proof -
  have "read_all d (chunk_path L (of_nat i)) = Inr (bss ! i)" if "i < length bss" for i
    using assms that unat_u64_small [of i] by (simp add: chunk_files_def read_all_def)
  then have "map_rs (read_all d) (map (\<lambda>i. chunk_path L (of_nat i)) is) = Inr (map (\<lambda>i. bss ! i) is)"
    if "set is \<subseteq> {..<length bss}" for "is"
    using that by (induction "is") auto
  then show ?thesis by (simp add: chunk_paths_list [OF assms] subset_iff map_nth)
qed

text \<open>A torn chunk file: whole frames, then bytes that are not one.\<close>

lemma recover_chunks:
  assumes "chunk_files L d (map chunk_file parts)" and "length parts \<le> 2 ^ 64" and "\<forall>c \<in> set parts. chunk_ok X c"
    and "decode_loop X C (concat (map fst parts)) pending_init = Inr (es, st)"
  shows "typed_recover X C L d handle finish =
    bind_se (fold_se (\<lambda>(lsn, v). handle v lsn) es) (\<lambda>_. finish)"
  using read_chunks [OF assms(1)] assms(2) recover_loop_entries [OF assms(3) pending_ok_init assms(4), of handle]
  by (simp add: typed_recover_def recover_def bind_se_def lift_se_def fun_eq_iff)

lemma recover_decode_error:
  assumes "chunk_files L d [concat fs]" and "\<forall>f \<in> set fs. valid_frame X f" and "fs \<noteq> []"
    and "decode_loop X C fs pending_init = Inl e"
  shows "typed_recover X C L d handle finish s = (Inl e, s)"
proof -
  have "concat fs \<noteq> []" using assms(2,3) valid_frame_nonempty by (cases fs) auto
  moreover have "decode_chunk_frames_for_recovery X (concat fs) = fs"
    using chunk_frames [of X "(fs, [])"] assms(2) by (simp add: chunk_ok_def)
  ultimately show ?thesis
    using read_chunks [OF assms(1)] assms(4)
    by (auto simp: typed_recover_def recover_def bind_se_def lift_se_def decode_entries_pending_ok)
qed

end
