(* ===== verification/Wal_Reopen.thy ===== *)
theory Wal_Reopen
  imports Wal_Recovery
begin

text \<open>
  Opening a worker log on the chunk files a crash left behind: the probe for chunk files ends, torn
  tails are cut, and the log continues after the last whole frame with an LSN that was not used.
\<close>

section \<open>Probing\<close>

lemma saturating_Suc:
  assumes "Suc i < 2 ^ 64"
  shows "saturating_add (of_nat i) 1 = of_nat (Suc i)"
proof -
  have "unat (of_nat i :: u64) = i" using assms by (intro unat_u64_small) simp
  then show ?thesis using assms by (simp add: saturating_add_def add.commute)
qed

lemma probe_loop_eq:
  assumes "\<And>k. k < n \<Longrightarrow> path_exists d (chunk_path L (of_nat k))" and "\<not> path_exists d (chunk_path L (of_nat n))"
    and "n < 2 ^ 64" and "i \<le> n"
  shows "probe_loop L d (of_nat i) acc = Some (acc @ map of_nat [i..<n])"
  using assms(4)
proof (induction "n - i" arbitrary: i acc)
  case 0
  then show ?case using assms(2) by (simp add: probe_loop.simps)
next
  case (Suc k)
  have i: "i < n" using Suc(2) by simp
  moreover have "[i..<n] = i # [Suc i..<n]" using i by (rule upt_conv_Cons)
  ultimately show ?case
    using Suc(1) [of "Suc i" "acc @ [of_nat i]"] Suc(2) assms(1) [of i] saturating_Suc [of i] assms(3)
    by (subst probe_loop.simps) (simp del: of_nat_Suc)
qed

text \<open>Whatever the directory contains, the probe ends, because a disk has finitely many files.\<close>

lemma probe_ends:
  assumes "length d < 2 ^ 64"
  shows "\<exists>n. n \<le> length d \<and> probe_loop L d 0 [] = Some (map of_nat [0..<n])"
proof -
  define P where "P n \<longleftrightarrow> \<not> path_exists d (chunk_path L (of_nat n))" for n
  have "\<exists>n \<le> length d. P n"
  proof (rule ccontr)
    assume "\<not> (\<exists>n \<le> length d. P n)"
    then have "chunk_path L (of_nat n) \<in> fst ` set d" if "n \<le> length d" for n
      using that by (auto simp: P_def path_exists_def map_of_eq_None_iff)
    then have sub: "(\<lambda>n. chunk_path L (of_nat n)) ` {..length d} \<subseteq> fst ` set d" by auto
    have "inj_on (\<lambda>n. chunk_path L (of_nat n)) {..length d}"
    proof (rule inj_onI)
      fix a b assume "a \<in> {..length d}" "b \<in> {..length d}" "chunk_path L (of_nat a) = chunk_path L (of_nat b)"
      then have eq: "(of_nat a :: u64) = of_nat b" and "a < 2 ^ 64" "b < 2 ^ 64" using assms by auto
      then show "a = b" using unat_u64_small by metis
    qed
    then have "Suc (length d) \<le> card (fst ` set d)" using card_mono [OF _ sub] by (simp add: card_image)
    also have "\<dots> \<le> length d" using card_image_le [of "set d" fst] card_length [of d] by simp
    finally show False by simp
  qed
  then obtain m where m: "P m" "m \<le> length d" by blast
  define n where "n = (LEAST n. P n)"
  have n: "P n" "n \<le> length d" "\<And>k. k < n \<Longrightarrow> \<not> P k"
    using LeastI [of P m] Least_le [of P m] not_less_Least m by (auto simp: n_def)
  have "probe_loop L d (of_nat 0) [] = Some ([] @ map of_nat [0..<n])"
    by (rule probe_loop_eq) (use n assms in \<open>auto simp: P_def\<close>)
  then show ?thesis using n(2) by (intro exI [of _ n]) simp
qed

section \<open>Cutting torn tails\<close>

definition covers :: "ext \<Rightarrow> LSN option \<Rightarrow> byte list list \<Rightarrow> bool" where
  "covers X m fs \<longleftrightarrow> (\<forall>f \<in> set fs. \<exists>l. m = Some l \<and> frame_lsn_of X f \<le> l) \<and> (\<forall>l. m = Some l \<longrightarrow> l \<in> frame_lsn_of X ` set fs)"

lemma covers_fold: "covers X m fs \<Longrightarrow> covers X (foldl join_lsn m (map (frame_lsn_of X) gs)) (fs @ gs)"
proof (induction gs arbitrary: m fs)
  case (Cons g gs)
  have "covers X (join_lsn m (frame_lsn_of X g)) (fs @ [g])"
    using Cons.prems by (auto simp: covers_def join_lsn_def le_max_iff_disj max_def split: option.split)
  from Cons.IH [OF this] show ?case by simp
qed simp

lemma covers_join:
  assumes "covers X m fs" and "covers X m' gs"
  shows "covers X (case m' of None \<Rightarrow> m | Some l \<Rightarrow> max_opt m l) (fs @ gs)"
  using assms
  by (cases m; cases m') (auto simp: covers_def max_opt_def le_max_iff_disj max_def)

abbreviation cut_files :: "(byte list list \<times> byte list) list \<Rightarrow> nat \<Rightarrow> byte list list" where
  "cut_files parts i \<equiv> map (\<lambda>c. concat (fst c)) (take i parts) @ map chunk_file (drop i parts)"

lemma cut_files_Suc: "i < length parts \<Longrightarrow> cut_files parts (Suc i) = (cut_files parts i)[i := concat (fst (parts ! i))]"
proof -
  assume i: "i < length parts"
  have "drop i parts = parts ! i # drop (Suc i) parts" by (rule Cons_nth_drop_Suc [OF i, symmetric])
  then show ?thesis using i by (simp add: take_Suc_conv_app_nth list_update_append)
qed

lemma chunk_files_update:
  assumes "chunk_files L d bss" and "unat q < length bss" and "map_of d' = (map_of d) (chunk_path L q := Some bs)"
  shows "chunk_files L d' (bss[unat q := bs])"
  using assms by (auto simp: chunk_files_def dir_clean_def nth_list_update dest: word_unat_eq_iff [THEN iffD2])

lemma map_of_truncate:
  assumes "map_of d p = Some bytes" and "len \<le> length bytes"
  shows "map_of (truncate_file_to d p len) = (map_of d) (p := Some (take len bytes))"
  using assms by (simp add: truncate_file_to_def update_conv')

lemma walk_chunk_ok:
  assumes d: "chunk_files L d (cut_files parts i)" and i: "i < length parts" and n: "length parts < 2 ^ 64"
    and ok: "chunk_ok X (parts ! i)" and m: "covers X m (concat (map fst (take i parts)))"
  shows "\<exists>m' d'. walk_chunk X L (of_nat (length parts - 1)) (of_nat i) (m, ts, d) =
      Inr (m', if Suc i = length parts then of_nat (frames_len (fst (parts ! i))) else ts, d') \<and>
    chunk_files L d' (cut_files parts (Suc i)) \<and> covers X m' (concat (map fst (take (Suc i) parts)))"
proof -
  let ?c = "parts ! i" and ?q = "of_nat i :: u64"
  have q: "unat ?q = i" using i n by (intro unat_u64_small) simp
  have cur: "map_of d (chunk_path L ?q) = Some (chunk_file ?c)"
    using d i q by (simp add: chunk_files_def nth_append)
  have last: "?q = of_nat (length parts - 1) \<longleftrightarrow> Suc i = length parts"
  proof -
    have "unat (of_nat (length parts - 1) :: u64) = length parts - 1" using n by (intro unat_u64_small) simp
    then have "?q = of_nat (length parts - 1) \<longleftrightarrow> i = length parts - 1" using q by (metis of_nat_unat_eq)
    then show ?thesis using i by auto
  qed
  obtain e where e: "scan_valid_frame_prefix X (chunk_file ?c) = \<lparr>valid_len = frames_len (fst ?c), prefix_frames = fst ?c,
      max_lsn = foldl join_lsn None (map (frame_lsn_of X) (fst ?c)), corrupt_reason = e\<rparr>" "e = None \<longleftrightarrow> snd ?c = []"
    using scan_prefix [of "fst ?c" X "snd ?c"] ok by (auto simp: chunk_ok_def)
  let ?d' = "if e = None then d else truncate_file_to d (chunk_path L ?q) (frames_len (fst ?c))"
  let ?m' = "case foldl join_lsn None (map (frame_lsn_of X) (fst ?c)) of None \<Rightarrow> m | Some l \<Rightarrow> max_opt m l"
  have "walk_chunk X L (of_nat (length parts - 1)) ?q (m, ts, d) =
      Inr (?m', if Suc i = length parts then of_nat (frames_len (fst ?c)) else ts, ?d')"
    using cur e last by (auto simp: walk_chunk_def read_all_def Let_def)
  moreover have upd: "map_of ?d' = (map_of d) (chunk_path L ?q := Some (concat (fst ?c)))"
    using cur e(2) map_of_truncate [OF cur, of "frames_len (fst ?c)"] by (auto simp: fun_upd_idem_iff)
  have "unat ?q < length (cut_files parts i)" using q i by simp
  then have "chunk_files L ?d' (cut_files parts (Suc i))"
    using chunk_files_update [OF d _ upd] unfolding q cut_files_Suc [OF i] by blast
  moreover have "covers X ?m' (concat (map fst (take (Suc i) parts)))"
    using covers_join [OF m covers_fold [of X None "[]" "fst ?c"]] i by (simp add: take_Suc_conv_app_nth covers_def)
  ultimately show ?thesis by blast
qed

lemma walk_chunks_ok:
  assumes n: "length parts < 2 ^ 64" and ok: "\<forall>c \<in> set parts. chunk_ok X c"
    and "chunk_files L d (cut_files parts i)" and "i < length parts" and "covers X m (concat (map fst (take i parts)))"
  shows "\<exists>m' d'. fold_rs (walk_chunk X L (of_nat (length parts - 1))) (map of_nat [i..<length parts]) (m, ts, d) =
      Inr (m', of_nat (frames_len (fst (last parts))), d') \<and>
    chunk_files L d' (map (\<lambda>c. concat (fst c)) parts) \<and> covers X m' (concat (map fst parts))"
  using assms(3-)
proof (induction "length parts - i" arbitrary: i d m ts)
  case (Suc k)
  obtain m1 d1 where w: "walk_chunk X L (of_nat (length parts - 1)) (of_nat i) (m, ts, d) =
      Inr (m1, if Suc i = length parts then of_nat (frames_len (fst (parts ! i))) else ts, d1)"
    "chunk_files L d1 (cut_files parts (Suc i))" "covers X m1 (concat (map fst (take (Suc i) parts)))"
    using walk_chunk_ok [OF Suc.prems(1,2) n _ Suc.prems(3), of ts] ok Suc.prems(2) by auto
  have cons: "map of_nat [i..<length parts] = (of_nat i :: u64) # map of_nat [Suc i..<length parts]"
    using upt_conv_Cons [OF Suc.prems(2)] by simp
  show ?case
  proof (cases "Suc i = length parts")
    case True
    then have "last parts = parts ! i" by (metis diff_Suc_1 last_conv_nth length_greater_0_conv zero_less_Suc)
    then show ?thesis using w True unfolding cons by simp
  next
    case False
    then show ?thesis using Suc.hyps(1) [of "Suc i" d1 m1 ts] w Suc.prems(2) Suc.hyps(2) unfolding cons by simp
  qed
qed simp

section \<open>Opening\<close>

lemma chunk_sequences_eq:
  assumes "chunk_files L d bss" and "length bss < 2 ^ 64"
  shows "chunk_sequences_async L d = Inr (map of_nat [0..<length bss])"
proof -
  have un: "unat (of_nat k :: u64) = k" if "k \<le> length bss" for k using that assms(2) by (intro unat_u64_small) simp
  have ex: "path_exists d (chunk_path L (of_nat k)) \<longleftrightarrow> k < length bss" if "k \<le> length bss" for k
    using assms(1) un [OF that] by (simp add: path_exists_def chunk_files_def)
  have "probe_loop L d (of_nat 0) [] = Some ([] @ map of_nat [0..<length bss])"
    by (rule probe_loop_eq) (use ex assms(2) in auto)
  then show ?thesis by (simp add: chunk_sequences_async_def)
qed

lemma scan_tail_async_ok:
  assumes d: "chunk_files L d (map chunk_file parts)" and n: "length parts < 2 ^ 64"
    and ok: "\<forall>c \<in> set parts. chunk_ok X c"
  shows "\<exists>t m d'. scan_tail_async X L d = Inr (t, d') \<and> chunk_files L d' (map (\<lambda>c. concat (fst c)) parts) \<and>
    covers X m (concat (map fst parts)) \<and> wt_next_lsn t = next_after m \<and> unat (wt_next_sequence t) = length parts \<and>
    (if parts \<noteq> [] \<and> (of_nat (frames_len (fst (last parts))) :: u64) < wl_chunk_size L
     then wt_current_sequence t = Some (of_nat (length parts - 1)) \<and> wt_current_size t = of_nat (frames_len (fst (last parts)))
     else wt_current_sequence t = None \<and> wt_current_size t = 0)"
proof (cases "parts = []")
  case True
  then have "scan_tail_async X L d = Inr (empty_tail, d)"
    using chunk_sequences_eq [OF d] by (simp add: scan_tail_async_def)
  moreover have "wt_next_lsn empty_tail = next_after None" by (simp add: empty_tail_def next_after_def)
  ultimately show ?thesis using d True
    by (intro exI [of _ empty_tail] exI [of _ None] exI [of _ d]) (simp add: covers_def empty_tail_def)
next
  case False
  have seqs: "chunk_sequences_async L d = Inr (map of_nat [0..<length parts])"
    using chunk_sequences_eq [OF d] n by simp
  obtain k where len: "length parts = Suc k" using False by (cases parts) auto
  have last: "last (map of_nat [0..<length parts]) = (of_nat k :: u64)" by (subst len) simp
  obtain m d' where w: "fold_rs (walk_chunk X L (of_nat k)) (map of_nat [0..<length parts]) (None, 0, d) =
      Inr (m, of_nat (frames_len (fst (last parts))), d')"
    "chunk_files L d' (map (\<lambda>c. concat (fst c)) parts)" "covers X m (concat (map fst parts))"
    using walk_chunks_ok [OF n ok, of L d 0 None 0] d False by (auto simp: covers_def len simp del: upt_Suc)
  have unk: "unat (of_nat k :: u64) = k" using n len by (intro unat_u64_small) simp
  have add: "id_add (of_nat k) 1 = Inr (of_nat k + 1)" "unat (of_nat k + 1 :: u64) = length parts"
    using n unk len by (simp_all add: id_add_eq unat_add_eq)
  have "scan_tail_async X L d =
      bind_rs (tail_of L (of_nat k) (of_nat (frames_len (fst (last parts)))) (next_after m)) (\<lambda>t. Inr (t, d'))"
    using False w(1) by (simp add: scan_tail_async_def seqs last [simplified] del: upt_Suc)
  then show ?thesis using w(2,3) add False len
    by (intro exI [of _ "if (of_nat (frames_len (fst (last parts))) :: u64) < wl_chunk_size L then
          \<lparr>wt_current_sequence = Some (of_nat k), wt_current_size = of_nat (frames_len (fst (last parts))),
           wt_next_sequence = of_nat k + 1, wt_next_lsn = next_after m\<rparr>
        else \<lparr>wt_current_sequence = None, wt_current_size = 0, wt_next_sequence = of_nat k + 1, wt_next_lsn = next_after m\<rparr>"]
        exI [of _ m] exI [of _ d']) (simp add: tail_of_def)
qed

lemma backend_new_ok:
  assumes d: "chunk_files L (os_files w) (map chunk_file parts)" and n: "length parts < 2 ^ 64"
    and ok: "\<forall>c \<in> set parts. chunk_ok X c" and sizes: "\<forall>c \<in> set parts. frames_len (fst c) < 2 ^ 64"
    and policy: "wl_sync_policy L = Commit"
  shows "\<exists>s. backend_new X L w = Inr s \<and> log_inv L s (map fst parts) \<and> wal_idle (wi_next_lsn s) s \<and>
    unat (cl_next_sequence (wi_state s)) = length parts \<and>
    (\<forall>f \<in> set (concat (map fst parts)). frame_lsn_of X f = U64_MAX \<or> frame_lsn_of X f < wi_next_lsn s) \<and>
    (wi_next_lsn s = 0 \<or> (\<exists>f \<in> set (concat (map fst parts)). wi_next_lsn s = saturating_add (frame_lsn_of X f) 1))"
proof -
  obtain t m d' where t: "scan_tail_async X L (os_files w) = Inr (t, d')" "chunk_files L d' (map (\<lambda>c. concat (fst c)) parts)"
    "covers X m (concat (map fst parts))" "wt_next_lsn t = next_after m" "unat (wt_next_sequence t) = length parts"
    "if parts \<noteq> [] \<and> (of_nat (frames_len (fst (last parts))) :: u64) < wl_chunk_size L
     then wt_current_sequence t = Some (of_nat (length parts - 1)) \<and> wt_current_size t = of_nat (frames_len (fst (last parts)))
     else wt_current_sequence t = None \<and> wt_current_size t = 0"
    using scan_tail_async_ok [OF d n ok] by blast
  let ?s = "from_tail L t (w\<lparr>os_files := d', os_durable := d'\<rparr>)"
  have un: "unat (of_nat (frames_len (fst (last parts))) :: u64) = frames_len (fst (last parts))" if "parts \<noteq> []"
    using that sizes by (intro unat_u64_small) simp
  have "log_state (ChunkedWorkerLog_new L t) (map fst parts)"
    using t(5,6) un by (cases "parts = []") (auto simp: log_state_def ChunkedWorkerLog_new_def open_chunk_def last_map word_less_nat_alt)
  moreover have "holds L d' (map fst parts)" "dir_clean L d'"
    using t(2) by (auto simp: holds_def chunk_files_def)
  ultimately have inv: "log_inv L ?s (map fst parts)"
    using policy by (simp add: log_inv_def from_tail_def ChunkedWorkerLog_new_def cache_ok_def)
  have idle: "wal_idle (wi_next_lsn ?s) ?s" by (simp add: wal_idle_def from_tail_def waits_new)
  have above: "l = U64_MAX \<or> l < saturating_add k 1" if "l \<le> k" for l k :: u64
    using that saturating_add_1_gt [of k] saturating_add_ge [of k 1]
    by (cases "k = U64_MAX") (use word_order.extremum_unique [of l] in \<open>auto intro: order.strict_trans1 simp: order.order_iff_strict\<close>)
  have "\<forall>f \<in> set (concat (map fst parts)). frame_lsn_of X f = U64_MAX \<or> frame_lsn_of X f < wi_next_lsn ?s"
  proof
    fix f assume "f \<in> set (concat (map fst parts))"
    then obtain l where "m = Some l" "frame_lsn_of X f \<le> l" using t(3) unfolding covers_def by blast
    then show "frame_lsn_of X f = U64_MAX \<or> frame_lsn_of X f < wi_next_lsn ?s"
      using above t(4) by (simp add: from_tail_def next_after_def)
  qed
  moreover have "wi_next_lsn ?s = 0 \<or> (\<exists>f \<in> set (concat (map fst parts)). wi_next_lsn ?s = saturating_add (frame_lsn_of X f) 1)"
  proof (cases m)
    case (Some l)
    then have "l \<in> frame_lsn_of X ` set (concat (map fst parts))" using t(3) unfolding covers_def by blast
    then show ?thesis using t(4) Some by (auto simp: from_tail_def next_after_def)
  qed (use t(4) in \<open>simp add: from_tail_def next_after_def\<close>)
  moreover have "backend_new X L w = Inr ?s" by (simp add: backend_new_def t(1))
  moreover have "unat (cl_next_sequence (wi_state ?s)) = length parts"
    using t(5) by (simp add: from_tail_def ChunkedWorkerLog_new_def)
  ultimately show ?thesis using inv idle by blast
qed

end
