(* ===== verification/Wal_Durable.thy ===== *)
theory Wal_Durable
  imports Wal_Reopen
begin

text \<open>
  The contract of a worker log seen from outside: after any number of group commits the durable
  chunk files hold the committed entries, in order, and nothing else; LSNs are reported only for
  frames that are durable, also when I/O calls fail; space that was given out never overlaps.
\<close>

section \<open>The log as a list of entries\<close>

definition wal_ok :: "ext \<Rightarrow> 'l entry_codec \<Rightarrow> WorkerLogLayout \<Rightarrow> LSN \<Rightarrow> WorkerLogInner \<Rightarrow> (LSN \<times> 'l) list \<Rightarrow> bool" where
  "wal_ok X C L b s es \<longleftrightarrow> wal_idle b s \<and>
     (\<exists>fcs. log_inv L s fcs \<and> (\<forall>f \<in> set (concat fcs). valid_frame X f) \<and>
       decode_loop X C (concat fcs) pending_init = Inr (es, pending_init))"

lemma wal_append:
  assumes ok: "wal_ok X C L b s es" and C: "codec_ok C" and L: "wal_layout_ok L"
    and v: "msg_to_vec C v = Some payload" and room: "wal_room s (length (parts_of C L v))"
  shows "\<exists>t. append_entry_group_commit X C no_faults v s = (Inr (), t) \<and>
    wal_ok X C L b t (es @ [(wi_next_lsn s, v)]) \<and> wi_next_lsn t = wi_next_lsn s + of_nat (length (parts_of C L v)) \<and>
    unat (cl_next_sequence (wi_state t)) \<le> unat (cl_next_sequence (wi_state s)) + length (parts_of C L v)"
proof -
  let ?cs = "parts_of C L v" and ?n = "unat (wl_chunk_size L)" and ?lsn = "wi_next_lsn s"
  obtain fcs where fcs: "log_inv L s fcs" "\<forall>f \<in> set (concat fcs). valid_frame X f"
    "decode_loop X C (concat fcs) pending_init = Inr (es, pending_init)" and idle: "wal_idle b s"
    using ok by (auto simp: wal_ok_def)
  obtain t where t: "append_entry_group_commit X C no_faults v s = (Inr (), t)"
    "log_inv L t (places ?n (entry_frames X ?cs ?lsn) fcs)" "wal_idle b t" "wi_next_lsn t = ?lsn + of_nat (length ?cs)"
    using group_commit_ok [OF fcs(1) idle C L v room] by blast
  have "0 < ?n - 32" using L by (simp add: wal_layout_ok_def)
  then have cs: "parts_ok ?cs" "msg_from_slice C (concat ?cs) = Some v"
    using codec_parts_ok [OF C v, of "?n - 32"] v by (simp_all add: parts_of_def)
  have "decode_loop X C (concat fcs @ entry_frames X ?cs ?lsn) pending_init = Inr (es @ [(?lsn, v)], pending_init)"
    using fcs(3) decode_loop_entry [OF cs, of X ?lsn "[]"] by (simp add: decode_loop_append)
  moreover have "\<forall>f \<in> set (concat fcs @ entry_frames X ?cs ?lsn). valid_frame X f"
    using fcs(2) valid_entry_frames [OF cs(1), of X ?lsn] by auto
  ultimately have "wal_ok X C L b t (es @ [(?lsn, v)])"
    unfolding wal_ok_def using t(2,3) by (intro conjI exI [of _ "places ?n (entry_frames X ?cs ?lsn) fcs"]) auto
  moreover have "unat (cl_next_sequence (wi_state t)) \<le> unat (cl_next_sequence (wi_state s)) + length ?cs"
    using t(2) fcs(1) length_places [of ?n "entry_frames X ?cs ?lsn" fcs] by (simp add: log_inv_def log_state_def)
  ultimately show ?thesis using t(1,4) by blast
qed

text \<open>The entries of a log with the LSN each of them starts at.\<close>

fun starts :: "'l entry_codec \<Rightarrow> WorkerLogLayout \<Rightarrow> LSN \<Rightarrow> 'l list \<Rightarrow> (LSN \<times> 'l) list" where
  "starts C L lsn [] = []"
| "starts C L lsn (v # vs) = (lsn, v) # starts C L (lsn + of_nat (length (parts_of C L v))) vs"

lemma map_snd_starts [simp]: "map snd (starts C L lsn vs) = vs"
  by (induction vs arbitrary: lsn) simp_all

definition parts_sum :: "'l entry_codec \<Rightarrow> WorkerLogLayout \<Rightarrow> 'l list \<Rightarrow> nat" where
  "parts_sum C L vs = sum_list (map (\<lambda>v. length (parts_of C L v)) vs)"

lemma wal_append_all:
  assumes "codec_ok C" and "wal_layout_ok L" and "\<forall>v \<in> set vs. msg_to_vec C v \<noteq> None"
    and "wal_ok X C L b s es" and "wal_room s (parts_sum C L vs)"
  shows "\<exists>t. fold_se (append_entry_group_commit X C no_faults) vs s = (Inr (), t) \<and>
    wal_ok X C L b t (es @ starts C L (wi_next_lsn s) vs)"
  using assms(3-)
proof (induction vs arbitrary: s es)
  case (Cons v vs)
  obtain payload where v: "msg_to_vec C v = Some payload" using Cons.prems(1) by auto
  have room: "wal_room s (length (parts_of C L v))" using Cons.prems(3) by (simp add: wal_room_def parts_sum_def)
  obtain t where t: "append_entry_group_commit X C no_faults v s = (Inr (), t)"
    "wal_ok X C L b t (es @ [(wi_next_lsn s, v)])" "wi_next_lsn t = wi_next_lsn s + of_nat (length (parts_of C L v))"
    "unat (cl_next_sequence (wi_state t)) \<le> unat (cl_next_sequence (wi_state s)) + length (parts_of C L v)"
    using wal_append [OF Cons.prems(2) assms(1,2) v room] by blast
  have "unat (wi_next_lsn t) = unat (wi_next_lsn s) + length (parts_of C L v)"
    using t(3) room by (simp add: wal_room_def unat_add_eq unat_u64_small)
  then have "wal_room t (parts_sum C L vs)" using Cons.prems(3) t(4) by (simp add: wal_room_def parts_sum_def)
  from Cons.IH [OF _ t(2) this] Cons.prems(1) t(1,3) show ?case by (auto simp: bind_se_def)
qed (simp add: return_se_def)

lemma wal_ok_recover:
  assumes "wal_ok X C L b s es"
  shows "typed_recover X C L (os_durable (wi_os s)) handle finish = bind_se (fold_se (\<lambda>(lsn, v). handle v lsn) es) (\<lambda>_. finish)"
proof -
  obtain fcs where fcs: "log_inv L s fcs" "\<forall>f \<in> set (concat fcs). valid_frame X f"
    "decode_loop X C (concat fcs) pending_init = Inr (es, pending_init)" using assms by (auto simp: wal_ok_def)
  let ?parts = "map (\<lambda>fs. (fs, [])) fcs :: (byte list list \<times> byte list) list"
  have d: "holds L (os_durable (wi_os s)) fcs" "dir_clean L (os_durable (wi_os s))"
    using fcs(1) by (simp_all add: log_inv_def holds_def dir_clean_def)
  have files: "chunk_files L (os_durable (wi_os s)) (map chunk_file ?parts)"
    using holds_chunk_files [OF d(2,1)] by (simp add: comp_def)
  have len: "length ?parts \<le> 2 ^ 64"
    using fcs(1) unat_u64_bound [of "cl_next_sequence (wi_state s)"] by (simp add: log_inv_def log_state_def)
  have ok: "\<forall>c \<in> set ?parts. chunk_ok X c" using fcs(2) by (auto simp: chunk_ok_def)
  have "decode_loop X C (concat (map fst ?parts)) pending_init = Inr (es, pending_init)"
    using fcs(3) by (simp add: comp_def)
  from recover_chunks [OF files len ok this] show ?thesis .
qed

text \<open>The chunk files a crash may leave: whole frames, each file possibly with a torn tail, and numbers that leave
  room for \<open>k\<close> more frames.\<close>

definition crash_state :: "ext \<Rightarrow> WorkerLogLayout \<Rightarrow> disk \<Rightarrow> (byte list list \<times> byte list) list \<Rightarrow> nat \<Rightarrow> bool" where
  "crash_state X L d parts k \<longleftrightarrow>
     chunk_files L d (map chunk_file parts) \<and> length parts + k < 2 ^ 64 \<and> (\<forall>c \<in> set parts. chunk_ok X c) \<and>
     (\<forall>c \<in> set parts. frames_len (fst c) < 2 ^ 64) \<and>
     (\<forall>f \<in> set (concat (map fst parts)). unat (frame_lsn_of X f) + k + 1 < 2 ^ 64)"

lemma open_crashed:
  assumes "crash_state X L (os_files w) parts k" and "wl_sync_policy L = Commit"
  shows "\<exists>s. backend_new X L w = Inr s \<and> log_inv L s (map fst parts) \<and> wal_idle (wi_next_lsn s) s \<and> wal_room s k \<and>
    (\<forall>f \<in> set (concat (map fst parts)). frame_lsn_of X f < wi_next_lsn s)"
proof -
  obtain s where s: "backend_new X L w = Inr s" "log_inv L s (map fst parts)" "wal_idle (wi_next_lsn s) s"
    "unat (cl_next_sequence (wi_state s)) = length parts"
    "\<forall>f \<in> set (concat (map fst parts)). frame_lsn_of X f = U64_MAX \<or> frame_lsn_of X f < wi_next_lsn s"
    "wi_next_lsn s = 0 \<or> (\<exists>f \<in> set (concat (map fst parts)). wi_next_lsn s = saturating_add (frame_lsn_of X f) 1)"
    using backend_new_ok [of L w parts X] assms by (auto simp: crash_state_def)
  have small: "unat (frame_lsn_of X f) + k + 1 < 2 ^ 64" if "f \<in> set (concat (map fst parts))" for f
    using assms(1) that by (auto simp: crash_state_def)
  have "frame_lsn_of X f \<noteq> U64_MAX" if "f \<in> set (concat (map fst parts))" for f
    using small [OF that] unat_U64_MAX by auto
  moreover have "unat (wi_next_lsn s) + k < 2 ^ 64"
  proof (cases "wi_next_lsn s = 0")
    case False
    then obtain f where f: "f \<in> set (concat (map fst parts))" "wi_next_lsn s = saturating_add (frame_lsn_of X f) 1"
      using s(6) by blast
    then have "unat (wi_next_lsn s) \<le> unat (frame_lsn_of X f) + 1" by (simp add: unat_saturating_add)
    then show ?thesis using small [OF f(1)] by simp
  qed (use assms(1) in \<open>simp add: crash_state_def\<close>)
  ultimately show ?thesis using s assms(1) by (auto simp: wal_room_def crash_state_def)
qed

lemma wal_ok_open:
  assumes "crash_state X L (os_files w) parts k" and "wl_sync_policy L = Commit"
    and "decode_loop X C (concat (map fst parts)) pending_init = Inr (es, pending_init)"
  shows "\<exists>s. backend_new X L w = Inr s \<and> wal_ok X C L (wi_next_lsn s) s es \<and> wal_room s k \<and>
    (\<forall>f \<in> set (concat (map fst parts)). frame_lsn_of X f < wi_next_lsn s)"
proof -
  obtain s where s: "backend_new X L w = Inr s" "log_inv L s (map fst parts)" "wal_idle (wi_next_lsn s) s" "wal_room s k"
    "\<forall>f \<in> set (concat (map fst parts)). frame_lsn_of X f < wi_next_lsn s"
    using open_crashed [OF assms(1,2)] by blast
  then have "wal_ok X C L (wi_next_lsn s) s es"
    unfolding wal_ok_def using assms(1,3) by (intro conjI exI [of _ "map fst parts"]) (auto simp: chunk_ok_def crash_state_def)
  then show ?thesis using s by blast
qed

text \<open>A log that ends in some, but not all, frames of an entry accepts further entries, but cannot be recovered once it
  has one.\<close>

lemma dangling_append:
  assumes d: "crash_state X L (os_files w) parts (length (parts_of C L v))" and policy: "wl_sync_policy L = Commit"
    and C: "codec_ok C" and L: "wal_layout_ok L" and v: "msg_to_vec C v = Some payload"
    and frames: "concat (map fst parts) = fs @ take k (entry_frames X cs lsn)" "parts_ok cs" "0 < k" "k < length cs"
    and fs: "decode_loop X C fs pending_init = Inr (es, pending_init)"
    and len: "length cs \<noteq> k + length (parts_of C L v)" "k + length (parts_of C L v) \<le> 2 ^ 32"
  shows "\<exists>s t. backend_new X L w = Inr s \<and> append_entry_group_commit X C no_faults v s = (Inr (), t) \<and>
    (\<forall>handle finish \<sigma>. handler_total handle \<longrightarrow>
      fst (typed_recover X C L (os_durable (wi_os t)) handle finish \<sigma>) = Inl (EC Decode))"
proof -
  let ?ds = "parts_of C L v" and ?n = "unat (wl_chunk_size L)"
  obtain s where s: "backend_new X L w = Inr s" "log_inv L s (map fst parts)" "wal_idle (wi_next_lsn s) s" "wal_room s (length ?ds)"
    using open_crashed [OF d policy] by blast
  obtain t where t: "append_entry_group_commit X C no_faults v s = (Inr (), t)"
    "log_inv L t (places ?n (entry_frames X ?ds (wi_next_lsn s)) (map fst parts))"
    using group_commit_ok [OF s(2,3) C L v s(4)] by blast
  let ?g = "places ?n (entry_frames X ?ds (wi_next_lsn s)) (map fst parts)"
  let ?parts = "map (\<lambda>fs. (fs, [])) ?g :: (byte list list \<times> byte list) list"
  have "0 < ?n - 32" using L by (simp add: wal_layout_ok_def)
  then have ds: "parts_ok ?ds" using codec_parts_ok(1) [OF C v, of "?n - 32"] v by (simp add: parts_of_def)
  have files: "chunk_files L (os_durable (wi_os t)) (map chunk_file ?parts)"
    using t(2) holds_chunk_files [of L "os_durable (wi_os t)" ?g] by (simp add: log_inv_def holds_def dir_clean_def comp_def)
  have "length ?parts \<le> 2 ^ 64"
    using t(2) unat_u64_bound [of "cl_next_sequence (wi_state t)"] by (simp add: log_inv_def log_state_def)
  then have read: "bind_rs (chunk_paths_sorted L (os_durable (wi_os t))) (map_rs (read_all (os_durable (wi_os t)))) = Inr (map chunk_file ?parts)"
    using read_chunks [OF files] by simp
  have "\<forall>f \<in> set (concat ?g). valid_frame X f"
    using d valid_entry_frames [OF ds] by (auto simp: crash_state_def chunk_ok_def)
  then have ok: "\<forall>c \<in> set ?parts. chunk_ok X c" unfolding set_concat by (auto simp: chunk_ok_def)
  have "deserialize_entry X C (take k (entry_frames X cs lsn) @ entry_frames X ?ds (wi_next_lsn s)) = Inl (EC Decode)"
    using len by (intro deserialize_mismatch [OF frames(2-4)]) simp_all
  then have "decode_loop X C (take k (entry_frames X cs lsn) @ entry_frames X ?ds (wi_next_lsn s)) pending_init = Inl (EC Decode)"
    using decode_dangling [OF frames(2) ds frames(3,4), of X C lsn "wi_next_lsn s" "[]"] by simp
  then have "decode_loop X C (concat ?g) pending_init = Inl (EC Decode)"
    using fs by (simp add: frames(1) decode_loop_append [of X C fs])
  then have err: "decode_loop X C (concat (map fst ?parts)) pending_init = Inl (EC Decode)" by (simp add: comp_def)
  have "fst (typed_recover X C L (os_durable (wi_os t)) handle finish \<sigma>) = Inl (EC Decode)" if "handler_total handle"
    for handle :: "_ \<Rightarrow> LSN \<Rightarrow> ('s, unit) se" and finish \<sigma>
    using recover_loop_error [OF that ok pending_ok_init err, of \<sigma>]
    by (auto simp: typed_recover_def read recover_def bind_se_def lift_se_def)
  then show ?thesis using s(1) t(1) by blast
qed

section \<open>Reserved space does not overlap\<close>

lemma slots_index:
  assumes "(p, off) \<in> set (slots L n fs g)"
  shows "\<exists>k. p = chunk_path L (of_nat k) \<and> length g - 1 \<le> k \<and> k < length g + length fs"
  using assms
proof (induction fs arbitrary: g)
  case (Cons f fs)
  let ?h = "place n f g"
  have h: "length g \<le> length ?h" "length ?h \<le> Suc (length g)" "0 < length ?h" using length_place(1) [of g n f] length_place(2) [of n f g] by simp_all
  show ?case
  proof (cases "(p, off) \<in> set (slots L n fs ?h)")
    case True
    then show ?thesis using Cons.IH [OF True] h by force
  next
    case False
    then have p: "p = chunk_path L (of_nat (length ?h - 1))" using Cons.prems by (simp only: slots.simps slot_path_def) simp
    have "length g - 1 \<le> length ?h - 1" "length ?h - 1 < length g + length (f # fs)" using h by auto
    then show ?thesis using p by blast
  qed
qed simp

lemma slots_after:
  assumes "g \<noteq> []" and "length g + length fs < 2 ^ 64" and "(slot_path L g, off) \<in> set (slots L n fs g)"
  shows "frames_len (last g) \<le> off"
  using assms
proof (induction fs arbitrary: g)
  case (Cons f fs)
  let ?h = "place n f g"
  show ?case
  proof (cases "length ?h = length g")
    case True
    then have h: "?h = butlast g @ [last g @ [f]]" using Cons.prems(1) by (auto simp: place_def split: if_splits)
    then have "frames_len (last g) = slot_offset ?h" "slot_path L ?h = slot_path L g" "frames_len (last g) \<le> frames_len (last ?h)"
      using True by (simp_all add: slot_offset_def slot_path_def)
    then show ?thesis using Cons.prems Cons.IH [of ?h] True by fastforce
  next
    case False
    then have len: "length ?h = Suc (length g)" using length_place(1) [of g n f] length_place(2) [of n f g] by simp
    have differs: "slot_path L g \<noteq> chunk_path L (of_nat k)" if "length g \<le> k" "k < 2 ^ 64" for k
    proof
      assume "slot_path L g = chunk_path L (of_nat k)"
      then have "unat (of_nat (length g - 1) :: u64) = unat (of_nat k :: u64)" by (simp add: slot_path_def)
      then have "length g - 1 = k" using that Cons.prems(2) unat_u64_small [of k] unat_u64_small [of "length g - 1"] by simp
      then show False using that Cons.prems(1) by (cases g) auto
    qed
    have "slot_path L g \<noteq> slot_path L ?h" using differs [of "length g"] Cons.prems(2) len by (simp add: slot_path_def)
    moreover have "(slot_path L g, off) \<notin> set (slots L n fs ?h)"
    proof
      assume "(slot_path L g, off) \<in> set (slots L n fs ?h)"
      then obtain k where k: "slot_path L g = chunk_path L (of_nat k)" "length g \<le> k" "k < length ?h + length fs"
        using slots_index len by fastforce
      then have "k < 2 ^ 64" using Cons.prems(2) len by simp
      then show False using differs k(1,2) by blast
    qed
    ultimately show ?thesis using Cons.prems(3) by auto
  qed
qed simp

lemma slots_disjoint:
  assumes "length fcs + length fs < 2 ^ 64" and "i < j" and "j < length fs"
    and "fst (slots L n fs fcs ! i) = fst (slots L n fs fcs ! j)"
  shows "snd (slots L n fs fcs ! i) + length (fs ! i) \<le> snd (slots L n fs fcs ! j)"
  using assms
proof (induction fs arbitrary: fcs i j)
  case (Cons f fs)
  let ?h = "place n f fcs"
  have room: "length ?h + length fs < 2 ^ 64" using Cons.prems(1) length_place(2) [of n f fcs] by simp
  obtain j' where j: "j = Suc j'" "j' < length fs" using Cons.prems(2,3) by (cases j) auto
  show ?case
  proof (cases i)
    case 0
    have "slots L n fs ?h ! j' \<in> set (slots L n fs ?h)" using j by simp
    then have "frames_len (last ?h) \<le> snd (slots L n fs ?h ! j')"
      using slots_after [OF _ room, of L _ n] Cons.prems(4) 0 j by (metis fst_conv nth_Cons_0 nth_Cons_Suc place_nonempty prod.collapse slots.simps(2))
    moreover have "frames_len (last ?h) = slot_offset ?h + length f"
      by (subst place_slot) (simp add: slot_offset_def)
    ultimately show ?thesis using 0 j by simp
  next
    case (Suc i')
    then show ?thesis using Cons.IH [OF room, of i' j'] Cons.prems j by simp
  qed
qed simp

lemma slots_in_chunk:
  assumes "i < length fs"
  shows "snd (slots L n fs fcs ! i) + length (fs ! i) \<le> n \<or> snd (slots L n fs fcs ! i) = 0"
  using assms
proof (induction fs arbitrary: fcs i)
  case (Cons f fs)
  then show ?case by (cases i) (auto simp: place_def slot_offset_def)
qed simp

section \<open>LSNs are reported after the sync\<close>

text \<open>Steps that may fail anywhere.  \<open>grows s t\<close>: at most the cached handle changed and new files appeared.\<close>

definition grows :: "WorkerLogInner \<Rightarrow> WorkerLogInner \<Rightarrow> bool" where
  "grows s t \<longleftrightarrow> cache_ok t \<and> wi_flush_waiter t = wi_flush_waiter s \<and> os_durable (wi_os t) = os_durable (wi_os s) \<and>
     (\<forall>p f. map_of (os_files (wi_os s)) p = Some f \<longrightarrow> map_of (os_files (wi_os t)) p = Some f)"

lemma grows_handle: "grows s t \<Longrightarrow> handle_ok (os_files (wi_os s)) h \<Longrightarrow> handle_ok (os_files (wi_os t)) h"
  unfolding grows_def handle_ok_def by (metis not_None_eq)

lemma take_or_open_grows:
  assumes "take_or_open_file F p s = (r, t)" and "cache_ok s"
  shows "grows s t \<and> (\<forall>h. r = Inr h \<longrightarrow> h = p \<and> map_of (os_files (wi_os t)) p \<noteq> None)"
  using assms handle_ok_create
  by (cases "cl_current_file (wi_state s)"; cases "F (os_calls (wi_os s))")
    (auto simp: take_or_open_file_def take_cached_file_def take_current_file_def open_async_def sys_call_def
      bind_se_def return_se_def grows_def cache_ok_def handle_ok_def map_of_create Let_def split: if_splits prod.splits)

lemma checkout_grows:
  assumes "checkout_flush_file F p ofs s = (r, t)" and "cache_ok s" and "\<forall>h \<in> set ofs. handle_ok (os_files (wi_os s)) h"
  shows "grows s t \<and> (\<forall>h ofs'. r = Inr (h, ofs') \<longrightarrow> h = p \<and> map_of (os_files (wi_os t)) p \<noteq> None \<and>
    (\<forall>h \<in> set ofs'. handle_ok (os_files (wi_os t)) h))"
proof (cases "map_of ofs p")
  case None
  obtain r1 t1 where o: "take_or_open_file F p s = (r1, t1)" by (cases "take_or_open_file F p s")
  have "t = t1" "r = bind_rs r1 (\<lambda>h. Inr (h, ofs))"
    using assms(1) None o by (cases r1; simp add: checkout_flush_file_def bind_se_def return_se_def)+
  then show ?thesis
    using take_or_open_grows [OF o assms(2)] assms(3) grows_handle [of s t1] by (cases r1) auto
next
  case (Some h)
  then have "handle_ok (os_files (wi_os s)) (p, h)" using assms(3) map_of_SomeD by metis
  moreover have "set (AList.delete p ofs) \<subseteq> set ofs" by (auto simp: AList.delete_eq)
  ultimately show ?thesis
    using assms Some by (auto simp: checkout_flush_file_def return_se_def grows_def handle_ok_def)
qed

definition synced :: "path set \<Rightarrow> WorkerLogInner \<Rightarrow> bool" where
  "synced S s \<longleftrightarrow> (\<forall>p \<in> S. \<exists>f. map_of (os_files (wi_os s)) p = Some f \<and> map_of (os_durable (wi_os s)) p = Some f)"

lemma synced_grows: "synced S s \<Longrightarrow> grows s t \<Longrightarrow> synced S t"
  unfolding synced_def grows_def by metis

lemma fsync_outcome:
  assumes "fsync F p s = (r, t)" and "cache_ok s" and "map_of (os_files (wi_os s)) p \<noteq> None" and "synced S s"
  shows "cache_ok t \<and> wi_flush_waiter t = wi_flush_waiter s \<and> os_files (wi_os t) = os_files (wi_os s) \<and>
    (r = Inr () \<longrightarrow> synced (insert p S) t)"
  using assms
  by (cases "F (os_calls (wi_os s))")
    (auto simp: fsync_def sys_call_def cache_ok_def synced_def map_of_sync Let_def)

lemma handles_insert:
  assumes "\<forall>h \<in> set ofs. handle_ok d h" and "map_of d p \<noteq> None"
  shows "\<forall>h \<in> set (AList.update p p ofs). handle_ok d h"
  by (rule handles_update [OF assms(1)]) (use assms(2) in \<open>simp add: handle_ok_def\<close>)

lemma fsync_paths_report:
  assumes "fsync_paths F lsns ps ofs s = (r, t)" and "cache_ok s" and "\<forall>h \<in> set ofs. handle_ok (os_files (wi_os s)) h"
    and "synced S s"
  shows "wi_flush_waiter t = wi_flush_waiter s \<or> synced (S \<union> set ps) t"
  using assms
proof (induction ps arbitrary: ofs s S)
  case (Cons p ps)
  obtain r1 t1 where c: "checkout_flush_file F p ofs s = (r1, t1)" by (cases "checkout_flush_file F p ofs s")
  note g = checkout_grows [OF c Cons.prems(2,3)]
  show ?case
  proof (cases r1)
    case (Inl e)
    then show ?thesis using Cons.prems(1) c g by (auto simp: bind_se_def grows_def)
  next
    case (Inr a)
    then obtain ofs1 where a: "r1 = Inr (p, ofs1)" "\<forall>h \<in> set ofs1. handle_ok (os_files (wi_os t1)) h"
      and ex: "map_of (os_files (wi_os t1)) p \<noteq> None" using g by (cases a) auto
    have s1: "synced S t1" "cache_ok t1" "wi_flush_waiter t1 = wi_flush_waiter s"
      using g synced_grows [OF Cons.prems(4)] by (auto simp: grows_def)
    obtain r2 t2 where f: "fsync F p t1 = (r2, t2)" by (cases "fsync F p t1")
    note o = fsync_outcome [OF f s1(2) ex s1(1)]
    show ?thesis
    proof (cases r2)
      case (Inl e)
      then show ?thesis using Cons.prems(1) c a(1) f o s1(3) by (auto simp: bind_se_def Let_def)
    next
      case ok: (Inr u)
      show ?thesis
      proof (cases "ps = []")
        case True
        then have "t = with_waiter (ready lsns (wi_flush_waiter t2)) t2"
          using Cons.prems(1) c a f ok by (auto simp: bind_se_def complete_eq return_se_def with_waiter_def ready_def split: if_splits)
        moreover have "synced (insert p S) t2" using o ok by simp
        ultimately show ?thesis using True by (simp add: synced_def with_waiter_def)
      next
        case False
        then have "fsync_paths F lsns ps (AList.update p p ofs1) t2 = (r, t)"
          using Cons.prems(1) c a f ok by (simp add: bind_se_def return_se_def)
        moreover have "\<forall>h \<in> set (AList.update p p ofs1). handle_ok (os_files (wi_os t2)) h"
          using handles_insert [OF a(2) ex] o by simp
        ultimately show ?thesis using Cons.IH [of "AList.update p p ofs1" t2 "insert p S"] o ok s1(3) by auto
      qed
    qed
  qed
qed (simp add: return_se_def)

lemma write_outcome:
  assumes "write_all_at F p off bs s = (r, t)" and "cache_ok s"
  shows "cache_ok t \<and> wi_flush_waiter t = wi_flush_waiter s \<and>
    (\<forall>h. handle_ok (os_files (wi_os s)) h \<longrightarrow> handle_ok (os_files (wi_os t)) h)"
  using assms
  by (cases "F (os_calls (wi_os s))") (auto simp: write_all_at_def sys_call_def cache_ok_def handle_ok_write Let_def)

lemma write_loop_outcome:
  assumes "write_loop F ms ofs s = (r, t)" and "cache_ok s" and "\<forall>h \<in> set ofs. handle_ok (os_files (wi_os s)) h"
  shows "cache_ok t \<and> wi_flush_waiter t = wi_flush_waiter s \<and>
    (\<forall>ofs'. r = Inr ofs' \<longrightarrow> (\<forall>h \<in> set ofs'. handle_ok (os_files (wi_os t)) h))"
  using assms
proof (induction ms arbitrary: ofs s)
  case (Cons m ms)
  let ?p = "mw_path m"
  obtain r1 t1 where c: "checkout_flush_file F ?p ofs s = (r1, t1)" by (cases "checkout_flush_file F ?p ofs s")
  note g = checkout_grows [OF c Cons.prems(2,3)]
  show ?case
  proof (cases r1)
    case (Inl e)
    then show ?thesis using Cons.prems(1) c g by (auto simp: bind_se_def grows_def)
  next
    case (Inr a)
    then obtain ofs1 where a: "r1 = Inr (?p, ofs1)" "\<forall>h \<in> set ofs1. handle_ok (os_files (wi_os t1)) h"
      and ex: "map_of (os_files (wi_os t1)) ?p \<noteq> None" using g by (cases a) auto
    have s1: "cache_ok t1" "wi_flush_waiter t1 = wi_flush_waiter s" using g by (auto simp: grows_def)
    obtain r2 t2 where w: "write_all_at F ?p (mw_offset m) (mw_payload m) t1 = (r2, t2)"
      by (cases "write_all_at F ?p (mw_offset m) (mw_payload m) t1")
    note o = write_outcome [OF w s1(1)]
    have h: "\<forall>h \<in> set (AList.update ?p ?p ofs1). handle_ok (os_files (wi_os t2)) h"
      using handles_insert [OF a(2) ex] o by blast
    show ?thesis
    proof (cases r2)
      case (Inl e)
      then show ?thesis using Cons.prems(1) c a(1) w o s1(2) by (auto simp: bind_se_def)
    next
      case ok: (Inr u)
      then have "write_loop F ms (AList.update ?p ?p ofs1) t2 = (r, t)"
        using Cons.prems(1) c a w by (simp add: bind_se_def)
      then show ?thesis using Cons.IH [OF _ _ h] o s1(2) by auto
    qed
  qed
qed (auto simp: return_se_def)

lemma execute_report:
  assumes "execute_flush_batch F pr ofs s = (r, t)" and "cache_ok s" and "wi_sync_policy s = Commit"
    and "\<forall>h \<in> set ofs. handle_ok (os_files (wi_os s)) h"
  shows "wi_flush_waiter t = wi_flush_waiter s \<or> synced (set (pf_flush_paths pr)) t"
proof (cases "pf_writes pr = []")
  case True
  then show ?thesis using assms(1) by (simp add: execute_flush_batch_def return_se_def)
next
  case False
  obtain r1 t1 where w: "write_loop F (pf_writes pr) ofs s = (r1, t1)" by (cases "write_loop F (pf_writes pr) ofs s")
  note o = write_loop_outcome [OF w assms(2,4)]
  show ?thesis
  proof (cases r1)
    case (Inl e)
    then show ?thesis using assms(1) False w o by (auto simp: execute_flush_batch_def bind_se_def)
  next
    case (Inr ofs1)
    then have "fsync_paths F (pf_ready_lsns pr) (pf_flush_paths pr) ofs1 t1 = (r, t)"
      using assms(1,3) False w by (simp add: execute_flush_batch_def bind_se_def)
    then show ?thesis
      using fsync_paths_report [of F "pf_ready_lsns pr" "pf_flush_paths pr" ofs1 t1 r t "{}"] o Inr by (simp add: synced_def)
  qed
qed

text \<open>A round whose I/O fails: the batches are off the queue and their LSNs are not reported.\<close>

lemma execute_fails:
  assumes "pf_writes pr \<noteq> []"
  shows "\<exists>t. execute_flush_batch (\<lambda>_. Some (e, 0)) pr [] s = (Inl e, t) \<and>
    wi_log_queue t = wi_log_queue s \<and> wi_flush_waiter t = wi_flush_waiter s"
proof -
  obtain m ms where "pf_writes pr = m # ms" using assms by (cases "pf_writes pr") auto
  then show ?thesis
    by (cases "cl_current_file (wi_state s)")
      (auto simp: execute_flush_batch_def checkout_flush_file_def take_or_open_file_def take_cached_file_def take_current_file_def
        open_async_def write_all_at_def sys_call_def bind_se_def return_se_def Let_def)
qed

lemma failed_round:
  assumes inv: "log_inv L s fcs" and q: "wi_log_queue s = [q]" "batch_ok L q" and room: "length fcs + length (qb_frames q) < 2 ^ 64"
  shows "\<exists>t. run_flush_log (\<lambda>_. Some (e, 0)) s = (Inl e, t) \<and> wi_log_queue t = [] \<and> wi_flush_waiter t = wi_flush_waiter s"
proof -
  let ?s1 = "s\<lparr>wi_log_queue := []\<rparr>"
  have "wi_log_queue s \<noteq> []" using q(1) by simp
  then obtain k where k: "0 < k" "k \<le> length (wi_log_queue s)"
    "drain_pending_batches (effective_batching s) s = (Inr (take k (wi_log_queue s)), s\<lparr>wi_log_queue := drop k (wi_log_queue s)\<rparr>)"
    by (rule drain_ok)
  then have drain: "drain_pending_batches (effective_batching s) s = (Inr [q], ?s1)" using q(1) by simp
  have inv1: "log_inv L ?s1 fcs" using inv by (simp add: log_inv_def cache_ok_def)
  obtain pr st where pr: "prepare_flush_batch [q] ?s1 = (Inr pr, ?s1\<lparr>wi_state := st\<rparr>)" "pf_writes pr \<noteq> []"
    using prepare_ok [OF inv1, of "qb_frames q" "[q]"] q(2) room by (auto simp: batch_ok_def)
  obtain t where t: "execute_flush_batch (\<lambda>_. Some (e, 0)) pr [] (?s1\<lparr>wi_state := st\<rparr>) = (Inl e, t)" "wi_log_queue t = []"
    "wi_flush_waiter t = wi_flush_waiter s" using execute_fails [OF pr(2), of e "?s1\<lparr>wi_state := st\<rparr>"] by auto
  have "flush_loop (\<lambda>_. Some (e, 0)) (Suc (length (wi_log_queue s))) [] s = (Inl e, t)"
    using drain pr(1) t(1) by (simp add: bind_se_def)
  then show ?thesis using t(2,3) by (simp add: run_flush_log_def)
qed

end
