(* ===== verification/Wal_Properties.thy ===== *)
theory Wal_Properties
  imports Wal_Durable
begin

text \<open>
  What the write-ahead log of a worker promises: entries survive framing, splitting and torn writes; a
  group commit is acknowledged only when its entry is durable; recovery hands out what was
  committed.
\<close>

section \<open>Samples\<close>

text \<open>A serialisation crate for byte strings, and a log with chunks of 64 bytes.\<close>

definition raw_codec :: "byte list entry_codec" where
  "raw_codec = \<lparr>msg_to_vec = \<lambda>v. if v = [] \<or> length v \<ge> 2 ^ 32 then None else Some v, msg_from_slice = Some\<rparr>"

definition sample_layout :: WorkerLogLayout where
  "sample_layout = layout_new_inner (\<lambda>_. ''w'') ''wal'' 1 64"

definition sample_os :: os where
  "sample_os = \<lparr>os_files = [], os_durable = [], os_now = 0, os_calls = 0\<rparr>"

lemma raw_codec: "codec_ok raw_codec" "msg_to_vec raw_codec [1, 2, 3] = Some [1, 2, 3]"
  by (simp_all add: raw_codec_def codec_ok_def)

lemma sample_layout:
  "wal_layout_ok sample_layout" "wl_sync_policy sample_layout = Commit" "unat (wl_chunk_size sample_layout) = 64"
  by (simp_all add: sample_layout_def wal_layout_ok_def layout_new_inner_def)

lemma sample_parts: "chunks 2 [1, 2, 3 :: byte] = [[1, 2], [3]]"
  by (simp add: chunks.simps)

lemma sample_serialize: "serialize_entry X raw_codec [1, 2, 3] 34 lsn = (Inr (entry_frames X [[1, 2], [3]] lsn), lsn + 2)"
  using serialize_entry_frames [OF raw_codec(2), of 34 X lsn] by (simp add: sample_parts)

lemma sample_valid: "\<forall>f \<in> set (entry_frames X [[1, 2], [3]] lsn). valid_frame X f"
  by (rule valid_entry_frames) (simp add: parts_ok_def)

lemma sample_empty: "chunk_files sample_layout (os_files sample_os) []"
  by (simp add: chunk_files_def dir_clean_def sample_os_def)

section \<open>Frames and entries\<close>

text \<open>C19: an entry that was serialised is read back.  \<open>serialize_entry\<close> cuts the serialised entry into parts that
  fit \<open>max_part_size\<close>, frames each part with an LSN, a part counter and a checksum, and
  \<open>deserialize_entry\<close> joins the parts again; one LSN is used per frame.  What is relied on of the
  serialisation crate is \<open>codec_ok\<close>.\<close>

theorem entry_roundtrip:
  assumes "codec_ok C" and "serialize_entry X C v max_part_size lsn = (Inr frames, lsn')"
  shows "deserialize_entry X C frames = Inr v \<and> frame_lsns X frames = Inr (map (\<lambda>i. lsn + of_nat i) [0..<length frames]) \<and>
    lsn' = lsn + of_nat (length frames)"
proof -
  obtain cs where cs: "frames = entry_frames X cs lsn" "parts_ok cs" "msg_from_slice C (concat cs) = Some v"
    "lsn' = lsn + of_nat (length cs)" by (rule serialize_entryE [OF assms])
  then show ?thesis by (simp add: deserialize_entry_frames frame_lsns_entry)
qed

theorem entry_roundtrip_witness:
  "deserialize_entry le_ext raw_codec (entry_frames le_ext [[1, 2], [3]] 7) = Inr [1, 2, 3]"
  using entry_roundtrip [OF raw_codec(1) sample_serialize [of le_ext 7]] by simp

text \<open>C20: a crash in the middle of a write costs exactly the frame that was being written.  Of a chunk file that
  ends in the first \<open>k\<close> bytes of a frame, \<open>scan_valid_frame_prefix\<close> keeps all frames before it, stops at their
  end, and reports a torn tail exactly when there is one.\<close>

theorem torn_tail_dropped:
  assumes "\<forall>f \<in> set frames. valid_frame X f" and "valid_frame X torn" and "k < length torn"
  shows "prefix_frames (scan_valid_frame_prefix X (concat frames @ take k torn)) = frames \<and>
    valid_len (scan_valid_frame_prefix X (concat frames @ take k torn)) = length (concat frames) \<and>
    (corrupt_reason (scan_valid_frame_prefix X (concat frames @ take k torn)) = None \<longleftrightarrow> k = 0)"
proof -
  have "take k torn = [] \<or> no_frame X (take k torn)" using torn_no_frame [OF assms(2,3)] by blast
  moreover have "take k torn = [] \<longleftrightarrow> k = 0" using assms(3) by auto
  ultimately show ?thesis using scan_prefix [OF assms(1), of "take k torn"] by auto
qed

theorem torn_tail_dropped_witness:
  "prefix_frames (scan_valid_frame_prefix le_ext
     (concat [part_frame le_ext [[1, 2], [3]] 7 0] @ take 5 (part_frame le_ext [[1, 2], [3]] 7 1))) =
   [part_frame le_ext [[1, 2], [3]] 7 0]"
  using torn_tail_dropped [of "[part_frame le_ext [[1, 2], [3]] 7 0]" le_ext "part_frame le_ext [[1, 2], [3]] 7 1" 5]
    sample_valid [of le_ext 7]
  by (simp add: entry_frames_def length_part_frame)

text \<open>the strict decoder \<open>decode_frames\<close> accepts a payload exactly when it is a sequence of whole valid
  frames, and returns these frames.\<close>

lemma decode_frames_exact:
  "decode_frames X payload = Inr frames \<longleftrightarrow> payload = concat frames \<and> list_all (valid_frame X) frames"
  by (simp add: decode_frames_iff list_all_iff)

section \<open>The chunk files\<close>

text \<open>the name of a chunk file determines its sequence number: \<open>parse_chunk_sequence\<close> reads back what
  \<open>chunk_path\<close> wrote, for every 64-bit sequence number.\<close>

lemma chunk_name_roundtrip:
  "parse_chunk_sequence L (chunk_path L sequence) = Inr (Some sequence)"
  by (rule parse_chunk_path)

text \<open>C23: opening a log always ends.  \<open>chunk_sequences_async\<close> probes for chunk files without an upper bound; since a
  directory has fewer than \<open>2^64\<close> files, the probe stops and finds the chunk files that are numbered from
  0 without a gap.\<close>

theorem chunk_probe_terminates:
  assumes "length d < 2 ^ 64"
  shows "\<exists>n. n \<le> length d \<and> chunk_sequences_async L d = Inr (map of_nat [0..<n])"
  using probe_ends [OF assms, of L] by (auto simp: chunk_sequences_async_def)

theorem chunk_probe_terminates_witness:
  "\<exists>n \<le> 1. chunk_sequences_async sample_layout [(chunk_path sample_layout 0, [1])] = Inr (map of_nat [0..<n])"
  using chunk_probe_terminates [of "[(chunk_path sample_layout 0, [1])]" sample_layout] by auto

text \<open>C21: space in the chunk files is given out once.  \<open>reserve_appends\<close> gives a place to every frame of a round; two
  frames in the same chunk file never overlap, the later one starts at or behind the end of the
  earlier one, and a frame lies within the chunk size unless it is alone at the start of a chunk of
  its own.\<close>

theorem reservations_disjoint:
  assumes "log_state s fcs" and "n = unat (wl_chunk_size (cl_layout s))"
    and "\<forall>f \<in> set frames. f \<noteq> [] \<and> length f + n < 2 ^ 64" and "length fcs + length frames < 2 ^ 64"
  shows "\<exists>rs s'. reserve_appends frames s = Inr (rs, s') \<and> length rs = length frames \<and>
    (\<forall>i j. i < j \<and> j < length frames \<and> ar_path (rs ! i) = ar_path (rs ! j) \<longrightarrow>
       unat (ar_offset (rs ! i)) + length (frames ! i) \<le> unat (ar_offset (rs ! j))) \<and>
    (\<forall>i < length frames. unat (ar_offset (rs ! i)) + length (frames ! i) \<le> n \<or> ar_offset (rs ! i) = 0)"
proof -
  obtain rs s' where rs: "reserve_appends frames s = Inr (rs, s')"
    "map (\<lambda>r. (ar_path r, unat (ar_offset r))) rs = slots (cl_layout s) n frames fcs"
    using reserve_appends_places [OF assms(1) refl assms(2-4)] by blast
  have len: "length rs = length frames" using arg_cong [OF rs(2), of length] by simp
  have nth: "slots (cl_layout s) n frames fcs ! i = (ar_path (rs ! i), unat (ar_offset (rs ! i)))" if "i < length frames" for i
    using that len unfolding rs(2) [symmetric] by simp
  have "unat (ar_offset (rs ! i)) + length (frames ! i) \<le> unat (ar_offset (rs ! j))"
    if "i < j" "j < length frames" "ar_path (rs ! i) = ar_path (rs ! j)" for i j
    using slots_disjoint [OF assms(4) that(1,2), of "cl_layout s" n] nth [of i] nth [of j] that by simp
  moreover have "unat (ar_offset (rs ! i)) + length (frames ! i) \<le> n \<or> ar_offset (rs ! i) = 0" if "i < length frames" for i
    using slots_in_chunk [OF that, of "cl_layout s" n fcs] nth [OF that] by (simp add: unat_eq_zero)
  ultimately show ?thesis using rs(1) len by blast
qed

theorem reservations_disjoint_witness:
  "\<exists>rs s'. reserve_appends [[1, 2], [3]] (ChunkedWorkerLog_new sample_layout empty_tail) = Inr (rs, s') \<and> length rs = 2"
proof -
  let ?s = "ChunkedWorkerLog_new sample_layout empty_tail"
  have "log_state ?s []" by (simp add: log_state_def open_chunk_def ChunkedWorkerLog_new_def empty_tail_def)
  moreover have "64 = unat (wl_chunk_size (cl_layout ?s))" by (simp add: ChunkedWorkerLog_new_def sample_layout)
  moreover have "\<forall>f \<in> set [[1, 2], [3 :: byte]]. f \<noteq> [] \<and> length f + 64 < 2 ^ 64" by simp
  ultimately obtain rs s' where "reserve_appends [[1, 2], [3]] ?s = Inr (rs, s')" "length rs = length [[1, 2], [3 :: byte]]"
    using reservations_disjoint [of ?s "[]" 64 "[[1, 2], [3]]"] by fastforce
  then show ?thesis by auto
qed

text \<open>C22: merging the writes of a round into fewer, larger ones changes nothing on disk: executing the merged
  writes gives the same files as writing every frame at its own place.\<close>

theorem merged_writes_equal:
  assumes "\<forall>(r, frame) \<in> set (zip reservations frames). unat (ar_offset r) + length frame < 2 ^ 64"
  shows "\<exists>writes. merge_reserved_writes reservations frames = Inr writes \<and>
    fold exec_write writes d =
      fold (\<lambda>(r, frame). disk_put (ar_path r, unat (ar_offset r)) frame) (zip reservations frames) d"
  using merge_loop_exec [OF assms, of "[]" d] by (simp add: merge_reserved_writes_def)

theorem merged_writes_equal_witness:
  "\<exists>writes. merge_reserved_writes
     [\<lparr>ar_path = (''wal'', ''a''), ar_offset = 0, ar_flush_after_write = False\<rparr>,
      \<lparr>ar_path = (''wal'', ''a''), ar_offset = 2, ar_flush_after_write = False\<rparr>] [[1, 2], [3]] = Inr writes \<and>
    fold exec_write writes [] = [((''wal'', ''a''), [1, 2, 3])]"
  using merged_writes_equal [of "[\<lparr>ar_path = (''wal'', ''a''), ar_offset = 0, ar_flush_after_write = False\<rparr>,
      \<lparr>ar_path = (''wal'', ''a''), ar_offset = 2, ar_flush_after_write = False\<rparr>]" "[[1, 2], [3]]" "[]"]
  by (simp add: disk_put_def disk_create_def disk_write_def file_write_def)

section \<open>Durability\<close>

text \<open>C18: the durability watermark is the first LSN not reported, in whatever order and in whatever groups LSNs are
  reported by concurrent flush rounds.  So a waiter for \<open>target\<close> is released exactly when every LSN up to
  \<open>target\<close> has been reported; and a waiter that went to sleep before the last of these reports is notified.\<close>

theorem watermark_live:
  assumes "U64_MAX \<notin> set (concat (before @ after))" and "b \<le> target"
  defines "w \<equiv> fold ready before (WaitLsn_new b [])" and "w' \<equiv> fold ready (before @ after) (WaitLsn_new b [])"
  shows "(wait_over w' target \<longleftrightarrow> (\<forall>l. b \<le> l \<and> l \<le> target \<longrightarrow> l \<in> set (concat (before @ after)))) \<and>
    (\<not> wait_over w target \<longrightarrow> wait_over w' target \<longrightarrow> wait_notified w < wait_notified w')"
proof -
  have "waits b ({} \<union> set (concat (before @ after))) w'"
    unfolding w'_def by (rule waits_fold [OF waits_new]) (use assms(1) in auto)
  then have over: "wait_over w' target \<longleftrightarrow> (\<forall>l. b \<le> l \<and> l \<le> target \<longrightarrow> l \<in> set (concat (before @ after)))"
    using wait_over_iff [of b _ w' target] assms(2) by simp
  have "wait_notified u \<le> wait_notified (fold ready lss u) \<and>
      (next_wait_lsn (fold ready lss u) \<noteq> next_wait_lsn u \<longrightarrow> wait_notified u < wait_notified (fold ready lss u))" for lss u
    by (rule fold_ready_notified)
  from this [of w after] show ?thesis using over by (auto simp: w_def w'_def wait_over_def)
qed

theorem watermark_live_witness:
  "\<not> wait_over (fold ready [[6]] (WaitLsn_new 5 [])) 6 \<and> wait_over (fold ready ([[6]] @ [[5]]) (WaitLsn_new 5 [])) 6"
proof -
  have "l = 5 \<or> l = 6" if "5 \<le> l" "l \<le> (6 :: u64)" for l
  proof -
    have "unat l = 5 \<or> unat l = 6" using that by (auto simp: word_le_nat_alt)
    then show ?thesis by (metis of_nat_numeral of_nat_unat_eq)
  qed
  then have "\<forall>l. 5 \<le> l \<and> l \<le> (6 :: u64) \<longrightarrow> l \<in> set (concat ([[6]] @ [[5]]))" by fastforce
  moreover have "\<not> (\<forall>l. 5 \<le> l \<and> l \<le> (6 :: u64) \<longrightarrow> l \<in> set (concat ([] @ [[6]])))"
    by (rule notI, drule spec [of _ 5]) simp
  moreover have max: "U64_MAX \<notin> set (concat ([] @ [[6 :: u64]]))" "U64_MAX \<notin> set (concat ([[6]] @ [[5 :: u64]]))" "(5 :: u64) \<le> 6"
    by simp_all
  ultimately show ?thesis
    using watermark_live [OF max(1,3)] watermark_live [OF max(2,3)] unfolding append_Nil by blast
qed

text \<open>C17: in commit mode a flush round reports LSNs only for frames that survive a power loss, wherever an I/O call of the
  round fails: if the watermark state changed at all, every chunk file the round wrote to has been synced, with
  the contents it has.\<close>

theorem reported_after_sync:
  assumes "execute_flush_batch F prepared open_files s = (r, t)" and "wi_sync_policy s = Commit" and "cache_ok s"
    and "\<forall>h \<in> set open_files. handle_ok (os_files (wi_os s)) h" and "wi_flush_waiter t \<noteq> wi_flush_waiter s"
  shows "\<forall>p \<in> set (pf_flush_paths prepared).
    \<exists>f. map_of (os_files (wi_os t)) p = Some f \<and> map_of (os_durable (wi_os t)) p = Some f"
  using execute_report [OF assms(1,3,2,4)] assms(5) by (simp add: synced_def)

definition sample_round :: PreparedFlushBatch where
  "sample_round = \<lparr>pf_writes = [\<lparr>mw_path = (''wal'', ''a''), mw_offset = 0, mw_payload = [1, 2]\<rparr>],
     pf_flush_paths = [(''wal'', ''a'')], pf_ready_lsns = [0]\<rparr>"

theorem reported_after_sync_witness:
  "\<exists>f. map_of (os_durable (wi_os (snd (execute_flush_batch (\<lambda>_. None) sample_round []
     (from_tail sample_layout empty_tail sample_os))))) (''wal'', ''a'') = Some f"
proof -
  let ?s = "from_tail sample_layout empty_tail sample_os"
  obtain r t where e: "execute_flush_batch (\<lambda>_. None) sample_round [] ?s = (r, t)"
    by (cases "execute_flush_batch (\<lambda>_. None) sample_round [] ?s")
  have "wi_sync_policy ?s = Commit" "cache_ok ?s"
    by (simp_all add: from_tail_def sample_layout cache_ok_def ChunkedWorkerLog_new_def)
  moreover from this obtain t' ofs where "execute_flush_batch (\<lambda>_. None) sample_round [] ?s = (Inr ofs, t')"
    "touched (with_waiter (ready [0] (wi_flush_waiter ?s)) ?s) t' [((''wal'', ''a''), [1, 2])] [((''wal'', ''a''), [1, 2])]"
    using execute_ok [of ?s sample_round "[]"]
    by (auto simp: sample_round_def exec_write_def disk_put_def disk_create_def disk_write_def file_write_def
        from_tail_def sample_os_def disk_sync_def)
  then have "wi_flush_waiter t \<noteq> wi_flush_waiter ?s"
    using e by (simp add: touched_def with_waiter_def from_tail_def ready_def WaitLsn_new_def heap_push_def Let_def empty_tail_def)
  ultimately have "\<exists>f. map_of (os_files (wi_os t)) (''wal'', ''a'') = Some f \<and> map_of (os_durable (wi_os t)) (''wal'', ''a'') = Some f"
    using reported_after_sync [OF e] by (simp add: sample_round_def)
  then show ?thesis using e by auto
qed

text \<open>C14: what is committed is recovered.  Take a worker log opened on an empty log directory, and commit any list of
  entries by group commit.  Every commit returns, and recovery from what is durable afterwards
  hands exactly these entries, in commit order and with the LSNs they were given, to the handler.\<close>

theorem committed_entries_recovered:
  assumes "codec_ok C" and "wal_layout_ok L" and "wl_sync_policy L = Commit" and "chunk_files L (os_files w) []"
    and "\<forall>v \<in> set vs. msg_to_vec C v \<noteq> None" and "parts_sum C L vs < 2 ^ 64"
  shows "\<exists>s t. backend_new X L w = Inr s \<and> fold_se (append_entry_group_commit X C (\<lambda>_. None)) vs s = (Inr (), t) \<and>
    typed_recover X C L (os_durable (wi_os t)) handle finish =
      bind_se (fold_se (\<lambda>(lsn, v). handle v lsn) (starts C L 0 vs)) (\<lambda>_. finish)"
proof -
  have "crash_state X L (os_files w) [] (parts_sum C L vs)" using assms(4,6) by (simp add: crash_state_def)
  then obtain s where s: "backend_new X L w = Inr s" "wal_ok X C L (wi_next_lsn s) s []" "wal_room s (parts_sum C L vs)"
    using wal_ok_open [of X L w "[]" _ C "[]"] assms(3) by auto
  have "chunk_sequences_async L (os_files w) = Inr []" using chunk_sequences_eq [OF assms(4)] by simp
  then have lsn: "wi_next_lsn s = 0"
    using s(1) by (auto simp: backend_new_def scan_tail_async_def from_tail_def empty_tail_def)
  obtain t where t: "fold_se (append_entry_group_commit X C (\<lambda>_. None)) vs s = (Inr (), t)"
    "wal_ok X C L (wi_next_lsn s) t ([] @ starts C L (wi_next_lsn s) vs)"
    using wal_append_all [OF assms(1,2,5) s(2,3)] by blast
  then show ?thesis using s(1) wal_ok_recover [OF t(2)] lsn by auto
qed

theorem committed_entries_recovered_witness:
  "\<exists>s t. backend_new le_ext sample_layout sample_os = Inr s \<and>
    fold_se (append_entry_group_commit le_ext raw_codec (\<lambda>_. None)) [[1, 2, 3], [4]] s = (Inr (), t) \<and>
    typed_recover le_ext raw_codec sample_layout (os_durable (wi_os t)) (\<lambda>v lsn. write_se (\<lambda>log. log @ [(lsn, v)])) (return_se ()) [] =
      (Inr (), [(0, [1, 2, 3]), (1, [4])])"
proof -
  have p: "parts_of raw_codec sample_layout [1, 2, 3] = [[1, 2, 3]]" "parts_of raw_codec sample_layout [4] = [[4]]"
    by (simp_all add: parts_of_def raw_codec_def sample_layout chunks.simps)
  have enc: "\<forall>v \<in> set [[1, 2, 3], [4]]. msg_to_vec raw_codec v \<noteq> None" by (simp add: raw_codec_def)
  have sum: "parts_sum raw_codec sample_layout [[1, 2, 3], [4]] < 2 ^ 64" by (simp add: parts_sum_def p)
  let ?h = "\<lambda>v lsn. write_se (\<lambda>log. log @ [(lsn, v)])"
  obtain s t where st: "backend_new le_ext sample_layout sample_os = Inr s"
    "fold_se (append_entry_group_commit le_ext raw_codec (\<lambda>_. None)) [[1, 2, 3], [4]] s = (Inr (), t)"
    "typed_recover le_ext raw_codec sample_layout (os_durable (wi_os t)) ?h (return_se ()) =
      bind_se (fold_se (\<lambda>(lsn, v). ?h v lsn) (starts raw_codec sample_layout 0 [[1, 2, 3], [4]])) (\<lambda>_. return_se ())"
    using committed_entries_recovered [OF raw_codec(1) sample_layout(1,2) sample_empty enc sum, of le_ext ?h "return_se ()"] by blast
  have "typed_recover le_ext raw_codec sample_layout (os_durable (wi_os t)) ?h (return_se ()) [] =
      (Inr (), [(0, [1, 2, 3]), (1, [4])])"
    unfolding st(3) by (simp add: p bind_se_def write_se_def return_se_def)
  then show ?thesis using st(1,2) by blast
qed

section \<open>Crashes\<close>

text \<open>C16: an entry whose last frames never reached the disk is dropped, and nothing else.  The chunk files hold the
  frames of the entries \<open>vs\<close>, then the first \<open>k\<close> frames of one more entry, cut over the chunks in any way, and each
  chunk may end in bytes that are not a frame.  Recovery hands the entries \<open>vs\<close> to the handler, in
  order, and finishes.\<close>

theorem unfinished_entry_dropped:
  assumes "codec_ok C" and "log_frames X C m vs lsn = Inr (fs, es, lsn')" and "serialize_entry X C v m lsn' = (Inr gs, lsn'')"
    and "k < length gs" and "chunk_files L d (map (\<lambda>c. concat (fst c) @ snd c) parts)" and "length parts \<le> 2 ^ 64"
    and "\<forall>c \<in> set parts. chunk_ok X c" and "concat (map fst parts) = fs @ take k gs"
  shows "typed_recover X C L d handle finish = bind_se (fold_se (\<lambda>(lsn, v). handle v lsn) es) (\<lambda>_. finish) \<and> map snd es = vs"
proof -
  obtain cs where cs: "gs = entry_frames X cs lsn'" "parts_ok cs" by (rule serialize_entryE [OF assms(1,3)])
  have "pending_init = pending_after X cs lsn' 0" by (simp add: pending_init_def pending_after_def)
  then have rest: "decode_loop X C (take k gs) pending_init = Inr ([], pending_after X cs lsn' k)"
    using decode_loop_partial [OF cs(2), of k 0 X C lsn'] assms(4) cs(1) by simp
  note log = decode_log_frames [OF assms(1,2), of "take k gs"]
  have "decode_loop X C (concat (map fst parts)) pending_init = Inr (es, pending_after X cs lsn' k)"
    using log rest unfolding assms(8) by simp
  from recover_chunks [OF assms(5,6,7) this] show ?thesis using log by simp
qed

definition sample_torn :: "byte list" where
  "sample_torn = part_frame le_ext [[1, 2], [3]] 0 0"

lemma sample_torn_disk:
  "chunk_files sample_layout [(chunk_path sample_layout 0, sample_torn)] (map (\<lambda>c. concat (fst c) @ snd c) [([sample_torn], [])])"
proof -
  have "unat q = 0 \<longleftrightarrow> q = 0" for q :: u64 by (simp add: unat_eq_zero)
  then show ?thesis by (auto simp: chunk_files_def dir_clean_def)
qed

lemma sample_torn_valid: "valid_frame X (part_frame X [[1, 2], [3]] 0 0)"
  using sample_valid [of X 0] by (simp add: entry_frames_def)

theorem unfinished_entry_dropped_witness:
  "typed_recover le_ext raw_codec sample_layout [(chunk_path sample_layout 0, sample_torn)] (\<lambda>v lsn. fail_se Panic) (return_se ()) () =
    (Inr (), ())"
proof -
  have log: "log_frames le_ext raw_codec 34 [] 0 = Inr ([], [], 0)" by simp
  have eq: "concat (map fst [([sample_torn], [] :: byte list)]) = [] @ take 1 (entry_frames le_ext [[1, 2], [3]] 0)"
    by (simp add: sample_torn_def entry_frames_def)
  have ok: "\<forall>c \<in> set [([sample_torn], [] :: byte list)]. chunk_ok le_ext c"
    using sample_torn_valid [of le_ext] by (simp add: chunk_ok_def sample_torn_def)
  have k: "1 < length (entry_frames le_ext [[1, 2], [3]] 0)" by simp
  have len: "length [([sample_torn], [] :: byte list)] \<le> 2 ^ 64" by simp
  show ?thesis
    using unfinished_entry_dropped [OF raw_codec(1) log sample_serialize k sample_torn_disk len ok eq,
        of "\<lambda>v lsn. fail_se Panic" "return_se () :: (unit, unit) se"]
    by (simp add: bind_se_def return_se_def)
qed









text \<open>a file named \<open>short_oid.xl\<close> in the log directory makes the listing of chunk files panic: prefix and suffix overlap in
  that name, so \<open>parse_chunk_sequence\<close> slices it from a start behind its end.\<close>

lemma overlapping_name_panics:
  assumes "map_of d (wl_log_dir L, wl_short_oid L @ ''.xl'') \<noteq> None"
  shows "chunk_paths_sorted L d = Inl Panic"
proof -
  let ?p = "(wl_log_dir L, wl_short_oid L @ ''.xl'')"
  have bad: "parse_chunk_sequence L ?p = Inl Panic"
    by (simp add: parse_chunk_sequence_def starts_with_def ends_with_def Let_def)
  have only: "e = Panic" if "parse_chunk_sequence L p = Inl e" for p e
    using that by (auto simp: parse_chunk_sequence_def Let_def split: if_splits)
  have "collect_chunks L ps = Inl Panic" if "?p \<in> set ps" for ps
    using that
  proof (induction ps)
    case (Cons p ps)
    then show ?case using bad only [of p] by (cases "parse_chunk_sequence L p") auto
  qed simp
  moreover have "?p \<in> set (read_dir d (wl_log_dir L))" using assms by (simp add: set_read_dir)
  ultimately show ?thesis by (simp add: chunk_paths_sorted_def)
qed



end
