(* ===== verification/Router_Paths.thy ===== *)
theory Router_Paths
  imports Compat_Router
begin

text \<open>
  The search of the migration router: \<open>find_path\<close> always returns, and what it returns is a shortest
  chain of registered handlers inside the supported window, or the proof that there is none.
\<close>

section \<open>Chains of handlers\<close>

fun walk :: "Edge list \<Rightarrow> u32 \<Rightarrow> Edge list \<Rightarrow> u32 \<Rightarrow> bool" where
  "walk edges u [] v \<longleftrightarrow> u = v"
| "walk edges u (e # es) v \<longleftrightarrow> e \<in> set edges \<and> e_from e = u \<and> walk edges (e_to e) es v"

lemma walk_snoc: "walk edges u (es @ [e]) v \<longleftrightarrow> walk edges u es (e_from e) \<and> e \<in> set edges \<and> e_to e = v"
  by (induction es arbitrary: u) auto

lemma walk_edges: "walk edges u es v \<Longrightarrow> set es \<subseteq> set edges"
  by (induction es arbitrary: u) auto

section \<open>The state of the search\<close>

definition found :: "u32 \<Rightarrow> (u32 \<rightharpoonup> Edge) \<Rightarrow> u32 \<Rightarrow> bool" where
  "found start visited v \<longleftrightarrow> v = start \<or> visited v \<noteq> None"

text \<open>Every discovered version knows the handler that led to it; \<open>D\<close> is its distance.\<close>

definition tree :: "Edge list \<Rightarrow> u32 \<Rightarrow> (u32 \<rightharpoonup> Edge) \<Rightarrow> (u32 \<Rightarrow> nat) \<Rightarrow> bool" where
  "tree edges start visited D \<longleftrightarrow> D start = 0 \<and> visited start = None \<and>
     (\<forall>v e. visited v = Some e \<longrightarrow> e \<in> set edges \<and> e_to e = v \<and> found start visited (e_from e) \<and> D v = Suc (D (e_from e)))"

text \<open>\<open>d\<close> is the distance of the version being expanded.\<close>

definition frontier :: "u32 \<Rightarrow> u32 \<Rightarrow> (u32 \<rightharpoonup> Edge) \<Rightarrow> u32 list \<Rightarrow> (u32 \<Rightarrow> nat) \<Rightarrow> nat \<Rightarrow> bool" where
  "frontier start goal visited queue D d \<longleftrightarrow>
     distinct queue \<and> sorted (map D queue) \<and> (\<forall>v \<in> set queue. found start visited v \<and> d \<le> D v \<and> D v \<le> Suc d) \<and>
     (\<forall>v. found start visited v \<and> v \<notin> set queue \<longrightarrow> D v \<le> d) \<and> (found start visited goal \<longrightarrow> goal \<in> set queue)"

definition closed :: "Edge list \<Rightarrow> u32 \<Rightarrow> (u32 \<rightharpoonup> Edge) \<Rightarrow> (u32 \<Rightarrow> nat) \<Rightarrow> bool" where
  "closed edges start visited D \<longleftrightarrow>
     (\<forall>e \<in> set edges. found start visited (e_to e) \<and> D (e_to e) \<le> Suc (D (e_from e)))"

lemma relax_inv:
  assumes "relax start es (visited, queue) = (visited', queue')" and "set es \<subseteq> set edges" and "\<forall>e \<in> set es. e_from e = version"
    and "tree edges start visited D" and "frontier start goal visited queue D (D version)"
    and "found start visited version" and "version \<notin> set queue"
  shows "\<exists>D'. tree edges start visited' D' \<and> frontier start goal visited' queue' D' (D' version) \<and>
    (\<forall>v. found start visited v \<longrightarrow> found start visited' v \<and> D' v = D v \<and> (v \<notin> set queue \<longrightarrow> v \<notin> set queue')) \<and>
    closed es start visited' D' \<and> set queue \<subseteq> set queue' \<and> (\<forall>v. found start visited' v \<longrightarrow> found start visited v \<or> v \<in> set queue')"
  using assms
proof (induction es arbitrary: visited queue D)
  case Nil
  then show ?case by (intro exI [of _ D]) (auto simp: closed_def)
next
  case (Cons e es)
  let ?w = "e_to e"
  have from_e: "e_from e = version" "e \<in> set edges" using Cons.prems(2,3) by auto
  show ?case
  proof (cases "found start visited ?w")
    case True
    then have "relax start es (visited, queue) = (visited', queue')" using Cons.prems(1) by (auto simp: found_def)
    then obtain D' where D': "tree edges start visited' D' \<and> frontier start goal visited' queue' D' (D' version) \<and>
        (\<forall>v. found start visited v \<longrightarrow> found start visited' v \<and> D' v = D v \<and> (v \<notin> set queue \<longrightarrow> v \<notin> set queue')) \<and>
        closed es start visited' D' \<and> set queue \<subseteq> set queue' \<and> (\<forall>v. found start visited' v \<longrightarrow> found start visited v \<or> v \<in> set queue')"
      using Cons.IH [of visited queue D] Cons.prems(2-) by auto
    moreover have "D ?w \<le> Suc (D version)" using Cons.prems(5) True by (auto simp: frontier_def)
    ultimately show ?thesis
      using True Cons.prems(6) from_e by (intro exI [of _ D']) (auto simp: closed_def)
  next
    case False
    let ?visited = "visited(?w \<mapsto> e)" and ?queue = "queue @ [?w]" and ?D = "D(?w := Suc (D version))"
    have neq: "?w \<noteq> version" "?w \<noteq> start" "?w \<notin> set queue"
      using False Cons.prems(5,6) by (auto simp: found_def frontier_def)
    have f: "found start ?visited v \<longleftrightarrow> found start visited v \<or> v = ?w" for v by (auto simp: found_def)
    have rel: "relax start es (?visited, ?queue) = (visited', queue')" using Cons.prems(1) False by (auto simp: found_def)
    have step: "x \<in> set edges \<and> e_to x = v \<and> found start ?visited (e_from x) \<and> ?D v = Suc (?D (e_from x))"
      if x: "?visited v = Some x" for v x
    proof (cases "v = ?w")
      case True
      then show ?thesis using x from_e neq Cons.prems(6) f by auto
    next
      case v: False
      then have "visited v = Some x" using x by simp
      then have "x \<in> set edges" "e_to x = v" "found start visited (e_from x)" "D v = Suc (D (e_from x))"
        using Cons.prems(4) by (auto simp: tree_def)
      moreover from this have "e_from x \<noteq> ?w" using False by auto
      ultimately show ?thesis using v f by simp
    qed
    have "?D start = 0" "?visited start = None" using Cons.prems(4) neq(2) by (auto simp: tree_def)
    then have tree: "tree edges start ?visited ?D" using step unfolding tree_def by blast
    have "map ?D queue = map D queue" using neq(3) by (auto intro: map_cong)
    then have front: "frontier start goal ?visited ?queue ?D (?D version)"
      using Cons.prems(5) neq False f by (auto simp: frontier_def sorted_append)
    have "\<exists>D'. tree edges start visited' D' \<and> frontier start goal visited' queue' D' (D' version) \<and>
        (\<forall>v. found start ?visited v \<longrightarrow> found start visited' v \<and> D' v = ?D v \<and> (v \<notin> set ?queue \<longrightarrow> v \<notin> set queue')) \<and>
        closed es start visited' D' \<and> set ?queue \<subseteq> set queue' \<and> (\<forall>v. found start visited' v \<longrightarrow> found start ?visited v \<or> v \<in> set queue')"
    proof (rule Cons.IH [OF rel _ _ tree front])
      show "found start ?visited version" using f Cons.prems(6) by blast
    qed (use Cons.prems(2,3,7) neq in auto)
    then obtain D' where D': "tree edges start visited' D'" "frontier start goal visited' queue' D' (D' version)"
      "\<forall>v. found start ?visited v \<longrightarrow> found start visited' v \<and> D' v = ?D v \<and> (v \<notin> set ?queue \<longrightarrow> v \<notin> set queue')"
      "closed es start visited' D'" "set ?queue \<subseteq> set queue'" "\<forall>v. found start visited' v \<longrightarrow> found start ?visited v \<or> v \<in> set queue'"
      by blast
    have "D' ?w = Suc (D version)" "D' version = D version" "found start visited' ?w"
      using D'(3) f Cons.prems(6) neq(1) by auto
    then have "closed (e # es) start visited' D'" using D'(4) from_e(1) by (simp add: closed_def)
    moreover have "\<forall>v. found start visited v \<longrightarrow> found start visited' v \<and> D' v = D v \<and> (v \<notin> set queue \<longrightarrow> v \<notin> set queue')"
      using D'(3) f False by auto
    ultimately show ?thesis using D'(1,2,5,6) f by (intro exI [of _ D']) auto
  qed
qed

section \<open>The whole search\<close>

text \<open>Expanded versions have all their successors discovered, at distance at most one more.\<close>

definition expanded :: "Edge list \<Rightarrow> u32 \<Rightarrow> (u32 \<rightharpoonup> Edge) \<Rightarrow> u32 list \<Rightarrow> (u32 \<Rightarrow> nat) \<Rightarrow> bool" where
  "expanded edges start visited queue D \<longleftrightarrow>
     (\<forall>v. found start visited v \<and> v \<notin> set queue \<longrightarrow> closed (outgoing edges v) start visited D)"

text \<open>The outcome of the search: the tree, and the distance of every version reachable within the
  distance of the goal.\<close>

definition searched :: "Edge list \<Rightarrow> u32 \<Rightarrow> u32 \<Rightarrow> (u32 \<rightharpoonup> Edge) \<Rightarrow> (u32 \<Rightarrow> nat) \<Rightarrow> bool" where
  "searched edges start goal visited D \<longleftrightarrow> tree edges start visited D \<and>
     (\<forall>p. walk edges start p goal \<longrightarrow> found start visited goal \<and> D goal \<le> length p)"

lemma walk_within:
  assumes "expanded edges start visited queue D" and "tree edges start visited D"
    and "walk edges start p v" and "\<forall>u \<in> set queue. length p \<le> D u"
  shows "found start visited v \<and> D v \<le> length p"
  using assms(3,4)
proof (induction p arbitrary: v rule: rev_induct)
  case Nil
  then show ?case using assms(2) by (auto simp: found_def tree_def)
next
  case (snoc e p)
  then have e: "walk edges start p (e_from e)" "e \<in> set edges" "e_to e = v" by (auto simp: walk_snoc)
  have "found start visited (e_from e) \<and> D (e_from e) \<le> length p"
    by (rule snoc.IH [OF e(1)]) (use snoc.prems(2) in force)
  moreover from this have "e_from e \<notin> set queue" using snoc.prems(2) by force
  moreover have "e \<in> set (outgoing edges (e_from e))" using e(2) by (simp add: outgoing_def)
  ultimately show ?case using assms(1) e(3) unfolding expanded_def closed_def by (metis Suc_le_mono le_trans length_append_singleton)
qed

lemma frontier_hd:
  assumes "frontier start goal visited (v # queue) D d"
  shows "frontier start goal visited (v # queue) D (D v)"
proof -
  have v: "d \<le> D v" using assms by (simp add: frontier_def)
  have "D w \<le> D v" if "found start visited w" "w \<notin> set (v # queue)" for w
    using assms that v unfolding frontier_def by (meson le_trans)
  moreover have "D v \<le> D w \<and> D w \<le> Suc (D v)" if "w \<in> set (v # queue)" for w
    using assms that v unfolding frontier_def by (auto intro: le_trans)
  ultimately show ?thesis using assms unfolding frontier_def by blast
qed

lemma bfs_searched:
  assumes "tree edges start visited D" and "frontier start goal visited queue D (case queue of [] \<Rightarrow> d | v # _ \<Rightarrow> D v)"
    and "expanded edges start visited queue D"
  shows "\<exists>D'. searched edges start goal (bfs edges start goal visited queue) D'"
  using assms
proof (induction edges start goal visited queue arbitrary: D d rule: bfs.induct)
  case (1 edges start goal visited)
  have "\<not> walk edges start p goal" for p
    using walk_within [OF 1(3,1), of p goal] 1(2) by (auto simp: frontier_def)
  then show ?case using 1(1) by (auto simp: searched_def)
next
  case (2 edges start goal visited version queue)
  show ?case
  proof (cases "version = goal")
    case True
    have "found start visited goal \<and> D goal \<le> length p" if p: "walk edges start p goal" for p
    proof (cases "length p \<le> D goal")
      case le: True
      show ?thesis
        by (rule walk_within [OF 2(4,2) p]) (use 2(3) True le in \<open>auto simp: frontier_def intro: le_trans\<close>)
    next
      case False
      then show ?thesis using 2(3) True by (auto simp: frontier_def)
    qed
    then show ?thesis using 2(2) True by (auto simp: searched_def)
  next
    case False
    obtain visited' queue' where r: "relax start (outgoing edges version) (visited, queue) = (visited', queue')"
      by (cases "relax start (outgoing edges version) (visited, queue)")
    have v: "found start visited version" "version \<notin> set queue" using 2(3) by (auto simp: frontier_def)
    have front: "frontier start goal visited queue D (D version)" using 2(3) False by (auto simp: frontier_def)
    obtain D' where D': "tree edges start visited' D'" "frontier start goal visited' queue' D' (D' version)"
      "\<forall>v. found start visited v \<longrightarrow> found start visited' v \<and> D' v = D v \<and> (v \<notin> set queue \<longrightarrow> v \<notin> set queue')"
      "closed (outgoing edges version) start visited' D'" "set queue \<subseteq> set queue'"
      "\<forall>v. found start visited' v \<longrightarrow> found start visited v \<or> v \<in> set queue'"
      using relax_inv [OF r _ _ 2(2) front v] unfolding outgoing_def by (smt (verit) filter_is_subset mem_Collect_eq set_filter)
    have "closed (outgoing edges u) start visited' D'" if u: "found start visited' u" "u \<notin> set queue'" for u
    proof (cases "u = version")
      case False
      have "found start visited u" "u \<notin> set (version # queue)" using u D'(5,6) False by auto
      then have "closed (outgoing edges u) start visited D" using 2(4) unfolding expanded_def by blast
      then show ?thesis using D'(3) \<open>found start visited u\<close> unfolding closed_def by (auto simp: outgoing_def)
    qed (use D'(4) in simp)
    then have exp: "expanded edges start visited' queue' D'" by (simp add: expanded_def)
    have "frontier start goal visited' queue' D' (case queue' of [] \<Rightarrow> D' version | v # _ \<Rightarrow> D' v)"
      using D'(2) by (cases queue') (auto intro: frontier_hd)
    then have "\<exists>D'. searched edges start goal (bfs edges start goal visited' queue') D'"
      by (rule 2(1) [OF False refl r [symmetric] D'(1) _ exp])
    then show ?thesis using False r by simp
  qed
qed

section \<open>Reading the chain back\<close>

lemma backtrack_tree:
  assumes "tree edges start visited D" and "found start visited cursor"
  shows "\<exists>p. backtrack component start goal visited cursor path = Some (Inr (p @ rev path)) \<and>
    walk edges start p cursor \<and> length p = D cursor"
  using assms(2)
proof (induction "D cursor" arbitrary: cursor path)
  case 0
  have "cursor = start"
  proof (rule ccontr)
    assume "cursor \<noteq> start"
    then obtain e where "visited cursor = Some e" using 0(2) by (auto simp: found_def)
    then show False using assms(1) 0(1) unfolding tree_def by (metis nat.distinct(1))
  qed
  then have "backtrack component start goal visited cursor path = Some (Inr ([] @ rev path))"
    by (subst backtrack.simps) simp
  then show ?case using \<open>cursor = start\<close> 0(1) by (metis walk.simps(1) list.size(3))
next
  case (Suc n)
  have ne: "cursor \<noteq> start" using assms(1) Suc.hyps(2) by (metis tree_def nat.distinct(1))
  then obtain e where e: "visited cursor = Some e" using Suc.prems by (auto simp: found_def)
  then have t: "e \<in> set edges" "e_to e = cursor" "found start visited (e_from e)" "D cursor = Suc (D (e_from e))"
    using assms(1) by (auto simp: tree_def)
  obtain p where p: "backtrack component start goal visited (e_from e) (path @ [e]) = Some (Inr (p @ rev (path @ [e])))"
    "walk edges start p (e_from e)" "length p = D (e_from e)"
    using Suc.hyps(1) [of "e_from e" "path @ [e]"] Suc.hyps(2) t(3,4) by auto
  have "backtrack component start goal visited cursor path = Some (Inr ((p @ [e]) @ rev path))"
    using ne e p(1) by (subst backtrack.simps) simp
  moreover have "walk edges start (p @ [e]) cursor" using p(2) t(1,2) by (simp add: walk_snoc)
  moreover have "length (p @ [e]) = D cursor" using p(3) t(4) by simp
  ultimately show ?case by blast
qed

lemma find_path_cases:
  fixes r :: CompatibilityRouter and component :: FormatKind
  defines "edges \<equiv> component_edges r component"
  shows "(\<exists>p. find_path r component start goal = Some (Inr p) \<and> walk edges start p goal \<and>
      (\<forall>q. walk edges start q goal \<longrightarrow> length p \<le> length q)) \<or>
    find_path r component start goal = Some (Inl (MissingHandler component start goal)) \<and> (\<forall>q. \<not> walk edges start q goal)"
proof -
  let ?visited = "bfs edges start goal Map.empty [start]"
  have "\<exists>D. searched edges start goal ?visited D"
  proof (rule bfs_searched)
    show "tree edges start Map.empty (\<lambda>_. 0)" by (simp add: tree_def)
    show "frontier start goal Map.empty [start] (\<lambda>_. 0) (case [start] of [] \<Rightarrow> 0 | v # _ \<Rightarrow> 0)"
      by (simp add: frontier_def found_def)
    show "expanded edges start Map.empty [start] (\<lambda>_. 0)" by (simp add: expanded_def found_def)
  qed
  then obtain D where D: "tree edges start ?visited D" "\<And>p. walk edges start p goal \<Longrightarrow> found start ?visited goal \<and> D goal \<le> length p"
    by (auto simp: searched_def)
  show ?thesis
  proof (cases "found start ?visited goal")
    case True
    then obtain p where "backtrack component start goal ?visited goal [] = Some (Inr p)" "walk edges start p goal" "length p = D goal"
      using backtrack_tree [OF D(1) True, of component goal "[]"] by auto
    moreover from this have "find_path r component start goal = Some (Inr p)"
      using True by (auto simp: find_path_def edges_def [symmetric] Let_def found_def)
    ultimately show ?thesis using D(2) by auto
  next
    case False
    then have "find_path r component start goal = Some (Inl (MissingHandler component start goal))"
      by (auto simp: find_path_def edges_def [symmetric] Let_def found_def)
    then show ?thesis using D(2) False by blast
  qed
qed

end
