(* ===== verification/Router_Properties.thy ===== *)
theory Router_Properties
  imports Router_Paths
begin

text \<open>
  The properties of the migration router: a shortest chain of handlers is found whenever there is
  one, and a migration runs exactly the chain that \<open>validate_path\<close> promised.
\<close>

lemma edge_in_window:
  assumes "e \<in> set (component_edges r component)"
  shows "VersionRange_contains (router_window r component) (e_from e) \<and> VersionRange_contains (router_window r component) (e_to e)"
  using assms by (auto simp: component_edges_def handler_edges_def VersionRange_contains_def split: option.splits if_splits)

text \<open>C26: The breadth-first search of the router always returns.  A path it returns is a chain of
  registered handlers (upgrades or rollbacks) from the source version to the target version that never
  leaves the supported window, and no chain is shorter; it answers MissingHandler only when no chain
  of handlers inside the window connects the two versions.\<close>

theorem find_path_shortest:
  "\<exists>res. find_path r component start goal = Some res \<and>
     (case res of
        Inr p \<Rightarrow> walk (component_edges r component) start p goal \<and>
          list_all (\<lambda>e. VersionRange_contains (router_window r component) (e_from e) \<and>
                        VersionRange_contains (router_window r component) (e_to e)) p \<and>
          (\<forall>q. walk (component_edges r component) start q goal \<longrightarrow> length p \<le> length q)
      | Inl e \<Rightarrow> e = MissingHandler component start goal \<and>
          (\<nexists>q. walk (component_edges r component) start q goal))"
  using find_path_cases [of r component start goal] walk_edges edge_in_window by (fastforce simp: list_all_iff)

definition sample_router :: CompatibilityRouter where
  "sample_router = (let h = (\<lambda>a b. \<lparr>mh_from = a, mh_to = b, mh_upgrade = clone_upgrade, mh_rollback = clone_rollback\<rparr>) in
     register LogFrame (h 1 3) (register LogFrame (h 2 3) (register LogFrame (h 1 2)
       (set_supported_window LogFrame 1 3 Router_new))))"

theorem find_path_shortest_witness:
  "\<exists>p. find_path sample_router LogFrame 1 3 = Some (Inr p) \<and> length p \<le> 1"
proof -
  obtain e where e: "e \<in> set (component_edges sample_router LogFrame)" "e_from e = 1" "e_to e = 3"
    by (simp add: sample_router_def register_def set_supported_window_def Router_new_def component_edges_def
        handler_edges_def router_window_def min_supported_version_def current_version_def Let_def)
      (metis Edge.select_convs(1,2))
  then have w: "walk (component_edges sample_router LogFrame) 1 [e] 3" by simp
  obtain res where res: "find_path sample_router LogFrame 1 3 = Some res"
    "case res of
        Inr p \<Rightarrow> walk (component_edges sample_router LogFrame) 1 p 3 \<and>
          list_all (\<lambda>e. VersionRange_contains (router_window sample_router LogFrame) (e_from e) \<and>
                        VersionRange_contains (router_window sample_router LogFrame) (e_to e)) p \<and>
          (\<forall>q. walk (component_edges sample_router LogFrame) 1 q 3 \<longrightarrow> length p \<le> length q)
      | Inl e \<Rightarrow> e = MissingHandler LogFrame 1 3 \<and>
          (\<nexists>q. walk (component_edges sample_router LogFrame) 1 q 3)"
    using find_path_shortest [of sample_router LogFrame 1 3] by blast
  show ?thesis
  proof (cases res)
    case (Inl x)
    then show ?thesis using res(2) w by (simp only: sum.case) blast
  next
    case (Inr p)
    then have "length p \<le> length [e]" using res(2) w unfolding Inr sum.case by blast
    then show ?thesis using res(1) Inr by simp
  qed
qed

text \<open>C27: Validation agrees with migration.  \<open>validate_path\<close> always returns; whatever error it reports
  is the error a migration between the two versions reports for every input, and when it answers
  \<open>n\<close>, the migration runs exactly \<open>n\<close> handlers, a chain from the source to the target version, in
  order, each on the output of the one before.\<close>

theorem migrate_as_validated:
  "\<exists>res. validate_path r component from_version to_version = Some res \<and>
     (case res of
        Inl e \<Rightarrow> migrate r component from_version to_version binary options = Some (Inl e)
      | Inr n \<Rightarrow> \<exists>p. length p = n \<and> walk (component_edges r component) from_version p to_version \<and>
          migrate r component from_version to_version binary options = Some (run_path component options 0 p binary))"
proof (cases "validate_path r component from_version to_version")
  case None
  then show ?thesis using find_path_cases [of r component from_version to_version]
    by (auto simp: validate_path_def split: sum.splits if_splits)
next
  case (Some res)
  then show ?thesis
    using find_path_cases [of r component from_version to_version]
    by (cases res) (auto simp: validate_path_def migrate_def split: sum.splits if_splits)
qed

end
