(* ===== verification/Xl_Types.thy ===== *)
theory Xl_Types
  imports Mudu_Prelude "HOL-Library.AList"
begin

text \<open>
  The logical log records of \<open>wal/xl_data_op.rs\<close>, \<open>wal/xl_entry.rs\<close> and \<open>wal/xl_batch.rs\<close>, and the
  relation identifier of \<open>x_engine/tx_mgr.rs\<close>.
\<close>

type_synonym OID = u128

record PhysicalRelationId =
  pr_table_id :: OID
  pr_partition_id :: OID

record XLInsert =
  xi_table_id :: OID
  xi_partition_id :: OID
  xi_tuple_id :: u64
  xi_key :: "byte list"
  xi_value :: "byte list"

record XLDelete =
  xd_table_id :: OID
  xd_partition_id :: OID
  xd_tuple_id :: u64
  xd_key :: "byte list"

record XLUpdate =
  xu_table_id :: OID
  xu_partition_id :: OID
  xu_tuple_id :: u64
  xu_key :: "byte list"
  xu_delta :: "byte list"

datatype XLWrite = XInsert XLInsert | XUpdate XLUpdate | XDelete XLDelete

fun XLWrite_table_id :: "XLWrite \<Rightarrow> OID" where
  "XLWrite_table_id (XInsert w) = xi_table_id w"
| "XLWrite_table_id (XUpdate w) = xu_table_id w"
| "XLWrite_table_id (XDelete w) = xd_table_id w"

fun XLWrite_partition_id :: "XLWrite \<Rightarrow> OID" where
  "XLWrite_partition_id (XInsert w) = xi_partition_id w"
| "XLWrite_partition_id (XUpdate w) = xu_partition_id w"
| "XLWrite_partition_id (XDelete w) = xd_partition_id w"

datatype TxOp = TxBegin | TxCommit | TxAbort | TxWrite XLWrite

fun TxOp_table_id :: "TxOp \<Rightarrow> OID option" where
  "TxOp_table_id (TxWrite w) = Some (XLWrite_table_id w)"
| "TxOp_table_id _ = None"

fun TxOp_partition_id :: "TxOp \<Rightarrow> OID option" where
  "TxOp_partition_id (TxWrite w) = Some (XLWrite_partition_id w)"
| "TxOp_partition_id _ = None"

record XLEntry =
  xe_xid :: u64
  xe_ops :: "TxOp list"

record XLBatch =
  xb_entries :: "XLEntry list"

definition XLBatch_new :: "XLEntry list \<Rightarrow> XLBatch" where
  "XLBatch_new entries = \<lparr>xb_entries = entries\<rparr>"

end
