(* ===== verification/Lock_Mgr.thy ===== *)
theory Lock_Mgr
  imports Xl_Types
begin

text \<open>
  The exclusive lock manager of \<open>server/x_lock_mgr.rs\<close>: the lock table, the all-or-nothing attempt,
  the FIFO queues of parked requests, release and orphan reclamation, and the interleavings of
  \<open>lock_some\<close> calls as a step relation whose steps are the sections that run under the mutex.

  A hash map is an association list, a waiter is the sequence number that identifies it, and its
  latch is the membership of the number in a list of signals.  Instants and durations are milliseconds;
  the clock is read once per section under the mutex.  Acquiring the mutex does not fail (poisoning is not modelled).
\<close>

section \<open>The lock table\<close>

type_synonym lock_key = "PhysicalRelationId \<times> byte list"

definition STATEMENT_LOCK_TTL :: nat where "STATEMENT_LOCK_TTL = 30000"

record KeyLockEntry =
  kl_owner :: "(OID \<times> nat) option"
  kl_queue :: "u64 list"

definition KeyLockEntry_new :: KeyLockEntry where
  "KeyLockEntry_new = \<lparr>kl_owner = None, kl_queue = []\<rparr>"

type_synonym lock_tables = "(PhysicalRelationId \<times> (byte list \<times> KeyLockEntry) list) list"

record LockState =
  ls_tables :: lock_tables
  ls_next_waiter_seq :: u64

definition LockState_new :: LockState where
  "LockState_new = \<lparr>ls_tables = [], ls_next_waiter_seq = 0\<rparr>"

definition entry_of :: "lock_tables \<Rightarrow> lock_key \<Rightarrow> KeyLockEntry option" where
  "entry_of tables rk = (case map_of tables (fst rk) of None \<Rightarrow> None | Some m \<Rightarrow> map_of m (snd rk))"

definition put_entry :: "lock_key \<Rightarrow> KeyLockEntry \<Rightarrow> lock_tables \<Rightarrow> lock_tables" where
  "put_entry rk e tables =
     AList.update (fst rk) (AList.update (snd rk) e (case map_of tables (fst rk) of Some m \<Rightarrow> m | None \<Rightarrow> [])) tables"

definition or_insert_new :: "KeyLockEntry option \<Rightarrow> KeyLockEntry" where
  "or_insert_new e = (case e of Some x \<Rightarrow> x | None \<Rightarrow> KeyLockEntry_new)"

text \<open>Removal of an entry that became useless, and of its relation when that was the last one.\<close>

definition drop_entry :: "lock_key \<Rightarrow> lock_tables \<Rightarrow> lock_tables" where
  "drop_entry rk tables =
     (case map_of tables (fst rk) of
        None \<Rightarrow> tables
      | Some m \<Rightarrow> let m' = AList.delete (snd rk) m in
          if m' = [] then AList.delete (fst rk) tables else AList.update (fst rk) m' tables)"

definition settle_entry :: "lock_key \<Rightarrow> KeyLockEntry \<Rightarrow> lock_tables \<Rightarrow> lock_tables" where
  "settle_entry rk e tables =
     (if kl_owner e = None \<and> kl_queue e = [] then drop_entry rk tables else put_entry rk e tables)"

definition head_wake :: "KeyLockEntry \<Rightarrow> u64 list" where
  "head_wake e = (case kl_queue e of [] \<Rightarrow> [] | h # _ \<Rightarrow> [h])"

section \<open>One attempt under the mutex\<close>

definition granted :: "u64 option \<Rightarrow> KeyLockEntry \<Rightarrow> bool" where
  "granted waiter e =
     (case waiter of
        Some w \<Rightarrow> (case kl_queue e of [] \<Rightarrow> True | h # _ \<Rightarrow> h = w)
      | None \<Rightarrow> kl_queue e = [])"

fun acquire_check ::
    "nat \<Rightarrow> OID \<Rightarrow> u64 option \<Rightarrow> lock_key list \<Rightarrow> lock_tables \<Rightarrow> u64 list \<Rightarrow> bool \<times> lock_tables \<times> u64 list" where
  "acquire_check now oid waiter [] tables wakes = (True, tables, wakes)"
| "acquire_check now oid waiter (rk # keys) tables wakes =
     (case entry_of tables rk of
        None \<Rightarrow> acquire_check now oid waiter keys tables wakes
      | Some e \<Rightarrow>
          (case kl_owner e of
             None \<Rightarrow> if granted waiter e then acquire_check now oid waiter keys tables wakes else (False, tables, wakes)
           | Some (owner, acquired_at) \<Rightarrow>
               if owner = oid then acquire_check now oid waiter keys tables wakes
               else if now - acquired_at \<le> STATEMENT_LOCK_TTL then (False, tables, wakes)
               else let tables' = put_entry rk (e\<lparr>kl_owner := None\<rparr>) tables; wakes' = wakes @ head_wake e in
                 if granted waiter e then acquire_check now oid waiter keys tables' wakes' else (False, tables', wakes')))"

definition take_entry :: "nat \<Rightarrow> OID \<Rightarrow> u64 option \<Rightarrow> KeyLockEntry \<Rightarrow> KeyLockEntry" where
  "take_entry now oid waiter e =
     (let e' = (case kl_owner e of
                  Some (owner, _) \<Rightarrow> if owner \<noteq> oid then e\<lparr>kl_owner := Some (oid, now)\<rparr> else e
                | None \<Rightarrow> e\<lparr>kl_owner := Some (oid, now)\<rparr>) in
      case waiter of Some w \<Rightarrow> e'\<lparr>kl_queue := filter (\<lambda>q. q \<noteq> w) (kl_queue e')\<rparr> | None \<Rightarrow> e')"

fun acquire_take :: "nat \<Rightarrow> OID \<Rightarrow> u64 option \<Rightarrow> lock_key list \<Rightarrow> lock_tables \<Rightarrow> lock_tables" where
  "acquire_take now oid waiter [] tables = tables"
| "acquire_take now oid waiter (rk # keys) tables =
     acquire_take now oid waiter keys (put_entry rk (take_entry now oid waiter (or_insert_new (entry_of tables rk))) tables)"

definition try_acquire_locked ::
    "nat \<Rightarrow> OID \<Rightarrow> lock_key list \<Rightarrow> u64 option \<Rightarrow> LockState \<Rightarrow> bool \<times> LockState \<times> u64 list" where
  "try_acquire_locked now oid keys waiter ls =
     (case acquire_check now oid waiter keys (ls_tables ls) [] of
        (False, tables, wakes) \<Rightarrow> (False, ls\<lparr>ls_tables := tables\<rparr>, wakes)
      | (True, tables, wakes) \<Rightarrow> (True, ls\<lparr>ls_tables := acquire_take now oid waiter keys tables\<rparr>, wakes))"

fun enqueue_tables :: "OID \<Rightarrow> lock_key list \<Rightarrow> u64 \<Rightarrow> lock_tables \<Rightarrow> lock_tables" where
  "enqueue_tables oid [] w tables = tables"
| "enqueue_tables oid (rk # keys) w tables =
     (case entry_of tables rk of
        Some e \<Rightarrow>
          if (case kl_owner e of Some (owner, _) \<Rightarrow> owner = oid | None \<Rightarrow> False) then enqueue_tables oid keys w tables
          else enqueue_tables oid keys w (put_entry rk (if w \<in> set (kl_queue e) then e else e\<lparr>kl_queue := kl_queue e @ [w]\<rparr>) tables)
      | None \<Rightarrow> enqueue_tables oid keys w (put_entry rk (KeyLockEntry_new\<lparr>kl_queue := [w]\<rparr>) tables))"

definition enqueue_locked :: "OID \<Rightarrow> lock_key list \<Rightarrow> u64 \<Rightarrow> LockState \<Rightarrow> LockState" where
  "enqueue_locked oid keys w ls = ls\<lparr>ls_tables := enqueue_tables oid keys w (ls_tables ls)\<rparr>"

fun dequeue_tables :: "lock_key list \<Rightarrow> u64 \<Rightarrow> lock_tables \<Rightarrow> u64 list \<Rightarrow> lock_tables \<times> u64 list" where
  "dequeue_tables [] w tables wakes = (tables, wakes)"
| "dequeue_tables (rk # keys) w tables wakes =
     (case entry_of tables rk of
        None \<Rightarrow> dequeue_tables keys w tables wakes
      | Some e \<Rightarrow>
          let was_head = (case kl_queue e of [] \<Rightarrow> False | h # _ \<Rightarrow> h = w);
              e' = e\<lparr>kl_queue := filter (\<lambda>q. q \<noteq> w) (kl_queue e)\<rparr>;
              wakes' = (if was_head \<and> kl_owner e' = None then wakes @ head_wake e' else wakes)
          in dequeue_tables keys w (settle_entry rk e' tables) wakes')"

definition dequeue_locked :: "lock_key list \<Rightarrow> u64 \<Rightarrow> LockState \<Rightarrow> LockState \<times> u64 list" where
  "dequeue_locked keys w ls =
     (let (tables, wakes) = dequeue_tables keys w (ls_tables ls) [] in (ls\<lparr>ls_tables := tables\<rparr>, wakes))"

definition owned_by :: "OID \<Rightarrow> KeyLockEntry \<Rightarrow> bool" where
  "owned_by oid e = (case kl_owner e of Some (owner, _) \<Rightarrow> owner = oid | None \<Rightarrow> False)"

fun release_tables :: "OID \<Rightarrow> lock_key list \<Rightarrow> lock_tables \<Rightarrow> u64 list \<Rightarrow> lock_tables \<times> u64 list" where
  "release_tables oid [] tables wakes = (tables, wakes)"
| "release_tables oid (rk # keys) tables wakes =
     (case entry_of tables rk of
        None \<Rightarrow> release_tables oid keys tables wakes
      | Some e \<Rightarrow>
          if owned_by oid e
          then release_tables oid keys (settle_entry rk (e\<lparr>kl_owner := None\<rparr>) tables) (wakes @ head_wake e)
          else release_tables oid keys (settle_entry rk e tables) wakes)"

definition release_locked :: "OID \<Rightarrow> lock_key list \<Rightarrow> LockState \<Rightarrow> LockState \<times> u64 list" where
  "release_locked oid keys ls =
     (let (tables, wakes) = release_tables oid keys (ls_tables ls) [] in (ls\<lparr>ls_tables := tables\<rparr>, wakes))"

text \<open>The closures of \<open>release_all\<close>: what becomes of one entry, and of the entries of one relation.\<close>

definition disown :: "OID \<Rightarrow> KeyLockEntry \<Rightarrow> KeyLockEntry" where
  "disown oid e = (if owned_by oid e then e\<lparr>kl_owner := None\<rparr> else e)"

definition retain_entry :: "KeyLockEntry \<Rightarrow> bool" where
  "retain_entry e \<longleftrightarrow> kl_owner e \<noteq> None \<or> kl_queue e \<noteq> []"

definition release_relation :: "OID \<Rightarrow> (byte list \<times> KeyLockEntry) list \<Rightarrow> (byte list \<times> KeyLockEntry) list" where
  "release_relation oid m = filter (\<lambda>(k, e). retain_entry e) (map (\<lambda>(k, e). (k, disown oid e)) m)"

definition release_all_locked :: "OID \<Rightarrow> LockState \<Rightarrow> LockState \<times> u64 list" where
  "release_all_locked oid ls =
     (ls\<lparr>ls_tables := filter (\<lambda>(r, m). m \<noteq> []) (map (\<lambda>(r, m). (r, release_relation oid m)) (ls_tables ls))\<rparr>,
      concat (map (\<lambda>(r, m). concat (map (\<lambda>(k, e). if owned_by oid e then head_wake e else []) m)) (ls_tables ls)))"

section \<open>The manager\<close>

record XLockMgr =
  xm_lock :: LockState
  xm_wake_count :: u64
  xm_signaled :: "u64 list"

definition XLockMgr_new :: XLockMgr where
  "XLockMgr_new = \<lparr>xm_lock = LockState_new, xm_wake_count = 0, xm_signaled = []\<rparr>"

fun send_wakes :: "u64 list \<Rightarrow> XLockMgr \<Rightarrow> XLockMgr" where
  "send_wakes [] m = m"
| "send_wakes (w # wakes) m = send_wakes wakes (m\<lparr>xm_wake_count := xm_wake_count m + 1, xm_signaled := w # xm_signaled m\<rparr>)"

definition try_lock_some :: "nat \<Rightarrow> OID \<Rightarrow> lock_key list \<Rightarrow> XLockMgr \<Rightarrow> bool \<times> XLockMgr" where
  "try_lock_some now oid keys m =
     (let (acquired, ls, wakes) = try_acquire_locked now oid keys None (xm_lock m) in (acquired, send_wakes wakes (m\<lparr>xm_lock := ls\<rparr>)))"

definition release :: "OID \<Rightarrow> lock_key list \<Rightarrow> XLockMgr \<Rightarrow> XLockMgr" where
  "release oid keys m = (let (ls, wakes) = release_locked oid keys (xm_lock m) in send_wakes wakes (m\<lparr>xm_lock := ls\<rparr>))"

definition release_all :: "OID \<Rightarrow> XLockMgr \<Rightarrow> XLockMgr" where
  "release_all oid m = (let (ls, wakes) = release_all_locked oid (xm_lock m) in send_wakes wakes (m\<lparr>xm_lock := ls\<rparr>))"

section \<open>The phases of a waiting call\<close>

text \<open>What \<open>lock_some\<close> does under the mutex: the allocation of its waiter, one round of its loop, and its departure.\<close>

definition register_waiter :: "LockState \<Rightarrow> (u64 \<times> LockState) rs" where
  "register_waiter ls =
     (if ls_next_waiter_seq ls = - 1 then Inl Panic
      else Inr (ls_next_waiter_seq ls, ls\<lparr>ls_next_waiter_seq := ls_next_waiter_seq ls + 1\<rparr>))"

definition lock_round :: "nat \<Rightarrow> OID \<Rightarrow> lock_key list \<Rightarrow> u64 \<Rightarrow> LockState \<Rightarrow> bool \<times> LockState \<times> u64 list" where
  "lock_round now oid keys w ls =
     (case try_acquire_locked now oid keys (Some w) ls of
        (True, ls', wakes) \<Rightarrow> (True, ls', wakes)
      | (False, ls', wakes) \<Rightarrow> (False, enqueue_locked oid keys w ls', wakes))"

datatype LockPhase = Refused | Trying | Checking | Parked

record LockCall =
  lc_keys :: "lock_key list"
  lc_timeout :: nat
  lc_seq :: u64
  lc_deadline :: nat
  lc_phase :: LockPhase

text \<open>The whole system: the manager, wakeups collected under the mutex but not delivered yet, the call
  each owner is in (an owner is a transaction or a lock token and makes one call at a time), and the clock.\<close>

record LockSys =
  sy_mgr :: XLockMgr
  sy_wakes :: "u64 list"
  sy_calls :: "OID \<rightharpoonup> LockCall"
  sy_now :: nat

definition sys_new :: LockSys where
  "sys_new = \<lparr>sy_mgr = XLockMgr_new, sy_wakes = [], sy_calls = Map.empty, sy_now = 0\<rparr>"

abbreviation sy_lock :: "LockSys \<Rightarrow> LockState" where "sy_lock s \<equiv> xm_lock (sy_mgr s)"

definition set_lock :: "LockState \<Rightarrow> u64 list \<Rightarrow> LockSys \<Rightarrow> LockSys" where
  "set_lock ls wakes s = s\<lparr>sy_mgr := (sy_mgr s)\<lparr>xm_lock := ls\<rparr>, sy_wakes := sy_wakes s @ wakes\<rparr>"

definition clear_signal :: "u64 \<Rightarrow> LockSys \<Rightarrow> LockSys" where
  "clear_signal w s = s\<lparr>sy_mgr := (sy_mgr s)\<lparr>xm_signaled := filter (\<lambda>x. x \<noteq> w) (xm_signaled (sy_mgr s))\<rparr>\<rparr>"

definition set_call :: "OID \<Rightarrow> LockCall option \<Rightarrow> LockSys \<Rightarrow> LockSys" where
  "set_call oid c s = s\<lparr>sy_calls := (sy_calls s)(oid := c)\<rparr>"

inductive lock_step :: "LockSys \<Rightarrow> LockSys \<Rightarrow> bool" where
  fast_grant: "sy_calls s oid = None \<Longrightarrow> try_acquire_locked (sy_now s) oid keys None (sy_lock s) = (True, ls, wakes) \<Longrightarrow>
     lock_step s (set_lock ls wakes s)"
| fast_refuse: "sy_calls s oid = None \<Longrightarrow> try_acquire_locked (sy_now s) oid keys None (sy_lock s) = (False, ls, wakes) \<Longrightarrow>
     lock_step s (set_call oid (Some \<lparr>lc_keys = keys, lc_timeout = t, lc_seq = 0, lc_deadline = 0, lc_phase = Refused\<rparr>) (set_lock ls wakes s))"
| give_up: "sy_calls s oid = Some c \<Longrightarrow> lc_phase c = Refused \<Longrightarrow> lock_step s (set_call oid None s)"
| enter: "sy_calls s oid = Some c \<Longrightarrow> lc_phase c = Refused \<Longrightarrow> register_waiter (sy_lock s) = Inr (w, ls) \<Longrightarrow>
     lock_step s (set_call oid (Some (c\<lparr>lc_seq := w, lc_deadline := sy_now s + lc_timeout c, lc_phase := Trying\<rparr>)) (set_lock ls [] s))"
| grant: "sy_calls s oid = Some c \<Longrightarrow> lc_phase c = Trying \<Longrightarrow>
     lock_round (sy_now s) oid (lc_keys c) (lc_seq c) (sy_lock s) = (True, ls, wakes) \<Longrightarrow> lock_step s (set_call oid None (set_lock ls wakes s))"
| queue_up: "sy_calls s oid = Some c \<Longrightarrow> lc_phase c = Trying \<Longrightarrow>
     lock_round (sy_now s) oid (lc_keys c) (lc_seq c) (sy_lock s) = (False, ls, wakes) \<Longrightarrow>
     lock_step s (set_call oid (Some (c\<lparr>lc_phase := Checking\<rparr>)) (clear_signal (lc_seq c) (set_lock ls wakes s)))"
| leave: "sy_calls s oid = Some c \<Longrightarrow> lc_phase c = Checking \<Longrightarrow> lc_deadline c \<le> sy_now s \<Longrightarrow>
     dequeue_locked (lc_keys c) (lc_seq c) (sy_lock s) = (ls, wakes) \<Longrightarrow> lock_step s (set_call oid None (set_lock ls wakes s))"
| park: "sy_calls s oid = Some c \<Longrightarrow> lc_phase c = Checking \<Longrightarrow> sy_now s < lc_deadline c \<Longrightarrow>
     lock_step s (set_call oid (Some (c\<lparr>lc_phase := Parked\<rparr>)) s)"
| wake: "sy_calls s oid = Some c \<Longrightarrow> lc_phase c = Parked \<Longrightarrow> lc_seq c \<in> set (xm_signaled (sy_mgr s)) \<or> lc_deadline c \<le> sy_now s \<Longrightarrow>
     lock_step s (set_call oid (Some (c\<lparr>lc_phase := Trying\<rparr>)) s)"
| deliver: "sy_wakes s = ws @ w # ws' \<Longrightarrow>
     lock_step s (s\<lparr>sy_mgr := send_wakes [w] (sy_mgr s), sy_wakes := ws @ ws'\<rparr>)"
| unlock: "release_locked oid keys (sy_lock s) = (ls, wakes) \<Longrightarrow> lock_step s (set_lock ls wakes s)"
| unlock_all: "release_all_locked oid (sy_lock s) = (ls, wakes) \<Longrightarrow> lock_step s (set_lock ls wakes s)"
| tick: "lock_step s (s\<lparr>sy_now := sy_now s + d\<rparr>)"

end
