(* ===== verification/Lock_Invariant.thy ===== *)
theory Lock_Invariant
  imports Lock_Mgr
begin

text \<open>
  The lock table seen as an owner and a queue per key, what every section under the mutex does to this
  view, and the invariant of the lock protocol that no wakeup is lost.
\<close>

section \<open>Owner and queue of a key\<close>

definition owner_of :: "lock_tables \<Rightarrow> lock_key \<Rightarrow> (OID \<times> nat) option" where
  "owner_of t k = (case entry_of t k of None \<Rightarrow> None | Some e \<Rightarrow> kl_owner e)"

definition queue_of :: "lock_tables \<Rightarrow> lock_key \<Rightarrow> u64 list" where
  "queue_of t k = (case entry_of t k of None \<Rightarrow> [] | Some e \<Rightarrow> kl_queue e)"

definition tables_ok :: "lock_tables \<Rightarrow> bool" where
  "tables_ok t \<longleftrightarrow> distinct (map fst t) \<and> (\<forall>m \<in> snd ` set t. distinct (map fst m))"

lemma entry_of_put [simp]: "entry_of (put_entry k e t) k' = (if k' = k then Some e else entry_of t k')"
  by (cases k; cases k') (auto simp: entry_of_def put_entry_def update_conv' split: option.splits)

lemma entry_of_drop [simp]: "entry_of (drop_entry k t) k' = (if k' = k then None else entry_of t k')"
proof (cases "map_of t (fst k)")
  case None
  then show ?thesis by (cases k; cases k') (auto simp: entry_of_def drop_entry_def)
next
  case (Some m)
  have "map_of m x = None" if "AList.delete (snd k) m = []" "x \<noteq> snd k" for x
    using that delete_conv' [of "snd k" m] by (metis fun_upd_other map_of.simps(1))
  then show ?thesis using Some
    by (cases k; cases k') (auto simp: entry_of_def drop_entry_def Let_def update_conv' delete_conv')
qed

lemma view_put [simp]:
  "owner_of (put_entry k e t) k' = (if k' = k then kl_owner e else owner_of t k')"
  "queue_of (put_entry k e t) k' = (if k' = k then kl_queue e else queue_of t k')"
  by (simp_all add: owner_of_def queue_of_def)

lemma view_settle [simp]:
  "owner_of (settle_entry k e t) k' = (if k' = k then kl_owner e else owner_of t k')"
  "queue_of (settle_entry k e t) k' = (if k' = k then kl_queue e else queue_of t k')"
  by (auto simp: owner_of_def queue_of_def settle_entry_def)

lemma view_entry: "entry_of t k = Some e \<Longrightarrow> owner_of t k = kl_owner e \<and> queue_of t k = kl_queue e"
  "entry_of t k = None \<Longrightarrow> owner_of t k = None \<and> queue_of t k = []"
  by (simp_all add: owner_of_def queue_of_def)

lemma view_new [simp]:
  "kl_owner (or_insert_new (entry_of t k)) = owner_of t k" "kl_queue (or_insert_new (entry_of t k)) = queue_of t k"
  by (simp_all add: owner_of_def queue_of_def or_insert_new_def KeyLockEntry_new_def split: option.splits)

lemma snd_set_update: "snd ` set (AList.update r m t) \<subseteq> insert m (snd ` set t)"
  by (induction t) auto

lemma snd_set_delete: "snd ` set (AList.delete r t) \<subseteq> snd ` set t"
  by (auto simp: AList.delete_eq)

lemma tables_ok_inner: "tables_ok t \<Longrightarrow> map_of t r = Some m \<Longrightarrow> distinct (map fst m)"
  by (force simp: tables_ok_def dest!: map_of_SomeD)

lemma tables_ok_update:
  assumes "tables_ok t" and "distinct (map fst m)"
  shows "tables_ok (AList.update r m t)"
  using assms snd_set_update [of r m t] unfolding tables_ok_def by (blast intro: distinct_update)

lemma tables_ok_put: "tables_ok t \<Longrightarrow> tables_ok (put_entry k e t)"
  unfolding put_entry_def
  by (rule tables_ok_update) (auto intro: distinct_update dest: tables_ok_inner split: option.splits)

lemma tables_ok_delete: "tables_ok t \<Longrightarrow> tables_ok (AList.delete r t)"
  using snd_set_delete [of r t] unfolding tables_ok_def by (blast intro: distinct_delete)

lemma tables_ok_drop: "tables_ok t \<Longrightarrow> tables_ok (drop_entry k t)"
  by (auto simp: drop_entry_def Let_def intro!: tables_ok_update tables_ok_delete distinct_delete
      dest: tables_ok_inner split: option.splits)

lemma tables_ok_settle: "tables_ok t \<Longrightarrow> tables_ok (settle_entry k e t)"
  by (simp add: settle_entry_def tables_ok_put tables_ok_drop)

section \<open>The sections under the mutex\<close>

abbreviation granted_q :: "u64 option \<Rightarrow> u64 list \<Rightarrow> bool" where
  "granted_q w q \<equiv> granted w \<lparr>kl_owner = None, kl_queue = q\<rparr>"

lemma granted_view: "entry_of t k = Some e \<Longrightarrow> granted w e = granted_q w (queue_of t k)"
  by (simp add: granted_def view_entry split: option.splits list.splits)

lemma granted_empty [simp]: "granted_q w []"
  by (simp add: granted_def split: option.splits)

text \<open>A key is refused to \<open>oid\<close> when another owner holds it, or when it is free and someone else is first in its queue.\<close>

definition refused :: "OID \<Rightarrow> u64 option \<Rightarrow> lock_tables \<Rightarrow> lock_key \<Rightarrow> bool" where
  "refused oid w t k \<longleftrightarrow>
     (case owner_of t k of Some (owner, _) \<Rightarrow> owner \<noteq> oid | None \<Rightarrow> \<not> granted_q w (queue_of t k))"

definition expired :: "nat \<Rightarrow> OID \<Rightarrow> (OID \<times> nat) option \<Rightarrow> bool" where
  "expired now oid x \<longleftrightarrow> (case x of Some (owner, at) \<Rightarrow> owner \<noteq> oid \<and> STATEMENT_LOCK_TTL < now - at | None \<Rightarrow> False)"

text \<open>What a check pass may do to a key: nothing, or reclaim an orphan and collect the head of its queue.\<close>

definition reclaims :: "nat \<Rightarrow> OID \<Rightarrow> lock_key list \<Rightarrow> lock_tables \<Rightarrow> lock_tables \<Rightarrow> u64 list \<Rightarrow> bool" where
  "reclaims now oid keys t t' wakes \<longleftrightarrow> queue_of t' = queue_of t \<and>
     (\<forall>k. owner_of t' k = owner_of t k \<or>
          k \<in> set keys \<and> expired now oid (owner_of t k) \<and> owner_of t' k = None \<and>
          (queue_of t k \<noteq> [] \<longrightarrow> hd (queue_of t k) \<in> set wakes))"

lemma reclaimsD:
  assumes "reclaims now oid keys t t' wakes"
  shows "queue_of t' = queue_of t"
    and "owner_of t' k = owner_of t k \<or> k \<in> set keys \<and> expired now oid (owner_of t k) \<and> owner_of t' k = None \<and>
      (queue_of t k \<noteq> [] \<longrightarrow> hd (queue_of t k) \<in> set wakes)"
  using assms unfolding reclaims_def by blast+

lemma reclaimsI:
  assumes "queue_of t' = queue_of t"
    and "\<And>k. owner_of t' k \<noteq> owner_of t k \<Longrightarrow> k \<in> set keys \<and> expired now oid (owner_of t k) \<and> owner_of t' k = None \<and>
      (queue_of t k \<noteq> [] \<longrightarrow> hd (queue_of t k) \<in> set wakes)"
  shows "reclaims now oid keys t t' wakes"
  using assms unfolding reclaims_def by blast

lemma reclaims_refl [simp]: "reclaims now oid keys t t wakes"
  by (simp add: reclaims_def)

lemma reclaims_keep:
  assumes "reclaims now oid keys t t' wakes" and "\<not> refused oid w t k"
  shows "\<not> refused oid w t' k"
proof (cases "owner_of t' k = owner_of t k")
  case True
  then show ?thesis using assms(2) reclaimsD(1) [OF assms(1)] by (auto simp: refused_def split: option.splits)
next
  case False
  then have "expired now oid (owner_of t k)" using reclaimsD(2) [OF assms(1), of k] by auto
  then show ?thesis using assms(2) by (auto simp: expired_def refused_def split: option.splits)
qed

lemma reclaims_trans:
  assumes "reclaims now oid ks t t1 ws" and "reclaims now oid ks' t1 t' ws'" and "set ws \<subseteq> set ws'"
  shows "reclaims now oid (ks @ ks') t t' ws'"
proof (rule reclaimsI)
  show "queue_of t' = queue_of t" using reclaimsD(1) [OF assms(1)] reclaimsD(1) [OF assms(2)] by simp
  fix k
  assume "owner_of t' k \<noteq> owner_of t k"
  then show "k \<in> set (ks @ ks') \<and> expired now oid (owner_of t k) \<and> owner_of t' k = None \<and>
      (queue_of t k \<noteq> [] \<longrightarrow> hd (queue_of t k) \<in> set ws')"
    using reclaimsD(1) [OF assms(1)] reclaimsD(2) [OF assms(1), of k] reclaimsD(2) [OF assms(2), of k] assms(3)
    by (auto simp: expired_def)
qed

lemma head_wake_hd: "kl_queue e \<noteq> [] \<Longrightarrow> head_wake e = [hd (kl_queue e)]"
  by (cases "kl_queue e") (simp_all add: head_wake_def)

lemma acquire_check_spec:
  assumes "acquire_check now oid w keys t wakes = (ok, t', wakes')"
  shows "(tables_ok t \<longrightarrow> tables_ok t') \<and> reclaims now oid keys t t' wakes' \<and> set wakes \<subseteq> set wakes' \<and>
    (ok \<longleftrightarrow> (\<forall>k \<in> set keys. \<not> refused oid w t' k))"
  using assms
proof (induction now oid w keys t wakes rule: acquire_check.induct)
  case (2 now oid w rk keys t wakes)
  have skip: ?case if "\<not> refused oid w t rk"
    and IH: "(tables_ok t \<longrightarrow> tables_ok t') \<and> reclaims now oid keys t t' wakes' \<and> set wakes \<subseteq> set wakes' \<and>
      (ok \<longleftrightarrow> (\<forall>k \<in> set keys. \<not> refused oid w t' k))"
    using that reclaims_keep [of now oid keys t t' wakes' w rk] reclaims_trans [of now oid "[rk]" t t wakes' keys t' wakes'] by auto
  show ?case
  proof (cases "entry_of t rk")
    case None
    then have "\<not> refused oid w t rk" by (simp add: refused_def view_entry)
    then show ?thesis using skip 2(1) [OF None] 2(5) None by simp
  next
    case (Some e)
    note v = view_entry(1) [OF Some] and g = granted_view [OF Some]
    show ?thesis
    proof (cases "kl_owner e")
      case None
      then show ?thesis
      proof (cases "granted w e")
        case True
        then have "\<not> refused oid w t rk" using None v g by (simp add: refused_def)
        then show ?thesis using skip 2(2) [OF Some None True] 2(5) Some None True by simp
      next
        case False
        then have "refused oid w t rk" using None v g by (simp add: refused_def)
        then show ?thesis using 2(5) Some None False by auto
      qed
    next
      case own: (Some x)
      obtain owner at where x: "x = (owner, at)" by (cases x)
      consider (mine) "owner = oid" | (live) "owner \<noteq> oid" "now - at \<le> STATEMENT_LOCK_TTL"
        | (orphan) "owner \<noteq> oid" "\<not> now - at \<le> STATEMENT_LOCK_TTL" by blast
      then show ?thesis
      proof cases
        case mine
        then have "\<not> refused oid w t rk" using own x v by (simp add: refused_def)
        then show ?thesis using skip 2(3) [OF Some own x [symmetric] mine] 2(5) Some own x mine by simp
      next
        case live
        then have "refused oid w t rk" using own x v by (simp add: refused_def)
        then show ?thesis using 2(5) Some own x live by auto
      next
        case orphan
        let ?t = "put_entry rk (e\<lparr>kl_owner := None\<rparr>) t" and ?wakes = "wakes @ head_wake e"
        have r: "reclaims now oid [rk] t ?t ?wakes"
          by (rule reclaimsI) (use v own x orphan head_wake_hd [of e] in \<open>auto simp: expired_def split: if_splits\<close>)
        have nr: "refused oid w ?t rk \<longleftrightarrow> \<not> granted w e" using v g by (simp add: refused_def)
        show ?thesis
        proof (cases "granted w e")
          case True
          have IH: "(tables_ok ?t \<longrightarrow> tables_ok t') \<and> reclaims now oid keys ?t t' wakes' \<and> set ?wakes \<subseteq> set wakes' \<and>
              (ok \<longleftrightarrow> (\<forall>k \<in> set keys. \<not> refused oid w t' k))"
            using 2(4) [OF Some own x [symmetric] orphan refl refl True] 2(5) Some own x orphan True by simp
          have "\<not> refused oid w t' rk" by (rule reclaims_keep) (use IH True nr in auto)
          moreover have "reclaims now oid ([rk] @ keys) t t' wakes'" by (rule reclaims_trans [OF r]) (use IH in auto)
          ultimately show ?thesis using IH by (auto intro: tables_ok_put)
        next
          case False
          moreover have "reclaims now oid ([rk] @ keys) t ?t ?wakes" by (rule reclaims_trans [OF r]) auto
          ultimately show ?thesis using 2(5) Some own x orphan nr by (auto intro: tables_ok_put)
        qed
      qed
    qed
  qed
qed simp


definition taken_owner :: "nat \<Rightarrow> OID \<Rightarrow> (OID \<times> nat) option \<Rightarrow> (OID \<times> nat) option" where
  "taken_owner now oid x = (case x of Some (owner, _) \<Rightarrow> if owner \<noteq> oid then Some (oid, now) else x | None \<Rightarrow> Some (oid, now))"

definition leave_queue :: "u64 option \<Rightarrow> u64 list \<Rightarrow> u64 list" where
  "leave_queue w q = (case w of Some x \<Rightarrow> filter (\<lambda>y. y \<noteq> x) q | None \<Rightarrow> q)"

lemma taken_owner_idem [simp]: "taken_owner now oid (taken_owner now oid x) = taken_owner now oid x"
  by (auto simp: taken_owner_def split: option.splits)

lemma leave_queue_idem [simp]: "leave_queue w (leave_queue w q) = leave_queue w q"
  by (auto simp: leave_queue_def split: option.splits)

lemma take_entry_view [simp]:
  "kl_owner (take_entry now oid w e) = taken_owner now oid (kl_owner e)" "kl_queue (take_entry now oid w e) = leave_queue w (kl_queue e)"
  by (auto simp: take_entry_def taken_owner_def leave_queue_def Let_def split: option.splits)

lemma acquire_take_spec:
  "(tables_ok t \<longrightarrow> tables_ok (acquire_take now oid w keys t)) \<and>
   (\<forall>k. owner_of (acquire_take now oid w keys t) k = (if k \<in> set keys then taken_owner now oid (owner_of t k) else owner_of t k) \<and>
        queue_of (acquire_take now oid w keys t) k = (if k \<in> set keys then leave_queue w (queue_of t k) else queue_of t k))"
proof (induction keys arbitrary: t)
  case (Cons rk keys)
  show ?case using Cons [of "put_entry rk (take_entry now oid w (or_insert_new (entry_of t rk))) t"] tables_ok_put
    by (auto split: if_splits)
qed simp

lemma acquire_take_view:
  "owner_of (acquire_take now oid w keys t) k = (if k \<in> set keys then taken_owner now oid (owner_of t k) else owner_of t k)"
  "queue_of (acquire_take now oid w keys t) k = (if k \<in> set keys then leave_queue w (queue_of t k) else queue_of t k)"
  using acquire_take_spec [of t now oid w keys] by blast+

lemma enqueue_tables_spec:
  "(tables_ok t \<longrightarrow> tables_ok (enqueue_tables oid keys w t)) \<and> owner_of (enqueue_tables oid keys w t) = owner_of t \<and>
   (\<forall>k. queue_of (enqueue_tables oid keys w t) k =
     (if k \<in> set keys \<and> (case owner_of t k of Some (owner, _) \<Rightarrow> owner \<noteq> oid | None \<Rightarrow> True) \<and> w \<notin> set (queue_of t k)
      then queue_of t k @ [w] else queue_of t k))"
proof (induction keys arbitrary: t)
  case (Cons rk keys)
  show ?case
  proof (cases "entry_of t rk")
    case None
    let ?t = "put_entry rk (KeyLockEntry_new\<lparr>kl_queue := [w]\<rparr>) t"
    have "owner_of ?t = owner_of t" "\<And>k. queue_of ?t k = (if k = rk then [w] else queue_of t k)"
      using view_entry(2) [OF None] by (auto simp: KeyLockEntry_new_def)
    then show ?thesis using Cons [of ?t] None view_entry(2) [OF None] tables_ok_put by auto
  next
    case (Some e)
    note v = view_entry(1) [OF Some]
    show ?thesis
    proof (cases "case kl_owner e of Some (owner, _) \<Rightarrow> owner = oid | None \<Rightarrow> False")
      case True
      then show ?thesis using Cons [of t] Some v by (auto split: option.splits)
    next
      case False
      let ?t = "put_entry rk (if w \<in> set (kl_queue e) then e else e\<lparr>kl_queue := kl_queue e @ [w]\<rparr>) t"
      have "owner_of ?t = owner_of t" "\<And>k. queue_of ?t k = (if k = rk \<and> w \<notin> set (kl_queue e) then queue_of t k @ [w] else queue_of t k)"
        using v by auto
      then show ?thesis using Cons [of ?t] Some v False tables_ok_put by (auto split: option.splits)
    qed
  qed
qed simp

lemma enqueue_tables_view:
  "owner_of (enqueue_tables oid keys w t) = owner_of t"
  "queue_of (enqueue_tables oid keys w t) k =
     (if k \<in> set keys \<and> (case owner_of t k of Some (owner, _) \<Rightarrow> owner \<noteq> oid | None \<Rightarrow> True) \<and> w \<notin> set (queue_of t k)
      then queue_of t k @ [w] else queue_of t k)"
  using enqueue_tables_spec [of t oid keys w] by blast+

section \<open>Blocked requests\<close>

text \<open>A registered waiter has a reason to sleep at a key it is queued at: another owner holds the key, or
  the key is free and another waiter is first.\<close>

definition sleeps :: "OID \<Rightarrow> u64 \<Rightarrow> (OID \<times> nat) option \<Rightarrow> u64 list \<Rightarrow> bool" where
  "sleeps oid w x q \<longleftrightarrow> w \<in> set q \<and> (case x of Some (owner, _) \<Rightarrow> owner \<noteq> oid | None \<Rightarrow> hd q \<noteq> w)"

definition blocked_at :: "OID \<Rightarrow> u64 \<Rightarrow> lock_tables \<Rightarrow> lock_key \<Rightarrow> bool" where
  "blocked_at oid w t k \<longleftrightarrow> sleeps oid w (owner_of t k) (queue_of t k)"

text \<open>A section keeps the waiter asleep for a reason, or collects a wakeup for it.\<close>

definition keeps :: "OID \<Rightarrow> u64 \<Rightarrow> lock_tables \<Rightarrow> lock_tables \<Rightarrow> u64 list \<Rightarrow> bool" where
  "keeps oid w t t' wakes \<longleftrightarrow> w \<in> set wakes \<or> (\<forall>k. blocked_at oid w t k \<longrightarrow> blocked_at oid w t' k)"

lemma keepsI: "(\<And>k. w \<notin> set wakes \<Longrightarrow> blocked_at oid w t k \<Longrightarrow> blocked_at oid w t' k) \<Longrightarrow> keeps oid w t t' wakes"
  unfolding keeps_def by blast

lemma keeps_refl [simp]: "keeps oid w t t wakes"
  by (simp add: keeps_def)

lemma keeps_trans:
  "keeps oid w t t1 ws \<Longrightarrow> keeps oid w t1 t' ws' \<Longrightarrow> set ws \<subseteq> set ws' \<Longrightarrow> keeps oid w t t' ws'"
  unfolding keeps_def by blast

lemma keeps_reclaims:
  assumes "reclaims now oid' keys t t' wakes"
  shows "keeps oid w t t' wakes"
proof (rule keepsI)
  fix k
  assume w: "w \<notin> set wakes" "blocked_at oid w t k"
  then have "queue_of t k \<noteq> []" by (auto simp: blocked_at_def sleeps_def)
  then show "blocked_at oid w t' k"
    using w reclaimsD(1) [OF assms] reclaimsD(2) [OF assms, of k] by (auto simp: blocked_at_def sleeps_def split: option.splits)
qed

lemma keeps_take:
  assumes "oid' \<noteq> oid" and "w' \<noteq> Some w"
  shows "keeps oid w t (acquire_take now oid' w' keys t) wakes"
proof (rule keepsI)
  fix k
  assume b: "blocked_at oid w t k"
  show "blocked_at oid w (acquire_take now oid' w' keys t) k"
    using b assms by (cases "k \<in> set keys") (auto simp: blocked_at_def sleeps_def acquire_take_view taken_owner_def leave_queue_def split: option.splits)
qed

lemma keeps_enqueue: "keeps oid w t (enqueue_tables oid' keys w' t) wakes"
proof (rule keepsI)
  fix k
  assume b: "blocked_at oid w t k"
  have "\<exists>q. queue_of (enqueue_tables oid' keys w' t) k = queue_of t k @ q" by (simp add: enqueue_tables_view)
  then show "blocked_at oid w (enqueue_tables oid' keys w' t) k"
    using b by (cases "queue_of t k") (auto simp: blocked_at_def sleeps_def enqueue_tables_view(1) split: option.splits)
qed

text \<open>Releasing one key, as \<open>release\<close> and \<open>release_all\<close> do.\<close>

lemma blocked_disown:
  assumes "blocked_at oid w t k" and "w \<notin> set (head_wake e)" and "entry_of t k = Some e"
    and "queue_of t' k = kl_queue e" and "owner_of t' k = None"
  shows "blocked_at oid w t' k"
proof -
  have "kl_queue e \<noteq> []" using assms(1,3) by (auto simp: blocked_at_def sleeps_def view_entry)
  then have "hd (kl_queue e) \<noteq> w" using assms(2) by (simp add: head_wake_hd)
  then show ?thesis using assms by (auto simp: blocked_at_def sleeps_def view_entry)
qed

lemma release_tables_spec:
  assumes "release_tables oid' keys t wakes = (t', wakes')"
  shows "(tables_ok t \<longrightarrow> tables_ok t') \<and> queue_of t' = queue_of t \<and> set wakes \<subseteq> set wakes' \<and> keeps oid w t t' wakes'"
  using assms
proof (induction oid' keys t wakes rule: release_tables.induct)
  case (2 oid' rk keys t wakes)
  show ?case
  proof (cases "entry_of t rk")
    case None
    then show ?thesis using 2(1) [OF None] 2(4) by simp
  next
    case (Some e)
    note v = view_entry(1) [OF Some]
    show ?thesis
    proof (cases "owned_by oid' e")
      case True
      let ?t = "settle_entry rk (e\<lparr>kl_owner := None\<rparr>) t"
      have IH: "(tables_ok ?t \<longrightarrow> tables_ok t') \<and> queue_of t' = queue_of ?t \<and> set (wakes @ head_wake e) \<subseteq> set wakes' \<and> keeps oid w ?t t' wakes'"
        by (rule 2(2) [OF Some True]) (use 2(4) Some True in simp)
      have "keeps oid w t ?t (wakes @ head_wake e)"
      proof (rule keepsI)
        fix k
        assume "w \<notin> set (wakes @ head_wake e)" "blocked_at oid w t k"
        then show "blocked_at oid w ?t k"
          using blocked_disown [OF _ _ Some, of oid w ?t] by (cases "k = rk") (auto simp: blocked_at_def)
      qed
      then have "keeps oid w t t' wakes'" by (rule keeps_trans) (use IH in auto)
      moreover have "queue_of ?t = queue_of t" using v by auto
      ultimately show ?thesis using IH tables_ok_settle by auto
    next
      case False
      let ?t = "settle_entry rk e t"
      have "owner_of ?t = owner_of t" "queue_of ?t = queue_of t" using v by auto
      then have "keeps oid w t ?t wakes" by (simp add: keeps_def blocked_at_def)
      moreover have IH: "(tables_ok ?t \<longrightarrow> tables_ok t') \<and> queue_of t' = queue_of ?t \<and> set wakes \<subseteq> set wakes' \<and> keeps oid w ?t t' wakes'"
        by (rule 2(3) [OF Some False]) (use 2(4) Some False in simp)
      ultimately have "keeps oid w t t' wakes'" by (auto intro: keeps_trans)
      then show ?thesis using IH tables_ok_settle \<open>queue_of ?t = queue_of t\<close> by auto
    qed
  qed
qed simp

lemma dequeue_tables_spec:
  assumes "dequeue_tables keys w' t wakes = (t', wakes')"
  shows "(tables_ok t \<longrightarrow> tables_ok t') \<and> set wakes \<subseteq> set wakes' \<and> owner_of t' = owner_of t \<and>
    (\<forall>k. queue_of t' k = (if k \<in> set keys then filter (\<lambda>q. q \<noteq> w') (queue_of t k) else queue_of t k)) \<and>
    (w \<noteq> w' \<longrightarrow> keeps oid w t t' wakes')"
  using assms
proof (induction keys w' t wakes rule: dequeue_tables.induct)
  case (2 rk keys w' t wakes)
  show ?case
  proof (cases "entry_of t rk")
    case None
    then show ?thesis using 2(1) [OF None] 2(3) view_entry(2) [OF None] by (auto split: if_splits)
  next
    case (Some e)
    note v = view_entry(1) [OF Some]
    let ?e = "e\<lparr>kl_queue := filter (\<lambda>q. q \<noteq> w') (kl_queue e)\<rparr>"
    let ?was = "case kl_queue e of [] \<Rightarrow> False | h # _ \<Rightarrow> h = w'"
    let ?t = "settle_entry rk ?e t" and ?wakes = "if ?was \<and> kl_owner ?e = None then wakes @ head_wake ?e else wakes"
    have IH: "(tables_ok ?t \<longrightarrow> tables_ok t') \<and> set ?wakes \<subseteq> set wakes' \<and> owner_of t' = owner_of ?t \<and>
      (\<forall>k. queue_of t' k = (if k \<in> set keys then filter (\<lambda>q. q \<noteq> w') (queue_of ?t k) else queue_of ?t k)) \<and>
      (w \<noteq> w' \<longrightarrow> keeps oid w ?t t' wakes')"
      by (rule 2(2) [OF Some refl refl refl]) (use 2(3) Some in \<open>simp add: Let_def\<close>)
    have k1: "keeps oid w t ?t ?wakes" if ne: "w \<noteq> w'"
    proof (rule keepsI)
      fix k
      assume w: "w \<notin> set ?wakes" and b: "blocked_at oid w t k"
      show "blocked_at oid w ?t k"
      proof (cases "k = rk")
        case True
        then have q: "w \<in> set (kl_queue e)" using b v by (simp add: blocked_at_def sleeps_def)
        then have q': "kl_queue ?e \<noteq> []" "w \<in> set (kl_queue ?e)" using ne by (auto simp: filter_empty_conv)
        have "hd (kl_queue ?e) \<noteq> w" if "kl_owner e = None"
        proof (cases ?was)
          case True
          then show ?thesis using w that q' by (auto simp: head_wake_hd)
        next
          case False
          then obtain h tl where "kl_queue e = h # tl" "h \<noteq> w'" using q by (cases "kl_queue e") auto
          then show ?thesis using b v that \<open>k = rk\<close> by (auto simp: blocked_at_def sleeps_def)
        qed
        then show ?thesis using True b v q' by (auto simp: blocked_at_def sleeps_def split: option.splits)
      next
        case False
        then show ?thesis using b by (simp add: blocked_at_def)
      qed
    qed
    have "keeps oid w t t' wakes'" if "w \<noteq> w'" using keeps_trans [OF k1 [OF that], of t' wakes'] IH that by auto
    moreover have "owner_of ?t = owner_of t" using v by auto
    moreover have "queue_of t' k = (if k \<in> set (rk # keys) then filter (\<lambda>q. q \<noteq> w') (queue_of t k) else queue_of t k)" for k
    proof -
      have "queue_of t' k = (if k \<in> set keys then filter (\<lambda>q. q \<noteq> w') (queue_of ?t k) else queue_of ?t k)" using IH by blast
      then show ?thesis using v by (cases "k = rk") auto
    qed
    moreover have "set wakes \<subseteq> set wakes'" using IH by (auto split: if_splits)
    moreover have "tables_ok t \<longrightarrow> tables_ok t'" using IH tables_ok_settle by blast
    moreover have "owner_of t' = owner_of ?t" using IH by blast
    ultimately show ?thesis by simp
  qed
qed simp

lemma map_of_filter_snd:
  "distinct (map fst xs) \<Longrightarrow> map_of (filter (\<lambda>(k, v). P v) xs) k = (case map_of xs k of None \<Rightarrow> None | Some v \<Rightarrow> if P v then Some v else None)"
  by (induction xs) (auto simp: image_iff split: option.splits dest: map_of_SomeD)

lemma release_relation_entry:
  "distinct (map fst m) \<Longrightarrow>
     map_of (release_relation oid m) k =
       (case map_of m k of None \<Rightarrow> None | Some e \<Rightarrow> if retain_entry (disown oid e) then Some (disown oid e) else None)"
  unfolding release_relation_def by (subst map_of_filter_snd) (auto simp: comp_def case_prod_beta map_of_map split: option.splits)

lemma release_all_entry:
  assumes "tables_ok (ls_tables ls)" and "release_all_locked oid ls = (ls', wakes)"
  shows "entry_of (ls_tables ls') k =
      (case entry_of (ls_tables ls) k of None \<Rightarrow> None | Some e \<Rightarrow> if retain_entry (disown oid e) then Some (disown oid e) else None)"
proof -
  have "distinct (map fst (map (\<lambda>(r, m). (r, release_relation oid m)) (ls_tables ls)))"
    using assms(1) by (simp add: tables_ok_def comp_def case_prod_beta)
  then have "map_of (ls_tables ls') (fst k) = (case map_of (ls_tables ls) (fst k) of None \<Rightarrow> None
      | Some m \<Rightarrow> if release_relation oid m \<noteq> [] then Some (release_relation oid m) else None)"
    using assms(2) by (auto simp: release_all_locked_def map_of_filter_snd map_of_map split: option.splits)
  moreover have "map_of (release_relation oid m) (snd k) = (case map_of m (snd k) of None \<Rightarrow> None
      | Some e \<Rightarrow> if retain_entry (disown oid e) then Some (disown oid e) else None)" if "map_of (ls_tables ls) (fst k) = Some m" for m
    using release_relation_entry [OF tables_ok_inner [OF assms(1) that]] .
  ultimately show ?thesis
    by (cases "map_of (ls_tables ls) (fst k)") (force simp: entry_of_def split: option.splits if_splits)+
qed

lemma release_all_wakes:
  assumes "release_all_locked oid ls = (ls', wakes)" and "entry_of (ls_tables ls) k = Some e" and "owned_by oid e"
  shows "set (head_wake e) \<subseteq> set wakes"
proof -
  let ?g = "\<lambda>(k, e). if owned_by oid e then head_wake e else []"
  obtain m where m: "(fst k, m) \<in> set (ls_tables ls)" "(snd k, e) \<in> set m"
    using assms(2) by (auto simp: entry_of_def split: option.splits dest!: map_of_SomeD)
  have "set (head_wake e) = set (?g (snd k, e))" using assms(3) by simp
  also have "\<dots> \<subseteq> set (concat (map ?g m))" using m(2) by (simp only: set_concat set_map) blast
  also have "\<dots> = set ((\<lambda>(r, m). concat (map ?g m)) (fst k, m))" by simp
  also have "\<dots> \<subseteq> set (concat (map (\<lambda>(r, m). concat (map ?g m)) (ls_tables ls)))"
    using m(1) by (simp only: set_concat set_map) blast
  also have "\<dots> = set wakes" using assms(1) unfolding release_all_locked_def by blast
  finally show ?thesis .
qed

lemma release_all_tables_ok:
  assumes "tables_ok (ls_tables ls)" and "release_all_locked oid ls = (ls', wakes)"
  shows "tables_ok (ls_tables ls')"
proof -
  have "distinct (map fst (release_relation oid m))" if "distinct (map fst m)" for m
    using that by (auto simp: release_relation_def comp_def case_prod_beta intro!: distinct_map_filter)
  moreover have "ls_tables ls' = filter (\<lambda>(r, m). m \<noteq> []) (map (\<lambda>(r, m). (r, release_relation oid m)) (ls_tables ls))"
    using assms(2) by (auto simp: release_all_locked_def)
  moreover have "distinct (map fst (map (\<lambda>(r, m). (r, release_relation oid m)) (ls_tables ls)))"
    using assms(1) by (simp add: tables_ok_def comp_def case_prod_beta)
  ultimately show ?thesis
    using assms(1) unfolding tables_ok_def by (auto intro: distinct_map_filter)
qed

lemma release_all_view:
  assumes "tables_ok (ls_tables ls)" and "release_all_locked oid ls = (ls', wakes)"
  shows "owner_of (ls_tables ls') k = (case owner_of (ls_tables ls) k of Some (owner, at) \<Rightarrow> if owner = oid then None else Some (owner, at) | None \<Rightarrow> None)"
    and "queue_of (ls_tables ls') k = queue_of (ls_tables ls) k"
proof -
  show "owner_of (ls_tables ls') k = (case owner_of (ls_tables ls) k of Some (owner, at) \<Rightarrow> if owner = oid then None else Some (owner, at) | None \<Rightarrow> None)"
  proof (cases "entry_of (ls_tables ls) k")
    case (Some e)
    then show ?thesis using release_all_entry [OF assms, of k]
      by (cases "kl_owner e") (auto simp: owner_of_def disown_def owned_by_def retain_entry_def)
  qed (use release_all_entry [OF assms, of k] in \<open>simp add: owner_of_def\<close>)
  show "queue_of (ls_tables ls') k = queue_of (ls_tables ls) k"
  proof (cases "entry_of (ls_tables ls) k")
    case (Some e)
    then show ?thesis using release_all_entry [OF assms, of k]
      by (auto simp: queue_of_def disown_def retain_entry_def)
  qed (use release_all_entry [OF assms, of k] in \<open>simp add: queue_of_def\<close>)
qed

lemma release_all_keeps:
  assumes "tables_ok (ls_tables ls)" and "release_all_locked oid' ls = (ls', wakes)"
  shows "keeps oid w (ls_tables ls) (ls_tables ls') wakes"
proof (rule keepsI)
  fix k
  assume w: "w \<notin> set wakes" and b: "blocked_at oid w (ls_tables ls) k"
  obtain e where e: "entry_of (ls_tables ls) k = Some e"
    using b by (cases "entry_of (ls_tables ls) k") (auto simp: blocked_at_def sleeps_def view_entry)
  show "blocked_at oid w (ls_tables ls') k"
  proof (cases "owned_by oid' e")
    case True
    show ?thesis
    proof (rule blocked_disown [OF b _ e])
      show "w \<notin> set (head_wake e)" using release_all_wakes [OF assms(2) e True] w by blast
    qed (use True e release_all_view [OF assms, of k] view_entry(1) [OF e] in \<open>auto simp: owned_by_def split: option.splits\<close>)
  next
    case False
    then have "owner_of (ls_tables ls') k = owner_of (ls_tables ls) k"
      using release_all_view(1) [OF assms, of k] view_entry(1) [OF e] by (auto simp: owned_by_def split: option.splits)
    then show ?thesis using b release_all_view(2) [OF assms, of k] by (simp add: blocked_at_def)
  qed
qed

end
