(* ===== verification/Lock_Protocol.thy ===== *)
theory Lock_Protocol
  imports Lock_Invariant
begin

text \<open>
  The invariant of the interleaved lock protocol: identities of waiters are unique, queues hold only
  waiters of running calls, and a call that sleeps has a reason to sleep or a wakeup on its way.
\<close>

definition registered :: "LockSys \<Rightarrow> OID \<Rightarrow> LockCall \<Rightarrow> bool" where
  "registered s oid c \<longleftrightarrow> sy_calls s oid = Some c \<and> lc_phase c \<noteq> Refused"

definition asleep :: "LockCall \<Rightarrow> bool" where
  "asleep c \<longleftrightarrow> lc_phase c = Checking \<or> lc_phase c = Parked"

definition woken :: "LockSys \<Rightarrow> u64 \<Rightarrow> bool" where
  "woken s w \<longleftrightarrow> w \<in> set (xm_signaled (sy_mgr s)) \<or> w \<in> set (sy_wakes s)"

definition seqs_ok :: "LockSys \<Rightarrow> bool" where
  "seqs_ok s \<longleftrightarrow> (\<forall>oid c. registered s oid c \<longrightarrow> lc_seq c < ls_next_waiter_seq (sy_lock s)) \<and>
     (\<forall>oid c oid' c'. registered s oid c \<longrightarrow> registered s oid' c' \<longrightarrow> lc_seq c = lc_seq c' \<longrightarrow> oid = oid')"

definition queues_ok :: "LockSys \<Rightarrow> bool" where
  "queues_ok s \<longleftrightarrow> (\<forall>k w. w \<in> set (queue_of (ls_tables (sy_lock s)) k) \<longrightarrow>
     (\<exists>oid c. registered s oid c \<and> lc_seq c = w \<and> k \<in> set (lc_keys c)))"

definition sleepers_ok :: "LockSys \<Rightarrow> bool" where
  "sleepers_ok s \<longleftrightarrow> (\<forall>oid c. sy_calls s oid = Some c \<longrightarrow> asleep c \<longrightarrow>
     woken s (lc_seq c) \<or> (\<exists>k \<in> set (lc_keys c). blocked_at oid (lc_seq c) (ls_tables (sy_lock s)) k))"

definition lock_inv :: "LockSys \<Rightarrow> bool" where
  "lock_inv s \<longleftrightarrow> tables_ok (ls_tables (sy_lock s)) \<and> seqs_ok s \<and> queues_ok s \<and> sleepers_ok s"

lemma asleep_registered: "sy_calls s oid = Some c \<Longrightarrow> asleep c \<Longrightarrow> registered s oid c"
  by (auto simp: asleep_def registered_def)

lemma queued_call:
  assumes "lock_inv s" and "w \<in> set (queue_of (ls_tables (sy_lock s)) k)"
  shows "\<exists>oid c. registered s oid c \<and> lc_seq c = w \<and> k \<in> set (lc_keys c)"
  using assms unfolding lock_inv_def queues_ok_def by blast

lemma set_lock_simps [simp]:
  "sy_lock (set_lock ls ws s) = ls" "sy_calls (set_lock ls ws s) = sy_calls s" "sy_now (set_lock ls ws s) = sy_now s"
  "sy_wakes (set_lock ls ws s) = sy_wakes s @ ws" "xm_signaled (sy_mgr (set_lock ls ws s)) = xm_signaled (sy_mgr s)"
  by (simp_all add: set_lock_def)

lemma set_call_simps [simp]:
  "sy_mgr (set_call oid c s) = sy_mgr s" "sy_wakes (set_call oid c s) = sy_wakes s" "sy_now (set_call oid c s) = sy_now s"
  "sy_calls (set_call oid c s) = (sy_calls s)(oid := c)"
  by (simp_all add: set_call_def)

lemma clear_signal_simps [simp]:
  "sy_lock (clear_signal w s) = sy_lock s" "sy_calls (clear_signal w s) = sy_calls s" "sy_wakes (clear_signal w s) = sy_wakes s"
  "set (xm_signaled (sy_mgr (clear_signal w s))) = set (xm_signaled (sy_mgr s)) - {w}"
  by (auto simp: clear_signal_def)

lemma woken_set_lock [simp]: "woken (set_lock ls ws s) w \<longleftrightarrow> woken s w \<or> w \<in> set ws"
  by (auto simp: woken_def)

lemma woken_set_call [simp]: "woken (set_call oid c s) w \<longleftrightarrow> woken s w"
  by (simp add: woken_def)

text \<open>A section under the mutex that keeps the queues within the running calls, and keeps the sleep of
  every other call, keeps the invariant.  \<open>oid\<close> is the owner whose call changes to \<open>c\<close>.\<close>

lemma lock_inv_section:
  assumes "lock_inv s" and "sy_calls s' = (sy_calls s)(oid := c')" and "tables_ok (ls_tables (sy_lock s'))"
    and "ls_next_waiter_seq (sy_lock s') = ls_next_waiter_seq (sy_lock s)"
    and "\<And>c. c' = Some c \<Longrightarrow> lc_phase c \<noteq> Refused \<Longrightarrow>
      \<exists>c0. registered s oid c0 \<and> lc_seq c = lc_seq c0 \<and> lc_keys c = lc_keys c0"
    and "\<And>k w. w \<in> set (queue_of (ls_tables (sy_lock s')) k) \<Longrightarrow>
      w \<in> set (queue_of (ls_tables (sy_lock s)) k) \<and> (\<forall>c. registered s oid c \<longrightarrow> lc_seq c = w \<longrightarrow> (\<exists>c1. c' = Some c1 \<and> lc_phase c1 \<noteq> Refused)) \<or>
      (\<exists>c. c' = Some c \<and> lc_phase c \<noteq> Refused \<and> lc_seq c = w \<and> k \<in> set (lc_keys c))"
    and "\<And>oid' c. oid' \<noteq> oid \<Longrightarrow> registered s oid' c \<Longrightarrow>
      keeps oid' (lc_seq c) (ls_tables (sy_lock s)) (ls_tables (sy_lock s')) ws \<and> (woken s (lc_seq c) \<or> lc_seq c \<in> set ws \<longrightarrow> woken s' (lc_seq c))"
    and "\<And>c. c' = Some c \<Longrightarrow> asleep c \<Longrightarrow>
      woken s' (lc_seq c) \<or> (\<exists>k \<in> set (lc_keys c). blocked_at oid (lc_seq c) (ls_tables (sy_lock s')) k)"
  shows "lock_inv s'"
proof -
  have reg: "registered s' oid' c \<longleftrightarrow> (if oid' = oid then c' = Some c \<and> lc_phase c \<noteq> Refused else registered s oid' c)" for oid' c
    using assms(2) by (auto simp: registered_def)
  have seqs: "seqs_ok s'"
  proof -
    have origin: "\<exists>c0. registered s oid' c0 \<and> lc_seq c = lc_seq c0" if "registered s' oid' c" for oid' c
      using that assms(5) reg by (metis (full_types))
    show ?thesis unfolding seqs_ok_def
    proof (intro conjI allI impI)
      fix oid' c assume "registered s' oid' c"
      then show "lc_seq c < ls_next_waiter_seq (sy_lock s')"
        using origin assms(1,4) unfolding lock_inv_def seqs_ok_def by metis
    next
      fix o1 c1 o2 c2 assume "registered s' o1 c1" "registered s' o2 c2" "lc_seq c1 = lc_seq c2"
      then show "o1 = o2" using origin assms(1) unfolding lock_inv_def seqs_ok_def by metis
    qed
  qed
  have queues: "queues_ok s'"
    unfolding queues_ok_def
  proof (intro allI impI)
    fix k w
    assume "w \<in> set (queue_of (ls_tables (sy_lock s')) k)"
    then consider (old) "w \<in> set (queue_of (ls_tables (sy_lock s)) k)"
        "\<forall>c. registered s oid c \<longrightarrow> lc_seq c = w \<longrightarrow> (\<exists>c1. c' = Some c1 \<and> lc_phase c1 \<noteq> Refused)"
      | (new) c where "c' = Some c" "lc_phase c \<noteq> Refused" "lc_seq c = w" "k \<in> set (lc_keys c)"
      using assms(6) by blast
    then show "\<exists>oid c. registered s' oid c \<and> lc_seq c = w \<and> k \<in> set (lc_keys c)"
    proof cases
      case old
      obtain o1 c1 where c1: "registered s o1 c1" "lc_seq c1 = w" "k \<in> set (lc_keys c1)"
        using old(1) assms(1) unfolding lock_inv_def queues_ok_def by blast
      show ?thesis
      proof (cases "o1 = oid")
        case True
        then obtain c where c: "c' = Some c" "lc_phase c \<noteq> Refused" using old(2) c1 by auto
        then obtain c0 where c0: "registered s oid c0" "lc_seq c = lc_seq c0" "lc_keys c = lc_keys c0" using assms(5) by blast
        then have "c0 = c1" using c1(1) True by (simp add: registered_def)
        moreover have "registered s' oid c" using reg c by simp
        ultimately show ?thesis using c0 c1 by metis
      next
        case False
        then have "registered s' o1 c1" using c1(1) reg by simp
        then show ?thesis using c1 by blast
      qed
    next
      case new
      then have "registered s' oid c" using reg by simp
      then show ?thesis using new by blast
    qed
  qed
  have sleepers: "sleepers_ok s'"
    unfolding sleepers_ok_def
  proof (intro allI impI)
    fix o1 c1 assume c1: "sy_calls s' o1 = Some c1" "asleep c1"
    show "woken s' (lc_seq c1) \<or> (\<exists>k \<in> set (lc_keys c1). blocked_at o1 (lc_seq c1) (ls_tables (sy_lock s')) k)"
    proof (cases "o1 = oid")
      case True
      then show ?thesis using c1 assms(2,8) by auto
    next
      case False
      then have "sy_calls s o1 = Some c1" using c1(1) assms(2) by simp
      then show ?thesis using assms(1) c1(2) assms(7) [OF False asleep_registered [OF _ c1(2)]]
        unfolding lock_inv_def sleepers_ok_def keeps_def by blast
    qed
  qed
  show ?thesis using assms(3) seqs queues sleepers by (simp add: lock_inv_def)
qed

section \<open>What an attempt guarantees\<close>

lemma try_acquire_spec:
  assumes "try_acquire_locked now oid keys w ls = (ok, ls', ws)"
  shows "tables_ok (ls_tables ls) \<longrightarrow> tables_ok (ls_tables ls')" "ls_next_waiter_seq ls' = ls_next_waiter_seq ls"
    "set (queue_of (ls_tables ls') k) \<subseteq> set (queue_of (ls_tables ls) k)"
    "ok \<Longrightarrow> w = Some x \<Longrightarrow> k \<in> set keys \<Longrightarrow> x \<notin> set (queue_of (ls_tables ls') k)"
    "oid' \<noteq> oid \<Longrightarrow> w \<noteq> Some w' \<Longrightarrow> keeps oid' w' (ls_tables ls) (ls_tables ls') ws"
    "\<not> ok \<Longrightarrow> \<exists>k \<in> set keys. refused oid w (ls_tables ls') k"
proof -
  obtain c t ws1 where c: "acquire_check now oid w keys (ls_tables ls) [] = (c, t, ws1)"
    by (cases "acquire_check now oid w keys (ls_tables ls) []") auto
  note spec = acquire_check_spec [OF c]
  have out: "ok = c" "ws = ws1" "ls_tables ls' = (if c then acquire_take now oid w keys t else t)"
    "ls_next_waiter_seq ls' = ls_next_waiter_seq ls"
    using assms c by (auto simp: try_acquire_locked_def split: bool.splits)
  have q: "queue_of t = queue_of (ls_tables ls)" using spec reclaimsD(1) by blast
  show "tables_ok (ls_tables ls) \<longrightarrow> tables_ok (ls_tables ls')"
    using spec out(3) acquire_take_spec [of t now oid w keys] by auto
  show "ls_next_waiter_seq ls' = ls_next_waiter_seq ls" by (rule out(4))
  show "set (queue_of (ls_tables ls') k) \<subseteq> set (queue_of (ls_tables ls) k)"
    using out(3) q by (auto simp: acquire_take_view leave_queue_def split: if_splits option.splits)
  show "x \<notin> set (queue_of (ls_tables ls') k)" if "ok" "w = Some x" "k \<in> set keys"
    using that out by (auto simp: acquire_take_view leave_queue_def)
  show "keeps oid' w' (ls_tables ls) (ls_tables ls') ws" if "oid' \<noteq> oid" "w \<noteq> Some w'"
  proof -
    have "keeps oid' w' (ls_tables ls) t ws1" using spec keeps_reclaims by blast
    moreover have "keeps oid' w' t (ls_tables ls') ws1" using out(3) keeps_take [of oid oid' w w' t now keys ws1] that by auto
    ultimately show ?thesis using keeps_trans out(2) by blast
  qed
  show "\<exists>k \<in> set keys. refused oid w (ls_tables ls') k" if "\<not> ok" using that spec out by auto
qed

lemma enqueue_blocks:
  assumes "refused oid (Some w) t k" and "k \<in> set keys"
  shows "blocked_at oid w (enqueue_tables oid keys w t) k"
  using assms
  by (cases "queue_of t k")
    (auto simp: refused_def blocked_at_def sleeps_def enqueue_tables_view granted_def split: option.splits)

lemma lock_round_spec:
  assumes "lock_round now oid keys w ls = (ok, ls', ws)"
  shows "tables_ok (ls_tables ls) \<longrightarrow> tables_ok (ls_tables ls')" "ls_next_waiter_seq ls' = ls_next_waiter_seq ls"
    "x \<in> set (queue_of (ls_tables ls') k) \<Longrightarrow>
       x \<in> set (queue_of (ls_tables ls) k) \<and> (ok \<longrightarrow> k \<in> set keys \<longrightarrow> x \<noteq> w) \<or> \<not> ok \<and> x = w \<and> k \<in> set keys"
    "oid' \<noteq> oid \<Longrightarrow> w \<noteq> w' \<Longrightarrow> keeps oid' w' (ls_tables ls) (ls_tables ls') ws"
    "\<not> ok \<Longrightarrow> \<exists>k \<in> set keys. blocked_at oid w (ls_tables ls') k"
proof -
  obtain c ls1 where c: "try_acquire_locked now oid keys (Some w) ls = (c, ls1, ws)" "ok = c"
      "ls' = (if c then ls1 else enqueue_locked oid keys w ls1)"
    using assms by (auto simp: lock_round_def split: prod.splits bool.splits)
  note spec = try_acquire_spec [OF c(1)]
  show "tables_ok (ls_tables ls) \<longrightarrow> tables_ok (ls_tables ls')"
    using spec(1) c(3) enqueue_tables_spec [of "ls_tables ls1" oid keys w] by (auto simp: enqueue_locked_def)
  show "ls_next_waiter_seq ls' = ls_next_waiter_seq ls" using spec(2) c(3) by (simp add: enqueue_locked_def)
  show "x \<in> set (queue_of (ls_tables ls) k) \<and> (ok \<longrightarrow> k \<in> set keys \<longrightarrow> x \<noteq> w) \<or> \<not> ok \<and> x = w \<and> k \<in> set keys"
    if "x \<in> set (queue_of (ls_tables ls') k)"
    using that spec(3) [of k] spec(4) [of w k] c(2,3) by (auto simp: enqueue_locked_def enqueue_tables_view split: if_splits)
  show "keeps oid' w' (ls_tables ls) (ls_tables ls') ws" if "oid' \<noteq> oid" "w \<noteq> w'"
  proof -
    have "keeps oid' w' (ls_tables ls) (ls_tables ls1) ws" using spec(5) that by simp
    then show ?thesis using c(3) keeps_trans [OF _ keeps_enqueue] by (auto simp: enqueue_locked_def)
  qed
  show "\<exists>k \<in> set keys. blocked_at oid w (ls_tables ls') k" if "\<not> ok"
  proof -
    obtain k where "k \<in> set keys" "refused oid (Some w) (ls_tables ls1) k" using spec(6) \<open>\<not> ok\<close> c(2) by blast
    then have "blocked_at oid w (enqueue_tables oid keys w (ls_tables ls1)) k" by (intro enqueue_blocks)
    then show ?thesis using \<open>k \<in> set keys\<close> c(2,3) \<open>\<not> ok\<close> by (auto simp: enqueue_locked_def)
  qed
qed

section \<open>Every step keeps the invariant\<close>

lemma lock_inv_new: "lock_inv sys_new"
  by (simp add: lock_inv_def sys_new_def XLockMgr_new_def LockState_new_def tables_ok_def seqs_ok_def queues_ok_def
      sleepers_ok_def registered_def queue_of_def entry_of_def)

text \<open>Sections that change no call: a refused or granted fast path of an idle owner, and releases.\<close>

lemma lock_inv_quiet:
  assumes "lock_inv s" and "tables_ok (ls_tables (sy_lock s)) \<longrightarrow> tables_ok (ls_tables ls)"
    and "ls_next_waiter_seq ls = ls_next_waiter_seq (sy_lock s)"
    and "\<And>k. set (queue_of (ls_tables ls) k) \<subseteq> set (queue_of (ls_tables (sy_lock s)) k)"
    and "\<And>oid' c. registered s oid' c \<Longrightarrow> keeps oid' (lc_seq c) (ls_tables (sy_lock s)) (ls_tables ls) ws"
  shows "lock_inv (set_lock ls ws s)"
proof -
  have reg: "registered (set_lock ls ws s) = registered s" by (intro ext) (simp add: registered_def)
  have tables: "tables_ok (ls_tables ls)" using assms(1,2) by (simp add: lock_inv_def)
  have seqs: "seqs_ok (set_lock ls ws s)" using assms(1,3) unfolding lock_inv_def seqs_ok_def reg by simp
  have queues: "queues_ok (set_lock ls ws s)"
    using assms(1,4) unfolding lock_inv_def queues_ok_def reg set_lock_simps by blast
  have "sleepers_ok (set_lock ls ws s)"
    unfolding sleepers_ok_def
  proof (intro allI impI)
    fix oid c assume c: "sy_calls (set_lock ls ws s) oid = Some c" "asleep c"
    then have "sy_calls s oid = Some c" by simp
    then show "woken (set_lock ls ws s) (lc_seq c) \<or> (\<exists>k \<in> set (lc_keys c). blocked_at oid (lc_seq c) (ls_tables (sy_lock (set_lock ls ws s))) k)"
      using assms(1) c(2) assms(5) [OF asleep_registered [OF _ c(2)]]
      unfolding lock_inv_def sleepers_ok_def keeps_def set_lock_simps woken_set_lock by blast
  qed
  then show ?thesis using tables seqs queues by (simp add: lock_inv_def)
qed

lemma fast_keeps_inv:
  assumes "lock_inv s" and "sy_calls s oid = None" and "try_acquire_locked now oid keys None (sy_lock s) = (ok, ls, ws)"
  shows "lock_inv (set_lock ls ws s)"
proof (rule lock_inv_quiet [OF assms(1)])
  fix oid' c assume "registered s oid' c"
  then have "oid' \<noteq> oid" using assms(2) by (auto simp: registered_def)
  then show "keeps oid' (lc_seq c) (ls_tables (sy_lock s)) (ls_tables ls) ws" using try_acquire_spec(5) [OF assms(3)] by simp
qed (use try_acquire_spec [OF assms(3)] in blast)+

text \<open>Steps of a call that is not registered yet touch neither queues nor sleepers.\<close>

lemma lock_inv_unregistered:
  assumes "lock_inv s" and "\<And>c. \<not> registered s oid c" and "\<And>c. c' = Some c \<Longrightarrow> lc_phase c = Refused"
  shows "lock_inv (set_call oid c' s)"
proof -
  have reg: "registered (set_call oid c' s) = registered s"
  proof (intro ext)
    fix o1 c
    show "registered (set_call oid c' s) o1 c = registered s o1 c"
      using assms(2) [of c] assms(3) [of c] by (cases "o1 = oid") (auto simp: registered_def)
  qed
  have "sleepers_ok (set_call oid c' s)"
    unfolding sleepers_ok_def
  proof (intro allI impI)
    fix o1 c assume c: "sy_calls (set_call oid c' s) o1 = Some c" "asleep c"
    then have "o1 \<noteq> oid" using assms(3) by (auto simp: asleep_def)
    then have "sy_calls s o1 = Some c" using c(1) by simp
    then show "woken (set_call oid c' s) (lc_seq c) \<or> (\<exists>k \<in> set (lc_keys c). blocked_at o1 (lc_seq c) (ls_tables (sy_lock (set_call oid c' s))) k)"
      using assms(1) c(2) unfolding lock_inv_def sleepers_ok_def set_call_simps woken_set_call by blast
  qed
  then show ?thesis using assms(1) unfolding lock_inv_def seqs_ok_def queues_ok_def reg set_call_simps by blast
qed

lemma enter_keeps_inv:
  assumes "lock_inv s" and "sy_calls s oid = Some c" and "lc_phase c = Refused" and "register_waiter (sy_lock s) = Inr (w, ls)"
  shows "lock_inv (set_call oid (Some (c\<lparr>lc_seq := w, lc_deadline := d, lc_phase := Trying\<rparr>)) (set_lock ls [] s))"
    (is "lock_inv (set_call oid (Some ?c) ?s)")
proof -
  have w: "w = ls_next_waiter_seq (sy_lock s)" "ls_tables ls = ls_tables (sy_lock s)" "ls_next_waiter_seq ls = w + 1" "w \<noteq> - 1"
    using assms(4) by (auto simp: register_waiter_def split: if_splits)
  have "1 + w \<noteq> 0" using w(4) by (simp add: add_eq_0_iff)
  then have "unat (w + 1) = Suc (unat w)" by (metis unatSuc add.commute)
  then have lt: "x < w \<or> x = w \<Longrightarrow> x < w + 1" for x unfolding word_less_nat_alt by auto
  have reg: "registered (set_call oid (Some ?c) ?s) o1 c1 \<longleftrightarrow> (if o1 = oid then c1 = ?c else registered s o1 c1)" for o1 c1
    by (auto simp: registered_def)
  have old: "o1 \<noteq> oid \<and> lc_seq c1 < w" if "registered s o1 c1" for o1 c1
  proof
    show "o1 \<noteq> oid" using that assms(2,3) by (auto simp: registered_def)
    show "lc_seq c1 < w" using that assms(1) w(1) unfolding lock_inv_def seqs_ok_def by blast
  qed
  have seqs: "seqs_ok (set_call oid (Some ?c) ?s)"
    unfolding seqs_ok_def
  proof (intro conjI allI impI)
    fix o1 c1 assume "registered (set_call oid (Some ?c) ?s) o1 c1"
    then show "lc_seq c1 < ls_next_waiter_seq (sy_lock (set_call oid (Some ?c) ?s))"
      using reg [of o1 c1] old [of o1 c1] lt [of "lc_seq c1"] w(3) by (cases "o1 = oid") simp_all
  next
    fix o1 c1 o2 c2
    assume a: "registered (set_call oid (Some ?c) ?s) o1 c1" "registered (set_call oid (Some ?c) ?s) o2 c2" "lc_seq c1 = lc_seq c2"
    have fresh: "lc_seq c2 < lc_seq c1" if "registered (set_call oid (Some ?c) ?s) o1 c1" "registered (set_call oid (Some ?c) ?s) o2 c2"
        "o1 = oid" "o2 \<noteq> oid" for o1 c1 o2 c2
      using that reg [of o1 c1] reg [of o2 c2] old [of o2 c2] by simp
    show "o1 = o2"
    proof (cases "o1 = oid \<or> o2 = oid")
      case True
      then show ?thesis using fresh [OF a(1,2)] fresh [OF a(2,1)] a(3) by auto
    next
      case False
      then show ?thesis using a reg [of o1 c1] reg [of o2 c2] assms(1) unfolding lock_inv_def seqs_ok_def by (metis (full_types))
    qed
  qed
  have queues: "queues_ok (set_call oid (Some ?c) ?s)"
    unfolding queues_ok_def
  proof (intro allI impI)
    fix k x assume "x \<in> set (queue_of (ls_tables (sy_lock (set_call oid (Some ?c) ?s))) k)"
    then have "x \<in> set (queue_of (ls_tables (sy_lock s)) k)" using w(2) by simp
    then obtain o1 c1 where c1: "registered s o1 c1" "lc_seq c1 = x" "k \<in> set (lc_keys c1)"
      using queued_call [OF assms(1)] by blast
    then have "registered (set_call oid (Some ?c) ?s) o1 c1" using old [of o1 c1] reg [of o1 c1] by simp
    then show "\<exists>o1 c1. registered (set_call oid (Some ?c) ?s) o1 c1 \<and> lc_seq c1 = x \<and> k \<in> set (lc_keys c1)" using c1 by blast
  qed
  have "sleepers_ok (set_call oid (Some ?c) ?s)"
    unfolding sleepers_ok_def
  proof (intro allI impI)
    fix o1 c1 assume c1: "sy_calls (set_call oid (Some ?c) ?s) o1 = Some c1" "asleep c1"
    then have "sy_calls s o1 = Some c1" by (auto simp: asleep_def split: if_splits)
    then show "woken (set_call oid (Some ?c) ?s) (lc_seq c1) \<or>
        (\<exists>k \<in> set (lc_keys c1). blocked_at o1 (lc_seq c1) (ls_tables (sy_lock (set_call oid (Some ?c) ?s))) k)"
      using assms(1) c1(2) w(2) unfolding lock_inv_def sleepers_ok_def by simp
  qed
  then show ?thesis using seqs queues assms(1) w(2) by (simp add: lock_inv_def)
qed

lemma round_keeps_inv:
  assumes "lock_inv s" and "registered s oid c" and "lock_round now oid (lc_keys c) (lc_seq c) (sy_lock s) = (ok, ls, ws)"
  shows "ok \<Longrightarrow> lock_inv (set_call oid None (set_lock ls ws s))"
    and "\<not> ok \<Longrightarrow> lock_inv (set_call oid (Some (c\<lparr>lc_phase := Checking\<rparr>)) (clear_signal (lc_seq c) (set_lock ls ws s)))"
proof -
  note r = lock_round_spec [OF assms(3)]
  have other: "lc_seq c \<noteq> lc_seq c1" if "o1 \<noteq> oid" "registered s o1 c1" for o1 c1
    using assms(1,2) that unfolding lock_inv_def seqs_ok_def by blast
  have mine: "c1 = c" if "registered s oid c1" for c1 using that assms(2) by (simp add: registered_def)
  have own: "k \<in> set (lc_keys c)" if q: "lc_seq c \<in> set (queue_of (ls_tables (sy_lock s)) k)" for k
  proof -
    obtain o1 c1 where "registered s o1 c1" "lc_seq c1 = lc_seq c" "k \<in> set (lc_keys c1)"
      using queued_call [OF assms(1) q] by blast
    then show ?thesis using other [of o1 c1] mine by (cases "o1 = oid") auto
  qed
  show "lock_inv (set_call oid None (set_lock ls ws s))" if "ok"
  proof (rule lock_inv_section [OF assms(1), where oid = oid and c' = None and ws = ws])
    fix k x
    assume "x \<in> set (queue_of (ls_tables (sy_lock (set_call oid None (set_lock ls ws s)))) k)"
    then have x: "x \<in> set (queue_of (ls_tables (sy_lock s)) k)" "k \<in> set (lc_keys c) \<longrightarrow> x \<noteq> lc_seq c" using r(3) [of x k] that by auto
    then have "x \<noteq> lc_seq c" using own by blast
    then show "x \<in> set (queue_of (ls_tables (sy_lock s)) k) \<and>
        (\<forall>c1. registered s oid c1 \<longrightarrow> lc_seq c1 = x \<longrightarrow> (\<exists>c2. None = Some c2 \<and> lc_phase c2 \<noteq> Refused)) \<or>
        (\<exists>c1. None = Some c1 \<and> lc_phase c1 \<noteq> Refused \<and> lc_seq c1 = x \<and> k \<in> set (lc_keys c1))"
      using x(1) mine by auto
  qed (use assms(1) r(1,2,4) other in \<open>auto simp: lock_inv_def\<close>)
  show "lock_inv (set_call oid (Some (c\<lparr>lc_phase := Checking\<rparr>)) (clear_signal (lc_seq c) (set_lock ls ws s)))" if "\<not> ok"
  proof (rule lock_inv_section [OF assms(1), where oid = oid and c' = "Some (c\<lparr>lc_phase := Checking\<rparr>)" and ws = ws])
    fix k x
    assume "x \<in> set (queue_of (ls_tables (sy_lock (set_call oid (Some (c\<lparr>lc_phase := Checking\<rparr>)) (clear_signal (lc_seq c) (set_lock ls ws s))))) k)"
    then show "x \<in> set (queue_of (ls_tables (sy_lock s)) k) \<and>
        (\<forall>c1. registered s oid c1 \<longrightarrow> lc_seq c1 = x \<longrightarrow> (\<exists>c2. Some (c\<lparr>lc_phase := Checking\<rparr>) = Some c2 \<and> lc_phase c2 \<noteq> Refused)) \<or>
        (\<exists>c1. Some (c\<lparr>lc_phase := Checking\<rparr>) = Some c1 \<and> lc_phase c1 \<noteq> Refused \<and> lc_seq c1 = x \<and> k \<in> set (lc_keys c1))"
      using r(3) [of x k] by auto
  next
    fix o1 c1 assume o1: "o1 \<noteq> oid" "registered s o1 c1"
    then show "keeps o1 (lc_seq c1) (ls_tables (sy_lock s))
          (ls_tables (sy_lock (set_call oid (Some (c\<lparr>lc_phase := Checking\<rparr>)) (clear_signal (lc_seq c) (set_lock ls ws s))))) ws \<and>
        (woken s (lc_seq c1) \<or> lc_seq c1 \<in> set ws \<longrightarrow>
          woken (set_call oid (Some (c\<lparr>lc_phase := Checking\<rparr>)) (clear_signal (lc_seq c) (set_lock ls ws s))) (lc_seq c1))"
      using r(4) other [OF o1] by (auto simp: woken_def)
  qed (use assms(1,2) r(1,2,5) that in \<open>auto simp: lock_inv_def\<close>)
qed

lemma leave_keeps_inv:
  assumes "lock_inv s" and "registered s oid c" and "dequeue_locked (lc_keys c) (lc_seq c) (sy_lock s) = (ls, ws)"
  shows "lock_inv (set_call oid None (set_lock ls ws s))"
proof -
  have d: "dequeue_tables (lc_keys c) (lc_seq c) (ls_tables (sy_lock s)) [] = (ls_tables ls, ws)" "ls_next_waiter_seq ls = ls_next_waiter_seq (sy_lock s)"
    using assms(3) by (auto simp: dequeue_locked_def split: prod.splits)
  note r = dequeue_tables_spec [OF d(1)]
  have other: "lc_seq c1 \<noteq> lc_seq c" if "o1 \<noteq> oid" "registered s o1 c1" for o1 c1
    using assms(1,2) that unfolding lock_inv_def seqs_ok_def by metis
  have mine: "c1 = c" if "registered s oid c1" for c1 using that assms(2) by (simp add: registered_def)
  show ?thesis
  proof (rule lock_inv_section [OF assms(1), where oid = oid and c' = None and ws = ws])
    fix k x
    assume "x \<in> set (queue_of (ls_tables (sy_lock (set_call oid None (set_lock ls ws s)))) k)"
    then have x: "x \<in> set (queue_of (ls_tables (sy_lock s)) k)" "k \<in> set (lc_keys c) \<longrightarrow> x \<noteq> lc_seq c"
      using r by (auto split: if_splits)
    obtain o1 c1 where c1: "registered s o1 c1" "lc_seq c1 = x" "k \<in> set (lc_keys c1)"
      using queued_call [OF assms(1) x(1)] by blast
    then have "x \<noteq> lc_seq c" using other [of o1 c1] mine [of c1] x(2) by (cases "o1 = oid") auto
    then show "x \<in> set (queue_of (ls_tables (sy_lock s)) k) \<and>
        (\<forall>c1. registered s oid c1 \<longrightarrow> lc_seq c1 = x \<longrightarrow> (\<exists>c2. None = Some c2 \<and> lc_phase c2 \<noteq> Refused)) \<or>
        (\<exists>c1. None = Some c1 \<and> lc_phase c1 \<noteq> Refused \<and> lc_seq c1 = x \<and> k \<in> set (lc_keys c1))"
      using x(1) mine by auto
  qed (use assms(1) r d(2) other in \<open>auto simp: lock_inv_def\<close>)
qed

lemma phase_keeps_inv:
  assumes "lock_inv s" and "registered s oid c" and "p \<noteq> Refused" and "lc_phase c = Checking \<or> p = Trying"
  shows "lock_inv (set_call oid (Some (c\<lparr>lc_phase := p\<rparr>)) s)"
proof (rule lock_inv_section [OF assms(1), where oid = oid and c' = "Some (c\<lparr>lc_phase := p\<rparr>)" and ws = "[]"])
  fix c' assume c': "Some (c\<lparr>lc_phase := p\<rparr>) = Some c'" "asleep c'"
  then have "asleep c" using assms(2-4) by (auto simp: asleep_def registered_def)
  moreover have "sy_calls s oid = Some c" using assms(2) by (simp add: registered_def)
  ultimately have "woken s (lc_seq c) \<or> (\<exists>k \<in> set (lc_keys c). blocked_at oid (lc_seq c) (ls_tables (sy_lock s)) k)"
    using assms(1) unfolding lock_inv_def sleepers_ok_def by blast
  then show "woken (set_call oid (Some (c\<lparr>lc_phase := p\<rparr>)) s) (lc_seq c') \<or>
      (\<exists>k \<in> set (lc_keys c'). blocked_at oid (lc_seq c') (ls_tables (sy_lock (set_call oid (Some (c\<lparr>lc_phase := p\<rparr>)) s))) k)"
    using c'(1) by auto
qed (use assms in \<open>auto simp: lock_inv_def registered_def\<close>)

lemma deliver_keeps_inv:
  assumes "lock_inv s" and "sy_wakes s = ws @ w # ws'"
  shows "lock_inv (s\<lparr>sy_mgr := send_wakes [w] (sy_mgr s), sy_wakes := ws @ ws'\<rparr>)" (is "lock_inv ?s")
proof -
  have same: "registered ?s = registered s" "sy_lock ?s = sy_lock s" "sy_calls ?s = sy_calls s" "woken ?s = woken s"
    using assms(2) by (auto simp: registered_def woken_def fun_eq_iff)
  show ?thesis using assms(1) unfolding lock_inv_def seqs_ok_def queues_ok_def sleepers_ok_def same .
qed

lemma tick_keeps_inv:
  assumes "lock_inv s"
  shows "lock_inv (s\<lparr>sy_now := t\<rparr>)" (is "lock_inv ?s")
proof -
  have same: "registered ?s = registered s" "sy_lock ?s = sy_lock s" "sy_calls ?s = sy_calls s" "woken ?s = woken s"
    by (auto simp: registered_def woken_def fun_eq_iff)
  show ?thesis using assms unfolding lock_inv_def seqs_ok_def queues_ok_def sleepers_ok_def same .
qed

lemma release_keeps_inv:
  assumes "lock_inv s" and "release_locked oid keys (sy_lock s) = (ls, ws)"
  shows "lock_inv (set_lock ls ws s)"
proof -
  have r: "release_tables oid keys (ls_tables (sy_lock s)) [] = (ls_tables ls, ws)" "ls_next_waiter_seq ls = ls_next_waiter_seq (sy_lock s)"
    using assms(2) by (auto simp: release_locked_def split: prod.splits)
  show ?thesis by (rule lock_inv_quiet [OF assms(1)]) (use release_tables_spec [OF r(1)] r(2) in auto)
qed

lemma release_all_keeps_inv:
  assumes "lock_inv s" and "release_all_locked oid (sy_lock s) = (ls, ws)"
  shows "lock_inv (set_lock ls ws s)"
proof -
  have ok: "tables_ok (ls_tables (sy_lock s))" using assms(1) by (simp add: lock_inv_def)
  have "ls_next_waiter_seq ls = ls_next_waiter_seq (sy_lock s)" using assms(2) by (auto simp: release_all_locked_def)
  then show ?thesis
    using release_all_tables_ok [OF ok assms(2)] release_all_view(2) [OF ok assms(2)] release_all_keeps [OF ok assms(2)]
    by (intro lock_inv_quiet [OF assms(1)]) auto
qed

lemma lock_step_inv:
  assumes "lock_step s s'" and "lock_inv s"
  shows "lock_inv s'"
  using assms
proof (induction rule: lock_step.induct)
  case (fast_grant s oid keys ls wakes)
  then show ?case by (rule_tac fast_keeps_inv)
next
  case (fast_refuse s oid keys ls wakes t)
  have "lock_inv (set_lock ls wakes s)" using fast_refuse by (rule_tac fast_keeps_inv)
  then show ?case by (rule lock_inv_unregistered) (use fast_refuse(1) in \<open>auto simp: registered_def\<close>)
next
  case (give_up s oid c)
  then show ?case by (intro lock_inv_unregistered) (auto simp: registered_def)
next
  case (enter s oid c w ls)
  then show ?case by (intro enter_keeps_inv)
next
  case (grant s oid c ls wakes)
  then show ?case by (intro round_keeps_inv(1)) (auto simp: registered_def)
next
  case (queue_up s oid c ls wakes)
  then show ?case by (intro round_keeps_inv(2)) (auto simp: registered_def)
next
  case (leave s oid c ls wakes)
  then show ?case by (intro leave_keeps_inv) (auto simp: registered_def)
next
  case (park s oid c)
  then show ?case by (intro phase_keeps_inv) (auto simp: registered_def)
next
  case (wake s oid c)
  then show ?case by (intro phase_keeps_inv) (auto simp: registered_def)
next
  case (deliver s ws w ws')
  then show ?case by (intro deliver_keeps_inv)
next
  case (unlock oid keys s ls wakes)
  then show ?case by (intro release_keeps_inv)
next
  case (unlock_all oid s ls wakes)
  then show ?case by (intro release_all_keeps_inv)
next
  case (tick s d)
  then show ?case by (rule_tac tick_keeps_inv)
qed

definition lock_reachable :: "LockSys \<Rightarrow> bool" where
  "lock_reachable s \<longleftrightarrow> lock_step\<^sup>*\<^sup>* sys_new s"

lemma lock_reachable_inv: "lock_reachable s \<Longrightarrow> lock_inv s"
  unfolding lock_reachable_def by (induction rule: rtranclp_induct) (auto intro: lock_inv_new lock_step_inv)

end
