(* ===== verification/Lock_Properties.thy ===== *)
theory Lock_Properties
  imports Lock_Protocol
begin

text \<open>
  The properties of the exclusive lock manager: the guarantee of one attempt, the absence of lost
  wakeups under every interleaving, and a cycle of waiting transactions.
\<close>

section \<open>One attempt\<close>

lemma attempt_parts:
  assumes "try_acquire_locked now oid keys waiter ls = (ok, ls', wakes)"
  obtains t ws where "reclaims now oid keys (ls_tables ls) t ws" "ok \<longleftrightarrow> (\<forall>k \<in> set keys. \<not> refused oid waiter t k)"
    "ls_tables ls' = (if ok then acquire_take now oid waiter keys t else t)"
proof -
  obtain t ws where c: "acquire_check now oid waiter keys (ls_tables ls) [] = (ok, t, ws)"
    and t: "ls_tables ls' = (if ok then acquire_take now oid waiter keys t else t)"
    using assms by (auto simp: try_acquire_locked_def split: prod.splits bool.splits)
  show thesis using that [of t ws] acquire_check_spec [OF c] t by blast
qed

text \<open>A key that a successful attempt takes.\<close>

lemma attempt_key:
  assumes "reclaims now oid keys t0 t ws" and "\<not> refused oid waiter t k"
  shows "\<exists>at. taken_owner now oid (owner_of t k) = Some (oid, at)"
    and "(\<exists>at. owner_of t0 k = Some (oid, at)) \<or>
      (owner_of t0 k = None \<or> expired now oid (owner_of t0 k)) \<and> granted_q waiter (queue_of t0 k)"
proof -
  show "\<exists>at. taken_owner now oid (owner_of t k) = Some (oid, at)" by (cases "owner_of t k") (auto simp: taken_owner_def)
  show "(\<exists>at. owner_of t0 k = Some (oid, at)) \<or>
      (owner_of t0 k = None \<or> expired now oid (owner_of t0 k)) \<and> granted_q waiter (queue_of t0 k)"
    using reclaimsD(1) [OF assms(1)] reclaimsD(2) [OF assms(1), of k] assms(2)
    by (cases "owner_of t0 k") (auto simp: refused_def split: option.splits)
qed

text \<open>C29: One attempt is all-or-nothing and first come, first served.  When it succeeds, the owner holds
  every requested key; each key was already its own, or it was free (or its holder's lease had run out)
  and nobody else was first in its queue; no other key changed hands and no other waiter lost its
  place.  When it fails, no key is taken: at most expired holders are removed, and every queue is unchanged.\<close>

theorem attempt_all_or_nothing:
  assumes "try_acquire_locked now oid keys waiter ls = (ok, ls', wakes)"
  shows "if ok
    then (\<forall>k \<in> set keys. (\<exists>at. owner_of (ls_tables ls') k = Some (oid, at)) \<and>
            ((\<exists>at. owner_of (ls_tables ls) k = Some (oid, at)) \<or>
             (owner_of (ls_tables ls) k = None \<or> expired now oid (owner_of (ls_tables ls) k)) \<and>
             granted_q waiter (queue_of (ls_tables ls) k)) \<and>
            queue_of (ls_tables ls') k = leave_queue waiter (queue_of (ls_tables ls) k)) \<and>
         (\<forall>k. k \<notin> set keys \<longrightarrow> owner_of (ls_tables ls') k = owner_of (ls_tables ls) k \<and> queue_of (ls_tables ls') k = queue_of (ls_tables ls) k)
    else (\<forall>k. queue_of (ls_tables ls') k = queue_of (ls_tables ls) k \<and>
            (owner_of (ls_tables ls') k = owner_of (ls_tables ls) k \<or>
             owner_of (ls_tables ls') k = None \<and> expired now oid (owner_of (ls_tables ls) k)))"
proof -
  obtain t ws where r: "reclaims now oid keys (ls_tables ls) t ws" and ok: "ok \<longleftrightarrow> (\<forall>k \<in> set keys. \<not> refused oid waiter t k)"
    and t: "ls_tables ls' = (if ok then acquire_take now oid waiter keys t else t)"
    using attempt_parts [OF assms] .
  note q = reclaimsD(1) [OF r]
  have o: "owner_of t k = owner_of (ls_tables ls) k \<or> owner_of t k = None \<and> expired now oid (owner_of (ls_tables ls) k)"
    and o': "k \<notin> set keys \<Longrightarrow> owner_of t k = owner_of (ls_tables ls) k" for k using reclaimsD(2) [OF r, of k] by auto
  show ?thesis
  proof (cases ok)
    case True
    then have free: "\<not> refused oid waiter t k" if "k \<in> set keys" for k using ok that by blast
    show ?thesis
      using attempt_key [OF r free] o' q t unfolding if_P [OF True] by (simp add: acquire_take_view)
  next
    case False
    then show ?thesis using t q o by simp
  qed
qed

theorem attempt_all_or_nothing_witness:
  "owner_of (ls_tables (fst (snd (try_acquire_locked 7 5 [(\<lparr>pr_table_id = 1, pr_partition_id = 0\<rparr>, [1])] None LockState_new))))
     (\<lparr>pr_table_id = 1, pr_partition_id = 0\<rparr>, [1]) = Some (5, 7)"
proof -
  let ?k = "(\<lparr>pr_table_id = 1, pr_partition_id = 0\<rparr>, [1]) :: lock_key"
  obtain ls wakes where a: "try_acquire_locked 7 5 [?k] None LockState_new = (True, ls, wakes)" "ls_tables ls = put_entry ?k (take_entry 7 5 None KeyLockEntry_new) []"
    by (simp add: try_acquire_locked_def LockState_new_def entry_of_def or_insert_new_def)
  obtain at where "owner_of (ls_tables ls) ?k = Some (5, at)"
    using attempt_all_or_nothing [OF a(1)] by auto
  moreover have "owner_of (ls_tables ls) ?k = Some (5, 7)" using a(2) by (simp add: taken_owner_def KeyLockEntry_new_def)
  ultimately show ?thesis using a(1) by simp
qed

section \<open>Sample runs\<close>

text \<open>The steps as functions, for runs that are computed.\<close>

definition do_fast :: "OID \<Rightarrow> lock_key list \<Rightarrow> LockSys \<Rightarrow> LockSys" where
  "do_fast oid keys s = (let (ok, ls, wakes) = try_acquire_locked (sy_now s) oid keys None (sy_lock s) in
     if ok then set_lock ls wakes s
     else set_call oid (Some \<lparr>lc_keys = keys, lc_timeout = 5000, lc_seq = 0, lc_deadline = 0, lc_phase = Refused\<rparr>) (set_lock ls wakes s))"

definition do_enter :: "OID \<Rightarrow> LockCall \<Rightarrow> LockSys \<Rightarrow> LockSys" where
  "do_enter oid c s = (case register_waiter (sy_lock s) of
     Inr (w, ls) \<Rightarrow> set_call oid (Some (c\<lparr>lc_seq := w, lc_deadline := sy_now s + lc_timeout c, lc_phase := Trying\<rparr>)) (set_lock ls [] s)
   | Inl _ \<Rightarrow> s)"

definition do_round :: "OID \<Rightarrow> LockCall \<Rightarrow> LockSys \<Rightarrow> LockSys" where
  "do_round oid c s = (let (ok, ls, wakes) = lock_round (sy_now s) oid (lc_keys c) (lc_seq c) (sy_lock s) in
     if ok then set_call oid None (set_lock ls wakes s)
     else set_call oid (Some (c\<lparr>lc_phase := Checking\<rparr>)) (clear_signal (lc_seq c) (set_lock ls wakes s)))"

lemma do_fast_step: "sy_calls s oid = None \<Longrightarrow> lock_step s (do_fast oid keys s)"
  unfolding do_fast_def by (auto simp: Let_def split: prod.splits intro: lock_step.fast_grant lock_step.fast_refuse)

lemma do_enter_step: "sy_calls s oid = Some c \<Longrightarrow> lc_phase c = Refused \<Longrightarrow> register_waiter (sy_lock s) = Inr x \<Longrightarrow> lock_step s (do_enter oid c s)"
  unfolding do_enter_def by (cases x) (auto intro: lock_step.enter)

lemma do_round_step: "sy_calls s oid = Some c \<Longrightarrow> lc_phase c = Trying \<Longrightarrow> lock_step s (do_round oid c s)"
  unfolding do_round_def by (auto simp: Let_def split: prod.splits intro: lock_step.grant lock_step.queue_up)

lemma reachable_step: "lock_reachable s \<Longrightarrow> lock_step s s' \<Longrightarrow> lock_reachable s'"
  unfolding lock_reachable_def by (rule rtranclp.rtrancl_into_rtrancl)

abbreviation sample_key :: "byte \<Rightarrow> lock_key" where
  "sample_key b \<equiv> (\<lparr>pr_table_id = 1, pr_partition_id = 0\<rparr>, [b])"

lemmas lock_eval = do_fast_def do_enter_def do_round_def try_acquire_locked_def lock_round_def enqueue_locked_def register_waiter_def
  set_lock_def set_call_def clear_signal_def entry_of_def put_entry_def or_insert_new_def take_entry_def KeyLockEntry_new_def granted_def
  sys_new_def XLockMgr_new_def LockState_new_def STATEMENT_LOCK_TTL_def head_wake_def

definition held_by :: "OID \<Rightarrow> u64 list \<Rightarrow> KeyLockEntry" where
  "held_by oid q = \<lparr>kl_owner = Some (oid, 0), kl_queue = q\<rparr>"

definition two_keys :: "u64 list \<Rightarrow> u64 list \<Rightarrow> u64 \<Rightarrow> LockState" where
  "two_keys q1 q2 n = \<lparr>ls_tables = [(\<lparr>pr_table_id = 1, pr_partition_id = 0\<rparr>, [([1], held_by 1 q1), ([2], held_by 2 q2)])], ls_next_waiter_seq = n\<rparr>"

definition sample_call :: "byte \<Rightarrow> u64 \<Rightarrow> nat \<Rightarrow> LockPhase \<Rightarrow> LockCall" where
  "sample_call b w d p = \<lparr>lc_keys = [sample_key b], lc_timeout = 5000, lc_seq = w, lc_deadline = d, lc_phase = p\<rparr>"

definition sample_sys :: "LockState \<Rightarrow> (OID \<rightharpoonup> LockCall) \<Rightarrow> LockSys" where
  "sample_sys ls calls = \<lparr>sy_mgr = \<lparr>xm_lock = ls, xm_wake_count = 0, xm_signaled = []\<rparr>, sy_wakes = [], sy_calls = calls, sy_now = 0\<rparr>"

lemma sample_both_held: "do_fast 2 [sample_key 2] (do_fast 1 [sample_key 1] sys_new) = sample_sys (two_keys [] [] 0) Map.empty"
  by (simp add: lock_eval sample_sys_def two_keys_def held_by_def)

lemma sample_refused:
  "do_fast 1 [sample_key 2] (sample_sys (two_keys [] [] 0) Map.empty) = sample_sys (two_keys [] [] 0) [1 \<mapsto> sample_call 2 0 0 Refused]"
  "do_fast 2 [sample_key 1] (sample_sys (two_keys [] [] 0) [1 \<mapsto> sample_call 2 0 0 Refused]) =
     sample_sys (two_keys [] [] 0) [1 \<mapsto> sample_call 2 0 0 Refused, 2 \<mapsto> sample_call 1 0 0 Refused]"
  by (simp_all add: lock_eval sample_sys_def two_keys_def held_by_def sample_call_def)

lemma sample_entered:
  "do_enter 1 (sample_call 2 0 0 Refused) (sample_sys (two_keys [] [] 0) [1 \<mapsto> sample_call 2 0 0 Refused, 2 \<mapsto> sample_call 1 0 0 Refused]) =
     sample_sys (two_keys [] [] 1) [1 \<mapsto> sample_call 2 0 5000 Trying, 2 \<mapsto> sample_call 1 0 0 Refused]"
  "do_enter 2 (sample_call 1 0 0 Refused) (sample_sys (two_keys [] [] 1) [1 \<mapsto> sample_call 2 0 5000 Trying, 2 \<mapsto> sample_call 1 0 0 Refused]) =
     sample_sys (two_keys [] [] 2) [1 \<mapsto> sample_call 2 0 5000 Trying, 2 \<mapsto> sample_call 1 1 5000 Trying]"
  by (simp_all add: lock_eval sample_sys_def two_keys_def held_by_def sample_call_def fun_upd_twist)

lemma sample_queued:
  "do_round 1 (sample_call 2 0 5000 Trying) (sample_sys (two_keys [] [] 2) [1 \<mapsto> sample_call 2 0 5000 Trying, 2 \<mapsto> sample_call 1 1 5000 Trying]) =
     sample_sys (two_keys [] [0] 2) [1 \<mapsto> sample_call 2 0 5000 Checking, 2 \<mapsto> sample_call 1 1 5000 Trying]"
  "do_round 2 (sample_call 1 1 5000 Trying) (sample_sys (two_keys [] [0] 2) [1 \<mapsto> sample_call 2 0 5000 Checking, 2 \<mapsto> sample_call 1 1 5000 Trying]) =
     sample_sys (two_keys [1] [0] 2) [1 \<mapsto> sample_call 2 0 5000 Checking, 2 \<mapsto> sample_call 1 1 5000 Checking]"
  by (simp_all add: lock_eval sample_sys_def two_keys_def held_by_def sample_call_def fun_upd_twist)

abbreviation parked_sys :: LockSys where
  "parked_sys \<equiv> sample_sys (two_keys [1] [0] 2) [1 \<mapsto> sample_call 2 0 5000 Parked, 2 \<mapsto> sample_call 1 1 5000 Parked]"

lemma sample_parked:
  "lock_step (sample_sys (two_keys [1] [0] 2) [1 \<mapsto> sample_call 2 0 5000 Checking, 2 \<mapsto> sample_call 1 1 5000 Checking])
     (sample_sys (two_keys [1] [0] 2) [1 \<mapsto> sample_call 2 0 5000 Parked, 2 \<mapsto> sample_call 1 1 5000 Checking])"
  "lock_step (sample_sys (two_keys [1] [0] 2) [1 \<mapsto> sample_call 2 0 5000 Parked, 2 \<mapsto> sample_call 1 1 5000 Checking]) parked_sys"
  using lock_step.park [of "sample_sys (two_keys [1] [0] 2) [1 \<mapsto> sample_call 2 0 5000 Checking, 2 \<mapsto> sample_call 1 1 5000 Checking]" 1 "sample_call 2 0 5000 Checking"]
    lock_step.park [of "sample_sys (two_keys [1] [0] 2) [1 \<mapsto> sample_call 2 0 5000 Parked, 2 \<mapsto> sample_call 1 1 5000 Checking]" 2 "sample_call 1 1 5000 Checking"]
  by (simp_all add: sample_sys_def sample_call_def set_call_def fun_upd_twist)

lemma reachable_runs:
  "do_fast oid keys s = s' \<Longrightarrow> lock_reachable s \<Longrightarrow> sy_calls s oid = None \<Longrightarrow> lock_reachable s'"
  "do_enter oid c s = s' \<Longrightarrow> lock_reachable s \<Longrightarrow> sy_calls s oid = Some c \<Longrightarrow> lc_phase c = Refused \<Longrightarrow>
     ls_next_waiter_seq (sy_lock s) \<noteq> - 1 \<Longrightarrow> lock_reachable s'"
  "do_round oid c s = s' \<Longrightarrow> lock_reachable s \<Longrightarrow> sy_calls s oid = Some c \<Longrightarrow> lc_phase c = Trying \<Longrightarrow> lock_reachable s'"
  using do_enter_step [of s oid c "(ls_next_waiter_seq (sy_lock s), (sy_lock s)\<lparr>ls_next_waiter_seq := ls_next_waiter_seq (sy_lock s) + 1\<rparr>)"]
  by (auto intro: reachable_step do_fast_step do_round_step simp: register_waiter_def)

lemma parked_reachable: "lock_reachable parked_sys"
proof -
  let ?r = "\<lambda>c. lock_reachable (sample_sys (two_keys [] [] 0) c)"
  have "lock_reachable (do_fast 1 [sample_key 1] sys_new)"
    by (rule reachable_runs(1) [OF refl]) (simp_all add: lock_reachable_def sys_new_def)
  then have "?r Map.empty" by (rule reachable_runs(1) [OF sample_both_held]) (simp add: lock_eval)
  then have "?r [1 \<mapsto> sample_call 2 0 0 Refused]" by (rule reachable_runs(1) [OF sample_refused(1)]) (simp add: sample_sys_def)
  then have "?r [1 \<mapsto> sample_call 2 0 0 Refused, 2 \<mapsto> sample_call 1 0 0 Refused]"
    by (rule reachable_runs(1) [OF sample_refused(2)]) (simp add: sample_sys_def)
  then have "lock_reachable (sample_sys (two_keys [] [] 1) [1 \<mapsto> sample_call 2 0 5000 Trying, 2 \<mapsto> sample_call 1 0 0 Refused])"
    by (rule reachable_runs(2) [OF sample_entered(1)]) (simp_all add: sample_sys_def sample_call_def two_keys_def)
  then have "lock_reachable (sample_sys (two_keys [] [] 2) [1 \<mapsto> sample_call 2 0 5000 Trying, 2 \<mapsto> sample_call 1 1 5000 Trying])"
    by (rule reachable_runs(2) [OF sample_entered(2)]) (simp_all add: sample_sys_def sample_call_def two_keys_def)
  then have "lock_reachable (sample_sys (two_keys [] [0] 2) [1 \<mapsto> sample_call 2 0 5000 Checking, 2 \<mapsto> sample_call 1 1 5000 Trying])"
    by (rule reachable_runs(3) [OF sample_queued(1)]) (simp_all add: sample_sys_def sample_call_def)
  then have "lock_reachable (sample_sys (two_keys [1] [0] 2) [1 \<mapsto> sample_call 2 0 5000 Checking, 2 \<mapsto> sample_call 1 1 5000 Checking])"
    by (rule reachable_runs(3) [OF sample_queued(2)]) (simp_all add: sample_sys_def sample_call_def)
  then show ?thesis using reachable_step [OF reachable_step, OF _ sample_parked] by blast
qed

section \<open>No lost wakeup\<close>

text \<open>C28: No wakeup is lost.  In every state that any interleaving of lock, unlock, timeout and
  wakeup steps reaches, a waiting call that could take all its keys right now has been signalled,
  or a wakeup for it has been collected and is about to be delivered (unless it could take them only
  because some holder's lease has just run out, which nobody signals).\<close>

theorem no_lost_wakeup:
  assumes "lock_reachable s" and "sy_calls s oid = Some c" and "lc_phase c = Checking \<or> lc_phase c = Parked"
    and "\<forall>k \<in> set (lc_keys c). \<not> expired (sy_now s) oid (owner_of (ls_tables (sy_lock s)) k)"
    and "try_acquire_locked (sy_now s) oid (lc_keys c) (Some (lc_seq c)) (sy_lock s) = (True, ls', wakes)"
  shows "lc_seq c \<in> set (xm_signaled (sy_mgr s)) \<or> lc_seq c \<in> set (sy_wakes s)"
proof (rule ccontr)
  assume "\<not> ?thesis"
  then obtain k where k: "k \<in> set (lc_keys c)" "blocked_at oid (lc_seq c) (ls_tables (sy_lock s)) k"
    using lock_reachable_inv [OF assms(1)] assms(2,3) unfolding lock_inv_def sleepers_ok_def asleep_def woken_def by blast
  then have r: "\<not> (\<exists>at. owner_of (ls_tables (sy_lock s)) k = Some (oid, at))"
      "owner_of (ls_tables (sy_lock s)) k = None \<Longrightarrow> \<not> granted_q (Some (lc_seq c)) (queue_of (ls_tables (sy_lock s)) k)"
    by (auto simp: blocked_at_def sleeps_def granted_def split: option.splits list.splits)
  obtain t ws where t: "reclaims (sy_now s) oid (lc_keys c) (ls_tables (sy_lock s)) t ws" "\<not> refused oid (Some (lc_seq c)) t k"
    using attempt_parts [OF assms(5)] k(1) by blast
  show False using attempt_key(2) [OF t] r assms(4) k(1) by blast
qed

definition woken_sys :: LockSys where
  "woken_sys = set_lock (fst (release_all_locked 2 (sy_lock parked_sys))) (snd (release_all_locked 2 (sy_lock parked_sys))) parked_sys"

lemma woken_reachable: "lock_reachable woken_sys"
  unfolding woken_sys_def by (rule reachable_step [OF parked_reachable]) (rule lock_step.unlock_all, simp)

theorem no_lost_wakeup_witness:
  "sy_calls woken_sys 1 = Some (sample_call 2 0 5000 Parked) \<and> 0 \<in> set (xm_signaled (sy_mgr woken_sys)) \<union> set (sy_wakes woken_sys)"
proof -
  have call: "sy_calls woken_sys 1 = Some (sample_call 2 0 5000 Parked)"
    by (simp add: woken_sys_def set_lock_def sample_sys_def)
  have lock: "sy_lock woken_sys = \<lparr>ls_tables = [(\<lparr>pr_table_id = 1, pr_partition_id = 0\<rparr>,
      [([1], held_by 1 [1]), ([2], \<lparr>kl_owner = None, kl_queue = [0]\<rparr>)])], ls_next_waiter_seq = 2\<rparr>" "sy_now woken_sys = 0"
    by (simp_all add: woken_sys_def set_lock_def sample_sys_def release_all_locked_def two_keys_def held_by_def release_relation_def
        disown_def owned_by_def retain_entry_def)
  have "\<forall>k \<in> set (lc_keys (sample_call 2 0 5000 Parked)). \<not> expired (sy_now woken_sys) 1 (owner_of (ls_tables (sy_lock woken_sys)) k)"
    by (simp add: lock sample_call_def owner_of_def entry_of_def expired_def)
  moreover obtain ls wakes where "try_acquire_locked (sy_now woken_sys) 1 (lc_keys (sample_call 2 0 5000 Parked)) (Some (lc_seq (sample_call 2 0 5000 Parked)))
      (sy_lock woken_sys) = (True, ls, wakes)"
    by (simp add: lock sample_call_def lock_eval held_by_def)
  ultimately have "lc_seq (sample_call 2 0 5000 Parked) \<in> set (xm_signaled (sy_mgr woken_sys)) \<or> lc_seq (sample_call 2 0 5000 Parked) \<in> set (sy_wakes woken_sys)"
    by (intro no_lost_wakeup [OF woken_reachable call]) (simp_all add: sample_call_def)
  then show ?thesis using call by (simp add: sample_call_def)
qed

section \<open>Waiting in a cycle\<close>

text \<open>C30: Transactions can wait for each other in a cycle.  Although a single attempt takes all its keys
  or none, locks of earlier statements are kept while a later statement waits: a state is reachable in
  which two parked calls wait for a key that the other one holds, with no signal and no wakeup under way,
  so only the timeout of one of them ends the wait.\<close>

theorem hold_and_wait_cycle:
  "\<exists>s c1 c2 k1 k2. lock_reachable s \<and> sy_calls s 1 = Some c1 \<and> sy_calls s 2 = Some c2 \<and> lc_phase c1 = Parked \<and> lc_phase c2 = Parked \<and>
     lc_keys c1 = [k2] \<and> lc_keys c2 = [k1] \<and> owner_of (ls_tables (sy_lock s)) k1 = Some (1, 0) \<and> owner_of (ls_tables (sy_lock s)) k2 = Some (2, 0) \<and>
     sy_wakes s = [] \<and> xm_signaled (sy_mgr s) = []"
  by (intro exI [of _ parked_sys] exI [of _ "sample_call 2 0 5000 Parked"] exI [of _ "sample_call 1 1 5000 Parked"]
      exI [of _ "sample_key 1"] exI [of _ "sample_key 2"] conjI parked_reachable)
    (simp_all add: sample_sys_def sample_call_def two_keys_def held_by_def owner_of_def entry_of_def)

end
