(* ===== verification/Snapshot_Mgr.thy ===== *)
theory Snapshot_Mgr
  imports U64_Id Mudu_Prelude
begin

text \<open>
  Snapshots and transaction numbers: \<open>contract/snapshot.rs\<close>, \<open>contract/timestamp.rs\<close> and
  \<open>server/worker_snapshot.rs\<close>.  Transaction numbers are 64-bit words; the increment of the counter
  traps on overflow.  Acquiring the mutex of the running list does not fail.
\<close>

section \<open>Timestamps\<close>

record Timestamp =
  ts_c_min :: u64
  ts_c_max :: u64

definition Timestamp_new :: "u64 \<Rightarrow> u64 \<Rightarrow> Timestamp" where
  "Timestamp_new c_min c_max = \<lparr>ts_c_min = c_min, ts_c_max = c_max\<rparr>"

definition Timestamp_default :: Timestamp where
  "Timestamp_default = \<lparr>ts_c_min = 0, ts_c_max = U64_MAX\<rparr>"

section \<open>Snapshots\<close>

record RunningXList =
  rx_creator_ts :: u64
  rx_running :: "u64 list"

record Snapshot =
  sn_creator_ts :: u64
  sn_lower_un_alloc_ts :: u64
  sn_upper_fin_ts :: u64
  sn_running :: "u64 list"

definition Snapshot_from :: "RunningXList \<Rightarrow> Snapshot rs" where
  "Snapshot_from snapshot =
     (let running = rx_running snapshot; creator_ts = rx_creator_ts snapshot in
      if \<not> sorted running then Inl Panic
      else Inr \<lparr>sn_creator_ts = creator_ts,
                sn_lower_un_alloc_ts = (case running of [] \<Rightarrow> creator_ts | v # _ \<Rightarrow> v),
                sn_upper_fin_ts = (if running = [] then creator_ts else last running),
                sn_running = running\<rparr>)"

definition Snapshot_is_visible :: "Snapshot \<Rightarrow> u64 \<Rightarrow> bool" where
  "Snapshot_is_visible s xid =
     (if xid = sn_creator_ts s then True
      else if xid < sn_upper_fin_ts s then True
      else if xid > sn_lower_un_alloc_ts s then False
      else if xid \<in> set (sn_running s) then False
      else True)"

definition is_tuple_visible :: "Snapshot \<Rightarrow> Timestamp \<Rightarrow> bool" where
  "is_tuple_visible s tuple_ts \<longleftrightarrow>
     \<not> Snapshot_is_visible s (ts_c_max tuple_ts) \<and> Snapshot_is_visible s (ts_c_min tuple_ts)"

section \<open>The snapshot manager of a worker\<close>

text \<open>\<open>slice::binary_search\<close>: the position of a match, or the position to insert at.\<close>

definition slice_binary_search :: "u64 list \<Rightarrow> u64 \<Rightarrow> nat + nat" where
  "slice_binary_search xs x =
     (case binary_search (\<lambda>i. Inr (xs ! i < x)) 0 (length xs) of
        Inr i \<Rightarrow> if i < length xs \<and> xs ! i = x then Inr i else Inl i
      | Inl _ \<Rightarrow> Inl 0)"

record WorkerSnapshot =
  ws_xid :: u64
  ws_running :: "u64 list"

definition latest_committed :: WorkerSnapshot where
  "latest_committed = \<lparr>ws_xid = U64_MAX - 1, ws_running = []\<rparr>"

definition is_visible_to_snapshot :: "u64 \<Rightarrow> WorkerSnapshot \<Rightarrow> bool" where
  "is_visible_to_snapshot version_xid snapshot =
     (if version_xid > ws_xid snapshot then False
      else case slice_binary_search (ws_running snapshot) version_xid of Inl _ \<Rightarrow> True | Inr _ \<Rightarrow> False)"

definition WorkerSnapshot_is_visible :: "WorkerSnapshot \<Rightarrow> u64 \<Rightarrow> bool" where
  "WorkerSnapshot_is_visible s version_xid = is_visible_to_snapshot version_xid s"

definition to_snapshot :: "WorkerSnapshot \<Rightarrow> Snapshot rs" where
  "to_snapshot s = Snapshot_from \<lparr>rx_creator_ts = ws_xid s, rx_running = ws_running s\<rparr>"

record WorkerSnapshotMgr =
  sm_next_ts :: u64
  sm_running :: "u64 list"

definition WorkerSnapshotMgr_default :: WorkerSnapshotMgr where
  "WorkerSnapshotMgr_default = \<lparr>sm_next_ts = 0, sm_running = []\<rparr>"

definition insert_sorted_unique :: "u64 \<Rightarrow> u64 list \<Rightarrow> u64 list" where
  "insert_sorted_unique value values =
     (case slice_binary_search values value of Inr _ \<Rightarrow> values | Inl index \<Rightarrow> insert_at index value values)"

type_synonym 'a snap = "(WorkerSnapshotMgr, 'a) se"

text \<open>\<open>fetch_add(1) + 1\<close>: the atomic counter wraps, the addition on its old value traps.\<close>

definition alloc_committed_ts :: "u64 snap" where
  "alloc_committed_ts m =
     ((if sm_next_ts m = U64_MAX then Inl Panic else Inr (sm_next_ts m + 1)), m\<lparr>sm_next_ts := sm_next_ts m + 1\<rparr>)"

definition mgr_begin_tx :: "WorkerSnapshot snap" where
  "mgr_begin_tx =
     bind_se alloc_committed_ts (\<lambda>xid.
     bind_se (read_se (\<lambda>m. Inr (sm_running m))) (\<lambda>running.
     bind_se (write_se (\<lambda>m. m\<lparr>sm_running := insert_sorted_unique xid (sm_running m)\<rparr>)) (\<lambda>_.
     return_se \<lparr>ws_xid = xid, ws_running = running\<rparr>)))"

definition observe_committed_ts :: "u64 \<Rightarrow> WorkerSnapshotMgr \<Rightarrow> WorkerSnapshotMgr" where
  "observe_committed_ts xid m = m\<lparr>sm_next_ts := max (sm_next_ts m) xid\<rparr>"

definition mgr_end_tx :: "u64 \<Rightarrow> unit snap" where
  "mgr_end_tx xid m =
     (case slice_binary_search (sm_running m) xid of
        Inr index \<Rightarrow> (Inr (), m\<lparr>sm_running := remove_at index (sm_running m)\<rparr>)
      | Inl _ \<Rightarrow> (Inl (EC EntityNotFound), m))"

definition oldest_running_xid :: "WorkerSnapshotMgr \<Rightarrow> u64 option" where
  "oldest_running_xid m = (case sm_running m of [] \<Rightarrow> None | x # _ \<Rightarrow> Some x)"

definition latest_xid :: "WorkerSnapshotMgr \<Rightarrow> u64" where
  "latest_xid m = sm_next_ts m"

section \<open>Lemmas\<close>

lemma slice_binary_search_sorted:
  assumes "sorted xs" and "distinct xs"
  shows "x \<in> set xs \<Longrightarrow> \<exists>i < length xs. slice_binary_search xs x = Inr i \<and> xs ! i = x"
    and "x \<notin> set xs \<Longrightarrow> slice_binary_search xs x = Inl (length (takeWhile (\<lambda>y. y < x) xs))"
proof -
  let ?k = "length (takeWhile (\<lambda>y. y < x) xs)"
  have below: "i < length xs \<Longrightarrow> (xs ! i < x) = (i < ?k)" for i
  proof -
    assume i: "i < length xs"
    show ?thesis
    proof
      assume "i < ?k"
      then show "xs ! i < x" using nth_mem [of i "takeWhile (\<lambda>y. y < x) xs"] by (metis set_takeWhileD takeWhile_nth)
    next
      assume lt: "xs ! i < x"
      show "i < ?k"
      proof (rule ccontr)
        assume "\<not> i < ?k"
        then have "xs ! ?k \<le> xs ! i" using assms(1) i by (intro sorted_nth_mono) auto
        moreover have "\<not> xs ! ?k < x" using nth_length_takeWhile [of "\<lambda>y. y < x" xs] i \<open>\<not> i < ?k\<close> by auto
        ultimately show False using lt by (meson le_less_trans)
      qed
    qed
  qed
  have bs: "binary_search (\<lambda>i. Inr (xs ! i < x)) 0 (length xs) = Inr ?k"
    by (rule binary_search_partition [where n = "length xs"]) (use below in \<open>auto simp: length_takeWhile_le\<close>)
  show "\<exists>i < length xs. slice_binary_search xs x = Inr i \<and> xs ! i = x" if mem: "x \<in> set xs"
  proof -
    obtain i where i: "i < length xs" "xs ! i = x" using mem by (auto simp: in_set_conv_nth)
    have "\<not> i < ?k" using below [OF i(1)] i(2) by simp
    then have k: "?k \<le> i" "?k < length xs" using i(1) by auto
    then have "xs ! ?k \<le> x" using assms(1) i by (metis sorted_nth_mono)
    moreover have "\<not> xs ! ?k < x" using nth_length_takeWhile [of "\<lambda>y. y < x" xs] k(2) by auto
    ultimately have "xs ! ?k = x" by (metis less_le)
    then show ?thesis using k(2) bs by (auto simp: slice_binary_search_def)
  qed
  show "slice_binary_search xs x = Inl ?k" if "x \<notin> set xs"
  proof -
    have "\<not> (?k < length xs \<and> xs ! ?k = x)" using that nth_mem by metis
    then show ?thesis unfolding slice_binary_search_def bs sum.case by simp
  qed
qed

lemma insert_sorted_unique_ok:
  assumes "sorted xs" and "distinct xs"
  shows "sorted (insert_sorted_unique x xs) \<and> distinct (insert_sorted_unique x xs) \<and> set (insert_sorted_unique x xs) = insert x (set xs)"
proof (cases "x \<in> set xs")
  case True
  then show ?thesis using slice_binary_search_sorted(1) [OF assms True] assms by (auto simp: insert_sorted_unique_def)
next
  case False
  let ?a = "takeWhile (\<lambda>y. y < x) xs" and ?b = "dropWhile (\<lambda>y. y < x) xs"
  have eq: "insert_sorted_unique x xs = ?a @ x # ?b"
    using slice_binary_search_sorted(2) [OF assms False]
    by (simp add: insert_sorted_unique_def insert_at_def takeWhile_eq_take [symmetric] dropWhile_eq_drop [symmetric])
  have s: "sorted (?a @ ?b)" "set xs = set ?a \<union> set ?b" "distinct (?a @ ?b)"
    using assms by (simp_all add: set_append [symmetric] del: set_append)
  have "\<forall>y \<in> set ?a. y \<le> x" by (auto dest: set_takeWhileD)
  moreover have "\<forall>y \<in> set ?b. x \<le> y"
  proof
    fix y assume y: "y \<in> set ?b"
    then have "?b \<noteq> []" by (cases ?b) auto
    then have "x \<le> hd ?b" using hd_dropWhile [of "\<lambda>y. y < x" xs] by simp
    moreover have "hd ?b \<le> y" using s(1) y by (cases ?b) (auto simp: sorted_append)
    ultimately show "x \<le> y" by (rule order_trans)
  qed
  moreover have "\<forall>y \<in> set ?a. \<forall>z \<in> set ?b. y \<le> z" using s(1) unfolding sorted_append by blast
  ultimately have "sorted (?a @ x # ?b)" using s(1) by (simp add: sorted_append)
  moreover have "distinct ?a" "distinct ?b" "set ?a \<inter> set ?b = {}" using s(3) unfolding distinct_append by blast+
  ultimately show ?thesis using s(2) False unfolding eq by auto
qed

definition mgr_ok :: "WorkerSnapshotMgr \<Rightarrow> bool" where
  "mgr_ok m \<longleftrightarrow> sorted (sm_running m) \<and> distinct (sm_running m) \<and> (\<forall>x \<in> set (sm_running m). x \<le> sm_next_ts m)"

lemma mgr_ok_default: "mgr_ok WorkerSnapshotMgr_default"
  by (simp add: mgr_ok_def WorkerSnapshotMgr_default_def)

lemma next_greater: "(n :: u64) \<noteq> U64_MAX \<Longrightarrow> x \<le> n \<Longrightarrow> x < n + 1"
proof -
  assume n: "n \<noteq> U64_MAX" and x: "x \<le> n"
  have "1 + n \<noteq> 0" using n by (simp add: add_eq_0_iff)
  then have "unat (n + 1) = Suc (unat n)" by (metis unatSuc add.commute)
  then show "x < n + 1" using x unfolding word_le_nat_alt word_less_nat_alt by simp
qed

lemma begin_tx_ok:
  assumes "mgr_begin_tx m = (Inr s, m')" and "mgr_ok m"
  shows "mgr_ok m' \<and> ws_xid s = sm_next_ts m' \<and> ws_running s = sm_running m \<and> sm_next_ts m < ws_xid s \<and>
    (\<forall>x \<in> set (ws_running s). x < ws_xid s) \<and> set (sm_running m') = insert (ws_xid s) (set (sm_running m))"
proof -
  have n: "sm_next_ts m \<noteq> U64_MAX" and e: "s = \<lparr>ws_xid = sm_next_ts m + 1, ws_running = sm_running m\<rparr>"
    "m' = m\<lparr>sm_next_ts := sm_next_ts m + 1, sm_running := insert_sorted_unique (sm_next_ts m + 1) (sm_running m)\<rparr>"
    using assms(1) by (auto simp: mgr_begin_tx_def alloc_committed_ts_def bind_se_def read_se_def write_se_def return_se_def split: if_splits)
  note gt = next_greater [OF n]
  have "x < sm_next_ts m + 1" if "x \<in> set (sm_running m)" for x using gt assms(2) that by (simp add: mgr_ok_def)
  then show ?thesis
    using e gt [of "sm_next_ts m"] insert_sorted_unique_ok [of "sm_running m" "sm_next_ts m + 1"] assms(2)
    by (auto simp: mgr_ok_def intro: less_imp_le)
qed

lemma alloc_ts_ok:
  assumes "alloc_committed_ts m = (Inr xid, m')" and "mgr_ok m"
  shows "mgr_ok m' \<and> xid = sm_next_ts m' \<and> sm_next_ts m < xid \<and> sm_running m' = sm_running m"
proof -
  have n: "sm_next_ts m \<noteq> U64_MAX" and e: "xid = sm_next_ts m + 1" "m' = m\<lparr>sm_next_ts := sm_next_ts m + 1\<rparr>"
    using assms(1) by (auto simp: alloc_committed_ts_def split: if_splits)
  note gt = next_greater [OF n]
  have "x \<le> sm_next_ts m + 1" if "x \<in> set (sm_running m)" for x using gt assms(2) that by (simp add: mgr_ok_def less_imp_le)
  then show ?thesis using e gt [of "sm_next_ts m"] assms(2) by (auto simp: mgr_ok_def)
qed

lemma observe_ts_ok: "mgr_ok m \<Longrightarrow> mgr_ok (observe_committed_ts xid m)"
  by (auto simp: mgr_ok_def observe_committed_ts_def max_def intro: order_trans)

lemma end_tx_ok:
  assumes "mgr_ok m"
  shows "xid \<in> set (sm_running m) \<Longrightarrow> \<exists>m'. mgr_end_tx xid m = (Inr (), m') \<and> mgr_ok m' \<and> sm_next_ts m' = sm_next_ts m \<and>
      set (sm_running m') = set (sm_running m) - {xid}"
    and "xid \<notin> set (sm_running m) \<Longrightarrow> mgr_end_tx xid m = (Inl (EC EntityNotFound), m)"
proof -
  have so: "sorted (sm_running m)" "distinct (sm_running m)" using assms by (auto simp: mgr_ok_def)
  show "mgr_end_tx xid m = (Inl (EC EntityNotFound), m)" if "xid \<notin> set (sm_running m)"
    using slice_binary_search_sorted(2) [OF so that] by (simp add: mgr_end_tx_def)
  show "\<exists>m'. mgr_end_tx xid m = (Inr (), m') \<and> mgr_ok m' \<and> sm_next_ts m' = sm_next_ts m \<and> set (sm_running m') = set (sm_running m) - {xid}"
    if mem: "xid \<in> set (sm_running m)"
  proof -
    obtain i where i: "i < length (sm_running m)" "slice_binary_search (sm_running m) xid = Inr i" "sm_running m ! i = xid"
      using slice_binary_search_sorted(1) [OF so mem] by blast
    let ?r = "remove_at i (sm_running m)"
    have "set ?r = set (sm_running m) - {xid}" using set_remove_at_distinct [OF so(2) i(1)] i(3) by simp
    moreover have "sorted ?r" "distinct ?r" using so by (auto intro: sorted_remove_at distinct_remove_at)
    ultimately show ?thesis using i(2) assms by (auto simp: mgr_end_tx_def mgr_ok_def)
  qed
qed

section \<open>The life of a manager\<close>

inductive mgr_reachable :: "WorkerSnapshotMgr \<Rightarrow> bool" where
  init: "mgr_reachable WorkerSnapshotMgr_default"
| begin_tx: "mgr_reachable m \<Longrightarrow> mgr_begin_tx m = (Inr s, m') \<Longrightarrow> mgr_reachable m'"
| alloc: "mgr_reachable m \<Longrightarrow> alloc_committed_ts m = (Inr xid, m') \<Longrightarrow> mgr_reachable m'"
| observe: "mgr_reachable m \<Longrightarrow> mgr_reachable (observe_committed_ts xid m)"
| end_tx: "mgr_reachable m \<Longrightarrow> mgr_end_tx xid m = (r, m') \<Longrightarrow> mgr_reachable m'"

lemma mgr_reachable_ok: "mgr_reachable m \<Longrightarrow> mgr_ok m"
proof (induction rule: mgr_reachable.induct)
  case (end_tx m xid r m')
  then show ?case using end_tx_ok [OF end_tx.IH, of xid] by (cases "xid \<in> set (sm_running m)") auto
qed (auto simp: mgr_ok_default observe_ts_ok dest: begin_tx_ok alloc_ts_ok)

section \<open>Visibility\<close>

lemma WorkerSnapshot_visible_iff:
  assumes "sorted (ws_running s)" and "distinct (ws_running s)"
  shows "WorkerSnapshot_is_visible s x \<longleftrightarrow> x \<le> ws_xid s \<and> x \<notin> set (ws_running s)"
proof (cases "x \<in> set (ws_running s)")
  case True
  then show ?thesis using slice_binary_search_sorted(1) [OF assms True]
    by (auto simp: WorkerSnapshot_is_visible_def is_visible_to_snapshot_def)
next
  case False
  then show ?thesis using slice_binary_search_sorted(2) [OF assms False]
    by (auto simp: WorkerSnapshot_is_visible_def is_visible_to_snapshot_def simp flip: not_less)
qed

lemma sorted_le_last: "sorted xs \<Longrightarrow> x \<in> set xs \<Longrightarrow> x \<le> last xs"
  by (induction xs) auto

lemma butlast_below_last:
  assumes "sorted xs" and "distinct xs" and "x \<in> set (butlast xs)"
  shows "x < last xs"
proof -
  have ne: "xs \<noteq> []" using assms(3) by auto
  then have "xs = butlast xs @ [last xs]" by simp
  then have "last xs \<notin> set (butlast xs)" using assms(2) by (metis distinct_append disjoint_insert(1) list.simps(15) inf_commute)
  then have "x \<noteq> last xs" using assms(3) by auto
  moreover have "x \<le> last xs" using assms(1) in_set_butlastD [OF assms(3)] by (rule sorted_le_last)
  ultimately show ?thesis by simp
qed

lemma row_snapshot_visible_iff:
  assumes "to_snapshot w = Inr s" and "ws_running w \<noteq> []" and "sorted (ws_running w)" and "distinct (ws_running w)"
  shows "Snapshot_is_visible s x \<longleftrightarrow> x = ws_xid w \<or> x < last (ws_running w)"
proof -
  obtain y ys where y: "ws_running w = y # ys" using assms(2) by (cases "ws_running w") auto
  have s: "s = \<lparr>sn_creator_ts = ws_xid w, sn_lower_un_alloc_ts = y, sn_upper_fin_ts = last (ws_running w), sn_running = ws_running w\<rparr>"
    using assms(1,3) y by (simp add: to_snapshot_def Snapshot_from_def Let_def)
  have "y \<le> last (ws_running w)" using assms(3) by (rule sorted_le_last) (simp add: y)
  moreover have "last (ws_running w) \<in> set (ws_running w)" using assms(2) by simp
  moreover have "x = l" if "\<not> x < l" "\<not> y < x" "y \<le> l" for l
  proof (rule antisym)
    show "x \<le> l" using that(2,3) by (rule order_trans [OF leI])
    show "l \<le> x" using that(1) by (rule leI)
  qed
  ultimately have "x \<in> set (ws_running w)" if "\<not> x < last (ws_running w)" "\<not> y < x" using that by metis
  then show ?thesis unfolding s by (auto simp: Snapshot_is_visible_def)
qed

end
