(* ===== verification/Update_Delta.thy ===== *)
theory Update_Delta
  imports Mudu_Prelude
begin

text \<open>Updates of byte ranges, with their compensating updates: \<open>mudu/src/common/update_delta.rs\<close>.\<close>

record UpdateDelta =
  ud_offset :: u32
  ud_size :: u32
  ud_data :: "byte list"

definition UpdateDelta_new :: "u32 \<Rightarrow> u32 \<Rightarrow> byte list \<Rightarrow> UpdateDelta" where
  "UpdateDelta_new offset sz data = \<lparr>ud_offset = offset, ud_size = sz, ud_data = data\<rparr>"

text \<open>The update of the buffer and the compensating update.  The 32-bit sum of offset and size traps.\<close>

definition apply_to :: "UpdateDelta \<Rightarrow> byte list \<Rightarrow> (UpdateDelta \<times> byte list) rs" where
  "apply_to d buf =
     bind_rs (add_u32 (ud_offset d) (ud_size d)) (\<lambda>sum.
     let from = unat (ud_offset d); to = unat sum in
     if length buf < to then Inl Panic
     else Inr (\<lparr>ud_offset = ud_offset d, ud_size = of_nat (length (ud_data d)), ud_data = sub_slice from to buf\<rparr>,
               take from buf @ ud_data d @ drop to buf))"

definition to_replace_end :: "UpdateDelta \<Rightarrow> nat rs" where
  "to_replace_end d =
     bind_rs (add_u32 (ud_offset d) (ud_size d)) (\<lambda>sum. Inr (unat sum))"

lemma apply_to_unat:
  "apply_to d buf =
     (let from = unat (ud_offset d); to = unat (ud_offset d) + unat (ud_size d) in
      if to \<ge> 2 ^ 32 \<or> length buf < to then Inl Panic
      else Inr (\<lparr>ud_offset = ud_offset d, ud_size = of_nat (length (ud_data d)), ud_data = sub_slice from to buf\<rparr>,
                take from buf @ ud_data d @ drop to buf))"
proof (cases "unat (ud_offset d) + unat (ud_size d) < 2 ^ 32")
  case True
  show ?thesis unfolding apply_to_def add_u32_ok [OF True] using True by (simp add: unat_add_u32 [OF True] Let_def)
next
  case False
  then show ?thesis by (simp add: apply_to_def add_u32_unat)
qed

lemma apply_to_undo:
  assumes "apply_to d buf = Inr (undo, buf')" and "length buf < 2 ^ 32" and "length buf' < 2 ^ 32"
  shows "\<exists>d'. apply_to undo buf' = Inr (d', buf)"
proof -
  let ?from = "unat (ud_offset d)" and ?to = "unat (ud_offset d) + unat (ud_size d)"
  have e: "?to < 2 ^ 32" "?to \<le> length buf" "undo = \<lparr>ud_offset = ud_offset d, ud_size = of_nat (length (ud_data d)), ud_data = sub_slice ?from ?to buf\<rparr>"
    "buf' = take ?from buf @ ud_data d @ drop ?to buf"
    using assms(1) by (auto simp: apply_to_unat Let_def split: if_splits)
  have len: "?from + length (ud_data d) \<le> length buf'" using e(2,4) by simp
  then have n: "unat (of_nat (length (ud_data d)) :: u32) = length (ud_data d)"
    using assms(3) by (intro unat_u32_small) simp
  have "take ?from buf' = take ?from buf" "drop (?from + length (ud_data d)) buf' = drop ?to buf" using e(2,4) by simp_all
  moreover have "take ?from buf @ sub_slice ?from ?to buf = take ?to buf" by (simp add: sub_slice_def take_add)
  ultimately have "take ?from buf' @ sub_slice ?from ?to buf @ drop (?from + length (ud_data d)) buf' = buf"
    by (metis append_assoc append_take_drop_id)
  then show ?thesis using len n e(3) assms(3) by (simp add: apply_to_unat Let_def)
qed

end
