(* ===== verification/Data_Row.thy ===== *)
theory Data_Row
  imports Snapshot_Mgr Update_Delta
begin

text \<open>
  Version chains of rows: \<open>contract/version_tuple.rs\<close>,
  \<open>contract/version_delta.rs\<close> and \<open>contract/data_row.rs\<close>.  A row keeps its newest versions in full and
  reaches older ones through a chain of deltas from newer to older.
\<close>

section \<open>Versions\<close>

record VersionTuple =
  vt_timestamp :: Timestamp
  vt_buf :: "byte list"
  vt_deleted :: bool

definition VersionTuple_new :: "Timestamp \<Rightarrow> byte list \<Rightarrow> VersionTuple" where
  "VersionTuple_new timestamp buf = \<lparr>vt_timestamp = timestamp, vt_buf = buf, vt_deleted = False\<rparr>"

definition VersionTuple_new_delete :: "Timestamp \<Rightarrow> VersionTuple" where
  "VersionTuple_new_delete timestamp = \<lparr>vt_timestamp = timestamp, vt_buf = [], vt_deleted = True\<rparr>"

record VersionDelta =
  vd_timestamp :: Timestamp
  vd_deleted :: bool
  vd_update :: "UpdateDelta list"

definition VersionDelta_new :: "Timestamp \<Rightarrow> bool \<Rightarrow> UpdateDelta list \<Rightarrow> VersionDelta" where
  "VersionDelta_new timestamp deleted update = \<lparr>vd_timestamp = timestamp, vd_deleted = deleted, vd_update = update\<rparr>"

section \<open>Rows\<close>

definition UNCOMPRESSED_VERSION_COUNT :: nat where "UNCOMPRESSED_VERSION_COUNT = 4"

record DataRow =
  dr_tid :: u64
  dr_tuple :: "VersionTuple list"
  dr_delta :: "VersionDelta list"

definition DataRow_new :: "u64 \<Rightarrow> DataRow" where
  "DataRow_new tid = \<lparr>dr_tid = tid, dr_tuple = [], dr_delta = []\<rparr>"

definition build_version_delta :: "VersionTuple \<Rightarrow> VersionTuple \<Rightarrow> VersionDelta" where
  "build_version_delta newer older =
     VersionDelta_new (vt_timestamp older) (vt_deleted older)
       [UpdateDelta_new 0 (of_nat (length (vt_buf newer))) (vt_buf older)]"

definition apply_version_delta :: "VersionDelta \<Rightarrow> VersionTuple \<Rightarrow> VersionTuple rs" where
  "apply_version_delta delta version =
     bind_rs (fold_rs (\<lambda>item buf. bind_rs (apply_to item buf) (\<lambda>(_, buf'). Inr buf')) (vd_update delta) (vt_buf version)) (\<lambda>tuple.
     Inr (if vd_deleted delta then VersionTuple_new_delete (vd_timestamp delta)
          else VersionTuple_new (vd_timestamp delta) tuple))"

definition push_version :: "VersionTuple \<Rightarrow> DataRow \<Rightarrow> DataRow" where
  "push_version version row =
     (let tuple = dr_tuple row @ [version] in
      row\<lparr>dr_tuple := (if length tuple > UNCOMPRESSED_VERSION_COUNT then remove_at 0 tuple else tuple)\<rparr>)"

definition write_version :: "VersionTuple \<Rightarrow> VersionDelta option \<Rightarrow> DataRow \<Rightarrow> DataRow" where
  "write_version version prev_version row =
     push_version version
       (if dr_tuple row = [] then row
        else row\<lparr>dr_delta := dr_delta row @
               [case prev_version of Some d \<Rightarrow> d | None \<Rightarrow> build_version_delta version (last (dr_tuple row))]\<rparr>)"

definition write_version_shallow :: "VersionTuple \<Rightarrow> DataRow \<Rightarrow> DataRow" where
  "write_version_shallow version row =
     push_version version
       (if dr_tuple row = [] then row
        else row\<lparr>dr_delta := dr_delta row @
               [VersionDelta_new (vt_timestamp (last (dr_tuple row))) (vt_deleted (last (dr_tuple row))) [UpdateDelta_new 0 0 []]]\<rparr>)"

definition read_latest :: "DataRow \<Rightarrow> VersionTuple option" where
  "read_latest row = (if dr_tuple row = [] then None else Some (last (dr_tuple row)))"

text \<open>The loop \<open>for index in (0..=start).rev()\<close>; the argument is \<open>index + 1\<close>.\<close>

fun walk_deltas :: "Snapshot \<Rightarrow> VersionDelta list \<Rightarrow> nat \<Rightarrow> VersionTuple \<Rightarrow> VersionTuple option rs" where
  "walk_deltas snapshot deltas 0 version = Inr None"
| "walk_deltas snapshot deltas (Suc index) version =
     bind_rs (index_at index deltas) (\<lambda>delta.
     bind_rs (apply_version_delta delta version) (\<lambda>version'.
     if is_tuple_visible snapshot (vt_timestamp version') then Inr (Some version')
     else walk_deltas snapshot deltas index version'))"

definition read_version_detailed :: "Snapshot \<Rightarrow> DataRow \<Rightarrow> (VersionTuple \<times> bool) option rs" where
  "read_version_detailed snapshot row =
     (case find (\<lambda>v. is_tuple_visible snapshot (vt_timestamp v)) (rev (dr_tuple row)) of
        Some version \<Rightarrow> Inr (Some (version, vt_buf version \<noteq> []))
      | None \<Rightarrow>
          (case dr_tuple row of
             [] \<Rightarrow> Inr None
           | version # _ \<Rightarrow>
               let older_version_count = length (dr_delta row) + 1 - length (dr_tuple row) in
               bind_rs (walk_deltas snapshot (dr_delta row) older_version_count version) (\<lambda>r.
               Inr (map_option (\<lambda>v. (v, False)) r))))"

definition read_version :: "Snapshot \<Rightarrow> DataRow \<Rightarrow> VersionTuple option rs" where
  "read_version snapshot row = bind_rs (read_version_detailed snapshot row) (\<lambda>r. Inr (map_option fst r))"

definition apply_update_to_latest_sync ::
    "Timestamp \<Rightarrow> (byte list \<Rightarrow> byte list rs) \<Rightarrow> (DataRow, byte list) se" where
  "apply_update_to_latest_sync timestamp compute =
     bind_se (read_se (\<lambda>row. ok_or (read_latest row) (EC EntityNotFound))) (\<lambda>latest.
     bind_se (lift_se (compute (vt_buf latest))) (\<lambda>computed.
     bind_se (write_se (write_version_shallow (VersionTuple_new timestamp computed))) (\<lambda>_.
     return_se computed)))"

section \<open>Versions and deltas\<close>

text \<open>Deleted versions carry no bytes, and lengths fit the 32-bit size field.\<close>

definition version_ok :: "VersionTuple \<Rightarrow> bool" where
  "version_ok v \<longleftrightarrow> (vt_deleted v \<longrightarrow> vt_buf v = []) \<and> length (vt_buf v) < 2 ^ 32"

lemma version_ok_new [simp]:
  "version_ok (VersionTuple_new_delete ts)" "version_ok (VersionTuple_new ts buf) \<longleftrightarrow> length buf < 2 ^ 32"
  by (simp_all add: version_ok_def VersionTuple_new_delete_def VersionTuple_new_def)

lemma apply_build_delta:
  assumes "version_ok newer" and "version_ok older"
  shows "apply_version_delta (build_version_delta newer older) newer = Inr older"
proof -
  have n: "unat (of_nat (length (vt_buf newer)) :: u32) = length (vt_buf newer)"
    using assms(1) by (intro unat_u32_small) (simp add: version_ok_def)
  have "apply_to (UpdateDelta_new 0 (of_nat (length (vt_buf newer))) (vt_buf older)) (vt_buf newer) =
      Inr (\<lparr>ud_offset = 0, ud_size = of_nat (length (vt_buf older)), ud_data = sub_slice 0 (length (vt_buf newer)) (vt_buf newer)\<rparr>, vt_buf older)"
    using assms(1) n by (simp add: apply_to_unat UpdateDelta_new_def Let_def version_ok_def)
  then show ?thesis
    using assms(2) by (cases older) (auto simp: apply_version_delta_def build_version_delta_def VersionDelta_new_def
        VersionTuple_new_delete_def VersionTuple_new_def version_ok_def)
qed

lemma apply_shallow_delta:
  "apply_version_delta (VersionDelta_new ts del [UpdateDelta_new 0 0 []]) v =
     Inr (if del then VersionTuple_new_delete ts else VersionTuple_new ts (vt_buf v))"
  by (simp add: apply_version_delta_def VersionDelta_new_def apply_to_unat UpdateDelta_new_def Let_def)

end
