(* ===== verification/Row_History.thy ===== *)
theory Row_History
  imports Data_Row
begin

text \<open>
  A row as the history of its versions.  The abstract specification is a list of versions, oldest
  first; the window of full versions and the chain of deltas implement it.
\<close>

section \<open>The specification\<close>

definition visible :: "Snapshot \<Rightarrow> VersionTuple \<Rightarrow> bool" where
  "visible s v \<longleftrightarrow> is_tuple_visible s (vt_timestamp v)"

definition newest_visible :: "Snapshot \<Rightarrow> VersionTuple list \<Rightarrow> VersionTuple option" where
  "newest_visible s h = find (visible s) (rev h)"

definition newest :: "VersionTuple list \<Rightarrow> VersionTuple option" where
  "newest h = (if h = [] then None else Some (last h))"

text \<open>What a client may rely on: writes append to the history, a read finds the newest visible version.\<close>

locale version_store =
  fixes new_row :: 'row
    and append_version :: "VersionTuple \<Rightarrow> 'row \<Rightarrow> 'row"
    and read_at :: "Snapshot \<Rightarrow> 'row \<Rightarrow> VersionTuple option rs"
    and read_newest :: "'row \<Rightarrow> VersionTuple option"
    and history :: "'row \<Rightarrow> VersionTuple list \<Rightarrow> bool"
  assumes history_new: "history new_row []"
    and history_append: "history row h \<Longrightarrow> version_ok v \<Longrightarrow> history (append_version v row) (h @ [v])"
    and read_at_history: "history row h \<Longrightarrow> read_at s row = Inr (newest_visible s h)"
    and read_newest_history: "history row h \<Longrightarrow> read_newest row = newest h"
begin

lemma history_fold:
  "history row h \<Longrightarrow> list_all version_ok vs \<Longrightarrow> history (fold append_version vs row) (h @ vs)"
proof (induction vs arbitrary: row h)
  case (Cons v vs)
  then show ?case using Cons.IH [of "append_version v row" "h @ [v]"] history_append by simp
qed simp

lemma read_after_writes:
  "list_all version_ok vs \<Longrightarrow> read_at s (fold append_version vs new_row) = Inr (newest_visible s vs)"
  using history_fold [OF history_new] read_at_history by fastforce

lemma read_at_append:
  assumes "history row h" and "version_ok v"
  shows "read_at s (append_version v row) = (if visible s v then Inr (Some v) else read_at s row)"
  using read_at_history [OF history_append [OF assms]] read_at_history [OF assms(1)] by (simp add: newest_visible_def)

end

section \<open>The window and the chain\<close>

definition window :: "'a list \<Rightarrow> 'a list" where
  "window h = drop (length h - UNCOMPRESSED_VERSION_COUNT) h"

definition row_chain :: "(VersionTuple \<Rightarrow> VersionTuple \<Rightarrow> VersionDelta) \<Rightarrow> DataRow \<Rightarrow> VersionTuple list \<Rightarrow> bool" where
  "row_chain link row h \<longleftrightarrow> dr_tuple row = window h \<and> list_all version_ok h \<and> length (dr_delta row) = length h - 1 \<and>
     (\<forall>i < length h - 1. dr_delta row ! i = link (h ! Suc i) (h ! i))"

definition shallow_delta :: "VersionTuple \<Rightarrow> VersionTuple \<Rightarrow> VersionDelta" where
  "shallow_delta newer older = VersionDelta_new (vt_timestamp older) (vt_deleted older) [UpdateDelta_new 0 0 []]"

lemma window_snoc:
  "window (h @ [v]) = (if length (window h @ [v]) > UNCOMPRESSED_VERSION_COUNT then remove_at 0 (window h @ [v]) else window h @ [v])"
proof (cases "length h < UNCOMPRESSED_VERSION_COUNT")
  case False
  then have "window (h @ [v]) = drop (Suc (length h - UNCOMPRESSED_VERSION_COUNT)) h @ [v]"
    using Suc_diff_le [of 4 "length h"] by (simp add: window_def UNCOMPRESSED_VERSION_COUNT_def not_less)
  then show ?thesis using False by (simp add: window_def remove_at_def UNCOMPRESSED_VERSION_COUNT_def drop_Suc drop_tl)
qed (simp add: window_def UNCOMPRESSED_VERSION_COUNT_def)

lemma window_empty_iff [simp]: "window h = [] \<longleftrightarrow> h = []"
  by (cases h) (auto simp: window_def UNCOMPRESSED_VERSION_COUNT_def)

lemma window_Nil [simp]: "window [] = []"
  by simp

lemma last_window: "h \<noteq> [] \<Longrightarrow> last (window h) = last h"
  by (simp add: window_def UNCOMPRESSED_VERSION_COUNT_def last_drop)

lemma window_split: "h = take (length h - length (window h)) h @ window h"
  by (simp add: window_def UNCOMPRESSED_VERSION_COUNT_def min_def)

lemma window_hd:
  assumes "window h = v # vs"
  shows "h ! (length h - length (window h)) = v \<and> length h - length (window h) < length h"
proof -
  let ?k = "length h - UNCOMPRESSED_VERSION_COUNT"
  have d: "drop ?k h = v # vs" using assms by (simp add: window_def)
  then have "?k < length h" by (metis drop_eq_Nil leI list.distinct(1))
  moreover from this have "h ! ?k = v" using d by (simp add: Cons_nth_drop_Suc [symmetric])
  moreover have "length h - length (window h) = ?k" by (simp add: window_def)
  ultimately show ?thesis by simp
qed

lemma row_chain_new: "row_chain link (DataRow_new tid) []"
  by (simp add: row_chain_def DataRow_new_def window_def)

lemma row_chain_push:
  assumes "row_chain link row h" and "version_ok v"
  shows "row_chain link (push_version v (if dr_tuple row = [] then row else row\<lparr>dr_delta := dr_delta row @ [link v (last (dr_tuple row))]\<rparr>)) (h @ [v])"
proof (cases "h = []")
  case True
  then show ?thesis using assms by (auto simp: row_chain_def push_version_def Let_def window_def UNCOMPRESSED_VERSION_COUNT_def)
next
  case False
  let ?row = "row\<lparr>dr_delta := dr_delta row @ [link v (last (dr_tuple row))]\<rparr>"
  have t: "dr_tuple row = window h" "dr_tuple row \<noteq> []" using assms(1) False by (simp_all add: row_chain_def)
  have "dr_tuple (push_version v ?row) = window (h @ [v])"
    unfolding window_snoc using t by (simp add: push_version_def Let_def)
  moreover have d: "dr_delta (push_version v ?row) = dr_delta row @ [link v (last h)]"
    using t last_window [OF False] by (simp add: push_version_def Let_def)
  moreover have "(dr_delta row @ [link v (last h)]) ! i = link ((h @ [v]) ! Suc i) ((h @ [v]) ! i)" if "i < length h" for i
  proof (cases "i < length h - 1")
    case True
    then show ?thesis using assms(1) by (simp add: row_chain_def nth_append)
  next
    case ge: False
    then have "i = length h - 1" using that by simp
    then show ?thesis using False assms(1) by (simp add: row_chain_def nth_append last_conv_nth)
  qed
  ultimately show ?thesis using assms False t by (simp add: row_chain_def)
qed

lemma find_append: "find P (xs @ ys) = (case find P xs of Some x \<Rightarrow> Some x | None \<Rightarrow> find P ys)"
  by (induction xs) auto

lemma find_take_Suc: "k < length h \<Longrightarrow> find P (rev (take (Suc k) h)) = (if P (h ! k) then Some (h ! k) else find P (rev (take k h)))"
  by (simp add: take_Suc_conv_app_nth)

lemma walk_full:
  assumes "row_chain build_version_delta row h" and "k < length h"
  shows "walk_deltas s (dr_delta row) k (h ! k) = Inr (find (visible s) (rev (take k h)))"
  using assms(2)
proof (induction k)
  case (Suc k)
  have "version_ok (h ! k)" "version_ok (h ! Suc k)" using assms(1) Suc.prems by (auto simp: row_chain_def list_all_length)
  then have "index_at k (dr_delta row) = Inr (build_version_delta (h ! Suc k) (h ! k))"
      "apply_version_delta (build_version_delta (h ! Suc k) (h ! k)) (h ! Suc k) = Inr (h ! k)"
    using assms(1) Suc.prems apply_build_delta by (auto simp: row_chain_def index_at_def)
  then show ?case using Suc by (simp add: find_take_Suc visible_def)
qed simp

lemma newest_visible_window:
  "newest_visible s h = (case find (visible s) (rev (window h)) of Some v \<Rightarrow> Some v | None \<Rightarrow> find (visible s) (rev (take (length h - length (window h)) h)))"
proof -
  have "rev h = rev (window h) @ rev (take (length h - length (window h)) h)"
    by (subst window_split) (simp only: rev_append)
  then show ?thesis unfolding newest_visible_def by (simp only: find_append)
qed

lemma read_detailed_chain:
  assumes "row_chain link row h"
  shows "read_version_detailed s row =
    (case find (visible s) (rev (window h)) of
       Some v \<Rightarrow> Inr (Some (v, vt_buf v \<noteq> []))
     | None \<Rightarrow> if h = [] then Inr None
               else bind_rs (walk_deltas s (dr_delta row) (length h - length (window h)) (h ! (length h - length (window h))))
                 (\<lambda>r. Inr (map_option (\<lambda>v. (v, False)) r)))"
proof -
  have t: "dr_tuple row = window h" "h \<noteq> [] \<Longrightarrow> length (dr_delta row) + 1 = length h" using assms by (auto simp: row_chain_def)
  have f: "(\<lambda>v. is_tuple_visible s (vt_timestamp v)) = visible s" by (simp add: visible_def fun_eq_iff)
  show ?thesis
  proof (cases "window h")
    case Nil
    then have "dr_tuple row = []" "h = []" using t(1) by auto
    then show ?thesis by (simp add: read_version_detailed_def)
  next
    case (Cons v vs)
    then have "h \<noteq> []" "h ! (length h - length (window h)) = v" using window_hd [OF Cons] by auto
    then show ?thesis using t Cons by (simp add: read_version_detailed_def f Let_def split: option.splits)
  qed
qed

lemma read_full:
  assumes "row_chain build_version_delta row h"
  shows "read_version s row = Inr (newest_visible s h)"
proof (cases "find (visible s) (rev (window h))")
  case (Some v)
  then show ?thesis by (simp add: read_version_def read_detailed_chain [OF assms] newest_visible_window)
next
  case None
  have "walk_deltas s (dr_delta row) (length h - length (window h)) (h ! (length h - length (window h))) =
      Inr (find (visible s) (rev (take (length h - length (window h)) h)))" if "h \<noteq> []"
  proof (rule walk_full [OF assms])
    show "length h - length (window h) < length h" using that window_hd [of h] by (cases "window h") auto
  qed
  then show ?thesis
    using None by (auto simp: read_version_def read_detailed_chain [OF assms] newest_visible_window option.map_comp comp_def option.map_ident)
qed

lemma read_latest_chain: "row_chain link row h \<Longrightarrow> read_latest row = newest h"
  by (auto simp: row_chain_def read_latest_def newest_def last_window)

interpretation full_row: version_store "DataRow_new tid" "\<lambda>v. write_version v None" read_version read_latest "row_chain build_version_delta"
proof unfold_locales
  fix row h v
  assume "row_chain build_version_delta row h" "version_ok v"
  then show "row_chain build_version_delta (write_version v None row) (h @ [v])"
    using row_chain_push [of build_version_delta row h v] by (simp add: write_version_def split: if_splits)
qed (auto intro: row_chain_new read_full read_latest_chain)

section \<open>Rows whose chain keeps no payloads\<close>

definition meta :: "VersionTuple \<Rightarrow> Timestamp \<times> bool" where
  "meta v = (vt_timestamp v, vt_deleted v)"

lemma shallow_write:
  assumes "row_chain shallow_delta row h" and "version_ok v"
  shows "row_chain shallow_delta (write_version_shallow v row) (h @ [v])"
proof -
  have "VersionDelta_new (vt_timestamp w) (vt_deleted w) [UpdateDelta_new 0 0 []] = shallow_delta v w" for w
    by (simp add: shallow_delta_def)
  then show ?thesis using row_chain_push [OF assms] by (simp add: write_version_shallow_def split: if_splits)
qed

lemma shallow_writes:
  assumes "list_all version_ok vs"
  shows "row_chain shallow_delta (fold write_version_shallow vs (DataRow_new tid)) vs"
proof -
  have "row_chain shallow_delta row h \<Longrightarrow> list_all version_ok vs \<Longrightarrow> row_chain shallow_delta (fold write_version_shallow vs row) (h @ vs)" for row h
  proof (induction vs arbitrary: row h)
    case (Cons v vs)
    then show ?case using Cons.IH [of "write_version_shallow v row" "h @ [v]"] shallow_write by simp
  qed simp
  from this [OF row_chain_new assms] show ?thesis by simp
qed

lemma walk_shallow:
  assumes "row_chain shallow_delta row h" and "k < length h"
  shows "\<exists>r. walk_deltas s (dr_delta row) k v = Inr r \<and> map_option meta r = map_option meta (find (visible s) (rev (take k h)))"
  using assms(2)
proof (induction k arbitrary: v)
  case (Suc k)
  let ?v = "if vt_deleted (h ! k) then VersionTuple_new_delete (vt_timestamp (h ! k)) else VersionTuple_new (vt_timestamp (h ! k)) (vt_buf v)"
  have "index_at k (dr_delta row) = Inr (shallow_delta (h ! Suc k) (h ! k))"
      "apply_version_delta (shallow_delta (h ! Suc k) (h ! k)) v = Inr ?v"
    using assms(1) Suc.prems by (auto simp: row_chain_def index_at_def shallow_delta_def apply_shallow_delta)
  moreover have "meta ?v = meta (h ! k)" "visible s ?v = visible s (h ! k)"
    by (auto simp: meta_def visible_def VersionTuple_new_def VersionTuple_new_delete_def)
  ultimately show ?case using Suc.IH [of ?v] Suc.prems by (auto simp: find_take_Suc visible_def)
qed simp

lemma read_shallow:
  assumes "row_chain shallow_delta row h"
  shows "\<exists>r. read_version_detailed s row = Inr r \<and> map_option (meta \<circ> fst) r = map_option meta (newest_visible s h) \<and>
    (\<forall>v. r = Some (v, True) \<longrightarrow> newest_visible s h = Some v)"
proof (cases "find (visible s) (rev (window h))")
  case (Some v)
  then show ?thesis by (simp add: read_detailed_chain [OF assms] newest_visible_window)
next
  case None
  show ?thesis
  proof (cases "h = []")
    case True
    then show ?thesis using None by (simp add: read_detailed_chain [OF assms] newest_visible_def window_def)
  next
    case False
    then have "length h - length (window h) < length h" using window_hd [of h] by (cases "window h") auto
    then obtain r where "walk_deltas s (dr_delta row) (length h - length (window h)) (h ! (length h - length (window h))) = Inr r"
        "map_option meta r = map_option meta (find (visible s) (rev (take (length h - length (window h)) h)))"
      using walk_shallow [OF assms] by blast
    then show ?thesis
      using None False by (auto simp: read_detailed_chain [OF assms] newest_visible_window option.map_comp comp_def)
  qed
qed

end
