(* ===== verification/Mvcc_Properties.thy ===== *)
theory Mvcc_Properties
  imports Row_History
begin

text \<open>
  What snapshots and version chains guarantee: a read of a row is a read of its full history, the
  snapshot manager hands out increasing transaction numbers, and the two visibility tests of the
  code disagree while transactions are running.
\<close>

section \<open>Rows\<close>

text \<open>C31: After any sequence of writes, reading a row under a snapshot returns the newest version of the whole
  write history that the snapshot sees, payload included, although only four versions are kept in full and
  the older ones are rebuilt through the chain of deltas.  The delta walk never panics.\<close>

theorem row_reads_history:
  assumes "list_all version_ok vs"
  shows "read_version s (fold (\<lambda>v. write_version v None) vs (DataRow_new tid)) = Inr (newest_visible s vs)"
  using assms by (rule full_row.read_after_writes)

theorem row_reads_history_witness:
  "let ver = (\<lambda>x b. VersionTuple_new (Timestamp_new x U64_MAX) b);
       vs = [ver 1 [10], ver 2 [20, 21], ver 3 [], ver 4 [40], ver 5 [50], ver 6 [60, 61, 62]];
       s = \<lparr>sn_creator_ts = 2, sn_lower_un_alloc_ts = 2, sn_upper_fin_ts = 2, sn_running = []\<rparr> in
   read_version s (fold (\<lambda>v. write_version v None) vs (DataRow_new 7)) = Inr (Some (ver 2 [20, 21]))"
proof -
  let ?ver = "\<lambda>x b. VersionTuple_new (Timestamp_new x U64_MAX) b"
  let ?s = "\<lparr>sn_creator_ts = 2, sn_lower_un_alloc_ts = 2, sn_upper_fin_ts = 2, sn_running = []\<rparr>"
  let ?vs = "[?ver 1 [10], ?ver 2 [20, 21], ?ver 3 [], ?ver 4 [40], ?ver 5 [50], ?ver 6 [60, 61, 62]]"
  have "newest_visible ?s ?vs = Some (?ver 2 [20, 21])"
    by (simp add: newest_visible_def visible_def is_tuple_visible_def Snapshot_is_visible_def VersionTuple_new_def Timestamp_new_def)
  then show ?thesis using row_reads_history [of ?vs ?s 7] unfolding Let_def by simp
qed

text \<open>C32: In a row whose chain keeps no payloads, a read still finds the newest visible version of the history:
  its timestamp and its deletion mark are right, and when the read says that the payload is authoritative the
  whole version is right.\<close>

theorem shallow_row_reads_history:
  assumes "list_all version_ok vs"
  shows "\<exists>r. read_version_detailed s (fold write_version_shallow vs (DataRow_new tid)) = Inr r \<and>
    map_option (meta \<circ> fst) r = map_option meta (newest_visible s vs) \<and>
    (\<forall>v. r = Some (v, True) \<longrightarrow> newest_visible s vs = Some v)"
  by (rule read_shallow [OF shallow_writes [OF assms]])

theorem shallow_row_reads_history_witness:
  "let ver = (\<lambda>x b. VersionTuple_new (Timestamp_new x U64_MAX) b);
       vs = [ver 1 [10], ver 2 [20, 21], ver 3 [], ver 4 [40], ver 5 [50], ver 6 [60, 61, 62]];
       s = \<lparr>sn_creator_ts = 2, sn_lower_un_alloc_ts = 2, sn_upper_fin_ts = 2, sn_running = []\<rparr> in
   \<exists>r. read_version_detailed s (fold write_version_shallow vs (DataRow_new 7)) = Inr (Some r) \<and> meta (fst r) = (Timestamp_new 2 U64_MAX, False)"
proof -
  let ?ver = "\<lambda>x b. VersionTuple_new (Timestamp_new x U64_MAX) b"
  let ?s = "\<lparr>sn_creator_ts = 2, sn_lower_un_alloc_ts = 2, sn_upper_fin_ts = 2, sn_running = []\<rparr>"
  let ?vs = "[?ver 1 [10], ?ver 2 [20, 21], ?ver 3 [], ?ver 4 [40], ?ver 5 [50], ?ver 6 [60, 61, 62]]"
  have n: "map_option meta (newest_visible ?s ?vs) = Some (Timestamp_new 2 U64_MAX, False)"
    by (simp add: newest_visible_def visible_def is_tuple_visible_def Snapshot_is_visible_def VersionTuple_new_def Timestamp_new_def meta_def)
  have "list_all version_ok ?vs" by simp
  from shallow_row_reads_history [OF this, of ?s 7] n show ?thesis unfolding Let_def by auto
qed

section \<open>Snapshots\<close>

text \<open>C33: The snapshot manager stays well formed over any sequence of begins, autocommit allocations, recovery
  observations and ends: the running list is sorted without duplicates below the counter, every number it
  hands out is larger than all earlier ones, and a snapshot sees exactly the versions up to its own number
  whose writers were not running at its begin.\<close>

theorem snapshot_mgr_invariant:
  assumes "mgr_reachable m" and "mgr_begin_tx m = (Inr s, m')"
  shows "mgr_ok m' \<and> sm_next_ts m < ws_xid s \<and> ws_xid s \<in> set (sm_running m') \<and>
    (\<forall>x. WorkerSnapshot_is_visible s x \<longleftrightarrow> x \<le> ws_xid s \<and> x \<notin> set (sm_running m))"
proof -
  note ok = mgr_reachable_ok [OF assms(1)]
  note b = begin_tx_ok [OF assms(2) ok]
  then show ?thesis using ok by (auto simp: WorkerSnapshot_visible_iff mgr_ok_def)
qed

theorem snapshot_mgr_invariant_witness:
  "\<exists>s m'. mgr_begin_tx \<lparr>sm_next_ts = 2, sm_running = [1]\<rparr> = (Inr s, m') \<and> mgr_ok m' \<and> WorkerSnapshot_is_visible s 2 \<and> \<not> WorkerSnapshot_is_visible s 1"
proof -
  have "mgr_reachable WorkerSnapshotMgr_default" by (rule mgr_reachable.init)
  moreover have "mgr_begin_tx WorkerSnapshotMgr_default = (Inr \<lparr>ws_xid = 1, ws_running = []\<rparr>, \<lparr>sm_next_ts = 1, sm_running = [1]\<rparr>)" by code_simp
  ultimately have "mgr_reachable \<lparr>sm_next_ts = 1, sm_running = [1]\<rparr>" by (rule mgr_reachable.begin_tx)
  moreover have "alloc_committed_ts \<lparr>sm_next_ts = 1, sm_running = [1]\<rparr> = (Inr 2, \<lparr>sm_next_ts = 2, sm_running = [1]\<rparr>)" by code_simp
  ultimately have r: "mgr_reachable \<lparr>sm_next_ts = 2, sm_running = [1]\<rparr>" by (rule mgr_reachable.alloc)
  have b: "mgr_begin_tx \<lparr>sm_next_ts = 2, sm_running = [1]\<rparr> = (Inr \<lparr>ws_xid = 3, ws_running = [1]\<rparr>, \<lparr>sm_next_ts = 3, sm_running = [1, 3]\<rparr>)" by code_simp
  show ?thesis using snapshot_mgr_invariant [OF r b] b by auto
qed

text \<open>C34: The snapshot that row reads use is not the snapshot of the transaction.  While transactions run, it shows
  every running transaction but the newest as finished, and hides every transaction that finished with a number
  above the newest running one, in both cases against the visibility test of the worker snapshot.\<close>

theorem row_snapshot_differs:
  assumes "mgr_reachable m" and "mgr_begin_tx m = (Inr w, m')" and "to_snapshot w = Inr s" and "ws_running w \<noteq> []"
  shows "(\<forall>x \<in> set (butlast (ws_running w)). Snapshot_is_visible s x \<and> \<not> WorkerSnapshot_is_visible w x) \<and>
    (\<forall>x. last (ws_running w) < x \<and> x < ws_xid w \<longrightarrow> \<not> Snapshot_is_visible s x \<and> WorkerSnapshot_is_visible w x)"
proof -
  have ok: "mgr_ok m" by (rule mgr_reachable_ok [OF assms(1)])
  note b = begin_tx_ok [OF assms(2) ok]
  have so: "sorted (ws_running w)" "distinct (ws_running w)" using b ok by (simp_all add: mgr_ok_def)
  have low: "x \<in> set (ws_running w) \<Longrightarrow> x < ws_xid w" for x using b by blast
  have e: "Snapshot_is_visible s x \<longleftrightarrow> x = ws_xid w \<or> x < last (ws_running w)" for x
    by (rule row_snapshot_visible_iff [OF assms(3,4) so])
  have run: "set (ws_running w) = set (sm_running m)" using b by simp
  show ?thesis
  proof (intro conjI ballI allI impI)
    fix x assume x: "x \<in> set (butlast (ws_running w))"
    then have "x < last (ws_running w)" by (rule butlast_below_last [OF so])
    then show "Snapshot_is_visible s x" using e by simp
    show "\<not> WorkerSnapshot_is_visible w x" using in_set_butlastD [OF x] so by (simp add: WorkerSnapshot_visible_iff)
  next
    fix x assume x: "last (ws_running w) < x \<and> x < ws_xid w"
    then show "\<not> Snapshot_is_visible s x" unfolding e by auto
    have "x \<notin> set (ws_running w)" using x sorted_le_last [OF so(1)] by (meson leD)
    then show "WorkerSnapshot_is_visible w x" using x so by (simp add: WorkerSnapshot_visible_iff less_imp_le)
  qed
qed

theorem row_snapshot_differs_witness:
  "let w = \<lparr>ws_xid = 4, ws_running = [1, 2]\<rparr> in
   \<exists>s. to_snapshot w = Inr s \<and> Snapshot_is_visible s 1 \<and> \<not> WorkerSnapshot_is_visible w 1 \<and>
     \<not> Snapshot_is_visible s 3 \<and> WorkerSnapshot_is_visible w 3"
proof -
  let ?w = "\<lparr>ws_xid = 4, ws_running = [1, 2]\<rparr>"
  let ?s = "\<lparr>sn_creator_ts = 4, sn_lower_un_alloc_ts = 1, sn_upper_fin_ts = 2, sn_running = [1, 2]\<rparr>"
  have "mgr_reachable WorkerSnapshotMgr_default" by (rule mgr_reachable.init)
  moreover have "mgr_begin_tx WorkerSnapshotMgr_default = (Inr \<lparr>ws_xid = 1, ws_running = []\<rparr>, \<lparr>sm_next_ts = 1, sm_running = [1]\<rparr>)" by code_simp
  ultimately have "mgr_reachable \<lparr>sm_next_ts = 1, sm_running = [1]\<rparr>" by (rule mgr_reachable.begin_tx)
  moreover have "mgr_begin_tx \<lparr>sm_next_ts = 1, sm_running = [1]\<rparr> = (Inr \<lparr>ws_xid = 2, ws_running = [1]\<rparr>, \<lparr>sm_next_ts = 2, sm_running = [1, 2]\<rparr>)" by code_simp
  ultimately have "mgr_reachable \<lparr>sm_next_ts = 2, sm_running = [1, 2]\<rparr>" by (rule mgr_reachable.begin_tx)
  moreover have "alloc_committed_ts \<lparr>sm_next_ts = 2, sm_running = [1, 2]\<rparr> = (Inr 3, \<lparr>sm_next_ts = 3, sm_running = [1, 2]\<rparr>)" by code_simp
  ultimately have r: "mgr_reachable \<lparr>sm_next_ts = 3, sm_running = [1, 2]\<rparr>" by (rule mgr_reachable.alloc)
  have b: "mgr_begin_tx \<lparr>sm_next_ts = 3, sm_running = [1, 2]\<rparr> = (Inr ?w, \<lparr>sm_next_ts = 4, sm_running = [1, 2, 4]\<rparr>)" by code_simp
  have s: "to_snapshot ?w = Inr ?s" by code_simp
  show ?thesis using row_snapshot_differs [OF r b s] s unfolding Let_def by auto
qed

end
