(* ===== verification/Tuple_Layout.thy ===== *)
theory Tuple_Layout
  imports Byte_Codec
begin

text \<open>
  The binary layout of tuples: \<open>mudu_type/src/type_family.rs\<close>, the ordering of \<open>mudu_type/src/data_type.rs\<close>, and
  \<open>slot.rs\<close>, \<open>field_desc.rs\<close>, \<open>bitmap.rs\<close> (sizes) and \<open>tuple_binary_desc.rs\<close> of \<open>mudu_contract/src/tuple\<close>.  A tuple is
  its null bitmap, one slot per variable-length field, the fixed-length fields and the variable-length data.
  Type parameters are values of a type \<open>'p\<close> with their comparison as an argument.
\<close>

section \<open>Type families\<close>

datatype TypeFamily =
    TF_I32 | TF_I64 | TF_F32 | TF_F64 | TF_String | TF_U128 | TF_I128 | TF_Numeric
  | TF_Date | TF_Time | TF_Timestamp | TF_TimestampTz | TF_Array | TF_Record | TF_Binary

fun TypeFamily_to_u32 :: "TypeFamily \<Rightarrow> u32" where
  "TypeFamily_to_u32 TF_I32 = 0"
| "TypeFamily_to_u32 TF_I64 = 1"
| "TypeFamily_to_u32 TF_F32 = 2"
| "TypeFamily_to_u32 TF_F64 = 3"
| "TypeFamily_to_u32 TF_String = 4"
| "TypeFamily_to_u32 TF_U128 = 5"
| "TypeFamily_to_u32 TF_I128 = 6"
| "TypeFamily_to_u32 TF_Numeric = 7"
| "TypeFamily_to_u32 TF_Date = 8"
| "TypeFamily_to_u32 TF_Time = 9"
| "TypeFamily_to_u32 TF_Timestamp = 10"
| "TypeFamily_to_u32 TF_TimestampTz = 11"
| "TypeFamily_to_u32 TF_Array = 1001"
| "TypeFamily_to_u32 TF_Record = 1002"
| "TypeFamily_to_u32 TF_Binary = 1003"

definition has_param :: "TypeFamily \<Rightarrow> bool" where
  "has_param f \<longleftrightarrow> f \<notin> {TF_I32, TF_I64, TF_I128, TF_F32, TF_F64, TF_U128, TF_Date}"

text \<open>\<open>fn_send_type_len\<close> of each family: the encoded length, or \<open>None\<close> for variable-length families.\<close>

fun fn_send_type_len :: "TypeFamily \<Rightarrow> u32 option" where
  "fn_send_type_len TF_I32 = Some 4"
| "fn_send_type_len TF_I64 = Some 8"
| "fn_send_type_len TF_F32 = Some 4"
| "fn_send_type_len TF_F64 = Some 8"
| "fn_send_type_len TF_String = None"
| "fn_send_type_len TF_U128 = Some 16"
| "fn_send_type_len TF_I128 = Some 16"
| "fn_send_type_len TF_Numeric = Some 16"
| "fn_send_type_len TF_Date = Some 4"
| "fn_send_type_len TF_Time = Some 8"
| "fn_send_type_len TF_Timestamp = Some 8"
| "fn_send_type_len TF_TimestampTz = Some 8"
| "fn_send_type_len TF_Array = None"
| "fn_send_type_len TF_Record = None"
| "fn_send_type_len TF_Binary = None"

datatype 'p DataType = DataType (dt_id: TypeFamily) (dt_param: "'p option")

datatype Ordering = Less | Equal | Greater

definition cmp_word :: "'w :: len word \<Rightarrow> 'w word \<Rightarrow> Ordering" where
  "cmp_word a b = (if a < b then Less else if a = b then Equal else Greater)"

definition compare_inner :: "('p \<Rightarrow> 'p \<Rightarrow> Ordering rs) \<Rightarrow> 'p DataType \<Rightarrow> 'p DataType \<Rightarrow> Ordering rs" where
  "compare_inner cmp_param a b =
     (let ord = cmp_word (TypeFamily_to_u32 (dt_id a)) (TypeFamily_to_u32 (dt_id b)) in
      if ord \<noteq> Equal then Inr ord
      else case (dt_param a, dt_param b) of
             (None, Some _) \<Rightarrow> Inr Less
           | (Some _, None) \<Rightarrow> Inr Greater
           | (Some k1, Some k2) \<Rightarrow> cmp_param k1 k2
           | (None, None) \<Rightarrow> Inr Equal)"

definition DataType_compare :: "('p \<Rightarrow> 'p \<Rightarrow> Ordering rs) \<Rightarrow> 'p DataType \<Rightarrow> 'p DataType \<Rightarrow> Ordering rs" where
  "DataType_compare cmp_param a b =
     (if \<not> has_param (dt_id a) \<and> \<not> has_param (dt_id b)
      then Inr (cmp_word (TypeFamily_to_u32 (dt_id a)) (TypeFamily_to_u32 (dt_id b)))
      else case (fn_send_type_len (dt_id a), fn_send_type_len (dt_id b)) of
             (None, Some _) \<Rightarrow> Inr Greater
           | (Some _, None) \<Rightarrow> Inr Less
           | (Some _, Some _) \<Rightarrow> compare_inner cmp_param a b
           | (None, None) \<Rightarrow> compare_inner cmp_param a b)"

section \<open>Slots\<close>

text \<open>Network byte order comes from the \<open>byteorder\<close> crate: the codec is an argument.  Writing and reading
  back gives the same number, and zero is written as zero bytes.\<close>

record net =
  ne_read_u32 :: "byte list \<Rightarrow> u32"
  ne_write_u32 :: "u32 \<Rightarrow> byte list"
  ne_read_u64 :: "byte list \<Rightarrow> u64"
  ne_write_u64 :: "u64 \<Rightarrow> byte list"
  ne_read_u128 :: "byte list \<Rightarrow> u128"
  ne_write_u128 :: "u128 \<Rightarrow> byte list"

definition net_ok :: "net \<Rightarrow> bool" where
  "net_ok N \<longleftrightarrow> word_codec (ne_read_u32 N) (ne_write_u32 N) 4 \<and>
     word_codec (ne_read_u64 N) (ne_write_u64 N) 8 \<and> word_codec (ne_read_u128 N) (ne_write_u128 N) 16 \<and>
     ne_write_u32 N 0 = replicate 4 0"

record Slot =
  sl_off :: u32
  sl_len :: u32

definition Slot_new :: "u32 \<Rightarrow> u32 \<Rightarrow> Slot" where
  "Slot_new off len = \<lparr>sl_off = off, sl_len = len\<rparr>"

definition Slot_size_of :: nat where "Slot_size_of = 8"

definition Slot_offset :: "Slot \<Rightarrow> nat" where "Slot_offset s = unat (sl_off s)"

definition Slot_length :: "Slot \<Rightarrow> nat" where "Slot_length s = unat (sl_len s)"

definition Slot_from_binary :: "net \<Rightarrow> byte list \<Rightarrow> Slot rs" where
  "Slot_from_binary N binary =
     (if length binary < Slot_size_of then Inl (EC Decode)
      else Inr (Slot_new (ne_read_u32 N (sub_slice 0 4 binary)) (ne_read_u32 N (sub_slice 4 8 binary))))"

definition Slot_to_binary :: "net \<Rightarrow> Slot \<Rightarrow> byte list \<Rightarrow> byte list rs" where
  "Slot_to_binary N s binary =
     (if length binary < Slot_size_of then Inl (EC Encode)
      else Inr (patch 4 (ne_write_u32 N (sl_len s)) (patch 0 (ne_write_u32 N (sl_off s)) binary)))"

definition to_binary_buf :: "net \<Rightarrow> Slot \<Rightarrow> byte list rs" where
  "to_binary_buf N s =
     Inr (patch 4 (ne_write_u32 N (sl_len s)) (patch 0 (ne_write_u32 N (sl_off s)) (replicate Slot_size_of 0)))"

section \<open>Field descriptors\<close>

record 'p FieldDesc =
  fd_oid :: u128
  fd_is_fixed_len :: bool
  fd_slot :: Slot
  fd_type_obj :: "'p DataType"
  fd_nullable :: bool
  fd_null_bit_idx :: "u16 option"

definition new_with_nullability :: "Slot \<Rightarrow> 'p DataType \<Rightarrow> bool \<Rightarrow> bool \<Rightarrow> u16 option \<Rightarrow> 'p FieldDesc" where
  "new_with_nullability slot data_type is_fixed_len nullable null_bit_idx =
     \<lparr>fd_oid = 0, fd_is_fixed_len = is_fixed_len, fd_slot = slot, fd_type_obj = data_type,
      fd_nullable = nullable, fd_null_bit_idx = null_bit_idx\<rparr>"

definition bitmap_align_up :: "nat \<Rightarrow> nat \<Rightarrow> nat" where
  "bitmap_align_up value align = (if value = 0 then 0 else ((value + align - 1) div align) * align)"

definition aligned_byte_len :: "nat \<Rightarrow> nat" where
  "aligned_byte_len bits = bitmap_align_up ((bits + 7) div 8) 8"

section \<open>Tuple descriptors\<close>

record 'p TupleBinaryDesc =
  td_offset_len_data_fixed :: "'p FieldDesc list"
  td_offset_len_slot_var :: "'p FieldDesc list"
  td_slot_all :: "'p FieldDesc list"
  td_fixed_count :: nat
  td_var_count :: nat
  td_total_fixed_size :: nat
  td_type_desc :: "'p DataType list"
  td_nullable_count :: nat
  td_row_format_version :: u32

fun is_normalized :: "('p \<Rightarrow> 'p \<Rightarrow> Ordering rs) \<Rightarrow> 'p DataType list \<Rightarrow> bool rs" where
  "is_normalized cmp_param (a # b # ts) =
     bind_rs (DataType_compare cmp_param a b) (\<lambda>ord.
     if ord = Greater then Inr False else is_normalized cmp_param (b # ts))"
| "is_normalized cmp_param ts = Inr True"

type_synonym 'p typed_field = "'p DataType \<times> bool \<times> u16 option"

definition count_nullable :: "'p typed_field list \<Rightarrow> nat" where
  "count_nullable typed_fields =
     (case List.map_filter (\<lambda>(_, _, idx). idx) typed_fields of [] \<Rightarrow> 0 | i # rest \<Rightarrow> unat (fold max rest i) + 1)"

record 'p layout_state =
  ls_slot_var :: u32
  ls_data_fixed :: u32
  ls_fixed :: "'p FieldDesc list"
  ls_var :: "'p FieldDesc list"
  ls_all :: "'p FieldDesc list"

definition layout_field :: "'p typed_field \<Rightarrow> 'p layout_state \<Rightarrow> 'p layout_state rs" where
  "layout_field field st =
     (case field of (ty, nullable, null_bit_idx) \<Rightarrow>
      case fn_send_type_len (dt_id ty) of
        Some data_len \<Rightarrow>
          (let fd = new_with_nullability (Slot_new (ls_data_fixed st) data_len) ty True nullable null_bit_idx in
           bind_rs (add_u32 (ls_data_fixed st) data_len) (\<lambda>off.
           Inr (st\<lparr>ls_all := ls_all st @ [fd], ls_fixed := ls_fixed st @ [fd], ls_data_fixed := off\<rparr>)))
      | None \<Rightarrow>
          (let fd = new_with_nullability (Slot_new (ls_slot_var st) (of_nat Slot_size_of)) ty False nullable null_bit_idx in
           bind_rs (add_u32 (ls_slot_var st) (of_nat Slot_size_of)) (\<lambda>off.
           Inr (st\<lparr>ls_all := ls_all st @ [fd], ls_var := ls_var st @ [fd], ls_slot_var := off\<rparr>))))"

definition from_typed_fields ::
    "('p \<Rightarrow> 'p \<Rightarrow> Ordering rs) \<Rightarrow> 'p typed_field list \<Rightarrow> u32 \<Rightarrow> 'p TupleBinaryDesc rs" where
  "from_typed_fields cmp_param typed_fields row_format_version =
     (let type_desc = map fst typed_fields in
      bind_rs (is_normalized cmp_param type_desc) (\<lambda>normalized.
      if \<not> normalized then Inl (EC Parse)
      else let nullable_count = count_nullable typed_fields in
      if \<exists>(_, nullable, null_bit_idx) \<in> set typed_fields. nullable \<noteq> (null_bit_idx \<noteq> None) then Inl (EC Parse)
      else let lens = List.map_filter (\<lambda>ty. fn_send_type_len (dt_id ty)) type_desc;
               total_fixed_size = sum_list (map unat lens);
               fixed_count = length lens;
               var_count = length type_desc - length lens;
               offset_slot_begin = aligned_byte_len nullable_count in
      bind_rs (fold_rs layout_field typed_fields
                 \<lparr>ls_slot_var = of_nat offset_slot_begin,
                  ls_data_fixed = of_nat (offset_slot_begin + var_count * Slot_size_of),
                  ls_fixed = [], ls_var = [], ls_all = []\<rparr>) (\<lambda>st.
      Inr \<lparr>td_offset_len_data_fixed = ls_fixed st, td_offset_len_slot_var = ls_var st, td_slot_all = ls_all st,
           td_fixed_count = fixed_count, td_var_count = var_count, td_total_fixed_size = total_fixed_size,
           td_type_desc = type_desc, td_nullable_count = nullable_count, td_row_format_version = row_format_version\<rparr>)))"

definition TupleBinaryDesc_from :: "('p \<Rightarrow> 'p \<Rightarrow> Ordering rs) \<Rightarrow> 'p DataType list \<Rightarrow> 'p TupleBinaryDesc rs" where
  "TupleBinaryDesc_from cmp_param type_desc = from_typed_fields cmp_param (map (\<lambda>ty. (ty, False, None)) type_desc) 0"

definition field_count :: "'p TupleBinaryDesc \<Rightarrow> nat" where
  "field_count d = length (td_type_desc d)"

definition get_field_desc :: "nat \<Rightarrow> 'p TupleBinaryDesc \<Rightarrow> 'p FieldDesc rs" where
  "get_field_desc idx d = index_at idx (td_slot_all d)"

definition total_slot_size :: "'p TupleBinaryDesc \<Rightarrow> nat" where
  "total_slot_size d = td_var_count d * Slot_size_of"

definition null_bitmap_size :: "'p TupleBinaryDesc \<Rightarrow> nat" where
  "null_bitmap_size d = aligned_byte_len (td_nullable_count d)"

definition meta_size :: "'p TupleBinaryDesc \<Rightarrow> nat" where
  "meta_size d = null_bitmap_size d + total_slot_size d"

definition min_tuple_size :: "'p TupleBinaryDesc \<Rightarrow> nat" where
  "min_tuple_size d = meta_size d + td_total_fixed_size d"

end
