(* ===== verification/Tuple_Codec.thy ===== *)
theory Tuple_Codec
  imports Tuple_Layout
begin

text \<open>
  Building and reading tuples: \<open>read_datum.rs\<close>, \<open>write_value.rs\<close>, \<open>build_tuple.rs\<close>, \<open>bitmap.rs\<close> and \<open>nullable_tuple.rs\<close> of
  \<open>mudu_contract/src/tuple\<close>.  The conversion functions that the type table provides for a value (\<open>fn_send\<close>,
  \<open>fn_recv\<close>) are arguments.
\<close>

section \<open>Reading fields\<close>

definition read_slot :: "net \<Rightarrow> 'p FieldDesc \<Rightarrow> byte list \<Rightarrow> Slot rs" where
  "read_slot N field_desc tuple =
     (let off = Slot_offset (fd_slot field_desc) in
      if off + Slot_size_of > length tuple then Inl (EC IndexOutOfRange)
      else bind_rs (Slot_from_binary N (sub_slice off (off + Slot_size_of) tuple)) (\<lambda>slot.
           if Slot_offset slot + Slot_length slot > length tuple then Inl (EC IndexOutOfRange) else Inr slot))"

definition read_data_capacity :: "net \<Rightarrow> nat \<Rightarrow> 'p TupleBinaryDesc \<Rightarrow> byte list \<Rightarrow> nat rs" where
  "read_data_capacity N index tuple_desc tuple =
     (if index \<ge> field_count tuple_desc then Inl (EC IndexOutOfRange)
      else bind_rs (get_field_desc index tuple_desc) (\<lambda>field.
        if fd_is_fixed_len field then Inr (Slot_length (fd_slot field))
        else bind_rs (read_slot N field tuple) (\<lambda>slot.
          if index + 1 = field_count tuple_desc then sub_usize (length tuple) (Slot_offset (fd_slot field))
          else bind_rs (get_field_desc (index + 1) tuple_desc) (\<lambda>field_next.
            bind_rs (ensure (\<not> fd_is_fixed_len field_next) Panic) (\<lambda>_.
            bind_rs (read_slot N field_next tuple) (\<lambda>slot_next.
            if Slot_offset slot > Slot_offset slot_next \<or> Slot_offset slot_next + Slot_length slot_next > length tuple
            then Inl (EC InvalidTuple)
            else let sz = Slot_offset slot_next - Slot_offset slot in
              if sz < Slot_length slot then Inl (EC InvalidTuple) else Inr sz))))))"

definition read_fixed_len_value :: "nat \<Rightarrow> nat \<Rightarrow> byte list \<Rightarrow> byte list rs" where
  "read_fixed_len_value off sz tuple =
     (if length tuple < off + sz then Inl (EC IndexOutOfRange) else Inr (sub_slice off (off + sz) tuple))"

definition read_var_len_value :: "net \<Rightarrow> nat \<Rightarrow> byte list \<Rightarrow> byte list rs" where
  "read_var_len_value N off tuple =
     (if length tuple < off + Slot_size_of then Inl (EC IndexOutOfRange)
      else bind_rs (Slot_from_binary N (sub_slice off (off + Slot_size_of) tuple)) (\<lambda>slot.
           if length tuple < Slot_offset slot + Slot_length slot then Inl (EC IndexOutOfRange)
           else Inr (sub_slice (Slot_offset slot) (Slot_offset slot + Slot_length slot) tuple)))"

definition read_binary_data :: "net \<Rightarrow> 'p FieldDesc \<Rightarrow> byte list \<Rightarrow> byte list rs" where
  "read_binary_data N desc tuple =
     (if fd_is_fixed_len desc then read_fixed_len_value (Slot_offset (fd_slot desc)) (Slot_length (fd_slot desc)) tuple
      else read_var_len_value N (Slot_offset (fd_slot desc)) tuple)"

definition FieldDesc_get :: "net \<Rightarrow> 'p FieldDesc \<Rightarrow> byte list \<Rightarrow> byte list rs" where
  "FieldDesc_get N fd tuple =
     (if fd_is_fixed_len fd then read_fixed_len_value (Slot_offset (fd_slot fd)) (Slot_length (fd_slot fd)) tuple
      else read_var_len_value N (Slot_offset (fd_slot fd)) tuple)"

section \<open>Writing fields\<close>

definition write_slot_to_buf :: "net \<Rightarrow> nat \<Rightarrow> nat \<Rightarrow> byte list \<Rightarrow> byte list rs" where
  "write_slot_to_buf N value_offset value_size buf =
     (let slot = Slot_new (of_nat value_offset) (of_nat value_size) in
      if Slot_size_of > length buf then Inl (EC NotImplemented) else Slot_to_binary N slot buf)"

definition write_slot_to_tuple :: "net \<Rightarrow> 'p FieldDesc \<Rightarrow> nat \<Rightarrow> nat \<Rightarrow> byte list \<Rightarrow> byte list rs" where
  "write_slot_to_tuple N field value_offset value_size tuple =
     (if fd_is_fixed_len field then Inr tuple
      else let slot_offset = Slot_offset (fd_slot field) in
        if slot_offset + Slot_size_of > length tuple then Inl (EC IndexOutOfRange)
        else bind_rs (write_slot_to_buf N value_offset value_size (sub_slice slot_offset (slot_offset + Slot_size_of) tuple)) (\<lambda>buf.
             Inr (patch slot_offset buf tuple)))"

text \<open>\<open>Ok(Err(n))\<close> is \<open>Inl n\<close>: the buffer is too short by the value's length.\<close>

definition write_value_to_buf :: "byte list \<Rightarrow> byte list \<Rightarrow> (nat + nat) \<times> byte list" where
  "write_value_to_buf value buf =
     (if length value > length buf then (Inl (length value), buf)
      else (Inr (length value), patch 0 value buf))"

definition write_value_to_tuple :: "nat \<Rightarrow> byte list \<Rightarrow> byte list \<Rightarrow> ((nat + nat) \<times> byte list) rs" where
  "write_value_to_tuple value_offset value tuple =
     bind_rs (index_range value_offset (length tuple) tuple) (\<lambda>buf.
     case write_value_to_buf value buf of (r, buf') \<Rightarrow> Inr (r, take value_offset tuple @ buf'))"

definition resize :: "nat \<Rightarrow> byte list \<Rightarrow> byte list" where
  "resize n xs = take n xs @ replicate (n - length xs) 0"

text \<open>The loop that doubles the buffer until the value fits.  Doubling an empty buffer never ends.\<close>

function grow_and_write :: "nat \<Rightarrow> byte list \<Rightarrow> byte list \<Rightarrow> (nat \<times> byte list) rs" where
  "grow_and_write off value tuple =
     (if off > length tuple then Inl Panic
      else case write_value_to_tuple off value tuple of
             Inl e \<Rightarrow> Inl e
           | Inr (Inr sz, tuple') \<Rightarrow> Inr (sz, tuple')
           | Inr (Inl _, _) \<Rightarrow>
               if tuple = [] then Inl Diverge
               else grow_and_write off value (resize (length tuple * 2) tuple))"
  by pat_completeness auto
termination
proof (relation "measure (\<lambda>(off, value, tuple). off + length value - length tuple)")
  fix off and v tuple :: "byte list" and b p a d
  assume a: "\<not> off > length tuple" "write_value_to_tuple off v tuple = Inr p" "(a, b) = p" "a = Inl d" "tuple \<noteq> []"
  then have "length v > length tuple - off"
    by (auto simp: write_value_to_tuple_def write_value_to_buf_def index_range_def length_sub_slice rs_simps split: if_splits)
  moreover have "length (resize (length tuple * 2) tuple) = 2 * length tuple" by (simp add: resize_def)
  ultimately show "((off, v, resize (length tuple * 2) tuple), off, v, tuple) \<in> measure (\<lambda>(off, value, tuple). off + length value - length tuple)"
    using a by (cases tuple) auto
qed simp

definition build_field :: "net \<Rightarrow> 'p TupleBinaryDesc \<Rightarrow> nat \<times> byte list \<Rightarrow> nat \<times> byte list \<Rightarrow> (nat \<times> byte list) rs" where
  "build_field N tuple_desc iv st =
     (case iv of (i, v) \<Rightarrow> case st of (offset, tuple) \<Rightarrow>
      bind_rs (get_field_desc i tuple_desc) (\<lambda>field.
      bind_rs (grow_and_write offset v tuple) (\<lambda>(sz, tuple').
      bind_rs (write_slot_to_tuple N field offset sz tuple') (\<lambda>tuple''.
      Inr (offset + sz, tuple'')))))"

definition build_tuple :: "net \<Rightarrow> byte list list \<Rightarrow> 'p TupleBinaryDesc \<Rightarrow> byte list rs" where
  "build_tuple N vec tuple_desc =
     (if length vec \<noteq> field_count tuple_desc then Inl (EC Parse)
      else bind_rs (fold_rs (build_field N tuple_desc) (enumerate 0 vec)
             (meta_size tuple_desc, resize (min_tuple_size tuple_desc) (replicate (min_tuple_size tuple_desc) 0))) (\<lambda>(offset, tuple).
           Inr (resize offset tuple)))"

text \<open>Into a buffer of fixed size: \<open>Inl n\<close> asks for more room.\<close>

fun build_into_loop :: "net \<Rightarrow> 'p TupleBinaryDesc \<Rightarrow> (nat \<times> byte list) list \<Rightarrow> nat \<Rightarrow> byte list \<Rightarrow> ((nat + nat) \<times> byte list) rs" where
  "build_into_loop N tuple_desc [] offset tuple = Inr (Inr offset, tuple)"
| "build_into_loop N tuple_desc ((i, v) # rest) offset tuple =
     bind_rs (get_field_desc i tuple_desc) (\<lambda>field.
     bind_rs (write_value_to_tuple offset v tuple) (\<lambda>(r, tuple').
     case r of
       Inl n \<Rightarrow> Inr (Inl n, tuple')
     | Inr sz \<Rightarrow>
         bind_rs (write_slot_to_tuple N field offset sz tuple') (\<lambda>tuple''.
         build_into_loop N tuple_desc rest (offset + sz) tuple'')))"

definition build_tuple_into :: "net \<Rightarrow> byte list list \<Rightarrow> 'p TupleBinaryDesc \<Rightarrow> byte list \<Rightarrow> ((nat + nat) \<times> byte list) rs" where
  "build_tuple_into N vec tuple_desc tuple =
     (if length vec \<noteq> field_count tuple_desc then Inl (EC Parse)
      else if length tuple < min_tuple_size tuple_desc then Inr (Inl (min_tuple_size tuple_desc), tuple)
      else build_into_loop N tuple_desc (enumerate 0 vec) (meta_size tuple_desc) tuple)"

section \<open>Null bitmaps\<close>

record Bitmap =
  bm_bits :: nat
  bm_bytes :: "byte list"

definition Bitmap_new :: "nat \<Rightarrow> Bitmap" where
  "Bitmap_new bits = \<lparr>bm_bits = bits, bm_bytes = replicate (aligned_byte_len bits) 0\<rparr>"

definition Bitmap_from_bytes :: "nat \<Rightarrow> byte list \<Rightarrow> Bitmap rs" where
  "Bitmap_from_bytes bits bytes =
     (let expected = aligned_byte_len bits in
      if length bytes < expected then Inl (EC Decode) else Inr \<lparr>bm_bits = bits, bm_bytes = take expected bytes\<rparr>)"

definition Bitmap_get :: "nat \<Rightarrow> Bitmap \<Rightarrow> bool rs" where
  "Bitmap_get bit_idx b =
     (if bit_idx \<ge> bm_bits b then Inl (EC IndexOutOfRange)
      else bind_rs (index_at (bit_idx div 8) (bm_bytes b)) (\<lambda>byte. Inr ((byte AND push_bit (bit_idx mod 8) 1) \<noteq> 0)))"

definition Bitmap_set :: "nat \<Rightarrow> bool \<Rightarrow> Bitmap \<Rightarrow> Bitmap rs" where
  "Bitmap_set bit_idx value b =
     (if bit_idx \<ge> bm_bits b then Inl (EC IndexOutOfRange)
      else let mask = push_bit (bit_idx mod 8) 1 in
        bind_rs (index_at (bit_idx div 8) (bm_bytes b)) (\<lambda>byte.
        Inr (b\<lparr>bm_bytes := (bm_bytes b)[bit_idx div 8 := (if value then byte OR mask else byte AND NOT mask)]\<rparr>)))"

section \<open>Tuples with nulls\<close>

datatype 'v NullableValue = Null | Value 'v

text \<open>\<open>copy_from_slice\<close> into a range: a bad range and unequal lengths panic.\<close>

definition copy_slice :: "nat \<Rightarrow> nat \<Rightarrow> byte list \<Rightarrow> byte list \<Rightarrow> byte list rs" where
  "copy_slice from to src buf =
     (if from \<le> to \<and> to \<le> length buf \<and> length src = to - from then Inr (patch from src buf) else Inl Panic)"

definition builder_value ::
    "net \<Rightarrow> ('v \<Rightarrow> 'p DataType \<Rightarrow> byte list rs) \<Rightarrow> 'p FieldDesc \<Rightarrow> 'v \<Rightarrow> byte list \<times> nat \<Rightarrow> (byte list \<times> nat) rs" where
  "builder_value N fn_send field value st =
     (case st of (tuple, var_data_offset) \<Rightarrow>
      bind_rs (map_err InvalidType (fn_send value (fd_type_obj field))) (\<lambda>binary.
      let off = Slot_offset (fd_slot field) in
      if fd_is_fixed_len field then
        bind_rs (copy_slice off (off + Slot_length (fd_slot field)) binary tuple) (\<lambda>tuple'. Inr (tuple', var_data_offset))
      else
        let tuple' = tuple @ binary in
        bind_rs (index_range off (off + Slot_size_of) tuple') (\<lambda>buf.
        bind_rs (Slot_to_binary N (Slot_new (of_nat var_data_offset) (of_nat (length binary))) buf) (\<lambda>buf'.
        Inr (patch off buf' tuple', var_data_offset + length binary)))))"

definition builder_field ::
    "net \<Rightarrow> ('v \<Rightarrow> 'p DataType \<Rightarrow> byte list rs) \<Rightarrow> 'p FieldDesc \<times> 'v NullableValue \<Rightarrow>
     Bitmap \<times> byte list \<times> nat \<Rightarrow> (Bitmap \<times> byte list \<times> nat) rs" where
  "builder_field N fn_send fv st =
     (case fv of (field, value) \<Rightarrow> case st of (bitmap, tv) \<Rightarrow>
      case value of
        Null \<Rightarrow>
          (case fd_null_bit_idx field of
             None \<Rightarrow> Inl (EC InvalidTuple)
           | Some bit_idx \<Rightarrow> bind_rs (Bitmap_set (unat bit_idx) True bitmap) (\<lambda>bitmap'. Inr (bitmap', tv)))
      | Value v \<Rightarrow>
          bind_rs (case fd_null_bit_idx field of
                     Some bit_idx \<Rightarrow> Bitmap_set (unat bit_idx) False bitmap
                   | None \<Rightarrow> Inr bitmap) (\<lambda>bitmap'.
          bind_rs (builder_value N fn_send field v tv) (\<lambda>tv'. Inr (bitmap', tv'))))"

definition TupleBuilder_build ::
    "net \<Rightarrow> ('v \<Rightarrow> 'p DataType \<Rightarrow> byte list rs) \<Rightarrow> 'p TupleBinaryDesc \<Rightarrow> 'v NullableValue list \<Rightarrow> byte list rs" where
  "TupleBuilder_build N fn_send desc values =
     (if length values \<noteq> field_count desc then Inl (EC Parse)
      else bind_rs (fold_rs (builder_field N fn_send) (zip (td_slot_all desc) values)
             (Bitmap_new (td_nullable_count desc), replicate (min_tuple_size desc) 0, min_tuple_size desc)) (\<lambda>(bitmap, tuple, _).
           copy_slice 0 (null_bitmap_size desc) (bm_bytes bitmap) tuple))"

definition null_bit :: "byte list \<Rightarrow> 'p TupleBinaryDesc \<Rightarrow> 'p FieldDesc \<Rightarrow> bool rs" where
  "null_bit tuple schema field =
     (case fd_null_bit_idx field of
        None \<Rightarrow> Inr False
      | Some bit_idx \<Rightarrow>
          bind_rs (index_range 0 (null_bitmap_size schema) tuple) (\<lambda>bytes.
          bind_rs (Bitmap_from_bytes (td_nullable_count schema) bytes) (\<lambda>bitmap.
          Bitmap_get (unat bit_idx) bitmap)))"

definition read_value ::
    "net \<Rightarrow> (byte list \<Rightarrow> 'p DataType \<Rightarrow> 'v rs) \<Rightarrow> byte list \<Rightarrow> 'p TupleBinaryDesc \<Rightarrow> nat \<Rightarrow> 'v NullableValue rs" where
  "read_value N fn_recv tuple schema col_idx =
     (if col_idx \<ge> field_count schema then Inl (EC IndexOutOfRange)
      else bind_rs (get_field_desc col_idx schema) (\<lambda>field.
      if length tuple < min_tuple_size schema then Inl (EC Decode)
      else bind_rs (null_bit tuple schema field) (\<lambda>null.
      if null then Inr Null
      else let off = Slot_offset (fd_slot field) in
        bind_rs (if fd_is_fixed_len field then index_range off (off + Slot_length (fd_slot field)) tuple
                 else bind_rs (index_range off (off + Slot_size_of) tuple) (\<lambda>buf.
                      bind_rs (Slot_from_binary N buf) (\<lambda>slot.
                      if Slot_offset slot + Slot_length slot > length tuple then Inl (EC IndexOutOfRange)
                      else index_range (Slot_offset slot) (Slot_offset slot + Slot_length slot) tuple))) (\<lambda>bytes.
        bind_rs (map_err TypeConversionFailed (fn_recv bytes (fd_type_obj field))) (\<lambda>value.
        Inr (Value value))))))"

definition is_null :: "byte list \<Rightarrow> 'p TupleBinaryDesc \<Rightarrow> nat \<Rightarrow> bool rs" where
  "is_null tuple schema col_idx =
     (if col_idx \<ge> field_count schema then Inl (EC IndexOutOfRange)
      else bind_rs (get_field_desc col_idx schema) (\<lambda>field.
      if length tuple < min_tuple_size schema then Inl (EC Decode)
      else null_bit tuple schema field))"

end
