(* ===== verification/Tuple_Update.thy ===== *)
theory Tuple_Update
  imports Tuple_Codec Update_Delta
begin

text \<open>
  Updates of tuples: \<open>mudu_contract/src/tuple/update_tuple.rs\<close> and \<open>apply_value_update\<close> of
  \<open>server/x_contract/utils.rs\<close>.
\<close>

section \<open>The deltas of one field\<close>

text \<open>One round of the loop that rewrites the slots and the data of the fields after an oversized one.\<close>

definition rewrite_field ::
    "net \<Rightarrow> 'p TupleBinaryDesc \<Rightarrow> byte list \<Rightarrow> nat \<Rightarrow> nat \<Rightarrow> nat \<times> byte list \<times> byte list \<Rightarrow> (nat \<times> byte list \<times> byte list) rs" where
  "rewrite_field N tuple_desc tuple index i st =
     (case st of (offset, buf_slot, buf_data) \<Rightarrow>
      bind_rs (get_field_desc i tuple_desc) (\<lambda>field.
      bind_rs (read_binary_data N field tuple) (\<lambda>binary.
      let at = (i - index) * Slot_size_of in
      bind_rs (index_range at (length buf_slot) buf_slot) (\<lambda>buf.
      bind_rs (Slot_to_binary N (Slot_new (of_nat offset) (of_nat (length binary))) buf) (\<lambda>buf'.
      Inr (offset + length binary, patch at buf' buf_slot, buf_data @ binary))))))"

definition update_tuple :: "net \<Rightarrow> nat \<Rightarrow> byte list \<Rightarrow> 'p TupleBinaryDesc \<Rightarrow> byte list \<Rightarrow> UpdateDelta list rs" where
  "update_tuple N index value tuple_desc tuple =
     (if index \<ge> field_count tuple_desc then Inl (EC Internal)
      else bind_rs (get_field_desc index tuple_desc) (\<lambda>field.
      if fd_is_fixed_len field then
        Inr [UpdateDelta_new (of_nat (Slot_offset (fd_slot field))) (of_nat (Slot_length (fd_slot field))) value]
      else
        bind_rs (read_slot N field tuple) (\<lambda>slot.
        bind_rs (read_data_capacity N index tuple_desc tuple) (\<lambda>capacity.
        let data_start_off = Slot_offset slot in
        if length value \<le> capacity then
          bind_rs (to_binary_buf N (Slot_new (of_nat (Slot_offset slot)) (of_nat (length value)))) (\<lambda>slot_binary.
          Inr [UpdateDelta_new (of_nat (Slot_offset (fd_slot field))) (of_nat Slot_size_of) slot_binary,
               UpdateDelta_new (of_nat (Slot_offset slot)) (of_nat (Slot_length slot)) value])
        else
          let slot_start_off = Slot_offset (fd_slot field);
              total_field_num = field_count tuple_desc in
          bind_rs (Slot_to_binary N (Slot_new (of_nat (Slot_offset slot)) (of_nat (length value)))
                     (replicate (Slot_size_of * (total_field_num - index)) 0)) (\<lambda>buf_slot.
          bind_rs (fold_rs (rewrite_field N tuple_desc tuple index) [index + 1..<total_field_num]
                     (data_start_off + length value, buf_slot, value)) (\<lambda>(_, buf_slot, buf_data).
          bind_rs (sub_usize (length tuple) data_start_off) (\<lambda>tail.
          Inr [UpdateDelta_new (of_nat slot_start_off) (of_nat (Slot_size_of * (total_field_num - index))) buf_slot,
               UpdateDelta_new (of_nat data_start_off) (of_nat tail) buf_data])))))))"

section \<open>Updates of a row\<close>

text \<open>The parts of \<open>contract/field_info.rs\<close> and \<open>contract/table_desc.rs\<close> that updates use.\<close>

record 'p FieldInfo =
  fi_type_desc :: "'p DataType"
  fi_datum_index :: nat
  fi_primary_index :: "nat option"
  fi_nullable :: bool

record 'p TableDesc =
  tb_key_desc :: "'p TupleBinaryDesc"
  tb_value_desc :: "'p TupleBinaryDesc"
  tb_fields :: "'p FieldInfo list"

definition get_attr :: "'p TableDesc \<Rightarrow> nat \<Rightarrow> 'p FieldInfo rs" where
  "get_attr desc index = index_at index (tb_fields desc)"

definition apply_deltas :: "UpdateDelta list \<Rightarrow> byte list \<Rightarrow> byte list rs" where
  "apply_deltas delta updated =
     fold_rs (\<lambda>item buf. bind_rs (apply_to item buf) (\<lambda>(_, buf'). Inr buf')) delta updated"

definition apply_value_update :: "net \<Rightarrow> byte list \<Rightarrow> (nat \<times> byte list) list \<Rightarrow> 'p TableDesc \<Rightarrow> byte list rs" where
  "apply_value_update N current values desc =
     bind_rs (map_rs (\<lambda>(attr, dat). bind_rs (get_attr desc attr) (\<lambda>f. Inr (fi_datum_index f, dat))) values) (\<lambda>data.
     fold_rs (\<lambda>(datum_index, dat) updated.
                bind_rs (update_tuple N datum_index dat (tb_value_desc desc) current) (\<lambda>delta. apply_deltas delta updated))
       (sort_key fst data) current)"

end
