(* ===== verification/Tuple_Image.thy ===== *)
theory Tuple_Image
  imports Tuple_Update
begin

text \<open>
  The bytes of a tuple as a function of its fields.  A descriptor is determined by the size of the null
  bitmap, the lengths of the fixed fields and the number of variable fields; building, reading and
  updating tuples are then facts about one concatenation.
\<close>

section \<open>Ranges of a concatenation\<close>

lemma sub_slice_mid: "a = length xs \<Longrightarrow> b = length xs + length ys \<Longrightarrow> sub_slice a b (xs @ ys @ zs) = ys"
  by (simp add: sub_slice_def)

lemma patch_mid: "a = length xs \<Longrightarrow> length ys' = length ys \<Longrightarrow> patch a ys' (xs @ ys @ zs) = xs @ ys' @ zs"
  by (simp add: patch_def)

lemma concat_split: "i < length xs \<Longrightarrow> concat xs = concat (take i xs) @ xs ! i @ concat (drop (Suc i) xs)"
  by (metis concat.simps(2) concat_append id_take_nth_drop)

lemma length_concat_take: "length (concat (take i xs)) = sum_list (take i (map length xs))"
  by (simp add: length_concat take_map)

lemma concat_update:
  "i < length xs \<Longrightarrow> concat (xs[i := v]) = concat (take i xs) @ v @ concat (drop (Suc i) xs)"
  by (simp add: upd_conv_take_nth_drop)

section \<open>Descriptors\<close>

definition desc_ok :: "'p TupleBinaryDesc \<Rightarrow> nat \<Rightarrow> nat list \<Rightarrow> nat \<Rightarrow> bool" where
  "desc_ok d bm fs m \<longleftrightarrow>
     field_count d = length fs + m \<and> length (td_slot_all d) = length fs + m \<and> null_bitmap_size d = bm \<and>
     td_var_count d = m \<and> td_total_fixed_size d = sum_list fs \<and>
     (\<forall>i < length fs. fd_is_fixed_len (td_slot_all d ! i) \<and>
        Slot_offset (fd_slot (td_slot_all d ! i)) = bm + 8 * m + sum_list (take i fs) \<and>
        Slot_length (fd_slot (td_slot_all d ! i)) = fs ! i) \<and>
     (\<forall>j < m. \<not> fd_is_fixed_len (td_slot_all d ! (length fs + j)) \<and>
        Slot_offset (fd_slot (td_slot_all d ! (length fs + j))) = bm + 8 * j)"

lemma desc_okD:
  assumes "desc_ok d bm fs m"
  shows "field_count d = length fs + m" "length (td_slot_all d) = length fs + m" "null_bitmap_size d = bm"
    "meta_size d = bm + 8 * m" "min_tuple_size d = bm + 8 * m + sum_list fs"
    "i < length fs \<Longrightarrow> fd_is_fixed_len (td_slot_all d ! i)"
    "i < length fs \<Longrightarrow> Slot_offset (fd_slot (td_slot_all d ! i)) = bm + 8 * m + sum_list (take i fs)"
    "i < length fs \<Longrightarrow> Slot_length (fd_slot (td_slot_all d ! i)) = fs ! i"
    "j < m \<Longrightarrow> \<not> fd_is_fixed_len (td_slot_all d ! (length fs + j))"
    "j < m \<Longrightarrow> Slot_offset (fd_slot (td_slot_all d ! (length fs + j))) = bm + 8 * j"
    "i < length fs + m \<Longrightarrow> get_field_desc i d = Inr (td_slot_all d ! i)"
  using assms by (auto simp: desc_ok_def min_tuple_size_def meta_size_def total_slot_size_def Slot_size_of_def get_field_desc_def index_at_def)

section \<open>Layout of a descriptor\<close>

definition fixed_len :: "'p typed_field \<Rightarrow> nat" where
  "fixed_len f = (case fn_send_type_len (dt_id (fst f)) of Some l \<Rightarrow> unat l | None \<Rightarrow> 0)"

definition is_fixed :: "'p typed_field \<Rightarrow> bool" where
  "is_fixed f \<longleftrightarrow> fn_send_type_len (dt_id (fst f)) \<noteq> None"

lemma no_param_fixed: "\<not> has_param f \<Longrightarrow> fn_send_type_len f \<noteq> None"
  by (cases f) (auto simp: has_param_def)

lemma var_before_fixed_rejected:
  assumes "\<not> is_fixed f" and "is_fixed g"
  shows "DataType_compare cmp_param (fst f) (fst g) = Inr Greater"
  using assms no_param_fixed [of "dt_id (fst f)"] by (auto simp: DataType_compare_def is_fixed_def split: option.splits)

lemma normalized_tail:
  "is_normalized cmp_param (map fst (f # tfs)) = Inr True \<Longrightarrow> is_normalized cmp_param (map fst tfs) = Inr True"
  by (cases tfs) (auto simp: rs_simps split: if_splits)

lemma normalized_fixed_first:
  assumes "is_normalized cmp_param (map fst tfs) = Inr True"
  shows "\<exists>F V. tfs = F @ V \<and> list_all is_fixed F \<and> list_all (\<lambda>f. \<not> is_fixed f) V"
  using assms
proof (induction tfs)
  case (Cons f tfs)
  from Cons.IH [OF normalized_tail [OF Cons.prems]] obtain F V where
    ih: "tfs = F @ V" "list_all is_fixed F" "list_all (\<lambda>f. \<not> is_fixed f) V" by blast
  show ?case
  proof (cases "is_fixed f")
    case True
    then have "f # tfs = (f # F) @ V \<and> list_all is_fixed (f # F) \<and> list_all (\<lambda>f. \<not> is_fixed f) V" using ih by simp
    then show ?thesis by blast
  next
    case False
    have "F = []"
    proof (rule ccontr)
      assume "F \<noteq> []"
      then obtain g F' where "tfs = g # F' @ V" "is_fixed g" using ih by (cases F) auto
      then show False using Cons.prems var_before_fixed_rejected [OF False] by (auto simp: rs_simps)
    qed
    then have "f # tfs = [] @ (f # V) \<and> list_all is_fixed [] \<and> list_all (\<lambda>f. \<not> is_fixed f) (f # V)" using ih False by simp
    then show ?thesis by blast
  qed
qed simp

lemma fixed_len_le: "fixed_len f \<le> 16"
  by (cases "dt_id (fst f)") (simp_all add: fixed_len_def)

lemma sum_fixed_le: "sum_list (map fixed_len fs) \<le> 16 * length fs"
proof (induction fs)
  case (Cons f fs)
  then show ?case using fixed_len_le [of f] by simp
qed simp

lemma bitmap_small: "aligned_byte_len (count_nullable tfs) \<le> 8192"
proof -
  have "unat w < 65536" for w :: u16 using unsigned_less [of w] by simp
  then have "count_nullable tfs \<le> 65536" by (auto simp: count_nullable_def Suc_le_eq split: list.splits)
  then show ?thesis by (auto simp: aligned_byte_len_def bitmap_align_up_def)
qed

lemma layout_fixed_step:
  assumes "is_fixed f" and "unat (ls_data_fixed st) + fixed_len f < 2 ^ 32"
  shows "\<exists>fd st'. layout_field f st = Inr st' \<and> ls_all st' = ls_all st @ [fd] \<and> ls_slot_var st' = ls_slot_var st \<and>
    unat (ls_data_fixed st') = unat (ls_data_fixed st) + fixed_len f \<and>
    fd_is_fixed_len fd \<and> Slot_offset (fd_slot fd) = unat (ls_data_fixed st) \<and> Slot_length (fd_slot fd) = fixed_len f \<and>
    fd_null_bit_idx fd = snd (snd f) \<and> fd_type_obj fd = fst f"
proof -
  obtain ty n b where f: "f = (ty, n, b)" by (cases f) auto
  obtain l where l: "fn_send_type_len (dt_id ty) = Some l" using assms(1) by (auto simp: is_fixed_def f)
  have a: "unat (ls_data_fixed st) + unat l < 2 ^ 32" using assms(2) by (simp add: fixed_len_def f l)
  show ?thesis unfolding f
    by (simp add: layout_field_def l add_u32_ok [OF a] unat_add_u32 [OF a] fixed_len_def
        new_with_nullability_def Slot_new_def Slot_offset_def Slot_length_def Let_def)
qed

lemma layout_var_step:
  assumes "\<not> is_fixed f" and "unat (ls_slot_var st) + 8 < 2 ^ 32"
  shows "\<exists>fd st'. layout_field f st = Inr st' \<and> ls_all st' = ls_all st @ [fd] \<and> ls_data_fixed st' = ls_data_fixed st \<and>
    unat (ls_slot_var st') = unat (ls_slot_var st) + 8 \<and>
    \<not> fd_is_fixed_len fd \<and> Slot_offset (fd_slot fd) = unat (ls_slot_var st) \<and>
    fd_null_bit_idx fd = snd (snd f) \<and> fd_type_obj fd = fst f"
proof -
  obtain ty n b where f: "f = (ty, n, b)" by (cases f) auto
  have l: "fn_send_type_len (dt_id ty) = None" using assms(1) by (auto simp: is_fixed_def f)
  have a: "unat (ls_slot_var st) + unat (8 :: u32) < 2 ^ 32" using assms(2) by simp
  show ?thesis unfolding f
    using add_u32_ok [OF a] unat_add_u32 [OF a]
    by (simp add: layout_field_def l new_with_nullability_def Slot_new_def Slot_offset_def Slot_size_of_def Let_def)
qed

definition field_like :: "'p typed_field \<Rightarrow> 'p FieldDesc \<Rightarrow> bool" where
  "field_like f fd \<longleftrightarrow> fd_null_bit_idx fd = snd (snd f) \<and> fd_type_obj fd = fst f"

lemma layout_fixed:
  assumes "list_all is_fixed F" and "unat (ls_data_fixed st) + sum_list (map fixed_len F) < 2 ^ 32"
  shows "\<exists>fds st'. fold_rs layout_field F st = Inr st' \<and> ls_all st' = ls_all st @ fds \<and> ls_slot_var st' = ls_slot_var st \<and>
    list_all2 field_like F fds \<and>
    (\<forall>i < length F. fd_is_fixed_len (fds ! i) \<and>
       Slot_offset (fd_slot (fds ! i)) = unat (ls_data_fixed st) + sum_list (take i (map fixed_len F)) \<and>
       Slot_length (fd_slot (fds ! i)) = fixed_len (F ! i))"
  using assms
proof (induction F arbitrary: st)
  case (Cons f F)
  from layout_fixed_step [of f st] Cons.prems obtain fd st1 where
    s: "layout_field f st = Inr st1" "ls_all st1 = ls_all st @ [fd]" "ls_slot_var st1 = ls_slot_var st"
    "unat (ls_data_fixed st1) = unat (ls_data_fixed st) + fixed_len f"
    "fd_is_fixed_len fd" "Slot_offset (fd_slot fd) = unat (ls_data_fixed st)" "Slot_length (fd_slot fd) = fixed_len f"
    "field_like f fd" by (auto simp: field_like_def)
  from Cons.IH [of st1] Cons.prems s(4) obtain fds st2 where
    r: "fold_rs layout_field F st1 = Inr st2" "ls_all st2 = ls_all st1 @ fds" "ls_slot_var st2 = ls_slot_var st1"
    "list_all2 field_like F fds"
    "\<And>i. i < length F \<Longrightarrow> fd_is_fixed_len (fds ! i) \<and>
       Slot_offset (fd_slot (fds ! i)) = unat (ls_data_fixed st1) + sum_list (take i (map fixed_len F)) \<and>
       Slot_length (fd_slot (fds ! i)) = fixed_len (F ! i)" by auto
  show ?case
  proof (intro exI [of _ "fd # fds"] exI [of _ st2] conjI allI impI)
    fix i assume "i < length (f # F)"
    then show "fd_is_fixed_len ((fd # fds) ! i)"
      "Slot_offset (fd_slot ((fd # fds) ! i)) = unat (ls_data_fixed st) + sum_list (take i (map fixed_len (f # F)))"
      "Slot_length (fd_slot ((fd # fds) ! i)) = fixed_len ((f # F) ! i)"
      using s r(5) [of "i - 1"] by (cases i; simp)+
  qed (use s r in simp_all)
qed simp

lemma layout_var:
  assumes "list_all (\<lambda>f. \<not> is_fixed f) V" and "unat (ls_slot_var st) + 8 * length V < 2 ^ 32"
  shows "\<exists>fds st'. fold_rs layout_field V st = Inr st' \<and> ls_all st' = ls_all st @ fds \<and> list_all2 field_like V fds \<and>
    (\<forall>j < length V. \<not> fd_is_fixed_len (fds ! j) \<and> Slot_offset (fd_slot (fds ! j)) = unat (ls_slot_var st) + 8 * j)"
  using assms
proof (induction V arbitrary: st)
  case (Cons f V)
  from layout_var_step [of f st] Cons.prems obtain fd st1 where
    s: "layout_field f st = Inr st1" "ls_all st1 = ls_all st @ [fd]"
    "unat (ls_slot_var st1) = unat (ls_slot_var st) + 8"
    "\<not> fd_is_fixed_len fd" "Slot_offset (fd_slot fd) = unat (ls_slot_var st)" "field_like f fd" by (auto simp: field_like_def)
  from Cons.IH [of st1] Cons.prems s(3) obtain fds st2 where
    r: "fold_rs layout_field V st1 = Inr st2" "ls_all st2 = ls_all st1 @ fds" "list_all2 field_like V fds"
    "\<And>j. j < length V \<Longrightarrow> \<not> fd_is_fixed_len (fds ! j) \<and> Slot_offset (fd_slot (fds ! j)) = unat (ls_slot_var st1) + 8 * j"
    by auto
  show ?case
  proof (intro exI [of _ "fd # fds"] exI [of _ st2] conjI allI impI)
    fix j assume "j < length (f # V)"
    then show "\<not> fd_is_fixed_len ((fd # fds) ! j)"
      "Slot_offset (fd_slot ((fd # fds) ! j)) = unat (ls_slot_var st) + 8 * j"
      using s r(4) [of "j - 1"] by (cases j; simp)+
  qed (use s r in simp_all)
qed simp

lemma fixed_lens: "list_all is_fixed F \<Longrightarrow> list_all (\<lambda>f. \<not> is_fixed f) V \<Longrightarrow>
  map unat (List.map_filter (\<lambda>ty. fn_send_type_len (dt_id ty)) (map fst (F @ V))) = map fixed_len F"
proof (induction F)
  case Nil
  then show ?case by (induction V) (auto simp: is_fixed_def map_filter_simps)
next
  case (Cons f F)
  then show ?case by (auto simp: is_fixed_def fixed_len_def map_filter_simps)
qed

text \<open>A descriptor of fewer than $2^{24}$ fields is laid out as described: no offset wraps.\<close>

lemma from_typed_fields_ok:
  assumes "from_typed_fields cmp_param tfs ver = Inr d" and "length tfs < 2 ^ 24"
  shows "\<exists>F V. tfs = F @ V \<and> desc_ok d (aligned_byte_len (count_nullable tfs)) (map fixed_len F) (length V) \<and>
    list_all2 field_like tfs (td_slot_all d) \<and> td_nullable_count d = count_nullable tfs"
proof -
  let ?bm = "aligned_byte_len (count_nullable tfs)" and ?lens = "List.map_filter (\<lambda>ty. fn_send_type_len (dt_id ty)) (map fst tfs)"
  let ?m = "length tfs - length ?lens"
  let ?st = "\<lparr>ls_slot_var = of_nat ?bm, ls_data_fixed = of_nat (?bm + ?m * 8), ls_fixed = [], ls_var = [], ls_all = []\<rparr>"
  from assms(1) obtain st where norm: "is_normalized cmp_param (map fst tfs) = Inr True"
    and fold: "fold_rs layout_field tfs ?st = Inr st"
    and d: "d = \<lparr>td_offset_len_data_fixed = ls_fixed st, td_offset_len_slot_var = ls_var st, td_slot_all = ls_all st,
           td_fixed_count = length ?lens, td_var_count = ?m, td_total_fixed_size = sum_list (map unat ?lens),
           td_type_desc = map fst tfs, td_nullable_count = count_nullable tfs, td_row_format_version = ver\<rparr>"
    by (auto simp: from_typed_fields_def Let_def rs_simps Slot_size_of_def split: if_splits)
  from normalized_fixed_first [OF norm] obtain F V where
    FV: "tfs = F @ V" "list_all is_fixed F" "list_all (\<lambda>f. \<not> is_fixed f) V" by blast
  note lens = fixed_lens [OF FV(2,3), folded FV(1)]
  then have m: "?m = length V" using FV(1) by (metis length_map length_append diff_add_inverse)
  have small: "?bm \<le> 8192" "sum_list (map fixed_len F) \<le> 16 * length F" "length F + length V < 2 ^ 24"
    using bitmap_small sum_fixed_le assms(2) FV(1) by auto
  have u: "unat (ls_slot_var ?st) = ?bm" "unat (ls_data_fixed ?st) = ?bm + 8 * length V"
    using small unat_u32_small [of ?bm] unat_u32_small [of "?bm + ?m * 8"] by (simp_all add: m del: of_nat_add of_nat_mult)
  from layout_fixed [OF FV(2), of ?st] u small obtain fds st1 where
    a: "fold_rs layout_field F ?st = Inr st1" "ls_all st1 = fds" "ls_slot_var st1 = of_nat ?bm" "list_all2 field_like F fds"
    "\<And>i. i < length F \<Longrightarrow> fd_is_fixed_len (fds ! i) \<and>
       Slot_offset (fd_slot (fds ! i)) = ?bm + 8 * length V + sum_list (take i (map fixed_len F)) \<and>
       Slot_length (fd_slot (fds ! i)) = fixed_len (F ! i)" by auto
  from layout_var [OF FV(3), of st1] u small a(3) obtain fds' st2 where
    b: "fold_rs layout_field V st1 = Inr st2" "ls_all st2 = fds @ fds'" "list_all2 field_like V fds'"
    "\<And>j. j < length V \<Longrightarrow> \<not> fd_is_fixed_len (fds' ! j) \<and> Slot_offset (fd_slot (fds' ! j)) = ?bm + 8 * j" using a(2) by auto
  have all: "ls_all st = fds @ fds'" using fold a(1) b(1,2) FV(1) by (simp add: fold_rs_append)
  have len: "length fds = length F" "length fds' = length V" using a(4) b(3) by (auto dest: list_all2_lengthD)
  have "desc_ok d ?bm (map fixed_len F) (length V)"
    using a(5) b(4) len m lens FV(1)
    by (simp add: desc_ok_def d all field_count_def null_bitmap_size_def nth_append)
  moreover have "list_all2 field_like tfs (td_slot_all d)" using a(4) b(3) FV(1) by (simp add: d all list_all2_appendI)
  ultimately show ?thesis using FV(1) by (auto simp: d)
qed

end
