(* ===== verification/Tuple_Bytes.thy ===== *)
theory Tuple_Bytes
  imports Tuple_Image
begin

text \<open>
  The bytes of a tuple: null bitmap, slots, fixed fields and variable data.  Reading a field of such a
  concatenation, and building one.
\<close>

section \<open>Slots as bytes\<close>

definition slot_bytes :: "net \<Rightarrow> nat \<times> nat \<Rightarrow> byte list" where
  "slot_bytes N s = ne_write_u32 N (of_nat (fst s)) @ ne_write_u32 N (of_nat (snd s))"

lemma net_len: "net_ok N \<Longrightarrow> length (ne_write_u32 N w) = 4"
  unfolding net_ok_def by (elim conjE) (rule word_codec.length_wr)

lemma net_rd: "net_ok N \<Longrightarrow> ne_read_u32 N (ne_write_u32 N w) = w"
  unfolding net_ok_def by (elim conjE) (rule word_codec.rd_wr)

lemma length_tuple_slot [simp]: "net_ok N \<Longrightarrow> length (slot_bytes N s) = 8"
  by (simp add: slot_bytes_def net_len)

lemma slot_bytes_zero: "net_ok N \<Longrightarrow> slot_bytes N (0, 0) = replicate 8 0"
  by (simp add: slot_bytes_def net_ok_def replicate_add [symmetric])

lemma zero_slots: "net_ok N \<Longrightarrow> concat (replicate m (slot_bytes N (0, 0))) = replicate (8 * m) 0"
  by (induction m) (simp_all add: slot_bytes_zero replicate_add)

lemma slot_of_bytes: "net_ok N \<Longrightarrow> Slot_from_binary N (slot_bytes N s) = Inr (Slot_new (of_nat (fst s)) (of_nat (snd s)))"
  by (simp add: Slot_from_binary_def slot_bytes_def Slot_size_of_def net_len net_rd sub_slice_def)

lemma slot_to_bytes:
  assumes "net_ok N" and "length buf \<ge> 8"
  shows "Slot_to_binary N (Slot_new (of_nat a) (of_nat b)) buf = Inr (slot_bytes N (a, b) @ drop 8 buf)"
proof -
  let ?a = "ne_write_u32 N (of_nat a)" and ?b = "ne_write_u32 N (of_nat b)"
  have "take 4 (drop 4 buf) @ drop 8 buf = drop 4 buf" using append_take_drop_id [of 4 "drop 4 buf"] by simp
  then have "patch 4 ?b (?a @ drop 4 buf) = ?a @ ?b @ drop 8 buf"
    using patch_mid [of 4 ?a ?b "take 4 (drop 4 buf)" "drop 8 buf"] assms net_len [OF assms(1)] by simp
  then show ?thesis using assms net_len [OF assms(1)]
    by (simp add: Slot_to_binary_def Slot_new_def Slot_size_of_def slot_bytes_def patch_def)
qed

lemma slot_buf: "net_ok N \<Longrightarrow> to_binary_buf N (Slot_new (of_nat a) (of_nat b)) = Inr (slot_bytes N (a, b))"
  using slot_to_bytes [of N "replicate 8 0" a b] by (simp add: to_binary_buf_def Slot_to_binary_def Slot_size_of_def)

lemma length_concat_slots [simp]: "net_ok N \<Longrightarrow> length (concat (map (slot_bytes N) S)) = 8 * length S"
  by (induction S) simp_all

section \<open>Tuples as bytes\<close>

definition tuple_bytes :: "net \<Rightarrow> byte list \<Rightarrow> (nat \<times> nat) list \<Rightarrow> byte list list \<Rightarrow> byte list \<Rightarrow> byte list" where
  "tuple_bytes N B S F D = B @ concat (map (slot_bytes N) S) @ concat F @ D"

lemma length_tuple_bytes [simp]:
  "net_ok N \<Longrightarrow> length (tuple_bytes N B S F D) = length B + 8 * length S + length (concat F) + length D"
  by (simp add: tuple_bytes_def)

lemma concat_slots_at:
  assumes "j < length S"
  shows "concat (map (slot_bytes N) S) = concat (map (slot_bytes N) (take j S)) @ slot_bytes N (S ! j) @ concat (map (slot_bytes N) (drop (Suc j) S))"
  using concat_split [of j "map (slot_bytes N) S"] assms by (simp add: take_map drop_map)

lemma tuple_slot_range:
  assumes "net_ok N" and "j < length S" and "a = length B + 8 * j"
  shows "sub_slice a (a + 8) (tuple_bytes N B S F D) = slot_bytes N (S ! j)"
proof -
  have "tuple_bytes N B S F D =
      (B @ concat (map (slot_bytes N) (take j S))) @ slot_bytes N (S ! j) @ (concat (map (slot_bytes N) (drop (Suc j) S)) @ concat F @ D)"
    unfolding tuple_bytes_def concat_slots_at [OF assms(2)] by simp
  then show ?thesis using assms by (simp only:) (rule sub_slice_mid, simp_all)
qed

lemma tuple_slot_patch:
  assumes "net_ok N" and "j < length S" and "a = length B + 8 * j"
  shows "patch a (slot_bytes N s) (tuple_bytes N B S F D) = tuple_bytes N B (S[j := s]) F D"
proof -
  have "tuple_bytes N B S F D =
      (B @ concat (map (slot_bytes N) (take j S))) @ slot_bytes N (S ! j) @ (concat (map (slot_bytes N) (drop (Suc j) S)) @ concat F @ D)"
    unfolding tuple_bytes_def concat_slots_at [OF assms(2)] by simp
  then have "patch a (slot_bytes N s) (tuple_bytes N B S F D) =
      (B @ concat (map (slot_bytes N) (take j S))) @ slot_bytes N s @ (concat (map (slot_bytes N) (drop (Suc j) S)) @ concat F @ D)"
    using assms by (simp only:) (rule patch_mid, simp_all)
  then show ?thesis using assms(2) by (simp add: tuple_bytes_def upd_conv_take_nth_drop)
qed

lemma tuple_fixed_range:
  assumes "net_ok N" and "i < length F" and "a = length B + 8 * length S + sum_list (take i (map length F))" and "b = a + length (F ! i)"
  shows "sub_slice a b (tuple_bytes N B S F D) = F ! i"
proof -
  have "tuple_bytes N B S F D =
      (B @ concat (map (slot_bytes N) S) @ concat (take i F)) @ F ! i @ (concat (drop (Suc i) F) @ D)"
    unfolding tuple_bytes_def concat_split [OF assms(2)] by simp
  then show ?thesis using assms by (simp only:) (rule sub_slice_mid, simp_all add: length_concat_take)
qed

lemma tuple_fixed_patch:
  assumes "net_ok N" and "i < length F" and "a = length B + 8 * length S + sum_list (take i (map length F))" and "length v = length (F ! i)"
  shows "patch a v (tuple_bytes N B S F D) = tuple_bytes N B S (F[i := v]) D"
proof -
  have "tuple_bytes N B S F D =
      (B @ concat (map (slot_bytes N) S) @ concat (take i F)) @ F ! i @ (concat (drop (Suc i) F) @ D)"
    unfolding tuple_bytes_def concat_split [OF assms(2)] by simp
  then have "patch a v (tuple_bytes N B S F D) =
      (B @ concat (map (slot_bytes N) S) @ concat (take i F)) @ v @ (concat (drop (Suc i) F) @ D)"
    using assms by (simp only:) (rule patch_mid, simp_all add: length_concat_take)
  then show ?thesis using assms(2) by (simp add: tuple_bytes_def concat_update)
qed

lemma tuple_data_range:
  assumes "net_ok N" and "D = X @ v @ Y" and "a = length B + 8 * length S + length (concat F) + length X" and "b = a + length v"
  shows "sub_slice a b (tuple_bytes N B S F D) = v"
proof -
  have "tuple_bytes N B S F D = (B @ concat (map (slot_bytes N) S) @ concat F @ X) @ v @ Y"
    unfolding tuple_bytes_def assms(2) by simp
  then show ?thesis using assms by (simp only:) (rule sub_slice_mid, simp_all)
qed

section \<open>Values and their slots\<close>

text \<open>The slots of variable fields whose data follow one another; a null field has an empty slot at 0.\<close>

fun value_slots :: "nat \<Rightarrow> byte list option list \<Rightarrow> (nat \<times> nat) list" where
  "value_slots base [] = []"
| "value_slots base (None # vs) = (0, 0) # value_slots base vs"
| "value_slots base (Some v # vs) = (base, length v) # value_slots (base + length v) vs"

definition value_data :: "byte list option list \<Rightarrow> byte list" where
  "value_data vs = concat (map (\<lambda>v. case v of None \<Rightarrow> [] | Some b \<Rightarrow> b) vs)"

lemma value_data_simps [simp]:
  "value_data [] = []" "value_data (None # vs) = value_data vs" "value_data (Some v # vs) = v @ value_data vs"
  "value_data (xs @ ys) = value_data xs @ value_data ys"
  by (simp_all add: value_data_def)

lemma length_value_slots [simp]: "length (value_slots base vs) = length vs"
  by (induction base vs rule: value_slots.induct) simp_all

lemma value_slots_append: "value_slots base (xs @ ys) = value_slots base xs @ value_slots (base + length (value_data xs)) ys"
  by (induction base xs rule: value_slots.induct) (simp_all add: add.assoc)

lemma value_slots_nth:
  assumes "j < length vs"
  shows "value_slots base vs ! j = (case vs ! j of None \<Rightarrow> (0, 0) | Some v \<Rightarrow> (base + length (value_data (take j vs)), length v))"
proof -
  have "vs = take j vs @ vs ! j # drop (Suc j) vs" using assms by (rule id_take_nth_drop)
  then have "value_slots base vs = value_slots base (take j vs) @ value_slots (base + length (value_data (take j vs))) (vs ! j # drop (Suc j) vs)"
    by (metis value_slots_append)
  then show ?thesis using assms by (cases "vs ! j") (simp_all add: nth_append)
qed

lemma value_data_split:
  assumes "j < length vs" and "vs ! j = Some v"
  shows "value_data vs = value_data (take j vs) @ v @ value_data (drop (Suc j) vs)"
proof -
  have "vs = take j vs @ Some v # drop (Suc j) vs" using assms id_take_nth_drop by metis
  then show ?thesis by (metis value_data_simps(3,4))
qed

definition row_bytes :: "net \<Rightarrow> byte list \<Rightarrow> byte list list \<Rightarrow> byte list option list \<Rightarrow> byte list" where
  "row_bytes N B F vs =
     tuple_bytes N B (value_slots (length B + 8 * length vs + length (concat F)) vs) F (value_data vs)"

lemma length_row_bytes [simp]:
  "net_ok N \<Longrightarrow> length (row_bytes N B F vs) = length B + 8 * length vs + length (concat F) + length (value_data vs)"
  by (simp add: row_bytes_def)

end
