(* ===== verification/Tuple_Build.thy ===== *)
theory Tuple_Build
  imports Tuple_Bytes
begin

text \<open>Reading the fields of a row of bytes, and the tuples that \<open>build_tuple\<close> builds.\<close>

section \<open>Reading\<close>

lemma get_fixed:
  assumes "net_ok N" and "desc_ok d (length B) (map length F) (length vs)" and "i < length F"
  shows "FieldDesc_get N (td_slot_all d ! i) (row_bytes N B F vs) = Inr (F ! i)"
proof -
  let ?off = "length B + 8 * length vs + sum_list (take i (map length F))"
  have fd: "fd_is_fixed_len (td_slot_all d ! i)" "Slot_offset (fd_slot (td_slot_all d ! i)) = ?off"
    "Slot_length (fd_slot (td_slot_all d ! i)) = length (F ! i)"
    using desc_okD(6,7,8) [OF assms(2), of i] assms(3) by simp_all
  have "sum_list (take i (map length F)) + length (F ! i) \<le> length (concat F)"
    unfolding concat_split [OF assms(3)] by (simp add: length_concat_take)
  moreover have "sub_slice ?off (?off + length (F ! i)) (row_bytes N B F vs) = F ! i"
    unfolding row_bytes_def by (rule tuple_fixed_range [OF assms(1,3)]) simp_all
  ultimately show ?thesis using assms(1) by (simp add: FieldDesc_get_def fd read_fixed_len_value_def)
qed

lemma slot_range:
  assumes "net_ok N" and "j < length vs"
  shows "Slot_from_binary N (sub_slice (length B + 8 * j) (length B + 8 * j + 8) (row_bytes N B F vs)) =
    Inr (case vs ! j of None \<Rightarrow> Slot_new 0 0
         | Some v \<Rightarrow> Slot_new (of_nat (length B + 8 * length vs + length (concat F) + length (value_data (take j vs)))) (of_nat (length v)))"
proof -
  have "sub_slice (length B + 8 * j) (length B + 8 * j + 8) (row_bytes N B F vs) =
      slot_bytes N (value_slots (length B + 8 * length vs + length (concat F)) vs ! j)"
    unfolding row_bytes_def by (rule tuple_slot_range) (use assms in simp_all)
  then show ?thesis using assms by (simp add: slot_of_bytes value_slots_nth split: option.splits)
qed

lemma data_range:
  assumes "net_ok N" and "j < length vs" and "vs ! j = Some v"
    and "a = length B + 8 * length vs + length (concat F) + length (value_data (take j vs))"
  shows "sub_slice a (a + length v) (row_bytes N B F vs) = v" "a + length v \<le> length (row_bytes N B F vs)"
proof -
  note split = value_data_split [OF assms(2,3)]
  show "sub_slice a (a + length v) (row_bytes N B F vs) = v"
    unfolding row_bytes_def by (rule tuple_data_range [OF assms(1) split]) (simp_all add: assms(4))
  show "a + length v \<le> length (row_bytes N B F vs)" using assms(1,4) arg_cong [OF split, of length] by simp
qed

lemma get_var:
  assumes "net_ok N" and "desc_ok d (length B) (map length F) (length vs)" and "j < length vs" and "vs ! j = Some v"
    and "length (row_bytes N B F vs) < 2 ^ 32"
  shows "FieldDesc_get N (td_slot_all d ! (length F + j)) (row_bytes N B F vs) = Inr v"
proof -
  let ?a = "length B + 8 * length vs + length (concat F) + length (value_data (take j vs))"
  have fd: "\<not> fd_is_fixed_len (td_slot_all d ! (length F + j))" "Slot_offset (fd_slot (td_slot_all d ! (length F + j))) = length B + 8 * j"
    using desc_okD(9,10) [OF assms(2), of j] assms(3) by simp_all
  note r = data_range [OF assms(1,3,4) refl, of B F]
  have u: "unat (of_nat ?a :: u32) = ?a" "unat (of_nat (length v) :: u32) = length v"
    using r(2) assms(5) by (intro unat_u32_small, linarith)+
  have sl: "Slot_offset (Slot_new (of_nat ?a) (of_nat (length v))) = ?a" "Slot_length (Slot_new (of_nat ?a) (of_nat (length v))) = length v"
    using u by (simp_all only: Slot_offset_def Slot_length_def Slot_new_def Slot.select_convs)
  have "length (row_bytes N B F vs) \<ge> length B + 8 * j + 8" using assms(1,3) by simp
  then show ?thesis
    using slot_range [OF assms(1,3), of B F] assms(4) r sl
    by (simp add: FieldDesc_get_def fd read_var_len_value_def Slot_size_of_def del: of_nat_add of_nat_mult length_row_bytes)
qed

section \<open>Building\<close>

lemma take_patch:
  assumes "a + length bs \<le> n" and "n \<le> length xs"
  shows "take n (patch a bs xs) = patch a bs (take n xs)"
proof (cases "n \<le> a")
  case True
  then have "a = n" "length bs = 0" using assms(1) by linarith+
  then show ?thesis using assms(2) by (simp add: patch_def)
next
  case False
  then show ?thesis using assms by (simp add: patch_def min_def drop_take)
qed

lemma write_value_fits:
  assumes "off \<le> length t"
  shows "write_value_to_tuple off v t =
    (if off + length v \<le> length t then Inr (Inr (length v), patch off v t) else Inr (Inl (length v), t))"
  using assms
  by (auto simp: write_value_to_tuple_def write_value_to_buf_def index_range_def length_sub_slice patch_def sub_slice_def add.commute)

declare grow_and_write.simps [simp del]

lemma grow_write:
  assumes "off \<le> length t" and "t \<noteq> [] \<or> v = []"
  shows "\<exists>t'. grow_and_write off v t = Inr (length v, t') \<and> take (off + length v) t' = take off t @ v \<and>
    off + length v \<le> length t' \<and> length t \<le> length t'"
  using assms
proof (induction off v t rule: grow_and_write.induct)
  case (1 off v t)
  show ?case
  proof (cases "off + length v \<le> length t")
    case True
    then have "grow_and_write off v t = Inr (length v, patch off v t)"
      using 1(2) by (subst grow_and_write.simps) (simp add: write_value_fits)
    then show ?thesis using True by (simp add: patch_def)
  next
    case False
    then have ne: "t \<noteq> []" using 1(2,3) by auto
    let ?t = "resize (length t * 2) t"
    have w: "write_value_to_tuple off v t = Inr (Inl (length v), t)" using False 1(2) by (simp add: write_value_fits)
    have step: "grow_and_write off v t = grow_and_write off v ?t"
      using 1(2) ne by (subst grow_and_write.simps) (simp add: w)
    have "length ?t = 2 * length t" "take off ?t = take off t" using 1(2) by (simp_all add: resize_def)
    moreover from this obtain t' where "grow_and_write off v ?t = Inr (length v, t')" "take (off + length v) t' = take off ?t @ v"
        "off + length v \<le> length t'" "length ?t \<le> length t'"
      using 1(1) [OF _ w refl refl ne] 1(2) ne by (fastforce simp: resize_def)
    ultimately show ?thesis using step by auto
  qed
qed

lemma build_fixed:
  assumes "\<And>i. i < length F \<Longrightarrow> \<exists>fd. get_field_desc (s + i) d = Inr fd \<and> fd_is_fixed_len fd"
    and "off \<le> length t" and "t \<noteq> [] \<or> concat F = []"
  shows "\<exists>t'. fold_rs (build_field N d) (enumerate s F) (off, t) = Inr (off + length (concat F), t') \<and>
    take (off + length (concat F)) t' = take off t @ concat F \<and> off + length (concat F) \<le> length t' \<and> length t \<le> length t'"
  using assms
proof (induction F arbitrary: s off t)
  case (Cons v F)
  obtain fd where fd: "get_field_desc s d = Inr fd" "fd_is_fixed_len fd" using Cons.prems(1) [of 0] by auto
  from grow_write [of off t v] Cons.prems(2,3) obtain t1 where
    t1: "grow_and_write off v t = Inr (length v, t1)" "take (off + length v) t1 = take off t @ v" "off + length v \<le> length t1" "length t \<le> length t1"
    by auto
  have step: "build_field N d (s, v) (off, t) = Inr (off + length v, t1)"
    using fd t1(1) by (simp add: build_field_def write_slot_to_tuple_def)
  have "\<exists>t'. fold_rs (build_field N d) (enumerate (Suc s) F) (off + length v, t1) = Inr (off + length v + length (concat F), t') \<and>
    take (off + length v + length (concat F)) t' = take (off + length v) t1 @ concat F \<and>
    off + length v + length (concat F) \<le> length t' \<and> length t1 \<le> length t'"
  proof (rule Cons.IH)
    fix i assume "i < length F"
    then show "\<exists>fd. get_field_desc (Suc s + i) d = Inr fd \<and> fd_is_fixed_len fd" using Cons.prems(1) [of "Suc i"] by simp
  qed (use t1 Cons.prems(3) in auto)
  then show ?case using t1 step by (auto simp: add.assoc)
qed simp

lemma build_var_step:
  assumes "net_ok N" and "get_field_desc i d = Inr fd" and "\<not> fd_is_fixed_len fd" and "Slot_offset (fd_slot fd) = length B + 8 * j"
    and "take off t = tuple_bytes N B S F D" and "off = length (tuple_bytes N B S F D)" and "j < length S" and "off \<le> length t"
  shows "\<exists>t'. build_field N d (i, v) (off, t) = Inr (off + length v, t') \<and>
    take (off + length v) t' = tuple_bytes N B (S[j := (off, length v)]) F (D @ v) \<and> off + length v \<le> length t' \<and> t' \<noteq> []"
proof -
  have ne: "t \<noteq> []" using assms(1,6,7,8) by auto
  from grow_write [OF assms(8), of v] ne obtain t1 where
    t1: "grow_and_write off v t = Inr (length v, t1)" "take (off + length v) t1 = take off t @ v" "off + length v \<le> length t1" by auto
  let ?a = "length B + 8 * j"
  have pre: "take (off + length v) t1 = tuple_bytes N B S F (D @ v)" using t1(2) assms(5) by (simp add: tuple_bytes_def)
  have room: "?a + 8 \<le> off" using assms(1,6,7) by simp
  have "length (sub_slice ?a (?a + 8) t1) = 8" using room t1(3) by (simp add: length_sub_slice)
  then have w: "write_slot_to_tuple N fd off (length v) t1 = Inr (patch ?a (slot_bytes N (off, length v)) t1)"
    using assms(1,3,4) room t1(3)
    by (simp add: write_slot_to_tuple_def write_slot_to_buf_def Slot_size_of_def slot_to_bytes Let_def)
  have "take (off + length v) (patch ?a (slot_bytes N (off, length v)) t1) = patch ?a (slot_bytes N (off, length v)) (take (off + length v) t1)"
    using assms(1) room t1(3) by (intro take_patch) simp_all
  also have "\<dots> = tuple_bytes N B (S[j := (off, length v)]) F (D @ v)"
    unfolding pre using assms(1,7) by (intro tuple_slot_patch) simp_all
  finally have "take (off + length v) (patch ?a (slot_bytes N (off, length v)) t1) = tuple_bytes N B (S[j := (off, length v)]) F (D @ v)" .
  moreover have "length (patch ?a (slot_bytes N (off, length v)) t1) = length t1" using assms(1) room t1(3) by (intro length_patch) simp_all
  moreover have "t1 \<noteq> []" using room t1(3) by auto
  ultimately show ?thesis using t1 w assms(2) by (auto simp: build_field_def)
qed

lemma build_var:
  assumes "net_ok N" and "\<And>j. j < length V \<Longrightarrow> \<exists>fd. get_field_desc (s + j) d = Inr fd \<and> \<not> fd_is_fixed_len fd \<and> Slot_offset (fd_slot fd) = length B + 8 * (length S + j)"
    and "take off t = tuple_bytes N B (S @ replicate (length V) (0, 0)) F D" and "off = length (tuple_bytes N B (S @ replicate (length V) (0, 0)) F D)"
    and "off \<le> length t"
  shows "\<exists>t'. fold_rs (build_field N d) (enumerate s V) (off, t) = Inr (off + length (concat V), t') \<and>
    take (off + length (concat V)) t' = tuple_bytes N B (S @ value_slots off (map Some V)) F (D @ concat V) \<and> off + length (concat V) \<le> length t'"
  using assms(2-)
proof (induction V arbitrary: s off t S D)
  case (Cons v V)
  obtain fd where fd: "get_field_desc s d = Inr fd" "\<not> fd_is_fixed_len fd" "Slot_offset (fd_slot fd) = length B + 8 * length S"
    using Cons.prems(1) [of 0] by auto
  from build_var_step [OF assms(1) fd Cons.prems(2) Cons.prems(3) _ Cons.prems(4), of v] obtain t1 where
    t1: "build_field N d (s, v) (off, t) = Inr (off + length v, t1)"
      "take (off + length v) t1 = tuple_bytes N B ((S @ (off, length v) # []) @ replicate (length V) (0, 0)) F (D @ v)" "off + length v \<le> length t1"
    by auto
  have "\<exists>t'. fold_rs (build_field N d) (enumerate (Suc s) V) (off + length v, t1) = Inr (off + length v + length (concat V), t') \<and>
    take (off + length v + length (concat V)) t' = tuple_bytes N B ((S @ [(off, length v)]) @ value_slots (off + length v) (map Some V)) F ((D @ v) @ concat V) \<and>
    off + length v + length (concat V) \<le> length t'"
  proof (rule Cons.IH)
    fix j assume "j < length V"
    then show "\<exists>fd. get_field_desc (Suc s + j) d = Inr fd \<and> \<not> fd_is_fixed_len fd \<and> Slot_offset (fd_slot fd) = length B + 8 * (length (S @ [(off, length v)]) + j)"
      using Cons.prems(1) [of "Suc j"] by simp
  qed (use t1 Cons.prems(3) assms(1) in auto)
  then show ?case using t1(1) by (auto simp: add.assoc)
qed simp

lemma value_data_Some [simp]: "value_data (map Some V) = concat V"
  by (induction V) simp_all

text \<open>The tuple that \<open>build_tuple\<close> returns.\<close>

lemma build_tuple_bytes:
  assumes "net_ok N" and "desc_ok d bm (map length F) (length V)"
  shows "build_tuple N (F @ V) d = Inr (row_bytes N (replicate bm 0) F (map Some V))"
proof -
  let ?B = "replicate bm 0 :: byte list" and ?m = "length V"
  let ?S = "replicate ?m (0, 0)"
  let ?z = "replicate (bm + 8 * ?m + length (concat F)) 0 :: byte list"
  have min: "min_tuple_size d = bm + 8 * ?m + length (concat F)" "meta_size d = bm + 8 * ?m" "field_count d = length F + ?m"
    using desc_okD(1,4,5) [OF assms(2)] by (simp_all add: length_concat)
  have "\<exists>t. fold_rs (build_field N d) (enumerate 0 F) (meta_size d, ?z) = Inr (meta_size d + length (concat F), t) \<and>
    take (meta_size d + length (concat F)) t = take (meta_size d) ?z @ concat F \<and> meta_size d + length (concat F) \<le> length t \<and> length ?z \<le> length t"
  proof (rule build_fixed)
    fix i assume "i < length F"
    then show "\<exists>fd. get_field_desc (0 + i) d = Inr fd \<and> fd_is_fixed_len fd" using desc_okD(6,11) [OF assms(2), of i] by simp
  qed (auto simp: min)
  then obtain t where t: "fold_rs (build_field N d) (enumerate 0 F) (meta_size d, ?z) = Inr (meta_size d + length (concat F), t)"
    "take (meta_size d + length (concat F)) t = take (meta_size d) ?z @ concat F" "meta_size d + length (concat F) \<le> length t" by blast
  have img: "take (meta_size d) ?z @ concat F = tuple_bytes N ?B ([] @ ?S) F []"
    by (simp add: tuple_bytes_def zero_slots [OF assms(1)] min replicate_add [symmetric])
  have "\<exists>t'. fold_rs (build_field N d) (enumerate (length F) V) (meta_size d + length (concat F), t) =
      Inr (meta_size d + length (concat F) + length (concat V), t') \<and>
    take (meta_size d + length (concat F) + length (concat V)) t' =
      tuple_bytes N ?B ([] @ value_slots (meta_size d + length (concat F)) (map Some V)) F ([] @ concat V) \<and>
    meta_size d + length (concat F) + length (concat V) \<le> length t'"
  proof (rule build_var [OF assms(1)])
    fix j assume "j < length V"
    then show "\<exists>fd. get_field_desc (length F + j) d = Inr fd \<and> \<not> fd_is_fixed_len fd \<and>
        Slot_offset (fd_slot fd) = length ?B + 8 * (length [] + j)"
      using desc_okD(9,10,11) [OF assms(2), of j] desc_okD(11) [OF assms(2), of "length F + j"] by simp
  next
    show "take (meta_size d + length (concat F)) t = tuple_bytes N ?B ([] @ ?S) F []" using t(2) img by simp
  qed (use t(3) min assms(1) in simp_all)
  then show ?thesis using t(1) min
    by (auto simp: build_tuple_def enumerate_append_eq fold_rs_append resize_def row_bytes_def)
qed

end
