(* ===== verification/Tuple_Nullable.thy ===== *)
theory Tuple_Nullable
  imports Tuple_Build
begin

text \<open>The tuples that \<open>TupleBuilder::build\<close> builds: the null bitmap, and the bytes of the other fields.\<close>

section \<open>Bitmaps\<close>

definition bm_bit :: "Bitmap \<Rightarrow> nat \<Rightarrow> bool" where
  "bm_bit b i \<longleftrightarrow> bit (bm_bytes b ! (i div 8)) (i mod 8)"

definition bitmap_ok :: "Bitmap \<Rightarrow> bool" where
  "bitmap_ok b \<longleftrightarrow> length (bm_bytes b) = aligned_byte_len (bm_bits b)"

lemma bitmap_ok_new: "bitmap_ok (Bitmap_new n)"
  by (simp add: bitmap_ok_def Bitmap_new_def)

lemma bitmap_index:
  assumes "i < bits"
  shows "i div 8 < aligned_byte_len bits"
proof -
  let ?n = "(bits + 7) div 8"
  have "(i + 8) div 8 \<le> ?n" using assms by (intro div_le_mono) simp
  then have i: "i div 8 < ?n" by simp
  have "(?n + 7) div 8 * 8 + (?n + 7) mod 8 = ?n + 7" "(?n + 7) mod 8 < 8" by (rule div_mult_mod_eq) simp
  then have n: "?n \<le> (?n + 7) div 8 * 8" by linarith
  have "?n \<noteq> 0" using i by linarith
  then have "aligned_byte_len bits = (?n + 7) div 8 * 8" by (simp only: aligned_byte_len_def bitmap_align_up_def if_False) simp
  then show ?thesis using less_le_trans [OF i n] by simp
qed

lemma bitmap_get: "bitmap_ok b \<Longrightarrow> i < bm_bits b \<Longrightarrow> Bitmap_get i b = Inr (bm_bit b i)"
  using bitmap_index [of i "bm_bits b"]
  by (simp add: Bitmap_get_def bm_bit_def bitmap_ok_def index_at_def bit_iff_and_push_bit_not_eq_0)

lemma bitmap_set:
  assumes "bitmap_ok b" and "i < bm_bits b"
  shows "\<exists>b'. Bitmap_set i v b = Inr b' \<and> bitmap_ok b' \<and> bm_bits b' = bm_bits b \<and>
    (\<forall>k < bm_bits b. bm_bit b' k = (if k = i then v else bm_bit b k))"
proof -
  let ?y = "bm_bytes b ! (i div 8)" and ?m = "push_bit (i mod 8) 1 :: byte"
  let ?b = "b\<lparr>bm_bytes := (bm_bytes b)[i div 8 := (if v then ?y OR ?m else ?y AND NOT ?m)]\<rparr>"
  have i: "i div 8 < length (bm_bytes b)" using assms bitmap_index [of i "bm_bits b"] by (simp add: bitmap_ok_def)
  have "bm_bit ?b k = (if k = i then v else bm_bit b k)" if "k < bm_bits b" for k
  proof (cases "k div 8 = i div 8")
    case True
    have "k mod 8 < 8" by simp
    moreover have "k = i \<longleftrightarrow> k mod 8 = i mod 8" using True by (metis div_mult_mod_eq)
    ultimately show ?thesis using i True by (auto simp: bm_bit_def bit_simps)
  next
    case False
    then show ?thesis using i by (auto simp: bm_bit_def)
  qed
  then show ?thesis using assms i by (auto simp: Bitmap_set_def bitmap_ok_def index_at_def Let_def)
qed

lemma bitmap_new_bit: "i < n \<Longrightarrow> \<not> bm_bit (Bitmap_new n) i"
  using bitmap_index [of i n] by (simp add: bm_bit_def Bitmap_new_def)

section \<open>One field\<close>

definition null_after :: "('p FieldDesc \<times> 'v NullableValue) list \<Rightarrow> nat \<Rightarrow> bool \<Rightarrow> bool" where
  "null_after fvs k old = fold (\<lambda>(fd, v) old. if map_option unat (fd_null_bit_idx fd) = Some k then v = Null else old) fvs old"

definition value_ok :: "('v \<Rightarrow> 'p DataType \<Rightarrow> byte list rs) \<Rightarrow> nat \<Rightarrow> 'p FieldDesc \<Rightarrow> 'v NullableValue \<Rightarrow> bool" where
  "value_ok fn_send bits fd v \<longleftrightarrow>
     (case fd_null_bit_idx fd of None \<Rightarrow> v \<noteq> Null | Some idx \<Rightarrow> unat idx < bits) \<and>
     (case v of Null \<Rightarrow> True
      | Value x \<Rightarrow> (case fn_send x (fd_type_obj fd) of Inl _ \<Rightarrow> False
                   | Inr b \<Rightarrow> fd_is_fixed_len fd \<longrightarrow> length b = Slot_length (fd_slot fd)))"

definition sent :: "('v \<Rightarrow> 'p DataType \<Rightarrow> byte list rs) \<Rightarrow> 'p FieldDesc \<Rightarrow> 'v NullableValue \<Rightarrow> byte list option" where
  "sent fn_send fd v = (case v of Null \<Rightarrow> None | Value x \<Rightarrow> (case fn_send x (fd_type_obj fd) of Inl _ \<Rightarrow> None | Inr b \<Rightarrow> Some b))"

lemma builder_step:
  assumes "value_ok fn_send (bm_bits b) fd v" and "bitmap_ok b"
    and "\<And>x. v = Value x \<Longrightarrow> builder_value N fn_send fd x tv = Inr tv'" and "v = Null \<Longrightarrow> tv' = tv"
  shows "\<exists>b'. builder_field N fn_send (fd, v) (b, tv) = Inr (b', tv') \<and> bitmap_ok b' \<and> bm_bits b' = bm_bits b \<and>
    (\<forall>k < bm_bits b. bm_bit b' k = null_after [(fd, v)] k (bm_bit b k))"
proof (cases "fd_null_bit_idx fd")
  case None
  then obtain x where "v = Value x" using assms(1) by (cases v) (auto simp: value_ok_def)
  then show ?thesis using None assms(2,3) by (simp add: builder_field_def null_after_def)
next
  case (Some idx)
  then have "unat idx < bm_bits b" using assms(1) by (auto simp: value_ok_def)
  from bitmap_set [OF assms(2) this, of "v = Null"] obtain b' where
    b': "Bitmap_set (unat idx) (v = Null) b = Inr b'" "bitmap_ok b'" "bm_bits b' = bm_bits b"
    "\<And>k. k < bm_bits b \<Longrightarrow> bm_bit b' k = (if k = unat idx then v = Null else bm_bit b k)" by blast
  then show ?thesis using Some assms(3,4)
    by (cases v) (auto simp: builder_field_def null_after_def intro!: exI [of _ b'])
qed

section \<open>All fields\<close>

lemma null_after_Cons: "null_after (fv # fvs) k old = null_after fvs k (null_after [fv] k old)"
  by (simp add: null_after_def)

lemma builder_fixed:
  assumes "net_ok N" and "length fds = length Z" and "length vals = length Z" and "bitmap_ok b"
    and "\<And>i. i < length Z \<Longrightarrow> value_ok fn_send (bm_bits b) (fds ! i) (vals ! i) \<and> fd_is_fixed_len (fds ! i) \<and>
      Slot_offset (fd_slot (fds ! i)) = length B + 8 * length S + length (concat P) + sum_list (take i (map length Z)) \<and>
      Slot_length (fd_slot (fds ! i)) = length (Z ! i)"
  shows "\<exists>b' Z'. fold_rs (builder_field N fn_send) (zip fds vals) (b, tuple_bytes N B S (P @ Z) D, off) =
      Inr (b', tuple_bytes N B S (P @ Z') D, off) \<and> bitmap_ok b' \<and> bm_bits b' = bm_bits b \<and>
    (\<forall>k < bm_bits b. bm_bit b' k = null_after (zip fds vals) k (bm_bit b k)) \<and> map length Z' = map length Z \<and>
    (\<forall>i < length Z. \<forall>x. sent fn_send (fds ! i) (vals ! i) = Some x \<longrightarrow> Z' ! i = x)"
  using assms(2-)
proof (induction Z arbitrary: fds vals b P)
  case Nil
  then show ?case by (auto simp: null_after_def)
next
  case (Cons z Z)
  obtain fd fds' v vals' where eq: "fds = fd # fds'" "vals = v # vals'" "length fds' = length Z" "length vals' = length Z"
    using Cons.prems(1,2) by (metis length_Suc_conv)
  have h: "value_ok fn_send (bm_bits b) fd v" "fd_is_fixed_len fd"
    "Slot_offset (fd_slot fd) = length B + 8 * length S + length (concat P)" "Slot_length (fd_slot fd) = length z"
    using Cons.prems(4) [of 0] by (simp_all add: eq)
  let ?z = "case sent fn_send fd v of None \<Rightarrow> z | Some x \<Rightarrow> x"
  have zlen: "length ?z = length z" using h by (auto simp: sent_def value_ok_def split: NullableValue.splits option.splits sum.splits)
  have val: "builder_value N fn_send fd x (tuple_bytes N B S (P @ z # Z) D, off) = Inr (tuple_bytes N B S (P @ ?z # Z) D, off)" if vx: "v = Value x" for x
  proof -
    obtain y where y: "fn_send x (fd_type_obj fd) = Inr y" "length y = length z"
      using h vx by (auto simp: value_ok_def split: option.splits sum.splits)
    have "patch (length B + 8 * length S + length (concat P)) y (tuple_bytes N B S (P @ z # Z) D) = tuple_bytes N B S ((P @ z # Z)[length P := y]) D"
      by (rule tuple_fixed_patch [OF assms(1)]) (simp_all add: length_concat y)
    then show ?thesis using y h vx assms(1) by (simp add: builder_value_def copy_slice_def sent_def)
  qed
  from builder_step [OF h(1) Cons.prems(3) val] obtain b1 where
    b1: "builder_field N fn_send (fd, v) (b, tuple_bytes N B S (P @ z # Z) D, off) = Inr (b1, tuple_bytes N B S (P @ ?z # Z) D, off)"
      "bitmap_ok b1" "bm_bits b1 = bm_bits b" "\<And>k. k < bm_bits b \<Longrightarrow> bm_bit b1 k = null_after [(fd, v)] k (bm_bit b k)"
    by (auto simp: sent_def)
  have "\<exists>b' Z'. fold_rs (builder_field N fn_send) (zip fds' vals') (b1, tuple_bytes N B S ((P @ [?z]) @ Z) D, off) =
      Inr (b', tuple_bytes N B S ((P @ [?z]) @ Z') D, off) \<and> bitmap_ok b' \<and> bm_bits b' = bm_bits b1 \<and>
    (\<forall>k < bm_bits b1. bm_bit b' k = null_after (zip fds' vals') k (bm_bit b1 k)) \<and> map length Z' = map length Z \<and>
    (\<forall>i < length Z. \<forall>x. sent fn_send (fds' ! i) (vals' ! i) = Some x \<longrightarrow> Z' ! i = x)"
  proof (rule Cons.IH [OF eq(3,4) b1(2)])
    fix i assume "i < length Z"
    then show "value_ok fn_send (bm_bits b1) (fds' ! i) (vals' ! i) \<and> fd_is_fixed_len (fds' ! i) \<and>
      Slot_offset (fd_slot (fds' ! i)) = length B + 8 * length S + length (concat (P @ [?z])) + sum_list (take i (map length Z)) \<and>
      Slot_length (fd_slot (fds' ! i)) = length (Z ! i)"
      using Cons.prems(4) [of "Suc i"] by (simp add: eq b1(3) zlen)
  qed
  then obtain b' Z' where r: "fold_rs (builder_field N fn_send) (zip fds' vals') (b1, tuple_bytes N B S (P @ ?z # Z) D, off) =
      Inr (b', tuple_bytes N B S (P @ ?z # Z') D, off)" "bitmap_ok b'" "bm_bits b' = bm_bits b"
    "\<And>k. k < bm_bits b \<Longrightarrow> bm_bit b' k = null_after (zip fds' vals') k (bm_bit b1 k)" "map length Z' = map length Z"
    "\<And>i x. i < length Z \<Longrightarrow> sent fn_send (fds' ! i) (vals' ! i) = Some x \<Longrightarrow> Z' ! i = x"
    using b1(3) by auto
  show ?case
  proof (intro exI [of _ b'] exI [of _ "?z # Z'"] conjI allI impI)
    fix i x assume "i < length (z # Z)" "sent fn_send (fds ! i) (vals ! i) = Some x"
    then show "(?z # Z') ! i = x" using r(6) by (cases i) (simp_all add: eq)
  next
    fix k assume "k < bm_bits b"
    then show "bm_bit b' k = null_after (zip fds vals) k (bm_bit b k)"
      using r(4) b1(4) by (simp add: eq null_after_Cons [of "(fd, v)" "zip fds' vals'"])
  qed (use r b1(1) zlen in \<open>simp_all add: eq\<close>)
qed

lemma builder_value_var:
  assumes "net_ok N" and "fn_send x (fd_type_obj fd) = Inr y" and "\<not> fd_is_fixed_len fd" and "Slot_offset (fd_slot fd) = length B + 8 * j"
    and "j < length S" and "off = length (tuple_bytes N B S F D)"
  shows "builder_value N fn_send fd x (tuple_bytes N B S F D, off) =
    Inr (tuple_bytes N B (S[j := (off, length y)]) F (D @ y), off + length y)"
proof -
  let ?t = "tuple_bytes N B S F (D @ y)" and ?a = "length B + 8 * j"
  have t: "tuple_bytes N B S F D @ y = ?t" by (simp add: tuple_bytes_def)
  have len: "?a + 8 \<le> length ?t" using assms(1,5) by simp
  then have r: "index_range ?a (?a + 8) ?t = Inr (sub_slice ?a (?a + 8) ?t)" "length (sub_slice ?a (?a + 8) ?t) = 8"
    by (simp_all add: index_range_def length_sub_slice)
  show ?thesis
    using tuple_slot_patch [OF assms(1,5), of ?a B "(off, length y)" F "D @ y"] assms(1-4) r
    by (simp add: builder_value_def t Slot_size_of_def slot_to_bytes Let_def)
qed

lemma builder_var:
  assumes "net_ok N" and "length fds = length vals" and "bitmap_ok b"
    and "\<And>j. j < length vals \<Longrightarrow> value_ok fn_send (bm_bits b) (fds ! j) (vals ! j) \<and> \<not> fd_is_fixed_len (fds ! j) \<and>
      Slot_offset (fd_slot (fds ! j)) = length B + 8 * (length S + j)"
    and "off = length (tuple_bytes N B (S @ replicate (length vals) (0, 0)) F D)"
  shows "\<exists>b'. fold_rs (builder_field N fn_send) (zip fds vals) (b, tuple_bytes N B (S @ replicate (length vals) (0, 0)) F D, off) =
      Inr (b', tuple_bytes N B (S @ value_slots off (map2 (sent fn_send) fds vals)) F (D @ value_data (map2 (sent fn_send) fds vals)),
           off + length (value_data (map2 (sent fn_send) fds vals))) \<and>
    bitmap_ok b' \<and> bm_bits b' = bm_bits b \<and> (\<forall>k < bm_bits b. bm_bit b' k = null_after (zip fds vals) k (bm_bit b k))"
  using assms(2-)
proof (induction vals arbitrary: fds b S D off)
  case Nil
  then show ?case by (auto simp: null_after_def)
next
  case (Cons v vals)
  obtain fd fds' where eq: "fds = fd # fds'" "length fds' = length vals" using Cons.prems(1) by (metis length_Suc_conv)
  have h: "value_ok fn_send (bm_bits b) fd v" "\<not> fd_is_fixed_len fd" "Slot_offset (fd_slot fd) = length B + 8 * length S"
    using Cons.prems(3) [of 0] by (simp_all add: eq)
  let ?s = "value_slots off [sent fn_send fd v]" and ?y = "value_data [sent fn_send fd v]"
  let ?S = "S @ ?s" and ?D = "D @ ?y" and ?R = "replicate (length vals) (0, 0)"
  have len: "length ?S = Suc (length S)" by simp
  have val: "builder_value N fn_send fd x (tuple_bytes N B (S @ (0, 0) # ?R) F D, off) = Inr (tuple_bytes N B (?S @ ?R) F ?D, off + length ?y)"
    if vx: "v = Value x" for x
  proof -
    obtain y where y: "fn_send x (fd_type_obj fd) = Inr y" using h vx by (auto simp: value_ok_def split: option.splits sum.splits)
    show ?thesis
      using builder_value_var [of N fn_send x fd y B "length S" "S @ (0, 0) # ?R" off F D] assms(1) h(2,3) Cons.prems(4) y vx
      by (simp add: sent_def)
  qed
  have nul: "(tuple_bytes N B (?S @ ?R) F ?D, off + length ?y) = (tuple_bytes N B (S @ (0, 0) # ?R) F D, off)" if "v = Null"
    using that by (simp add: sent_def)
  from builder_step [OF h(1) Cons.prems(2) val nul] obtain b1 where
    b1: "builder_field N fn_send (fd, v) (b, tuple_bytes N B (S @ (0, 0) # ?R) F D, off) = Inr (b1, tuple_bytes N B (?S @ ?R) F ?D, off + length ?y)"
      "bitmap_ok b1" "bm_bits b1 = bm_bits b" "\<And>k. k < bm_bits b \<Longrightarrow> bm_bit b1 k = null_after [(fd, v)] k (bm_bit b k)" by auto
  let ?vs = "map2 (sent fn_send) fds' vals"
  have "\<exists>b'. fold_rs (builder_field N fn_send) (zip fds' vals) (b1, tuple_bytes N B (?S @ ?R) F ?D, off + length ?y) =
      Inr (b', tuple_bytes N B (?S @ value_slots (off + length ?y) ?vs) F (?D @ value_data ?vs), off + length ?y + length (value_data ?vs)) \<and>
    bitmap_ok b' \<and> bm_bits b' = bm_bits b1 \<and> (\<forall>k < bm_bits b1. bm_bit b' k = null_after (zip fds' vals) k (bm_bit b1 k))"
  proof (rule Cons.IH [OF eq(2) b1(2)])
    fix j assume "j < length vals"
    then show "value_ok fn_send (bm_bits b1) (fds' ! j) (vals ! j) \<and> \<not> fd_is_fixed_len (fds' ! j) \<and>
        Slot_offset (fd_slot (fds' ! j)) = length B + 8 * (length ?S + j)"
      using Cons.prems(3) [of "Suc j"] by (simp add: eq b1(3))
  next
    show "off + length ?y = length (tuple_bytes N B (?S @ ?R) F ?D)" using Cons.prems(4) assms(1) by simp
  qed
  then obtain b' where r: "fold_rs (builder_field N fn_send) (zip fds' vals) (b1, tuple_bytes N B (?S @ ?R) F ?D, off + length ?y) =
      Inr (b', tuple_bytes N B (?S @ value_slots (off + length ?y) ?vs) F (?D @ value_data ?vs), off + length ?y + length (value_data ?vs))"
    "bitmap_ok b'" "bm_bits b' = bm_bits b" "\<And>k. k < bm_bits b \<Longrightarrow> bm_bit b' k = null_after (zip fds' vals) k (bm_bit b1 k)"
    using b1(3) by auto
  have e: "?S @ value_slots (off + length ?y) ?vs = S @ value_slots off (sent fn_send fd v # ?vs)"
    "?D @ value_data ?vs = D @ value_data (sent fn_send fd v # ?vs)"
    "off + length ?y + length (value_data ?vs) = off + length (value_data (sent fn_send fd v # ?vs))"
    using value_slots_append [of off "[sent fn_send fd v]" ?vs] value_data_simps(4) [of "[sent fn_send fd v]" ?vs] by simp_all
  have "fold_rs (builder_field N fn_send) (zip fds (v # vals)) (b, tuple_bytes N B (S @ (0, 0) # ?R) F D, off) =
      Inr (b', tuple_bytes N B (S @ value_slots off (sent fn_send fd v # ?vs)) F (D @ value_data (sent fn_send fd v # ?vs)),
           off + length (value_data (sent fn_send fd v # ?vs)))"
    using b1(1) r(1) unfolding e by (simp add: eq)
  moreover have "bm_bit b' k = null_after (zip fds (v # vals)) k (bm_bit b k)" if "k < bm_bits b" for k
    using that r(4) b1(4) by (simp add: eq null_after_Cons [of "(fd, v)" "zip fds' vals"])
  ultimately show ?case using r(2,3) by (simp add: eq)
qed

section \<open>The built tuple\<close>

definition bit_of :: "'p FieldDesc \<Rightarrow> nat option" where
  "bit_of fd = map_option unat (fd_null_bit_idx fd)"

lemma null_after_step: "null_after ((fd, v) # fvs) k old = null_after fvs k (if bit_of fd = Some k then v = Null else old)"
  by (simp add: null_after_def bit_of_def)

lemma null_after_other: "\<forall>fd \<in> set fds. bit_of fd \<noteq> Some k \<Longrightarrow> null_after (zip fds vals) k old = old"
proof (induction fds arbitrary: vals)
  case (Cons fd fds)
  then show ?case by (cases vals) (simp_all add: null_after_step, simp add: null_after_def)
qed (simp add: null_after_def)

text \<open>No two fields share a bit of the bitmap.\<close>

definition bits_distinct :: "'p FieldDesc list \<Rightarrow> bool" where
  "bits_distinct fds \<longleftrightarrow> (\<forall>i < length fds. \<forall>j < length fds. bit_of (fds ! i) = bit_of (fds ! j) \<longrightarrow> bit_of (fds ! i) \<noteq> None \<longrightarrow> i = j)"

lemma bits_distinctD:
  "bits_distinct fds \<Longrightarrow> i < length fds \<Longrightarrow> j < length fds \<Longrightarrow> bit_of (fds ! i) = Some k \<Longrightarrow> bit_of (fds ! j) = Some k \<Longrightarrow> i = j"
  unfolding bits_distinct_def by simp

lemma null_after_distinct:
  assumes "bits_distinct fds" and "length fds = length vals" and "i < length fds" and "bit_of (fds ! i) = Some k"
  shows "null_after (zip fds vals) k old \<longleftrightarrow> vals ! i = Null"
proof -
  have zip: "zip fds vals = zip (take i fds) (take i vals) @ (fds ! i, vals ! i) # zip (drop (Suc i) fds) (drop (Suc i) vals)"
    using assms(2,3) by (metis id_take_nth_drop length_zip min.idem nth_zip take_zip drop_zip)
  have "bit_of fd \<noteq> Some k" if mem: "fd \<in> set (drop (Suc i) fds)" for fd
  proof
    assume k: "bit_of fd = Some k"
    obtain n where n: "n < length (drop (Suc i) fds)" "fd = drop (Suc i) fds ! n" using mem by (auto simp: in_set_conv_nth)
    then have "Suc i + n < length fds" "fds ! (Suc i + n) = fd" by simp_all
    then have "i = Suc i + n" using assms(3,4) k by (intro bits_distinctD [OF assms(1)]) simp_all
    then show False by simp
  qed
  then have rest: "null_after (zip (drop (Suc i) fds) (drop (Suc i) vals)) k b = b" for b by (intro null_after_other) blast
  have "null_after (zip fds vals) k old = null_after ((fds ! i, vals ! i) # zip (drop (Suc i) fds) (drop (Suc i) vals)) k (null_after (zip (take i fds) (take i vals)) k old)"
    unfolding zip by (simp add: null_after_def)
  then show ?thesis using assms(4) rest by (simp add: null_after_step)
qed

lemma builder_bytes:
  assumes "net_ok N" and d: "desc_ok d bm fs m" and "bm = aligned_byte_len (td_nullable_count d)"
    and "length vals = length fs + m" and "list_all2 (value_ok fn_send (td_nullable_count d)) (td_slot_all d) vals"
  shows "\<exists>B F. TupleBuilder_build N fn_send d vals =
      Inr (row_bytes N B F (map2 (sent fn_send) (drop (length fs) (td_slot_all d)) (drop (length fs) vals))) \<and>
    length B = bm \<and> map length F = fs \<and>
    (\<forall>i < length fs. \<forall>x. sent fn_send (td_slot_all d ! i) (vals ! i) = Some x \<longrightarrow> F ! i = x) \<and>
    (\<forall>k < td_nullable_count d. bit (B ! (k div 8)) (k mod 8) = null_after (zip (td_slot_all d) vals) k False)"
proof -
  let ?k = "length fs" and ?n = "td_nullable_count d" and ?fds = "td_slot_all d"
  let ?B = "replicate bm 0 :: byte list" and ?S = "replicate m (0, 0) :: (nat \<times> nat) list"
  let ?Z = "map (\<lambda>l. replicate l 0) fs :: byte list list"
  let ?vs = "map2 (sent fn_send) (drop ?k ?fds) (drop ?k vals)"
  have len: "length ?fds = ?k + m" by (rule desc_okD(2) [OF d])
  have ok: "value_ok fn_send ?n (?fds ! i) (vals ! i)" if "i < ?k + m" for i using assms(5) that len by (simp add: list_all2_nthD)
  have zsum: "length (concat ?Z) = sum_list fs" "map length ?Z = fs" by (simp_all add: length_concat comp_def)
  have z: "replicate (min_tuple_size d) 0 = tuple_bytes N ?B ?S ([] @ ?Z) []"
  proof -
    have "concat ?Z = replicate (sum_list fs) 0" by (induction fs) (simp_all add: replicate_add)
    then show ?thesis by (simp add: tuple_bytes_def zero_slots [OF assms(1)] desc_okD(5) [OF d] replicate_add)
  qed
  have "\<exists>b' Z'. fold_rs (builder_field N fn_send) (zip (take ?k ?fds) (take ?k vals)) (Bitmap_new ?n, tuple_bytes N ?B ?S ([] @ ?Z) [], min_tuple_size d) =
      Inr (b', tuple_bytes N ?B ?S ([] @ Z') [], min_tuple_size d) \<and> bitmap_ok b' \<and> bm_bits b' = bm_bits (Bitmap_new ?n) \<and>
    (\<forall>k < bm_bits (Bitmap_new ?n). bm_bit b' k = null_after (zip (take ?k ?fds) (take ?k vals)) k (bm_bit (Bitmap_new ?n) k)) \<and> map length Z' = map length ?Z \<and>
    (\<forall>i < length ?Z. \<forall>x. sent fn_send (take ?k ?fds ! i) (take ?k vals ! i) = Some x \<longrightarrow> Z' ! i = x)"
  proof (rule builder_fixed [OF assms(1) _ _ bitmap_ok_new])
    fix i assume i: "i < length ?Z"
    then have "i < ?k" by simp
    then show "value_ok fn_send (bm_bits (Bitmap_new ?n)) (take ?k ?fds ! i) (take ?k vals ! i) \<and> fd_is_fixed_len (take ?k ?fds ! i) \<and>
      Slot_offset (fd_slot (take ?k ?fds ! i)) = length ?B + 8 * length ?S + length (concat []) + sum_list (take i (map length ?Z)) \<and>
      Slot_length (fd_slot (take ?k ?fds ! i)) = length (?Z ! i)"
      using ok [of i] desc_okD(6,7,8) [OF d, of i] unfolding zsum(2) by (simp add: Bitmap_new_def)
  qed (use len assms(4) in simp_all)
  then obtain b1 F where f: "fold_rs (builder_field N fn_send) (zip (take ?k ?fds) (take ?k vals)) (Bitmap_new ?n, replicate (min_tuple_size d) 0, min_tuple_size d) =
      Inr (b1, tuple_bytes N ?B ?S F [], min_tuple_size d)" "bitmap_ok b1" "bm_bits b1 = ?n" "map length F = fs"
    "\<And>i x. i < ?k \<Longrightarrow> sent fn_send (?fds ! i) (vals ! i) = Some x \<Longrightarrow> F ! i = x"
    "\<And>k. k < ?n \<Longrightarrow> bm_bit b1 k = null_after (zip (take ?k ?fds) (take ?k vals)) k False"
    unfolding z zsum(2) using bitmap_new_bit by (auto simp: Bitmap_new_def)
  have Flen: "length (concat F) = sum_list fs" using f(4) by (simp add: length_concat)
  have "\<exists>b'. fold_rs (builder_field N fn_send) (zip (drop ?k ?fds) (drop ?k vals)) (b1, tuple_bytes N ?B ([] @ replicate (length (drop ?k vals)) (0, 0)) F [], min_tuple_size d) =
      Inr (b', tuple_bytes N ?B ([] @ value_slots (min_tuple_size d) ?vs) F ([] @ value_data ?vs), min_tuple_size d + length (value_data ?vs)) \<and>
    bitmap_ok b' \<and> bm_bits b' = bm_bits b1 \<and> (\<forall>k < bm_bits b1. bm_bit b' k = null_after (zip (drop ?k ?fds) (drop ?k vals)) k (bm_bit b1 k))"
  proof (rule builder_var [OF assms(1) _ f(2)])
    fix j assume "j < length (drop ?k vals)"
    then have "j < m" using assms(4) by simp
    then show "value_ok fn_send (bm_bits b1) (drop ?k ?fds ! j) (drop ?k vals ! j) \<and> \<not> fd_is_fixed_len (drop ?k ?fds ! j) \<and>
        Slot_offset (fd_slot (drop ?k ?fds ! j)) = length ?B + 8 * (length [] + j)"
      using ok [of "?k + j"] desc_okD(9,10) [OF d, of j] len assms(4) by (simp add: f(3))
  qed (use len assms(1,4) Flen desc_okD(5) [OF d] in simp_all)
  then obtain b2 where g: "fold_rs (builder_field N fn_send) (zip (drop ?k ?fds) (drop ?k vals)) (b1, tuple_bytes N ?B ?S F [], min_tuple_size d) =
      Inr (b2, tuple_bytes N ?B (value_slots (min_tuple_size d) ?vs) F (value_data ?vs), min_tuple_size d + length (value_data ?vs))"
    "bitmap_ok b2" "bm_bits b2 = ?n" "\<And>k. k < ?n \<Longrightarrow> bm_bit b2 k = null_after (zip (drop ?k ?fds) (drop ?k vals)) k (bm_bit b1 k)"
    using assms(4) f(3) by auto
  have zip: "zip ?fds vals = zip (take ?k ?fds) (take ?k vals) @ zip (drop ?k ?fds) (drop ?k vals)"
    by (metis append_take_drop_id take_zip drop_zip)
  have Blen: "length (bm_bytes b2) = bm" using g(2,3) assms(3) by (simp add: bitmap_ok_def)
  have "TupleBuilder_build N fn_send d vals = Inr (tuple_bytes N (bm_bytes b2) (value_slots (min_tuple_size d) ?vs) F (value_data ?vs))"
    using f(1) g(1) Blen assms(4) desc_okD(1,3) [OF d]
    by (simp add: TupleBuilder_build_def zip fold_rs_append copy_slice_def) (simp add: tuple_bytes_def patch_def)
  then have "TupleBuilder_build N fn_send d vals = Inr (row_bytes N (bm_bytes b2) F ?vs)"
    using Blen Flen len assms(4) desc_okD(5) [OF d] by (simp add: row_bytes_def)
  moreover have "bit (bm_bytes b2 ! (k div 8)) (k mod 8) = null_after (zip ?fds vals) k False" if "k < ?n" for k
    using g(4) [OF that] f(6) [OF that] unfolding zip by (simp add: bm_bit_def null_after_def)
  ultimately show ?thesis using Blen f(4,5) by blast
qed

section \<open>Reading it back\<close>

lemma null_bit_row:
  assumes "net_ok N" and "length B = null_bitmap_size d" and "null_bitmap_size d = aligned_byte_len (td_nullable_count d)"
    and "bit_of fd = Some k" and "k < td_nullable_count d"
  shows "null_bit (row_bytes N B F vs) d fd = Inr (bit (B ! (k div 8)) (k mod 8))"
proof -
  obtain idx where idx: "fd_null_bit_idx fd = Some idx" "unat idx = k" using assms(4) by (auto simp: bit_of_def)
  have B: "sub_slice 0 (null_bitmap_size d) (row_bytes N B F vs) = B"
    using assms(2) by (simp add: sub_slice_def row_bytes_def tuple_bytes_def)
  let ?b = "\<lparr>bm_bits = td_nullable_count d, bm_bytes = B\<rparr>"
  have "Bitmap_get k ?b = Inr (bm_bit ?b k)" using assms(2,3,5) by (intro bitmap_get) (simp_all add: bitmap_ok_def)
  then show ?thesis using idx B assms(1,2,3) by (simp add: null_bit_def index_range_def Bitmap_from_bytes_def bm_bit_def)
qed

lemma read_value_get:
  assumes "col < field_count d" and "col < length (td_slot_all d)" and "length t \<ge> min_tuple_size d"
    and "null_bit t d (td_slot_all d ! col) = Inr False" and "FieldDesc_get N (td_slot_all d ! col) t = Inr bytes"
    and "fn_recv bytes (fd_type_obj (td_slot_all d ! col)) = Inr x"
  shows "read_value N fn_recv t d col = Inr (Value x)"
proof -
  let ?fd = "td_slot_all d ! col"
  let ?read = "if fd_is_fixed_len ?fd then index_range (Slot_offset (fd_slot ?fd)) (Slot_offset (fd_slot ?fd) + Slot_length (fd_slot ?fd)) t
                 else bind_rs (index_range (Slot_offset (fd_slot ?fd)) (Slot_offset (fd_slot ?fd) + Slot_size_of) t) (\<lambda>buf.
                      bind_rs (Slot_from_binary N buf) (\<lambda>slot.
                      if Slot_offset slot + Slot_length slot > length t then Inl (EC IndexOutOfRange)
                      else index_range (Slot_offset slot) (Slot_offset slot + Slot_length slot) t))"
  have "?read = Inr bytes"
    using assms(5)
    by (auto simp: FieldDesc_get_def read_fixed_len_value_def read_var_len_value_def index_range_def rs_simps not_less split: if_splits)
  moreover have "get_field_desc col d = Inr ?fd" using assms(2) by (simp add: get_field_desc_def index_at_def)
  ultimately show ?thesis using assms(1,3,4,6) by (simp add: read_value_def)
qed

lemma read_value_null:
  assumes "col < field_count d" and "col < length (td_slot_all d)" and "length t \<ge> min_tuple_size d"
    and "null_bit t d (td_slot_all d ! col) = Inr True"
  shows "read_value N fn_recv t d col = Inr Null"
proof -
  have "get_field_desc col d = Inr (td_slot_all d ! col)" using assms(2) by (simp add: get_field_desc_def index_at_def)
  then show ?thesis using assms(1,3,4) by (simp add: read_value_def)
qed

text \<open>What a built row reads back as.\<close>

lemma builder_roundtrip:
  assumes "net_ok N" and d: "desc_ok d bm fs m" and "bm = aligned_byte_len (td_nullable_count d)" and "bits_distinct (td_slot_all d)"
    and vals: "length vals = length fs + m" "list_all2 (value_ok fn_send (td_nullable_count d)) (td_slot_all d) vals"
    and codec: "\<And>x ty b. fn_send x ty = Inr b \<Longrightarrow> fn_recv b ty = Inr x"
    and t: "TupleBuilder_build N fn_send d vals = Inr t" "length t < 2 ^ 32" and col: "col < length vals"
  shows "read_value N fn_recv t d col = Inr (vals ! col)"
proof -
  let ?fds = "td_slot_all d" and ?vs = "map2 (sent fn_send) (drop (length fs) (td_slot_all d)) (drop (length fs) vals)"
  obtain B F where r: "t = row_bytes N B F ?vs" "length B = bm" "map length F = fs"
    "\<And>i x. i < length fs \<Longrightarrow> sent fn_send (?fds ! i) (vals ! i) = Some x \<Longrightarrow> F ! i = x"
    "\<And>k. k < td_nullable_count d \<Longrightarrow> bit (B ! (k div 8)) (k mod 8) = null_after (zip ?fds vals) k False"
    using builder_bytes [OF assms(1) d assms(3) vals] t(1) by auto
  have len: "length ?fds = length fs + m" "length ?vs = m" "length F = length fs" using desc_okD(2) [OF d] vals(1) r(3) by auto
  have dd: "desc_ok d (length B) (map length F) (length ?vs)" using d r(2,3) len(2) by simp
  have ok: "value_ok fn_send (td_nullable_count d) (?fds ! col) (vals ! col)" using vals(2) col by (simp add: list_all2_nthD2)
  have min: "length t \<ge> min_tuple_size d" using desc_okD(5) [OF d] r(1,2,3) len(2) assms(1) by (simp add: length_concat)
  have fc: "col < field_count d" "col < length ?fds" using desc_okD(1) [OF d] vals(1) col len(1) by auto
  have bit: "null_bit t d (?fds ! col) = Inr (vals ! col = Null)" 
  proof (cases "bit_of (?fds ! col)")
    case None
    then have "vals ! col \<noteq> Null" using ok by (auto simp: value_ok_def bit_of_def)
    then show ?thesis using None by (simp add: null_bit_def bit_of_def)
  next
    case (Some k)
    then have k: "k < td_nullable_count d" using ok by (auto simp: value_ok_def bit_of_def split: option.splits)
    have nb: "null_bit t d (?fds ! col) = Inr (bit (B ! (k div 8)) (k mod 8))"
      unfolding r(1) by (rule null_bit_row [OF assms(1) _ _ Some k]) (use r(2) desc_okD(3) [OF d] assms(3) in simp_all)
    show ?thesis unfolding nb r(5) [OF k] using null_after_distinct [OF assms(4) _ fc(2) Some, of vals False] len(1) vals(1) by simp
  qed
  show ?thesis
  proof (cases "vals ! col")
    case Null
    then show ?thesis using read_value_null [OF fc min] bit by simp
  next
    case (Value x)
    then obtain y where y: "fn_send x (fd_type_obj (?fds ! col)) = Inr y" using ok by (auto simp: value_ok_def split: option.splits sum.splits)
    then have sent: "sent fn_send (?fds ! col) (vals ! col) = Some y" using Value by (simp add: sent_def)
    have "FieldDesc_get N (?fds ! col) t = Inr y"
    proof (cases "col < length fs")
      case True
      then show ?thesis using get_fixed [OF assms(1) dd, of col] r(1) r(4) [of col y] len(3) sent by simp
    next
      case False
      then have j: "col - length fs < length ?vs" "length F + (col - length fs) = col" using col vals(1) len(2,3) by auto
      have "?vs ! (col - length fs) = Some y" using False j(1) sent len(1) vals(1) by simp
      then show ?thesis using get_var [OF assms(1) dd j(1), of y] t(2) r(1) j(2) by simp
    qed
    then show ?thesis using read_value_get [OF fc min] bit Value codec [OF y] by simp
  qed
qed

end
