(* ===== verification/Tuple_Rewrite.thy ===== *)
theory Tuple_Rewrite
  imports Tuple_Nullable
begin

text \<open>What \<open>update_tuple\<close> does to the bytes of a row.\<close>

section \<open>Splicing\<close>

lemma apply_splice:
  assumes "a = length xs" and "n = length ys" and "a + n < 2 ^ 32"
  shows "\<exists>u. apply_to (UpdateDelta_new (of_nat a) (of_nat n) w) (xs @ ys @ zs) = Inr (u, xs @ w @ zs)"
proof -
  have "unat (of_nat a :: u32) = a" "unat (of_nat n :: u32) = n" using assms(3) by (intro unat_u32_small, linarith)+
  then show ?thesis using assms by (simp add: apply_to_unat UpdateDelta_new_def Let_def)
qed

lemma apply_splices:
  assumes "a = length xs" and "n = length ys" and "a + n < 2 ^ 32"
    and "xs @ w @ zs = xs' @ ys' @ zs'" and "a' = length xs'" and "n' = length ys'" and "a' + n' < 2 ^ 32"
  shows "apply_deltas [UpdateDelta_new (of_nat a) (of_nat n) w, UpdateDelta_new (of_nat a') (of_nat n') w'] (xs @ ys @ zs) = Inr (xs' @ w' @ zs')"
  using apply_splice [OF assms(1-3), of w zs] apply_splice [OF assms(5-7), of w' zs'] assms(4) by (auto simp: apply_deltas_def)

section \<open>Fixed fields\<close>

lemma update_fixed:
  assumes "net_ok N" and d: "desc_ok d (length B) (map length F) (length vs)" and i: "i < length F" and "length v = length (F ! i)"
    and "length (row_bytes N B F vs) < 2 ^ 32"
  shows "\<exists>ds. update_tuple N i v d t = Inr ds \<and> apply_deltas ds (row_bytes N B F vs) = Inr (row_bytes N B (F[i := v]) vs)"
proof -
  let ?a = "length B + 8 * length vs + sum_list (take i (map length F))"
  let ?S = "concat (map (slot_bytes N) (value_slots (length B + 8 * length vs + length (concat F)) vs))"
  have row: "row_bytes N B F vs = (B @ ?S @ concat (take i F)) @ F ! i @ (concat (drop (Suc i) F) @ value_data vs)"
    unfolding row_bytes_def tuple_bytes_def concat_split [OF i] by simp
  have clen: "length (concat (F[i := v])) = length (concat F)"
    using assms(4) i by (simp add: length_concat map_update) (metis list_update_id nth_map)
  have row': "row_bytes N B (F[i := v]) vs = (B @ ?S @ concat (take i F)) @ v @ (concat (drop (Suc i) F) @ value_data vs)"
    unfolding row_bytes_def tuple_bytes_def clen unfolding concat_update [OF i] by simp
  have len: "length (B @ ?S @ concat (take i F)) = ?a" using assms(1) by (simp add: length_concat_take)
  have bound: "?a + length (F ! i) < 2 ^ 32" using assms(5) arg_cong [OF row, of length] len by simp
  have "update_tuple N i v d t = Inr [UpdateDelta_new (of_nat ?a) (of_nat (length (F ! i))) v]"
    using desc_okD(1) [OF d] desc_okD(6,7,8,11) [OF d, of i] i by (simp add: update_tuple_def)
  then show ?thesis using apply_splice [of ?a "B @ ?S @ concat (take i F)" "length (F ! i)" "F ! i" v "concat (drop (Suc i) F) @ value_data vs"]
      len bound unfolding row row' by (auto simp: apply_deltas_def)
qed

section \<open>Variable fields\<close>

text \<open>The position of the data of variable field \<open>j\<close>.\<close>

definition data_at :: "byte list \<Rightarrow> byte list list \<Rightarrow> byte list list \<Rightarrow> nat \<Rightarrow> nat" where
  "data_at B F V j = length B + 8 * length V + length (concat F) + length (concat (take j V))"

lemma data_at_bound:
  assumes "net_ok N" and "j < length V"
  shows "data_at B F V j + length (V ! j) \<le> length (row_bytes N B F (map Some V))"
  using data_range(2) [OF assms(1), of j "map Some V" "V ! j" _ B F] assms(2) by (simp add: data_at_def take_map)

lemma row_read_slot:
  assumes "net_ok N" and d: "desc_ok d (length B) (map length F) (length V)" and j: "j < length V"
    and "length (row_bytes N B F (map Some V)) < 2 ^ 32"
  shows "\<exists>slot. read_slot N (td_slot_all d ! (length F + j)) (row_bytes N B F (map Some V)) = Inr slot \<and>
    Slot_offset slot = data_at B F V j \<and> Slot_length slot = length (V ! j)"
proof -
  let ?t = "row_bytes N B F (map Some V)" and ?slot = "Slot_new (of_nat (data_at B F V j)) (of_nat (length (V ! j)))"
  have b: "data_at B F V j + length (V ! j) \<le> length ?t" by (rule data_at_bound [OF assms(1) j])
  have u: "unat (of_nat (data_at B F V j) :: u32) = data_at B F V j" "unat (of_nat (length (V ! j)) :: u32) = length (V ! j)"
    using b assms(4) by (intro unat_u32_small, linarith)+
  have sl: "Slot_offset ?slot = data_at B F V j" "Slot_length ?slot = length (V ! j)"
    using u by (simp_all only: Slot_offset_def Slot_length_def Slot_new_def Slot.select_convs)
  have "Slot_from_binary N (sub_slice (length B + 8 * j) (length B + 8 * j + 8) ?t) = Inr ?slot"
    using slot_range [OF assms(1), of j "map Some V" B F] j by (simp add: data_at_def take_map del: of_nat_add of_nat_mult)
  moreover have "length B + 8 * j + 8 \<le> length ?t" using assms(1) j by simp
  moreover have "Slot_offset (fd_slot (td_slot_all d ! (length F + j))) = length B + 8 * j" using desc_okD(10) [OF d j] by simp
  ultimately show ?thesis using sl b by (simp add: read_slot_def Slot_size_of_def del: length_row_bytes)
qed

lemma row_capacity:
  assumes "net_ok N" and d: "desc_ok d (length B) (map length F) (length V)" and j: "j < length V"
    and small: "length (row_bytes N B F (map Some V)) < 2 ^ 32"
  shows "read_data_capacity N (length F + j) d (row_bytes N B F (map Some V)) =
    Inr (if Suc j = length V then length (row_bytes N B F (map Some V)) - (length B + 8 * j) else length (V ! j))"
proof -
  let ?t = "row_bytes N B F (map Some V)" and ?fd = "\<lambda>j. td_slot_all d ! (length F + j)"
  have f: "get_field_desc (length F + i) d = Inr (?fd i)" "\<not> fd_is_fixed_len (?fd i)" "Slot_offset (fd_slot (?fd i)) = length B + 8 * i"
    if "i < length V" for i
    using that desc_okD(9,10) [OF d that] desc_okD(11) [OF d, of "length F + i"] by simp_all
  have fc: "field_count d = length F + length V" using desc_okD(1) [OF d] by simp
  obtain slot where s: "read_slot N (?fd j) ?t = Inr slot" "Slot_offset slot = data_at B F V j" "Slot_length slot = length (V ! j)"
    using row_read_slot [OF assms(1) d j small] by blast
  show ?thesis
  proof (cases "Suc j = length V")
    case True
    have "length B + 8 * j \<le> length ?t" using assms(1) j by simp
    then show ?thesis using True j f [OF j] s fc by (simp add: read_data_capacity_def sub_usize_def del: length_row_bytes)
  next
    case False
    then have j': "Suc j < length V" using j by simp
    obtain slot' where s': "read_slot N (?fd (Suc j)) ?t = Inr slot'" "Slot_offset slot' = data_at B F V (Suc j)" "Slot_length slot' = length (V ! Suc j)"
      using row_read_slot [OF assms(1) d j' small] by blast
    have "data_at B F V (Suc j) = data_at B F V j + length (V ! j)" using j by (simp add: data_at_def take_Suc_conv_app_nth)
    moreover have "data_at B F V (Suc j) + length (V ! Suc j) \<le> length ?t" by (rule data_at_bound [OF assms(1) j'])
    ultimately show ?thesis using False j f [OF j] f [OF j'] s s' fc by (simp add: read_data_capacity_def del: length_row_bytes)
  qed
qed

text \<open>A row split at the slots from \<open>j\<close> on, and at the data of field \<open>j\<close>.\<close>

lemma row_split:
  assumes "net_ok N" and "j < length V"
  shows "row_bytes N B F (map Some V) =
    (B @ concat (map (slot_bytes N) (value_slots (data_at B F V 0) (map Some (take j V))))) @
    slot_bytes N (data_at B F V j, length (V ! j)) @
    concat (map (slot_bytes N) (value_slots (data_at B F V j + length (V ! j)) (map Some (drop (Suc j) V)))) @
    concat F @ concat (take j V) @ V ! j @ concat (drop (Suc j) V)"
proof -
  have V: "V = take j V @ V ! j # drop (Suc j) V" using assms(2) by (rule id_take_nth_drop)
  have "value_slots (data_at B F V 0) (map Some V) =
      value_slots (data_at B F V 0) (map Some (take j V)) @ (data_at B F V j, length (V ! j)) #
      value_slots (data_at B F V j + length (V ! j)) (map Some (drop (Suc j) V))"
    by (subst V) (simp add: value_slots_append data_at_def add.assoc)
  moreover have "data_at B F V 0 = length B + 8 * length (map Some V) + length (concat F)" by (simp add: data_at_def)
  ultimately show ?thesis unfolding row_bytes_def tuple_bytes_def using concat_split [OF assms(2)] by simp
qed

lemma slots_prefix_length: "net_ok N \<Longrightarrow> j \<le> length V \<Longrightarrow>
  length (B @ concat (map (slot_bytes N) (value_slots b (map Some (take j V))))) = length B + 8 * j"
  by simp

text \<open>Replacing the data in place: one slot and the data change.\<close>

lemma slots_split:
  assumes "j < length V"
  shows "value_slots (data_at B F V 0) (map Some V) =
    value_slots (data_at B F V 0) (map Some (take j V)) @ (data_at B F V j, length (V ! j)) #
    value_slots (data_at B F V j + length (V ! j)) (map Some (drop (Suc j) V))"
proof -
  have V: "V = take j V @ V ! j # drop (Suc j) V" using assms by (rule id_take_nth_drop)
  show ?thesis by (subst V) (simp add: value_slots_append data_at_def add.assoc)
qed

lemma update_small:
  assumes "net_ok N" and d: "desc_ok d (length B) (map length F) (length V)" and j: "j < length V"
    and small: "length (row_bytes N B F (map Some V)) < 2 ^ 32"
    and cap: "length v \<le> (if Suc j = length V then length (row_bytes N B F (map Some V)) - (length B + 8 * j) else length (V ! j))"
  shows "\<exists>ds. update_tuple N (length F + j) v d (row_bytes N B F (map Some V)) = Inr ds \<and>
    apply_deltas ds (row_bytes N B F (map Some V)) =
      Inr (tuple_bytes N B ((value_slots (data_at B F V 0) (map Some V))[j := (data_at B F V j, length v)]) F (concat (V[j := v])))"
proof -
  let ?t = "row_bytes N B F (map Some V)" and ?fd = "td_slot_all d ! (length F + j)" and ?a = "data_at B F V j"
  let ?pre = "B @ concat (map (slot_bytes N) (value_slots (data_at B F V 0) (map Some (take j V))))"
  let ?rest = "concat (map (slot_bytes N) (value_slots (?a + length (V ! j)) (map Some (drop (Suc j) V)))) @ concat F @ concat (take j V)"
  let ?post = "concat (drop (Suc j) V)"
  obtain slot where s: "read_slot N ?fd ?t = Inr slot" "Slot_offset slot = ?a" "Slot_length slot = length (V ! j)"
    using row_read_slot [OF assms(1) d j small] by blast
  have f: "get_field_desc (length F + j) d = Inr ?fd" "\<not> fd_is_fixed_len ?fd" "Slot_offset (fd_slot ?fd) = length B + 8 * j" "field_count d = length F + length V"
    using desc_okD(9,10) [OF d j] desc_okD(11) [OF d, of "length F + j"] desc_okD(1) [OF d] j by simp_all
  let ?ds = "[UpdateDelta_new (of_nat (length B + 8 * j)) (of_nat 8) (slot_bytes N (?a, length v)), UpdateDelta_new (of_nat ?a) (of_nat (length (V ! j))) v]"
  have u: "update_tuple N (length F + j) v d ?t = Inr ?ds"
    using f s j cap row_capacity [OF assms(1) d j small] slot_buf [OF assms(1), of ?a "length v"]
    by (simp add: update_tuple_def Slot_size_of_def Let_def del: length_row_bytes of_nat_add of_nat_mult of_nat_numeral)
  have row: "?t = ?pre @ slot_bytes N (?a, length (V ! j)) @ (?rest @ V ! j @ ?post)" using row_split [OF assms(1) j] by simp
  have pre: "length ?pre = length B + 8 * j" using assms(1) j by simp
  have a: "?a = length (?pre @ slot_bytes N (?a, length v) @ ?rest)"
    using assms(1) j by (simp add: data_at_def)
  have "apply_deltas ?ds ?t = Inr ((?pre @ slot_bytes N (?a, length v) @ ?rest) @ v @ ?post)"
    unfolding row
  proof (rule apply_splices)
    show "length B + 8 * j + 8 < 2 ^ 32" using small assms(1) j by simp
    show "?a + length (V ! j) < 2 ^ 32" using data_at_bound [OF assms(1) j, of B F] small by linarith
  qed (use pre a assms(1) in simp_all)
  moreover have "(?pre @ slot_bytes N (?a, length v) @ ?rest) @ v @ ?post =
      tuple_bytes N B ((value_slots (data_at B F V 0) (map Some V))[j := (?a, length v)]) F (concat (V[j := v]))"
    using j unfolding slots_split [OF j] tuple_bytes_def concat_update [OF j] by (simp add: list_update_append)
  ultimately show ?thesis using u by auto
qed

text \<open>This is right for the last field and for data of the same length.\<close>

lemma update_in_place:
  assumes "net_ok N" and d: "desc_ok d (length B) (map length F) (length V)" and j: "j < length V"
    and small: "length (row_bytes N B F (map Some V)) < 2 ^ 32"
    and cap: "length v \<le> (if Suc j = length V then length (row_bytes N B F (map Some V)) - (length B + 8 * j) else length (V ! j))"
    and fit: "Suc j = length V \<or> length v = length (V ! j)"
  shows "\<exists>ds. update_tuple N (length F + j) v d (row_bytes N B F (map Some V)) = Inr ds \<and>
    apply_deltas ds (row_bytes N B F (map Some V)) = Inr (row_bytes N B F (map Some (V[j := v])))"
proof -
  have k: "j < length (V[j := v])" using j by simp
  have "take j (V[j := v]) = take j V" "drop (Suc j) (V[j := v]) = drop (Suc j) V" "V[j := v] ! j = v"
    "data_at B F (V[j := v]) 0 = data_at B F V 0" "data_at B F (V[j := v]) j = data_at B F V j" using j by (simp_all add: data_at_def)
  moreover have "value_slots (data_at B F V j + length (V ! j)) (map Some (drop (Suc j) V)) =
      value_slots (data_at B F V j + length v) (map Some (drop (Suc j) V))" using fit j by auto
  ultimately have "(value_slots (data_at B F V 0) (map Some V))[j := (data_at B F V j, length v)] = value_slots (data_at B F V 0) (map Some (V[j := v]))"
    using j slots_split [OF k, of B F] unfolding slots_split [OF j] by (simp add: list_update_append)
  then show ?thesis using update_small [OF assms(1) d j small cap]
    by (simp add: row_bytes_def data_at_def del: map_update)
qed

text \<open>Shorter data before another variable field leaves the slots behind it as they were: the slot of the
  last field then ends behind the row.\<close>

lemma update_shrinking:
  assumes "net_ok N" and d: "desc_ok d (length B) (map length F) (length V)" and j: "Suc j < length V"
    and small: "length (row_bytes N B F (map Some V)) < 2 ^ 32" and shrink: "length v < length (V ! j)"
  shows "\<exists>ds t. update_tuple N (length F + j) v d (row_bytes N B F (map Some V)) = Inr ds \<and>
    apply_deltas ds (row_bytes N B F (map Some V)) = Inr t \<and>
    FieldDesc_get N (td_slot_all d ! (length F + length V - 1)) t = Inl (EC IndexOutOfRange)"
proof -
  let ?k = "length V - 1" and ?t = "row_bytes N B F (map Some V)"
  let ?S = "(value_slots (data_at B F V 0) (map Some V))[j := (data_at B F V j, length v)]"
  let ?u = "tuple_bytes N B ?S F (concat (V[j := v]))"
  have k: "?k < length V" "?k \<noteq> j" "Suc ?k = length V" "length F + length V - 1 = length F + ?k" using j by auto
  have "?S ! ?k = value_slots (data_at B F V 0) (map Some V) ! ?k" using k(2) by simp
  then have sk: "?S ! ?k = (data_at B F V ?k, length (V ! ?k))"
    using k(1) value_slots_nth [of ?k "map Some V" "data_at B F V 0"] by (simp add: take_map data_at_def add.assoc)
  have full: "data_at B F V ?k + length (V ! ?k) = length ?t"
    using assms(1) arg_cong [OF concat_split [OF k(1)], of length] k(3) by (simp add: data_at_def)
  have len: "length ?u < length ?t"
    using assms(1) j shrink arg_cong [OF concat_split [of j V], of length] concat_update [of j V v] by simp
  have u: "unat (of_nat (data_at B F V ?k) :: u32) = data_at B F V ?k" "unat (of_nat (length (V ! ?k)) :: u32) = length (V ! ?k)"
    using full small by (intro unat_u32_small, linarith)+
  have slot: "sub_slice (length B + 8 * ?k) (length B + 8 * ?k + 8) ?u = slot_bytes N (data_at B F V ?k, length (V ! ?k))"
    using tuple_slot_range [OF assms(1), of ?k ?S "length B + 8 * ?k" B F] k(1) sk by simp
  have fd: "\<not> fd_is_fixed_len (td_slot_all d ! (length F + ?k))" "Slot_offset (fd_slot (td_slot_all d ! (length F + ?k))) = length B + 8 * ?k"
    using desc_okD(9,10) [OF d k(1)] by simp_all
  have "length B + 8 * ?k + 8 \<le> length ?u" using assms(1) k(1) by simp
  then have "FieldDesc_get N (td_slot_all d ! (length F + ?k)) ?u = Inl (EC IndexOutOfRange)"
    using fd slot slot_of_bytes [OF assms(1)] u full len
    by (simp add: FieldDesc_get_def read_var_len_value_def read_slot_def Slot_size_of_def Slot_offset_def Slot_length_def Slot_new_def
        del: length_row_bytes length_tuple_bytes)
  then show ?thesis using update_small [OF assms(1) d _ small, of j v] j shrink k(4) by auto
qed

text \<open>Rewriting the slots and the data from the updated field on.\<close>

lemma rewrite_fold:
  assumes "net_ok N" and "index \<le> i" and "length P = (i - index) * 8"
    and "\<And>s. s < length W \<Longrightarrow> \<exists>fd. get_field_desc (i + s) d = Inr fd \<and> read_binary_data N fd t = Inr (W ! s)"
  shows "fold_rs (rewrite_field N d t index) [i..<i + length W] (off, P @ replicate (8 * length W) 0, D) =
    Inr (off + length (concat W), P @ concat (map (slot_bytes N) (value_slots off (map Some W))), D @ concat W)"
  using assms(2-)
proof (induction W arbitrary: i P off D)
  case (Cons w W)
  obtain fd where fd: "get_field_desc i d = Inr fd" "read_binary_data N fd t = Inr w" using Cons.prems(3) [of 0] by auto
  let ?Z = "replicate (8 * length W) 0 :: byte list"
  let ?buf = "P @ replicate 8 0 @ ?Z"
  have z: "P @ replicate (8 * length (w # W)) 0 = ?buf" by (simp add: replicate_add [symmetric])
  have "index_range (length P) (length ?buf) ?buf = Inr (replicate 8 0 @ ?Z)" by (simp add: index_range_def sub_slice_def)
  moreover have "Slot_to_binary N (Slot_new (of_nat off) (of_nat (length w))) (replicate 8 0 @ ?Z) = Inr (slot_bytes N (off, length w) @ ?Z)"
    using slot_to_bytes [OF assms(1), of "replicate 8 0 @ ?Z" off "length w"] by simp
  moreover have "patch (length P) (slot_bytes N (off, length w) @ ?Z) ?buf = (P @ slot_bytes N (off, length w)) @ ?Z"
    using assms(1) by (simp add: patch_def)
  ultimately have step: "rewrite_field N d t index i (off, ?buf, D) = Inr (off + length w, (P @ slot_bytes N (off, length w)) @ ?Z, D @ w)"
    using fd Cons.prems(2) by (simp add: rewrite_field_def Slot_size_of_def Let_def)
  have "fold_rs (rewrite_field N d t index) [Suc i..<Suc i + length W] (off + length w, (P @ slot_bytes N (off, length w)) @ ?Z, D @ w) =
    Inr (off + length w + length (concat W), (P @ slot_bytes N (off, length w)) @ concat (map (slot_bytes N) (value_slots (off + length w) (map Some W))), (D @ w) @ concat W)"
  proof (rule Cons.IH)
    show "length (P @ slot_bytes N (off, length w)) = (Suc i - index) * 8" using assms(1) Cons.prems(1,2) by (simp add: Suc_diff_le)
    show "\<exists>fd. get_field_desc (Suc i + s) d = Inr fd \<and> read_binary_data N fd t = Inr (W ! s)" if "s < length W" for s
      using Cons.prems(3) [of "Suc s"] that by simp
  qed (use Cons.prems(1) in simp)
  moreover have "[i..<i + length (w # W)] = i # [Suc i..<Suc i + length W]"
    using upt_conv_Cons [of i "i + length (w # W)"] by (simp del: upt_Suc)
  ultimately show ?case unfolding z using step by (simp add: add.assoc)
qed simp

lemma update_growing:
  assumes "net_ok N" and d: "desc_ok d (length B) (map length F) (length V)" and j: "j < length V"
    and small: "length (row_bytes N B F (map Some V)) < 2 ^ 32"
    and cap: "length v > (if Suc j = length V then length (row_bytes N B F (map Some V)) - (length B + 8 * j) else length (V ! j))"
  shows "\<exists>ds. update_tuple N (length F + j) v d (row_bytes N B F (map Some V)) = Inr ds \<and>
    apply_deltas ds (row_bytes N B F (map Some V)) = Inr (row_bytes N B F (map Some (V[j := v])))"
proof -
  let ?t = "row_bytes N B F (map Some V)" and ?a = "data_at B F V j" and ?W = "drop (Suc j) V" and ?fd = "\<lambda>j. td_slot_all d ! (length F + j)"
  let ?pre = "B @ concat (map (slot_bytes N) (value_slots (data_at B F V 0) (map Some (take j V))))"
  let ?mid = "concat F @ concat (take j V)" and ?n = "8 * (length V - j)"
  let ?old = "slot_bytes N (?a, length (V ! j)) @ concat (map (slot_bytes N) (value_slots (?a + length (V ! j)) (map Some ?W)))"
  let ?new = "slot_bytes N (?a, length v) @ concat (map (slot_bytes N) (value_slots (?a + length v) (map Some ?W)))"
  obtain slot where s: "read_slot N (?fd j) ?t = Inr slot" "Slot_offset slot = ?a" "Slot_length slot = length (V ! j)"
    using row_read_slot [OF assms(1) d j small] by blast
  have f: "get_field_desc (length F + i) d = Inr (?fd i)" "\<not> fd_is_fixed_len (?fd i)" "Slot_offset (fd_slot (?fd i)) = length B + 8 * i"
    if "i < length V" for i
    using that desc_okD(9,10) [OF d that] desc_okD(11) [OF d, of "length F + i"] by simp_all
  have fc: "field_count d = length F + length V" using desc_okD(1) [OF d] by simp
  have first: "Slot_to_binary N (Slot_new (of_nat ?a) (of_nat (length v))) (replicate ?n 0) = Inr (slot_bytes N (?a, length v) @ replicate (8 * length ?W) 0)"
    using slot_to_bytes [OF assms(1), of "replicate ?n 0" ?a "length v"] j by (simp add: diff_mult_distrib2)
  have loop: "fold_rs (rewrite_field N d ?t (length F + j)) [Suc (length F + j)..<Suc (length F + j) + length ?W]
      (?a + length v, slot_bytes N (?a, length v) @ replicate (8 * length ?W) 0, v) = Inr (?a + length v + length (concat ?W), ?new, v @ concat ?W)"
  proof (rule rewrite_fold [OF assms(1)])
    fix i assume i: "i < length ?W"
    then have "FieldDesc_get N (?fd (Suc j + i)) ?t = Inr (V ! (Suc j + i))"
      using get_var [OF assms(1), of d B F "map Some V" "Suc j + i" "V ! (Suc j + i)"] d small by simp
    then show "\<exists>fd. get_field_desc (Suc (length F + j) + i) d = Inr fd \<and> read_binary_data N fd ?t = Inr (?W ! i)"
      using i f(1) [of "Suc j + i"] by (auto simp: read_binary_data_def FieldDesc_get_def add.commute add.left_commute)
  qed (use assms(1) in simp_all)
  let ?ds = "[UpdateDelta_new (of_nat (length B + 8 * j)) (of_nat ?n) ?new, UpdateDelta_new (of_nat ?a) (of_nat (length ?t - ?a)) (v @ concat ?W)]"
  have ab: "?a + length (V ! j) \<le> length ?t" by (rule data_at_bound [OF assms(1) j])
  have upt: "Suc (length F + j) + length ?W = length F + length V" "length F + length V - (length F + j) = length V - j" using j by simp_all
  have u: "update_tuple N (length F + j) v d ?t = Inr ?ds"
  proof -
    define capacity where "capacity = (if Suc j = length V then length ?t - (length B + 8 * j) else length (V ! j))"
    have "read_data_capacity N (length F + j) d ?t = Inr capacity" "\<not> length v \<le> capacity"
      using row_capacity [OF assms(1) d j small] cap unfolding capacity_def by (simp_all only: not_le)
    moreover have "sub_usize (length ?t) ?a = Inr (length ?t - ?a)" "\<not> length F + j \<ge> field_count d" using ab j fc by (simp_all add: sub_usize_def)
    moreover have "length F + j + 1 = Suc (length F + j)" by simp
    ultimately show ?thesis
      by (simp only: update_tuple_def fc upt(2) Slot_size_of_def Let_def f [OF j] s first loop [unfolded upt(1)] if_False bind_rs.simps prod.case)
  qed
  have row: "?t = ?pre @ ?old @ (?mid @ V ! j @ concat ?W)" using row_split [OF assms(1) j] by simp
  have lens: "length ?pre = length B + 8 * j" "length ?old = ?n" "length ?new = ?n" using assms(1) j by simp_all
  have a: "?a = length (?pre @ ?new @ ?mid)" using assms(1) j lens by (simp add: data_at_def)
  have "length ?t = length (?pre @ ?new @ ?mid) + length (V ! j @ concat ?W)" using arg_cong [OF row, of length] lens by simp
  then have tail: "length ?t - ?a = length (V ! j @ concat ?W)" using a by linarith
  have "apply_deltas ?ds ?t = Inr ((?pre @ ?new @ ?mid) @ (v @ concat ?W) @ [])"
    unfolding tail unfolding row
  proof (rule apply_splices [where ys' = "V ! j @ concat ?W"])
    show "length B + 8 * j + ?n < 2 ^ 32" using small arg_cong [OF row, of length] lens by simp
    show "?a + length (V ! j @ concat ?W) < 2 ^ 32" using small ab tail by simp
  qed (simp only: lens, simp only: lens, simp only: append_assoc append_Nil2, rule a, rule refl)
  moreover have "(?pre @ ?new @ ?mid) @ (v @ concat ?W) @ [] = row_bytes N B F (map Some (V[j := v]))"
  proof -
    have "take j (V[j := v]) = take j V" "drop (Suc j) (V[j := v]) = ?W" "V[j := v] ! j = v" using j by simp_all
    moreover have "data_at B F (V[j := v]) 0 = data_at B F V 0" "data_at B F (V[j := v]) j = ?a" by (simp_all add: data_at_def)
    ultimately show ?thesis using row_split [OF assms(1), of j "V[j := v]" B F] j by simp
  qed
  ultimately show ?thesis using u by auto
qed

end
