(* ===== verification/Delta_Assign.thy ===== *)
theory Delta_Assign
  imports Tuple_Update
begin

text \<open>
  Expression assignments: the operators of \<open>x_engine/api.rs\<close>, their evaluation on a row in
  \<open>server/x_contract/utils.rs\<close>, and the values of \<open>mudu_type/src/data_value.rs\<close>.
\<close>

section \<open>Values\<close>

text \<open>Integers and floating-point numbers are their bits, strings their UTF-8 bytes, dates and times the
  number they wrap.  Arbitrary-precision numbers come from the \<open>bigdecimal\<close> crate.\<close>

datatype 'n DataValue =
    DV_Null | DV_F32 u32 | DV_F64 u64 | DV_I32 u32 | DV_I64 u64 | DV_I128 u128 | DV_U128 u128 | DV_Numeric 'n
  | DV_Date u32 | DV_Time u64 | DV_Timestamp u64 | DV_TimestampTz u64 | DV_String "byte list"
  | DV_Record "'n DataValue list" | DV_Array "'n DataValue list" | DV_Binary "byte list"

text \<open>The binary conversions that the type table dispatches to, with errors as \<open>to_m_err\<close> reports them, and
  the decimal arithmetic.\<close>

record ('n, 'p) value_ops =
  vo_send :: "'n DataValue \<Rightarrow> 'p DataType \<Rightarrow> byte list rs"
  vo_recv :: "byte list \<Rightarrow> 'p DataType \<Rightarrow> 'n DataValue rs"
  bd_add :: "'n \<Rightarrow> 'n \<Rightarrow> 'n"
  bd_sub :: "'n \<Rightarrow> 'n \<Rightarrow> 'n"

section \<open>Operators\<close>

datatype DeltaOp = Add | Sub | AddDeferred | SubDeferred | SubWrapDeferred

definition is_deferred :: "DeltaOp \<Rightarrow> bool" where
  "is_deferred op \<longleftrightarrow> op \<in> {AddDeferred, SubDeferred, SubWrapDeferred}"

fun op_code :: "DeltaOp \<Rightarrow> byte" where
  "op_code Add = 0"
| "op_code Sub = 1"
| "op_code AddDeferred = 2"
| "op_code SubDeferred = 3"
| "op_code SubWrapDeferred = 4"

definition from_op_code :: "byte \<Rightarrow> DeltaOp rs" where
  "from_op_code op =
     (if op = 0 then Inr Add
      else if op = 1 then Inr Sub
      else if op = 2 then Inr AddDeferred
      else if op = 3 then Inr SubDeferred
      else if op = 4 then Inr SubWrapDeferred
      else Inl (EC Decode))"

record DeltaAssign =
  da_attr :: nat
  da_op :: DeltaOp
  da_literal :: "byte list"

section \<open>Wire format\<close>

text \<open>The list of assignments as \<open>XLUpdate::delta\<close> stores it; the messages are written by the \<open>rmp_serde\<close>
  crate.\<close>

type_synonym delta_wire = "(u64 \<times> byte \<times> byte list) list"

record delta_codec =
  dc_to_vec :: "delta_wire \<Rightarrow> byte list option"
  dc_from_slice :: "byte list \<Rightarrow> delta_wire option"

definition encode_delta_assigns :: "delta_codec \<Rightarrow> DeltaAssign list \<Rightarrow> byte list rs" where
  "encode_delta_assigns C deltas =
     ok_or (dc_to_vec C (map (\<lambda>a. (of_nat (da_attr a), op_code (da_op a), da_literal a)) deltas)) (EC Encode)"

definition decode_delta_assigns :: "delta_codec \<Rightarrow> byte list \<Rightarrow> DeltaAssign list rs" where
  "decode_delta_assigns C delta =
     bind_rs (ok_or (dc_from_slice C delta) (EC Decode)) (\<lambda>wire.
     map_rs (\<lambda>(attr, op, literal).
       bind_rs (from_op_code op) (\<lambda>op'. Inr \<lparr>da_attr = unat attr, da_op = op', da_literal = literal\<rparr>)) wire)"

section \<open>Evaluation\<close>

definition fits_signed :: "nat \<Rightarrow> int \<Rightarrow> bool" where
  "fits_signed w i \<longleftrightarrow> - (2 ^ (w - 1)) \<le> i \<and> i < 2 ^ (w - 1)"

definition checked_signed :: "int \<Rightarrow> 'w :: len word rs" where
  "checked_signed i = (if fits_signed LENGTH('w) i then Inr (word_of_int i) else Inl (EC InvalidTuple))"

definition checked_unsigned :: "int \<Rightarrow> 'w :: len word rs" where
  "checked_unsigned i = (if 0 \<le> i \<and> i < 2 ^ LENGTH('w) then Inr (word_of_int i) else Inl (EC InvalidTuple))"

text \<open>The branches of the match on the operator; the conditional restock is handled before.\<close>

definition delta_op :: "DeltaOp \<Rightarrow> ('a \<Rightarrow> 'a \<Rightarrow> 'a) \<Rightarrow> ('a \<Rightarrow> 'a \<Rightarrow> 'a) \<Rightarrow> 'a \<Rightarrow> 'a \<Rightarrow> 'a rs" where
  "delta_op op add sub current literal =
     (case op of
        Add \<Rightarrow> Inr (add current literal)
      | AddDeferred \<Rightarrow> Inr (add current literal)
      | Sub \<Rightarrow> Inr (sub current literal)
      | SubDeferred \<Rightarrow> Inr (sub current literal)
      | SubWrapDeferred \<Rightarrow> Inl Panic)"

definition eval_delta_value ::
    "('n, 'p) value_ops \<Rightarrow> TypeFamily \<Rightarrow> DeltaOp \<Rightarrow> 'n DataValue \<Rightarrow> 'n DataValue \<Rightarrow> 'n DataValue rs" where
  "eval_delta_value T family op current literal =
     (case family of
        TF_I32 \<Rightarrow> (case (current, literal) of
            (DV_I32 c, DV_I32 l) \<Rightarrow> bind_rs (delta_op op (+) (-) (sint c) (sint l)) (\<lambda>r. bind_rs (checked_signed r) (\<lambda>w. Inr (DV_I32 w)))
          | _ \<Rightarrow> Inl Panic)
      | TF_I64 \<Rightarrow> (case (current, literal) of
            (DV_I64 c, DV_I64 l) \<Rightarrow> bind_rs (delta_op op (+) (-) (sint c) (sint l)) (\<lambda>r. bind_rs (checked_signed r) (\<lambda>w. Inr (DV_I64 w)))
          | _ \<Rightarrow> Inl Panic)
      | TF_I128 \<Rightarrow> (case (current, literal) of
            (DV_I128 c, DV_I128 l) \<Rightarrow> bind_rs (delta_op op (+) (-) (sint c) (sint l)) (\<lambda>r. bind_rs (checked_signed r) (\<lambda>w. Inr (DV_I128 w)))
          | _ \<Rightarrow> Inl Panic)
      | TF_U128 \<Rightarrow> (case (current, literal) of
            (DV_U128 c, DV_U128 l) \<Rightarrow> bind_rs (delta_op op (+) (-) (uint c) (uint l)) (\<lambda>r. bind_rs (checked_unsigned r) (\<lambda>w. Inr (DV_U128 w)))
          | _ \<Rightarrow> Inl Panic)
      | TF_Numeric \<Rightarrow> (case (current, literal) of
            (DV_Numeric c, DV_Numeric l) \<Rightarrow> bind_rs (delta_op op (bd_add T) (bd_sub T) c l) (\<lambda>r. Inr (DV_Numeric r))
          | _ \<Rightarrow> Inl Panic)
      | _ \<Rightarrow> Inl (EC InvalidType))"

definition decode_sub_wrap_literal :: "byte list \<Rightarrow> (int \<times> int \<times> int) rs" where
  "decode_sub_wrap_literal literal =
     (if length literal \<noteq> 24 then Inl (EC Decode)
      else let rd = (\<lambda>off. sint (from_be_bytes (sub_slice off (off + 8) literal) :: u64)) in
        Inr (rd 0, rd 8, rd 16))"

text \<open>The arithmetic of the conditional restock on 64-bit signed integers.\<close>

definition sub_wrap_i64 :: "int \<Rightarrow> int \<Rightarrow> int \<Rightarrow> int \<Rightarrow> int rs" where
  "sub_wrap_i64 current q floor wrap =
     (let y = current - q in
      if \<not> fits_signed 64 y then Inl (EC InvalidTuple)
      else if y < floor then
        (if \<not> fits_signed 64 (y + wrap) then Inl (EC InvalidTuple) else Inr (y + wrap))
      else Inr y)"

definition eval_sub_wrap :: "('n, 'p) value_ops \<Rightarrow> 'n DataValue \<Rightarrow> 'p DataType \<Rightarrow> byte list \<Rightarrow> byte list rs" where
  "eval_sub_wrap T current_value data_type literal =
     bind_rs (decode_sub_wrap_literal literal) (\<lambda>(q, floor, wrap).
     if wrap \<le> floor then Inl (EC InvalidArgument)
     else case dt_id data_type of
       TF_I32 \<Rightarrow> (case current_value of
           DV_I32 c \<Rightarrow>
             bind_rs (sub_wrap_i64 (sint c) q floor wrap) (\<lambda>r.
             bind_rs (checked_signed r) (\<lambda>w. vo_send T (DV_I32 w) data_type))
         | _ \<Rightarrow> Inl Panic)
     | TF_I64 \<Rightarrow> (case current_value of
           DV_I64 c \<Rightarrow>
             bind_rs (sub_wrap_i64 (sint c) q floor wrap) (\<lambda>r. vo_send T (DV_I64 (word_of_int r)) data_type)
         | _ \<Rightarrow> Inl Panic)
     | _ \<Rightarrow> Inl (EC InvalidType))"

definition eval_delta_assignment ::
    "net \<Rightarrow> ('n, 'p) value_ops \<Rightarrow> byte list \<Rightarrow> DeltaAssign \<Rightarrow> 'p TableDesc \<Rightarrow> byte list rs" where
  "eval_delta_assignment N T current assign desc =
     bind_rs (get_attr desc (da_attr assign)) (\<lambda>field.
     let index = fi_datum_index field; data_type = fi_type_desc field in
     bind_rs (read_value N (vo_recv T) current (tb_value_desc desc) index) (\<lambda>v.
     case v of
       Null \<Rightarrow> Inl (EC InvalidTuple)
     | Value _ \<Rightarrow>
         bind_rs (get_field_desc index (tb_value_desc desc)) (\<lambda>fd.
         bind_rs (FieldDesc_get N fd current) (\<lambda>current_binary.
         bind_rs (vo_recv T current_binary data_type) (\<lambda>current_value.
         bind_rs (vo_recv T (da_literal assign) data_type) (\<lambda>literal_value.
         if da_op assign = SubWrapDeferred then eval_sub_wrap T current_value data_type (da_literal assign)
         else bind_rs (eval_delta_value T (dt_id data_type) (da_op assign) current_value literal_value) (\<lambda>result.
              vo_send T result data_type)))))))"

definition apply_value_update_with_deltas ::
    "net \<Rightarrow> ('n, 'p) value_ops \<Rightarrow> byte list \<Rightarrow> (nat \<times> byte list) list \<Rightarrow> DeltaAssign list \<Rightarrow> 'p TableDesc \<Rightarrow> byte list rs" where
  "apply_value_update_with_deltas N T current values deltas desc =
     (if deltas = [] then apply_value_update N current values desc
      else bind_rs (map_rs (\<lambda>assign. bind_rs (eval_delta_assignment N T current assign desc) (\<lambda>v. Inr (da_attr assign, v))) deltas) (\<lambda>resolved.
           apply_value_update N current (values @ resolved) desc))"

section \<open>Wire round trip\<close>

lemma from_op_code_op_code: "from_op_code (op_code op) = Inr op"
  by (cases op) (simp_all add: from_op_code_def)

lemma delta_assigns_roundtrip:
  assumes "\<And>w b. dc_to_vec C w = Some b \<Longrightarrow> dc_from_slice C b = Some w"
    and "encode_delta_assigns C deltas = Inr b" and "\<forall>a \<in> set deltas. da_attr a < 2 ^ 64"
  shows "decode_delta_assigns C b = Inr deltas"
proof -
  have w: "dc_from_slice C b = Some (map (\<lambda>a. (of_nat (da_attr a), op_code (da_op a), da_literal a)) deltas)"
    using assms(1,2) by (simp add: encode_delta_assigns_def ok_or_Inr_iff)
  have "map_rs (\<lambda>(attr, op, literal). bind_rs (from_op_code op) (\<lambda>op'. Inr \<lparr>da_attr = unat attr, da_op = op', da_literal = literal\<rparr>))
      (map (\<lambda>a. (of_nat (da_attr a) :: u64, op_code (da_op a), da_literal a)) deltas) = Inr deltas"
    using assms(3)
  proof (induction deltas)
    case (Cons a deltas)
    have "unat (of_nat (da_attr a) :: u64) = da_attr a" using Cons.prems by (simp add: unat_of_nat)
    then show ?case using Cons by (simp add: from_op_code_op_code)
  qed simp
  then show ?thesis by (simp add: decode_delta_assigns_def w)
qed

end
