(* ===== verification/Tuple_Properties.thy ===== *)
theory Tuple_Properties
  imports Tuple_Nullable Tuple_Rewrite Delta_Assign
begin

text \<open>Building, reading and updating tuples, stated on the operations of the code.\<close>

section \<open>Built rows\<close>

text \<open>Values of the right lengths: the fixed fields have the length of their slots.\<close>

definition values_fit :: "'p TupleBinaryDesc \<Rightarrow> byte list list \<Rightarrow> bool" where
  "values_fit d vals \<longleftrightarrow> length vals = length (td_slot_all d) \<and>
     (\<forall>i < length vals. fd_is_fixed_len (td_slot_all d ! i) \<longrightarrow> length (vals ! i) = Slot_length (fd_slot (td_slot_all d ! i)))"

lemma built_row:
  assumes "net_ok N" and "from_typed_fields cmp_param tfs ver = Inr d" and "length tfs < 2 ^ 24" and fit: "values_fit d vals"
  shows "\<exists>bm F V. vals = F @ V \<and> desc_ok d (length (replicate bm 0 :: byte list)) (map length F) (length V) \<and>
    build_tuple N vals d = Inr (row_bytes N (replicate bm 0) F (map Some V))"
proof -
  let ?bm = "aligned_byte_len (count_nullable tfs)"
  obtain F V where d: "tfs = F @ V" "desc_ok d ?bm (map fixed_len F) (length V)"
    using from_typed_fields_ok [OF assms(2,3)] by blast
  let ?F = "take (length F) vals" and ?V = "drop (length F) vals"
  have len: "length vals = length F + length V" using fit desc_okD(2) [OF d(2)] by (simp add: values_fit_def)
  have "map length ?F = map fixed_len F"
  proof (rule nth_equalityI)
    fix i assume "i < length (map length ?F)"
    then have i: "i < length F" "i < length vals" using len by simp_all
    then have "length (vals ! i) = fixed_len (F ! i)"
      using fit desc_okD(6,8) [OF d(2), of i] by (simp add: values_fit_def)
    then show "map length ?F ! i = map fixed_len F ! i" using i by simp
  qed (use len in simp)
  then have ok: "desc_ok d ?bm (map length ?F) (length ?V)" using d(2) len by simp
  have "build_tuple N (?F @ ?V) d = Inr (row_bytes N (replicate ?bm 0) ?F (map Some ?V))"
    by (rule build_tuple_bytes [OF assms(1) ok])
  then show ?thesis using ok by (intro exI [of _ ?bm] exI [of _ ?F] exI [of _ ?V]) simp
qed

lemma values_fit_update:
  assumes "values_fit d vals" and "fd_is_fixed_len (td_slot_all d ! i) \<longrightarrow> length v = length (vals ! i)" and "i < length vals"
  shows "values_fit d (vals[i := v])"
  using assms by (auto simp: values_fit_def nth_list_update)

text \<open>Reading the fields of a built row.\<close>

lemma built_row_get:
  assumes "net_ok N" and "desc_ok d (length B) (map length F) (length V)" and "length (row_bytes N B F (map Some V)) < 2 ^ 32"
    and "i < length (F @ V)"
  shows "FieldDesc_get N (td_slot_all d ! i) (row_bytes N B F (map Some V)) = Inr ((F @ V) ! i)"
proof (cases "i < length F")
  case True
  then show ?thesis using get_fixed [OF assms(1), of d B F "map Some V" i] assms(2) by (simp add: nth_append)
next
  case False
  then have "i - length F < length V" "length F + (i - length F) = i" using assms(4) by auto
  then show ?thesis using False get_var [OF assms(1), of d B F "map Some V" "i - length F" "V ! (i - length F)"] assms(2,3)
    by (simp add: nth_append)
qed




section \<open>Properties\<close>

text \<open>The network byte order of the \<open>byteorder\<close> crate is big endian; the witnesses use it.\<close>

definition be_net :: net where
  "be_net = \<lparr>ne_read_u32 = from_be_bytes, ne_write_u32 = to_be_bytes 4, ne_read_u64 = from_be_bytes,
     ne_write_u64 = to_be_bytes 8, ne_read_u128 = from_be_bytes, ne_write_u128 = to_be_bytes 16\<rparr>"

lemma be_net_ok: "net_ok be_net"
proof -
  have "word_codec (from_be_bytes :: byte list \<Rightarrow> u128) (to_be_bytes 16) 16"
    by unfold_locales (simp_all add: from_be_bytes_def to_be_bytes_def le_to_word_to_le)
  moreover have "to_be_bytes 4 (0 :: u32) = replicate 4 0" by code_simp
  ultimately show ?thesis
    using be32.word_codec_axioms be64.word_codec_axioms by (simp add: net_ok_def be_net_def)
qed

definition str_ty :: "unit DataType" where "str_ty = DataType TF_String None"

definition i32_ty :: "unit DataType" where "i32_ty = DataType TF_I32 None"

definition ex_fields :: "unit typed_field list" where
  "ex_fields = [(i32_ty, False, None), (str_ty, True, Some 0), (str_ty, True, Some 1)]"

definition ex_desc :: "unit TupleBinaryDesc" where
  "ex_desc = (case from_typed_fields (\<lambda>_ _. Inr Equal) ex_fields 1 of Inr d \<Rightarrow> d | Inl _ \<Rightarrow> undefined)"

lemma ex_desc_from: "from_typed_fields (\<lambda>_ _. Inr Equal) ex_fields 1 = Inr ex_desc"
proof -
  have "case from_typed_fields (\<lambda>_ _. Inr Equal) ex_fields 1 of Inr _ \<Rightarrow> True | Inl _ \<Rightarrow> False" by code_simp
  then show ?thesis by (auto simp: ex_desc_def split: sum.splits)
qed



text \<open>C36: Applying the deltas of \<open>update_tuple\<close> to a row gives the row built from the new values, for a fixed
  field, and for a variable field whose data keeps its length, grows, or is the last of the row.\<close>

theorem update_tuple_correct:
  assumes "net_ok N" and "from_typed_fields cmp_param tfs ver = Inr d" and "length tfs < 2 ^ 24" and fit: "values_fit d vals"
    and t: "build_tuple N vals d = Inr t" and small: "length t < 2 ^ 32" and i: "i < length vals"
    and fixed: "fd_is_fixed_len (td_slot_all d ! i) \<longrightarrow> length v = length (vals ! i)"
    and var: "\<not> fd_is_fixed_len (td_slot_all d ! i) \<longrightarrow> length v \<ge> length (vals ! i) \<or> Suc i = length vals"
  shows "\<exists>ds. update_tuple N i v d t = Inr ds \<and> apply_deltas ds t = build_tuple N (vals[i := v]) d"
proof -
  obtain bm F V where r: "vals = F @ V" "desc_ok d (length (replicate bm 0 :: byte list)) (map length F) (length V)"
    "t = row_bytes N (replicate bm 0) F (map Some V)" using built_row [OF assms(1-3) fit] t by auto
  show ?thesis
  proof (cases "i < length F")
    case True
    then have l: "length v = length (F ! i)" using fixed r(1) desc_okD(6) [OF r(2), of i] by (simp add: nth_append)
    then have "map length (F[i := v]) = map length F" using True by (simp add: map_update) (metis list_update_id nth_map)
    then have "build_tuple N (F[i := v] @ V) d = Inr (row_bytes N (replicate bm 0) (F[i := v]) (map Some V))"
      using build_tuple_bytes [OF assms(1), of d bm "F[i := v]" V] r(2) by simp
    then show ?thesis using update_fixed [OF assms(1), of d _ F "map Some V" i v t] True l r small by (simp add: list_update_append)
  next
    case False
    then obtain j where j: "i = length F + j" "j < length V" using i r(1) by (metis length_append le_add_diff_inverse nat_add_left_cancel_less not_less)
    have g: "length v \<ge> length (V ! j) \<or> Suc j = length V" using var j desc_okD(9) [OF r(2) j(2)] r(1) by auto
    have b: "build_tuple N (vals[i := v]) d = Inr (row_bytes N (replicate bm 0) F (map Some (V[j := v])))"
      using build_tuple_bytes [OF assms(1), of d bm F "V[j := v]"] r(1,2) j by (simp add: list_update_append)
    note small' = small [unfolded r(3)]
    let ?cap = "if Suc j = length V then length (row_bytes N (replicate bm 0) F (map Some V)) - (length (replicate bm 0 :: byte list) + 8 * j) else length (V ! j)"
    show ?thesis
    proof (cases "length v \<le> ?cap")
      case True
      then have "Suc j = length V \<or> length v = length (V ! j)" using g by (auto split: if_splits)
      then show ?thesis using update_in_place [OF assms(1) r(2) j(2) small' True] b j(1) r(3) by simp
    next
      case False
      then show ?thesis using update_growing [OF assms(1) r(2) j(2) small', of v] b j(1) r(3) by (simp only: not_le)
    qed
  qed
qed

definition ex_row :: "byte list list" where "ex_row = [[0, 0, 0, 7], [97, 98], [99]]"

lemma ex_row_built: "\<exists>t. build_tuple be_net ex_row ex_desc = Inr t \<and> length t < 2 ^ 32"
proof -
  have "case build_tuple be_net ex_row ex_desc of Inr t \<Rightarrow> length t = 31 | Inl _ \<Rightarrow> False" by code_simp
  then show ?thesis by (auto split: sum.splits)
qed

theorem update_tuple_correct_witness:
  "\<exists>t ds. build_tuple be_net ex_row ex_desc = Inr t \<and> update_tuple be_net 1 [120, 121, 122] ex_desc t = Inr ds \<and>
    apply_deltas ds t = build_tuple be_net (ex_row[1 := [120, 121, 122]]) ex_desc"
proof -
  obtain t where t: "build_tuple be_net ex_row ex_desc = Inr t" "length t < 2 ^ 32" using ex_row_built by blast
  have "\<exists>ds. update_tuple be_net 1 [120, 121, 122] ex_desc t = Inr ds \<and> apply_deltas ds t = build_tuple be_net (ex_row[1 := [120, 121, 122]]) ex_desc"
  proof (rule update_tuple_correct [OF be_net_ok ex_desc_from _ _ t])
    show "length ex_fields < 2 ^ 24" by (simp add: ex_fields_def)
    show "values_fit ex_desc ex_row" by code_simp
    show "1 < length ex_row" by (simp add: ex_row_def)
    show "fd_is_fixed_len (td_slot_all ex_desc ! 1) \<longrightarrow> length [120, 121, 122 :: byte] = length (ex_row ! 1)" by code_simp
    show "\<not> fd_is_fixed_len (td_slot_all ex_desc ! 1) \<longrightarrow> length (ex_row ! 1) \<le> length [120, 121, 122 :: byte] \<or> Suc 1 = length ex_row" by code_simp
  qed
  then show ?thesis using t(1) by blast
qed

text \<open>C37: Shortening a variable field that is followed by another one moves the data behind it but not the slots:
  the update succeeds and the last field of the row can no longer be read.\<close>

theorem shrinking_breaks_row:
  assumes "net_ok N" and "from_typed_fields cmp_param tfs ver = Inr d" and "length tfs < 2 ^ 24" and fit: "values_fit d vals"
    and t: "build_tuple N vals d = Inr t" and small: "length t < 2 ^ 32" and i: "Suc i < length vals"
    and var: "\<not> fd_is_fixed_len (td_slot_all d ! i)" and shrink: "length v < length (vals ! i)"
  shows "\<exists>ds t'. update_tuple N i v d t = Inr ds \<and> apply_deltas ds t = Inr t' \<and>
    FieldDesc_get N (td_slot_all d ! (length vals - 1)) t = Inr (last vals) \<and>
    FieldDesc_get N (td_slot_all d ! (length vals - 1)) t' = Inl (EC IndexOutOfRange)"
proof -
  obtain bm F V where r: "vals = F @ V" "desc_ok d (length (replicate bm 0 :: byte list)) (map length F) (length V)"
    "t = row_bytes N (replicate bm 0) F (map Some V)" using built_row [OF assms(1-3) fit] t by auto
  have "\<not> i < length F" using var desc_okD(6) [OF r(2), of i] by auto
  then obtain j where j: "i = length F + j" by (metis le_add_diff_inverse not_less)
  then have jV: "Suc j < length V" "length v < length (V ! j)" using i shrink r(1) by simp_all
  then have V: "length vals - 1 = length F + length V - 1" "vals \<noteq> []" using i r(1) by auto
  have "FieldDesc_get N (td_slot_all d ! (length vals - 1)) t = Inr (last vals)"
    using built_row_get [OF assms(1) r(2) small [unfolded r(3)], of "length vals - 1"] i r(1,3) last_conv_nth [OF V(2)] by simp
  then show ?thesis using update_shrinking [OF assms(1) r(2) jV(1) small [unfolded r(3)] jV(2)] V(1) j r(3) by auto
qed

theorem shrinking_breaks_row_witness:
  "\<exists>t ds t'. build_tuple be_net ex_row ex_desc = Inr t \<and> update_tuple be_net 1 [120] ex_desc t = Inr ds \<and> apply_deltas ds t = Inr t' \<and>
    FieldDesc_get be_net (td_slot_all ex_desc ! (length ex_row - 1)) t = Inr (last ex_row) \<and>
    FieldDesc_get be_net (td_slot_all ex_desc ! (length ex_row - 1)) t' = Inl (EC IndexOutOfRange)"
proof -
  obtain t where t: "build_tuple be_net ex_row ex_desc = Inr t" "length t < 2 ^ 32" using ex_row_built by blast
  have "\<exists>ds t'. update_tuple be_net 1 [120] ex_desc t = Inr ds \<and> apply_deltas ds t = Inr t' \<and>
    FieldDesc_get be_net (td_slot_all ex_desc ! (length ex_row - 1)) t = Inr (last ex_row) \<and>
    FieldDesc_get be_net (td_slot_all ex_desc ! (length ex_row - 1)) t' = Inl (EC IndexOutOfRange)"
  proof (rule shrinking_breaks_row [OF be_net_ok ex_desc_from _ _ t])
    show "length ex_fields < 2 ^ 24" by (simp add: ex_fields_def)
    show "values_fit ex_desc ex_row" by code_simp
    show "Suc 1 < length ex_row" by (simp add: ex_row_def)
    show "\<not> fd_is_fixed_len (td_slot_all ex_desc ! 1)" by code_simp
    show "length [120 :: byte] < length (ex_row ! 1)" by code_simp
  qed
  then show ?thesis using t(1) by blast
qed




section \<open>Expression assignments\<close>

text \<open>On values of one period the conditional restock is subtraction modulo the period.\<close>

lemma sub_wrap_mod:
  assumes "floor < wrap" and "0 \<le> q" and "q \<le> wrap" and "floor \<le> c" and "c < floor + wrap"
    and "- (2 ^ 61) \<le> floor" and "floor < 2 ^ 61" and "wrap < 2 ^ 61"
  shows "sub_wrap_i64 c q floor wrap = Inr ((c - floor - q) mod wrap + floor)"
proof -
  have w: "0 < wrap" using assms(2,3,1) by (cases "wrap = 0") (use assms in linarith)+
  show ?thesis
  proof (cases "c - q < floor")
    case True
    have "(c - floor - q) mod wrap = (c - floor - q + wrap) mod wrap" by simp
    also have "\<dots> = c - floor - q + wrap" using True assms by (intro mod_pos_pos_trivial) linarith+
    finally show ?thesis using True assms by (simp add: sub_wrap_i64_def fits_signed_def Let_def)
  next
    case False
    have "(c - floor - q) mod wrap = c - floor - q" using False assms by (intro mod_pos_pos_trivial) linarith+
    then show ?thesis using False assms by (simp add: sub_wrap_i64_def fits_signed_def Let_def)
  qed
qed

text \<open>C39: Conditional restocks of at most one period commute on values within one period (and stay within it);
  otherwise the order matters, although the period is larger than the floor.\<close>

theorem sub_wrap_commutes:
  "(\<forall>c floor wrap q1 q2. floor < wrap \<and> 0 \<le> q1 \<and> q1 \<le> wrap \<and> 0 \<le> q2 \<and> q2 \<le> wrap \<and> floor \<le> c \<and> c < floor + wrap \<and>
      - (2 ^ 61) \<le> floor \<and> floor < 2 ^ 61 \<and> wrap < 2 ^ 61 \<longrightarrow>
      (\<exists>r. floor \<le> r \<and> r < floor + wrap \<and>
        bind_rs (sub_wrap_i64 c q1 floor wrap) (\<lambda>c'. sub_wrap_i64 c' q2 floor wrap) = Inr r \<and>
        bind_rs (sub_wrap_i64 c q2 floor wrap) (\<lambda>c'. sub_wrap_i64 c' q1 floor wrap) = Inr r)) \<and>
   bind_rs (sub_wrap_i64 12 1 10 11) (\<lambda>c'. sub_wrap_i64 c' 15 10 11) = Inr 7 \<and>
   bind_rs (sub_wrap_i64 12 15 10 11) (\<lambda>c'. sub_wrap_i64 c' 1 10 11) = Inr 18"
proof (intro conjI allI impI)
  fix c floor wrap q1 q2 :: int
  assume a: "floor < wrap \<and> 0 \<le> q1 \<and> q1 \<le> wrap \<and> 0 \<le> q2 \<and> q2 \<le> wrap \<and> floor \<le> c \<and> c < floor + wrap \<and>
      - (2 ^ 61) \<le> floor \<and> floor < 2 ^ 61 \<and> wrap < 2 ^ 61"
  then have w: "0 < wrap" by linarith
  have two: "bind_rs (sub_wrap_i64 c x floor wrap) (\<lambda>c'. sub_wrap_i64 c' y floor wrap) = Inr ((c - floor - x - y) mod wrap + floor)"
    if "0 \<le> x" "x \<le> wrap" "0 \<le> y" "y \<le> wrap" for x y
  proof -
    let ?c = "(c - floor - x) mod wrap + floor"
    have "0 \<le> (c - floor - x) mod wrap" "(c - floor - x) mod wrap < wrap" using w by simp_all
    then have "sub_wrap_i64 ?c y floor wrap = Inr ((?c - floor - y) mod wrap + floor)" using a that by (intro sub_wrap_mod) linarith+
    moreover have "sub_wrap_i64 c x floor wrap = Inr ?c" using a that by (intro sub_wrap_mod) linarith+
    ultimately show ?thesis by (simp add: mod_diff_left_eq)
  qed
  have "(c - floor - q1 - q2) mod wrap = (c - floor - q2 - q1) mod wrap" by (simp add: algebra_simps)
  moreover have "0 \<le> (c - floor - q1 - q2) mod wrap" "(c - floor - q1 - q2) mod wrap < wrap" using w by simp_all
  ultimately show "\<exists>r. floor \<le> r \<and> r < floor + wrap \<and>
        bind_rs (sub_wrap_i64 c q1 floor wrap) (\<lambda>c'. sub_wrap_i64 c' q2 floor wrap) = Inr r \<and>
        bind_rs (sub_wrap_i64 c q2 floor wrap) (\<lambda>c'. sub_wrap_i64 c' q1 floor wrap) = Inr r"
    using two [of q1 q2] two [of q2 q1] a by (intro exI [of _ "(c - floor - q1 - q2) mod wrap + floor"]) simp
qed (code_simp, code_simp)

theorem sub_wrap_commutes_witness:
  "\<exists>r. 10 \<le> r \<and> r < 10 + 91 \<and>
     bind_rs (sub_wrap_i64 15 8 10 91) (\<lambda>c'. sub_wrap_i64 c' 5 10 91) = Inr r \<and>
     bind_rs (sub_wrap_i64 15 5 10 91) (\<lambda>c'. sub_wrap_i64 c' 8 10 91) = Inr r"
  using sub_wrap_commutes [THEN conjunct1, THEN spec, of 15, THEN spec, of 10, THEN spec, of 91, THEN spec, of 8, THEN spec, of 5]
  by simp

end
