(* ===== verification/Tx_Manager.thy ===== *)
theory Tx_Manager
  imports Xl_Types Snapshot_Mgr Delta_Assign
    "HOL-Library.RBT" "HOL-Library.List_Lexorder" "HOL-Library.Product_Lexorder"
begin

text \<open>
  The staging area of a transaction, \<open>server/worker_tx_manager.rs\<close>: the writes it has made, the log
  records they become at commit, and the locks it holds.  A \<open>BTreeMap\<close> is a red-black tree of the library,
  whose entries come in key order; byte strings and pairs are ordered lexicographically, as \<open>Ord\<close> orders
  them.  The interior mutability of the manager is explicit state passing: no operation borrows the
  state while another one holds it.
\<close>

section \<open>Order of relation identifiers\<close>

instantiation PhysicalRelationId_ext :: (linorder) linorder
begin

definition less_eq_PhysicalRelationId_ext ::
  "'a PhysicalRelationId_scheme \<Rightarrow> 'a PhysicalRelationId_scheme \<Rightarrow> bool" where
  "a \<le> b \<longleftrightarrow> (pr_table_id a, pr_partition_id a, PhysicalRelationId.more a)
     \<le> (pr_table_id b, pr_partition_id b, PhysicalRelationId.more b)"

definition less_PhysicalRelationId_ext ::
  "'a PhysicalRelationId_scheme \<Rightarrow> 'a PhysicalRelationId_scheme \<Rightarrow> bool" where
  "a < b \<longleftrightarrow> (pr_table_id a, pr_partition_id a, PhysicalRelationId.more a)
     < (pr_table_id b, pr_partition_id b, PhysicalRelationId.more b)"

instance
proof
  fix a b c :: "'a PhysicalRelationId_scheme"
  show "a < b \<longleftrightarrow> a \<le> b \<and> \<not> b \<le> a"
    unfolding less_eq_PhysicalRelationId_ext_def less_PhysicalRelationId_ext_def by (rule less_le_not_le)
  show "a \<le> a" by (simp add: less_eq_PhysicalRelationId_ext_def)
  show "a \<le> b \<Longrightarrow> b \<le> c \<Longrightarrow> a \<le> c"
    unfolding less_eq_PhysicalRelationId_ext_def by (rule order_trans)
  show "a \<le> b \<Longrightarrow> b \<le> a \<Longrightarrow> a = b"
    unfolding less_eq_PhysicalRelationId_ext_def by (drule (1) antisym) (simp add: PhysicalRelationId.equality)
  show "a \<le> b \<or> b \<le> a" unfolding less_eq_PhysicalRelationId_ext_def by (rule linear)
qed

end

section \<open>State\<close>

type_synonym 'v key_map = "(byte list, 'v) rbt"
type_synonym rel_key = "PhysicalRelationId \<times> byte list"

record WorkerTxState =
  stage_kv_write :: "byte list option key_map"
  staged_relation_ops :: "(PhysicalRelationId, byte list option key_map) rbt"
  staged_relation_deferred_deltas :: "(rel_key, DeltaAssign list) rbt"
  write_ops :: "rel_key list"
  log_buffer :: "TxOp list"
  kv_log_index :: "nat key_map"
  relation_log_index :: "(rel_key, nat) rbt"
  statement_lock_keys :: "(rel_key, unit) rbt"
  remote_lock_owners :: "(OID, unit) rbt"

record WorkerTxManager =
  tx_snapshot :: WorkerSnapshot
  tx_state :: WorkerTxState

definition WorkerTxManager_new :: "WorkerSnapshot \<Rightarrow> WorkerTxManager" where
  "WorkerTxManager_new snapshot =
     \<lparr>tx_snapshot = snapshot,
      tx_state = \<lparr>stage_kv_write = RBT.empty, staged_relation_ops = RBT.empty,
        staged_relation_deferred_deltas = RBT.empty, write_ops = [], log_buffer = [], kv_log_index = RBT.empty,
        relation_log_index = RBT.empty, statement_lock_keys = RBT.empty, remote_lock_owners = RBT.empty\<rparr>\<rparr>"

definition tx_xid :: "WorkerTxManager \<Rightarrow> u64" where
  "tx_xid m = ws_xid (tx_snapshot m)"

section \<open>Staging writes\<close>

text \<open>\<open>log_buffer[idx] = op\<close> panics when the index is out of range.\<close>

definition index_assign :: "nat \<Rightarrow> 'a \<Rightarrow> 'a list \<Rightarrow> 'a list rs" where
  "index_assign i x xs = (if i < length xs then Inr (xs[i := x]) else Inl Panic)"

definition entry_or_default :: "'k :: linorder \<Rightarrow> ('k, 'v) rbt \<Rightarrow> 'v \<Rightarrow> 'v" where
  "entry_or_default k m d = (case RBT.lookup m k of Some v \<Rightarrow> v | None \<Rightarrow> d)"

definition state_kv_write :: "byte list \<Rightarrow> byte list option \<Rightarrow> TxOp \<Rightarrow> WorkerTxState \<Rightarrow> WorkerTxState rs" where
  "state_kv_write key opt_value op st =
     bind_rs
       (case RBT.lookup (kv_log_index st) key of
          Some idx \<Rightarrow> bind_rs (index_assign idx op (log_buffer st)) (\<lambda>log. Inr (st\<lparr>log_buffer := log\<rparr>))
        | None \<Rightarrow> Inr (st\<lparr>kv_log_index := RBT.insert key (length (log_buffer st)) (kv_log_index st),
                        log_buffer := log_buffer st @ [op]\<rparr>))
       (\<lambda>st. Inr (st\<lparr>stage_kv_write := RBT.insert key opt_value (stage_kv_write st)\<rparr>))"

definition stage_rel_write :: "rel_key \<Rightarrow> byte list option \<Rightarrow> TxOp \<Rightarrow> WorkerTxState \<Rightarrow> WorkerTxState rs" where
  "stage_rel_write key opt_value op st =
     bind_rs
       (case RBT.lookup (relation_log_index st) key of
          Some idx \<Rightarrow> bind_rs (index_assign idx op (log_buffer st)) (\<lambda>log. Inr (st\<lparr>log_buffer := log\<rparr>))
        | None \<Rightarrow> Inr (st\<lparr>relation_log_index := RBT.insert key (length (log_buffer st)) (relation_log_index st),
                        log_buffer := log_buffer st @ [op]\<rparr>))
       (\<lambda>st. Inr (st\<lparr>staged_relation_ops := RBT.insert (fst key)
          (RBT.insert (snd key) opt_value (entry_or_default (fst key) (staged_relation_ops st) RBT.empty))
          (staged_relation_ops st)\<rparr>))"

definition with_state_mut :: "(WorkerTxState \<Rightarrow> WorkerTxState rs) \<Rightarrow> WorkerTxManager \<Rightarrow> WorkerTxManager rs" where
  "with_state_mut f m = bind_rs (f (tx_state m)) (\<lambda>st. Inr (m\<lparr>tx_state := st\<rparr>))"

definition insert_op :: "PhysicalRelationId \<Rightarrow> byte list \<Rightarrow> byte list \<Rightarrow> TxOp" where
  "insert_op r key val = TxWrite (XInsert \<lparr>xi_table_id = pr_table_id r, xi_partition_id = pr_partition_id r,
     xi_tuple_id = 0, xi_key = key, xi_value = val\<rparr>)"

definition delete_op :: "PhysicalRelationId \<Rightarrow> byte list \<Rightarrow> TxOp" where
  "delete_op r key = TxWrite (XDelete \<lparr>xd_table_id = pr_table_id r, xd_partition_id = pr_partition_id r,
     xd_tuple_id = 0, xd_key = key\<rparr>)"

definition update_op :: "PhysicalRelationId \<Rightarrow> byte list \<Rightarrow> byte list \<Rightarrow> TxOp" where
  "update_op r key delta = TxWrite (XUpdate \<lparr>xu_table_id = pr_table_id r, xu_partition_id = pr_partition_id r,
     xu_tuple_id = 0, xu_key = key, xu_delta = delta\<rparr>)"

text \<open>The identifier under which key-value writes are logged.\<close>

definition kv_relation :: PhysicalRelationId where
  "kv_relation = \<lparr>pr_table_id = 0, pr_partition_id = 0\<rparr>"

definition tx_put :: "byte list \<Rightarrow> byte list \<Rightarrow> WorkerTxManager \<Rightarrow> WorkerTxManager rs" where
  "tx_put key val = with_state_mut (state_kv_write key (Some val) (insert_op kv_relation key val))"

definition tx_delete :: "byte list \<Rightarrow> WorkerTxManager \<Rightarrow> WorkerTxManager rs" where
  "tx_delete key = with_state_mut (state_kv_write key None (delete_op kv_relation key))"

definition tx_get :: "WorkerTxManager \<Rightarrow> byte list \<Rightarrow> byte list option option" where
  "tx_get m key = RBT.lookup (stage_kv_write (tx_state m)) key"

definition put_relation :: "PhysicalRelationId \<Rightarrow> byte list \<Rightarrow> byte list \<Rightarrow> WorkerTxManager \<Rightarrow> WorkerTxManager rs" where
  "put_relation r key val = with_state_mut (stage_rel_write (r, key) (Some val) (insert_op r key val))"

definition delete_relation :: "PhysicalRelationId \<Rightarrow> byte list \<Rightarrow> WorkerTxManager \<Rightarrow> WorkerTxManager rs" where
  "delete_relation r key = with_state_mut (stage_rel_write (r, key) None (delete_op r key))"

definition get_relation :: "WorkerTxManager \<Rightarrow> PhysicalRelationId \<Rightarrow> byte list \<Rightarrow> byte list option option" where
  "get_relation m r key =
     (case RBT.lookup (staged_relation_ops (tx_state m)) r of None \<Rightarrow> None | Some rows \<Rightarrow> RBT.lookup rows key)"

definition put_relation_deferred_deltas ::
  "delta_codec \<Rightarrow> PhysicalRelationId \<Rightarrow> byte list \<Rightarrow> DeltaAssign list \<Rightarrow> WorkerTxManager \<Rightarrow> WorkerTxManager rs" where
  "put_relation_deferred_deltas C r key deltas m =
     (if deltas = [] then Inr m
      else with_state_mut (\<lambda>st.
        bind_rs (encode_delta_assigns C deltas) (\<lambda>encoded.
        Inr (st\<lparr>log_buffer := log_buffer st @ [update_op r key encoded],
                staged_relation_deferred_deltas := RBT.insert (r, key)
                  (entry_or_default (r, key) (staged_relation_deferred_deltas st) [] @ deltas)
                  (staged_relation_deferred_deltas st)\<rparr>))) m)"

definition get_relation_deltas :: "WorkerTxManager \<Rightarrow> PhysicalRelationId \<Rightarrow> byte list \<Rightarrow> DeltaAssign list option" where
  "get_relation_deltas m r key = RBT.lookup (staged_relation_deferred_deltas (tx_state m)) (r, key)"

section \<open>Reading the staging area\<close>

definition is_key_in_range :: "byte list \<Rightarrow> byte list \<Rightarrow> byte list \<Rightarrow> bool" where
  "is_key_in_range key start_key end_key \<longleftrightarrow> start_key \<le> key \<and> (end_key = [] \<or> key < end_key)"

definition staged_items_in_range :: "WorkerTxManager \<Rightarrow> byte list \<Rightarrow> byte list \<Rightarrow> (byte list \<times> byte list option) list" where
  "staged_items_in_range m start_key end_key =
     filter (\<lambda>(key, _). is_key_in_range key start_key end_key) (RBT.entries (stage_kv_write (tx_state m)))"

definition staged_relation_items_in_range ::
  "WorkerTxManager \<Rightarrow> PhysicalRelationId \<Rightarrow> byte list \<Rightarrow> byte list \<Rightarrow> (byte list \<times> byte list option) list" where
  "staged_relation_items_in_range m r start_key end_key =
     (case RBT.lookup (staged_relation_ops (tx_state m)) r of
        None \<Rightarrow> []
      | Some rows \<Rightarrow> filter (\<lambda>(key, _). is_key_in_range key start_key end_key) (RBT.entries rows))"

definition staged_relation_deltas ::
  "WorkerTxManager \<Rightarrow> (PhysicalRelationId, DeltaAssign list key_map) rbt" where
  "staged_relation_deltas m =
     fold (\<lambda>((r, key), deltas) grouped.
         RBT.insert r (RBT.insert key deltas (entry_or_default r grouped RBT.empty)) grouped)
       (RBT.entries (staged_relation_deferred_deltas (tx_state m))) RBT.empty"

definition tx_is_empty :: "WorkerTxManager \<Rightarrow> bool" where
  "tx_is_empty m \<longleftrightarrow> RBT.is_empty (stage_kv_write (tx_state m))
     \<and> RBT.is_empty (staged_relation_ops (tx_state m))
     \<and> RBT.is_empty (staged_relation_deferred_deltas (tx_state m))"

section \<open>Commit\<close>

definition build_write_ops :: "WorkerTxManager \<Rightarrow> WorkerTxManager" where
  "build_write_ops m =
     (let st = tx_state m in
      m\<lparr>tx_state := st\<lparr>write_ops :=
        sort (map (Pair kv_relation) (RBT.keys (stage_kv_write st))
          @ concat (map (\<lambda>(r, ops). map (Pair r) (RBT.keys ops)) (RBT.entries (staged_relation_ops st))))\<rparr>\<rparr>)"

definition record_statement_lock :: "PhysicalRelationId \<Rightarrow> byte list \<Rightarrow> WorkerTxManager \<Rightarrow> WorkerTxManager" where
  "record_statement_lock r key m =
     m\<lparr>tx_state := (tx_state m)\<lparr>statement_lock_keys := RBT.insert (r, key) () (statement_lock_keys (tx_state m))\<rparr>\<rparr>"

definition has_statement_lock :: "WorkerTxManager \<Rightarrow> PhysicalRelationId \<Rightarrow> byte list \<Rightarrow> bool" where
  "has_statement_lock m r key \<longleftrightarrow> RBT.lookup (statement_lock_keys (tx_state m)) (r, key) \<noteq> None"

definition record_remote_lock_owner :: "OID \<Rightarrow> WorkerTxManager \<Rightarrow> WorkerTxManager" where
  "record_remote_lock_owner w m =
     m\<lparr>tx_state := (tx_state m)\<lparr>remote_lock_owners := RBT.insert w () (remote_lock_owners (tx_state m))\<rparr>\<rparr>"

definition clear_remote_lock_owners :: "WorkerTxManager \<Rightarrow> WorkerTxManager" where
  "clear_remote_lock_owners m = m\<lparr>tx_state := (tx_state m)\<lparr>remote_lock_owners := RBT.empty\<rparr>\<rparr>"

definition xl_batch :: "WorkerTxManager \<Rightarrow> XLBatch" where
  "xl_batch m = XLBatch_new
     [\<lparr>xe_xid = tx_xid m, xe_ops = TxBegin # log_buffer (tx_state m) @ [TxCommit]\<rparr>]"

end
