(* ===== verification/Tx_Invariant.thy ===== *)
theory Tx_Invariant
  imports Tx_Manager
begin

text \<open>
  The states a transaction's staging area can reach, and what holds in all of them: the log buffer, the two
  index maps into it and the staged maps describe the same writes.
\<close>

section \<open>Reachable states\<close>

text \<open>The public operations that change the staging area.  A relation is never identified by the pair
  \<^term>\<open>kv_relation\<close>, which the log reserves for key-value writes.\<close>

inductive tx_reachable :: "delta_codec \<Rightarrow> WorkerTxManager \<Rightarrow> bool" for C where
  start: "tx_reachable C (WorkerTxManager_new snapshot)"
| put: "tx_reachable C m \<Longrightarrow> tx_put key val m = Inr m' \<Longrightarrow> tx_reachable C m'"
| delete: "tx_reachable C m \<Longrightarrow> tx_delete key m = Inr m' \<Longrightarrow> tx_reachable C m'"
| put_rel: "tx_reachable C m \<Longrightarrow> r \<noteq> kv_relation \<Longrightarrow> put_relation r key val m = Inr m' \<Longrightarrow> tx_reachable C m'"
| delete_rel: "tx_reachable C m \<Longrightarrow> r \<noteq> kv_relation \<Longrightarrow> delete_relation r key m = Inr m' \<Longrightarrow> tx_reachable C m'"
| deltas: "tx_reachable C m \<Longrightarrow> r \<noteq> kv_relation \<Longrightarrow> put_relation_deferred_deltas C r key ds m = Inr m'
    \<Longrightarrow> tx_reachable C m'"
| build: "tx_reachable C m \<Longrightarrow> tx_reachable C (build_write_ops m)"
| lock: "tx_reachable C m \<Longrightarrow> tx_reachable C (record_statement_lock r key m)"
| owner: "tx_reachable C m \<Longrightarrow> tx_reachable C (record_remote_lock_owner w m)"
| clear: "tx_reachable C m \<Longrightarrow> tx_reachable C (clear_remote_lock_owners m)"

section \<open>The invariant\<close>

definition log_op :: "rel_key \<Rightarrow> byte list option \<Rightarrow> TxOp" where
  "log_op rk v = (case v of Some val \<Rightarrow> insert_op (fst rk) (snd rk) val | None \<Rightarrow> delete_op (fst rk) (snd rk))"

text \<open>The key a whole-row record of the log writes, and the key a delta record updates.\<close>

fun row_key :: "TxOp \<Rightarrow> rel_key option" where
  "row_key (TxWrite (XInsert w)) = Some (\<lparr>pr_table_id = xi_table_id w, pr_partition_id = xi_partition_id w\<rparr>, xi_key w)"
| "row_key (TxWrite (XDelete w)) = Some (\<lparr>pr_table_id = xd_table_id w, pr_partition_id = xd_partition_id w\<rparr>, xd_key w)"
| "row_key _ = None"

fun update_key :: "TxOp \<Rightarrow> rel_key option" where
  "update_key (TxWrite (XUpdate w)) = Some (\<lparr>pr_table_id = xu_table_id w, pr_partition_id = xu_partition_id w\<rparr>, xu_key w)"
| "update_key _ = None"

fun update_delta :: "TxOp \<Rightarrow> byte list" where
  "update_delta (TxWrite (XUpdate w)) = xu_delta w"
| "update_delta _ = []"

lemma op_keys [simp]:
  "row_key (insert_op r k v) = Some (r, k)" "row_key (delete_op r k) = Some (r, k)"
  "row_key (log_op (r, k) ov) = Some (r, k)" "row_key (update_op r k d) = None"
  "update_key (insert_op r k v) = None" "update_key (delete_op r k) = None"
  "update_key (log_op (r, k) ov) = None" "update_key (update_op r k d) = Some (r, k)"
  "update_delta (update_op r k d) = d"
  by (auto simp: insert_op_def delete_op_def update_op_def log_op_def split: option.splits)

text \<open>The staged write of a key, of either kind.\<close>

definition staged_write :: "WorkerTxState \<Rightarrow> rel_key \<Rightarrow> byte list option option" where
  "staged_write st rk =
     (if fst rk = kv_relation then RBT.lookup (stage_kv_write st) (snd rk)
      else RBT.lookup (entry_or_default (fst rk) (staged_relation_ops st) RBT.empty) (snd rk))"

definition log_index :: "WorkerTxState \<Rightarrow> rel_key \<Rightarrow> nat option" where
  "log_index st rk =
     (if fst rk = kv_relation then RBT.lookup (kv_log_index st) (snd rk) else RBT.lookup (relation_log_index st) rk)"

definition staging_agrees :: "WorkerTxState \<Rightarrow> bool" where
  "staging_agrees st \<longleftrightarrow>
     (\<forall>rk. (log_index st rk = None) = (staged_write st rk = None))
   \<and> (\<forall>rk i. log_index st rk = Some i \<longrightarrow>
        i < length (log_buffer st) \<and> log_buffer st ! i = log_op rk (the (staged_write st rk)))
   \<and> (\<forall>i < length (log_buffer st). \<forall>rk. row_key (log_buffer st ! i) = Some rk \<longrightarrow> log_index st rk = Some i)"

text \<open>One whole-row write as the two staging functions perform it, seen through the combined maps.\<close>

definition staged_as :: "rel_key \<Rightarrow> byte list option \<Rightarrow> WorkerTxState \<Rightarrow> WorkerTxState \<Rightarrow> bool" where
  "staged_as rk v st st' \<longleftrightarrow>
     (case log_index st rk of
        Some i \<Rightarrow> i < length (log_buffer st) \<and> log_buffer st' = (log_buffer st)[i := log_op rk v] \<and> log_index st' = log_index st
      | None \<Rightarrow> log_buffer st' = log_buffer st @ [log_op rk v] \<and> log_index st' = (log_index st)(rk \<mapsto> length (log_buffer st)))
   \<and> staged_write st' = (staged_write st)(rk \<mapsto> v)
   \<and> staged_relation_deferred_deltas st' = staged_relation_deferred_deltas st"

lemma kv_staged_as:
  assumes "state_kv_write k v (log_op (kv_relation, k) v) st = Inr st'"
  shows "staged_as (kv_relation, k) v st st'"
  using assms
  by (auto simp: state_kv_write_def staged_as_def log_index_def staged_write_def index_assign_def rs_simps
      fun_eq_iff entry_or_default_def split: option.splits if_splits)

lemma rel_staged_as:
  assumes "stage_rel_write (r, k) v (log_op (r, k) v) st = Inr st'" and "r \<noteq> kv_relation"
  shows "staged_as (r, k) v st st'"
  using assms
  by (cases "RBT.lookup (relation_log_index st) (r, k)"; cases "RBT.lookup (staged_relation_ops st) r")
    (auto simp: stage_rel_write_def staged_as_def log_index_def staged_write_def index_assign_def rs_simps
      fun_eq_iff entry_or_default_def split: if_splits)

lemma staging_agreesD:
  assumes "staging_agrees st"
  shows "log_index st rk = None \<longleftrightarrow> staged_write st rk = None"
    and "log_index st rk = Some i \<Longrightarrow> i < length (log_buffer st)"
    and "log_index st rk = Some i \<Longrightarrow> log_buffer st ! i = log_op rk (the (staged_write st rk))"
    and "i < length (log_buffer st) \<Longrightarrow> row_key (log_buffer st ! i) = Some rk \<Longrightarrow> log_index st rk = Some i"
  using assms unfolding staging_agrees_def by blast+

lemma row_key_log_op [simp]: "row_key (log_op rk v) = Some rk"
  by (cases rk) simp

lemma staged_as_agrees:
  assumes agrees: "staging_agrees st" and step: "staged_as rk v st st'"
  shows "staging_agrees st'"
proof (cases "log_index st rk")
  case None
  note a = staging_agreesD[OF agrees]
  have st': "log_buffer st' = log_buffer st @ [log_op rk v]"
      "log_index st' = (log_index st)(rk \<mapsto> length (log_buffer st))" "staged_write st' = (staged_write st)(rk \<mapsto> v)"
    using step None by (simp_all add: staged_as_def)
  show ?thesis
    unfolding staging_agrees_def st'
  proof (intro conjI allI impI)
    show "(((log_index st)(rk \<mapsto> length (log_buffer st))) rk' = None) = (((staged_write st)(rk \<mapsto> v)) rk' = None)" for rk'
      using a(1)[of rk'] by simp
  next
    fix rk' i assume i: "((log_index st)(rk \<mapsto> length (log_buffer st))) rk' = Some i"
    show "i < length (log_buffer st @ [log_op rk v])"
      using i a(2)[of rk' i] by (cases "rk' = rk") auto
    show "(log_buffer st @ [log_op rk v]) ! i = log_op rk' (the (((staged_write st)(rk \<mapsto> v)) rk'))"
      using i a(2,3)[of rk' i] by (cases "rk' = rk") (auto simp: nth_append)
  next
    fix i rk' assume i: "i < length (log_buffer st @ [log_op rk v])"
      and rk': "row_key ((log_buffer st @ [log_op rk v]) ! i) = Some rk'"
    show "((log_index st)(rk \<mapsto> length (log_buffer st))) rk' = Some i"
      using i rk' a(4)[of i rk'] None by (cases "i < length (log_buffer st)") (auto simp: nth_append)
  qed
next
  case (Some i)
  note a = staging_agreesD[OF agrees]
  have i: "i < length (log_buffer st)" and own: "row_key (log_buffer st ! i) = Some rk"
    using a(2,3)[OF Some] by simp_all
  have st': "log_buffer st' = (log_buffer st)[i := log_op rk v]"
      "log_index st' = log_index st" "staged_write st' = (staged_write st)(rk \<mapsto> v)"
    using step Some by (simp_all add: staged_as_def)
  have unique: "rk' = rk" if "log_index st rk' = Some i" for rk'
    using a(3)[OF that] own by simp
  show ?thesis
    unfolding staging_agrees_def st'
  proof (intro conjI allI impI)
    show "(log_index st rk' = None) = (((staged_write st)(rk \<mapsto> v)) rk' = None)" for rk'
      using a(1)[of rk'] Some by (cases "rk' = rk") auto
  next
    fix rk' j assume j: "log_index st rk' = Some j"
    show "j < length ((log_buffer st)[i := log_op rk v])"
      using a(2)[OF j] by simp
    show "(log_buffer st)[i := log_op rk v] ! j = log_op rk' (the (((staged_write st)(rk \<mapsto> v)) rk'))"
    proof (cases "rk' = rk")
      case True
      then have "j = i" using j Some by simp
      then show ?thesis using True i by simp
    next
      case False
      then have "j \<noteq> i" using unique j by blast
      then show ?thesis using False a(3)[OF j] by simp
    qed
  next
    fix j rk' assume "j < length ((log_buffer st)[i := log_op rk v])"
      and "row_key ((log_buffer st)[i := log_op rk v] ! j) = Some rk'"
    then show "log_index st rk' = Some j"
      using a(4)[of j rk'] Some by (cases "j = i") auto
  qed
qed


text \<open>Through the two maps at once: exactly one whole-row record for a staged key, none for any other.\<close>

lemma filter_unique:
  assumes "i < length xs" and "P (xs ! i)" and "\<And>j. j < length xs \<Longrightarrow> P (xs ! j) \<Longrightarrow> j = i"
  shows "filter P xs = [xs ! i]"
proof -
  have "\<not> P x" if x: "x \<in> set (take i xs)" for x
  proof
    assume "P x"
    obtain j where "j < length (take i xs)" "take i xs ! j = x"
      using x unfolding in_set_conv_nth by blast
    then have "j < i" "x = xs ! j" by simp_all
    then show False using \<open>P x\<close> assms(1) assms(3)[of j] by simp
  qed
  moreover have "\<not> P x" if x: "x \<in> set (drop (Suc i) xs)" for x
  proof
    assume "P x"
    obtain j where "j < length (drop (Suc i) xs)" "drop (Suc i) xs ! j = x"
      using x unfolding in_set_conv_nth by blast
    then have "Suc i + j < length xs" "x = xs ! (Suc i + j)" by simp_all
    then show False using \<open>P x\<close> assms(3)[of "Suc i + j"] by simp
  qed
  ultimately have "filter P (take i xs @ xs ! i # drop (Suc i) xs) = [xs ! i]"
    using assms(2) by (simp add: filter_empty_conv)
  then show ?thesis
    using id_take_nth_drop[OF assms(1)] by simp
qed

lemma agrees_log:
  assumes "staging_agrees st"
  shows "filter (\<lambda>op. row_key op = Some rk) (log_buffer st)
     = (case staged_write st rk of None \<Rightarrow> [] | Some v \<Rightarrow> [log_op rk v])"
proof (cases "log_index st rk")
  case None
  then have "\<forall>op \<in> set (log_buffer st). row_key op \<noteq> Some rk"
    using staging_agreesD(4)[OF assms, of _ rk] by (auto simp: in_set_conv_nth)
  then show ?thesis
    using None staging_agreesD(1)[OF assms, of rk] by (simp add: filter_empty_conv)
next
  case (Some i)
  note i = staging_agreesD(2,3)[OF assms Some]
  have "filter (\<lambda>op. row_key op = Some rk) (log_buffer st) = [log_buffer st ! i]"
  proof (rule filter_unique)
    fix j assume "j < length (log_buffer st)" "row_key (log_buffer st ! j) = Some rk"
    from staging_agreesD(4)[OF assms this] Some show "j = i" by simp
  qed (simp_all add: i)
  then show ?thesis
    using i Some staging_agreesD(1)[OF assms, of rk] by (cases "staged_write st rk") simp_all
qed

section \<open>Deferred deltas in the log\<close>

definition updates_of :: "rel_key \<Rightarrow> TxOp list \<Rightarrow> byte list list" where
  "updates_of rk log = map update_delta (filter (\<lambda>op. update_key op = Some rk) log)"

lemma updates_of_snoc [simp]:
  "updates_of rk (log @ [op]) = updates_of rk log @ (if update_key op = Some rk then [update_delta op] else [])"
  by (simp add: updates_of_def)

lemma updates_of_replace:
  assumes "i < length log" and "update_key (log ! i) = None" and "update_key op = None"
  shows "updates_of rk (log[i := op]) = updates_of rk log"
proof -
  have "updates_of rk (log[i := op]) = updates_of rk (take i log @ [op] @ drop (Suc i) log)"
    using assms(1) by (simp add: upd_conv_take_nth_drop)
  also have "\<dots> = updates_of rk (take i log @ [log ! i] @ drop (Suc i) log)"
    using assms(2,3) by (simp add: updates_of_def)
  also have "\<dots> = updates_of rk log"
    using id_take_nth_drop[OF assms(1)] by simp
  finally show ?thesis .
qed

text \<open>The log carries one delta record per staging call, in the order of the calls.\<close>

definition deltas_agree :: "delta_codec \<Rightarrow> WorkerTxState \<Rightarrow> bool" where
  "deltas_agree C st \<longleftrightarrow> (\<forall>rk. \<exists>calls.
     list_all2 (\<lambda>ds e. ds \<noteq> [] \<and> encode_delta_assigns C ds = Inr e) calls (updates_of rk (log_buffer st))
     \<and> RBT.lookup (staged_relation_deferred_deltas st) rk = (if calls = [] then None else Some (concat calls)))"

definition relations_proper :: "WorkerTxState \<Rightarrow> bool" where
  "relations_proper st \<longleftrightarrow>
     RBT.lookup (staged_relation_ops st) kv_relation = None
     \<and> (\<forall>r. RBT.lookup (staged_relation_ops st) r \<noteq> Some RBT.empty)"

definition log_of_writes :: "WorkerTxState \<Rightarrow> bool" where
  "log_of_writes st \<longleftrightarrow> (\<forall>op \<in> set (log_buffer st). row_key op \<noteq> None \<or> update_key op \<noteq> None)"

definition tx_ok :: "delta_codec \<Rightarrow> WorkerTxState \<Rightarrow> bool" where
  "tx_ok C st \<longleftrightarrow> staging_agrees st \<and> deltas_agree C st \<and> relations_proper st \<and> log_of_writes st"

lemma staged_as_writes:
  assumes "staged_as rk v st st'" and "log_of_writes st"
  shows "log_of_writes st'"
  using assms
  by (auto simp: staged_as_def log_of_writes_def dest!: set_update_subset_insert[THEN subsetD] split: option.splits)

lemma staged_as_deltas:
  assumes "staging_agrees st" and "staged_as rk v st st'" and "deltas_agree C st"
  shows "deltas_agree C st'"
proof -
  have "updates_of rk' (log_buffer st') = updates_of rk' (log_buffer st)" for rk'
    using assms(2) staging_agreesD(3)[OF assms(1), of rk]
    by (cases rk) (auto simp: staged_as_def updates_of_replace split: option.splits)
  then show ?thesis
    using assms(2,3) by (simp add: deltas_agree_def staged_as_def)
qed

lemma insert_not_empty [simp]: "RBT.insert k v t \<noteq> RBT.empty"
  by (metis RBT.lookup_empty RBT.lookup_insert fun_upd_apply option.distinct(1))

lemma rel_proper:
  assumes "stage_rel_write (r, k) v op st = Inr st'" and "r \<noteq> kv_relation" and "relations_proper st"
  shows "relations_proper st'"
proof -
  have "staged_relation_ops st' = RBT.insert r
      (RBT.insert k v (entry_or_default r (staged_relation_ops st) RBT.empty)) (staged_relation_ops st)"
    using assms(1) by (auto simp: stage_rel_write_def rs_simps split: option.splits)
  then show ?thesis
    using assms(2,3) by (simp add: relations_proper_def)
qed

lemma kv_proper:
  assumes "state_kv_write k v op st = Inr st'" and "relations_proper st"
  shows "relations_proper st'"
proof -
  have "staged_relation_ops st' = staged_relation_ops st"
    using assms(1) by (auto simp: state_kv_write_def rs_simps split: option.splits)
  then show ?thesis
    using assms(2) by (simp add: relations_proper_def)
qed

lemma log_op_simps [simp]:
  "log_op (r, k) (Some val) = insert_op r k val" "log_op (r, k) None = delete_op r k"
  by (simp_all add: log_op_def)

lemma kv_write_ok:
  assumes "state_kv_write k v (log_op (kv_relation, k) v) st = Inr st'" and "tx_ok C st"
  shows "tx_ok C st'"
  using assms(2) kv_proper[OF assms(1)] staged_as_agrees[OF _ kv_staged_as[OF assms(1)]]
    staged_as_deltas[OF _ kv_staged_as[OF assms(1)]] staged_as_writes[OF kv_staged_as[OF assms(1)]]
  by (simp add: tx_ok_def)

lemma rel_write_ok:
  assumes "stage_rel_write (r, k) v (log_op (r, k) v) st = Inr st'" and "r \<noteq> kv_relation" and "tx_ok C st"
  shows "tx_ok C st'"
  using assms(3) rel_proper[OF assms(1,2)] staged_as_agrees[OF _ rel_staged_as[OF assms(1,2)]]
    staged_as_deltas[OF _ rel_staged_as[OF assms(1,2)]] staged_as_writes[OF rel_staged_as[OF assms(1,2)]]
  by (simp add: tx_ok_def)


section \<open>Every reachable state\<close>

lemma tx_ok_new: "tx_ok C (tx_state (WorkerTxManager_new snapshot))"
  by (simp add: tx_ok_def staging_agrees_def deltas_agree_def relations_proper_def log_of_writes_def WorkerTxManager_new_def
      log_index_def staged_write_def entry_or_default_def updates_of_def)

text \<open>Operations that leave the staged writes and the log alone keep the invariant.\<close>

lemma tx_ok_frame:
  assumes "stage_kv_write st' = stage_kv_write st" and "staged_relation_ops st' = staged_relation_ops st"
    and "staged_relation_deferred_deltas st' = staged_relation_deferred_deltas st" and "log_buffer st' = log_buffer st"
    and "kv_log_index st' = kv_log_index st" and "relation_log_index st' = relation_log_index st"
  shows "tx_ok C st' \<longleftrightarrow> tx_ok C st"
  using assms
  by (simp add: tx_ok_def staging_agrees_def deltas_agree_def relations_proper_def log_of_writes_def log_index_def
      staged_write_def)

lemma deltas_ok:
  assumes "put_relation_deferred_deltas C r k ds m = Inr m'" and "tx_ok C (tx_state m)"
  shows "tx_ok C (tx_state m')"
proof (cases "ds = []")
  case True
  then show ?thesis using assms by (simp add: put_relation_deferred_deltas_def)
next
  case False
  let ?st = "tx_state m" and ?st' = "tx_state m'"
  obtain e where e: "encode_delta_assigns C ds = Inr e"
    and m': "m' = m\<lparr>tx_state := ?st\<lparr>log_buffer := log_buffer ?st @ [update_op r k e],
        staged_relation_deferred_deltas := RBT.insert (r, k)
          (entry_or_default (r, k) (staged_relation_deferred_deltas ?st) [] @ ds) (staged_relation_deferred_deltas ?st)\<rparr>\<rparr>"
    using assms(1) False by (auto simp: put_relation_deferred_deltas_def with_state_mut_def rs_simps)
  have a: "staging_agrees ?st" "deltas_agree C ?st" "relations_proper ?st" "log_of_writes ?st"
    using assms(2) by (simp_all add: tx_ok_def)
  have maps: "log_index ?st' = log_index ?st" "staged_write ?st' = staged_write ?st"
    by (simp_all add: m' fun_eq_iff log_index_def staged_write_def)
  have "staging_agrees ?st'"
    unfolding staging_agrees_def maps
  proof (intro conjI allI impI)
    show "(log_index ?st rk = None) = (staged_write ?st rk = None)" for rk
      by (rule staging_agreesD(1)[OF a(1)])
  next
    fix rk i assume "log_index ?st rk = Some i"
    note i = staging_agreesD(2,3)[OF a(1) this]
    show "i < length (log_buffer ?st')" using i(1) by (simp add: m')
    show "log_buffer ?st' ! i = log_op rk (the (staged_write ?st rk))" using i by (simp add: m' nth_append)
  next
    fix i rk assume "i < length (log_buffer ?st')" "row_key (log_buffer ?st' ! i) = Some rk"
    then show "log_index ?st rk = Some i"
      using staging_agreesD(4)[OF a(1), of i rk] by (cases "i < length (log_buffer ?st)") (simp_all add: m' nth_append)
  qed
  moreover have "deltas_agree C ?st'"
    unfolding deltas_agree_def
  proof
    fix rk
    obtain calls where calls:
        "list_all2 (\<lambda>ds e. ds \<noteq> [] \<and> encode_delta_assigns C ds = Inr e) calls (updates_of rk (log_buffer ?st))"
        "RBT.lookup (staged_relation_deferred_deltas ?st) rk = (if calls = [] then None else Some (concat calls))"
      using a(2) unfolding deltas_agree_def by blast
    show "\<exists>calls. list_all2 (\<lambda>ds e. ds \<noteq> [] \<and> encode_delta_assigns C ds = Inr e) calls
          (updates_of rk (log_buffer ?st'))
        \<and> RBT.lookup (staged_relation_deferred_deltas ?st') rk = (if calls = [] then None else Some (concat calls))"
      using calls e False
      by (intro exI[of _ "if rk = (r, k) then calls @ [ds] else calls"])
        (auto simp: m' entry_or_default_def intro: list_all2_appendI)
  qed
  moreover have "relations_proper ?st'"
    using a(3) by (simp add: m' relations_proper_def)
  moreover have "log_of_writes ?st'"
    using a(4) by (auto simp: m' log_of_writes_def)
  ultimately show ?thesis
    by (simp add: tx_ok_def)
qed

lemma with_state_mut_Inr: "with_state_mut f m = Inr m' \<longleftrightarrow> (\<exists>st. f (tx_state m) = Inr st \<and> m' = m\<lparr>tx_state := st\<rparr>)"
  by (auto simp: with_state_mut_def rs_simps)

lemma reachable_ok:
  assumes "tx_reachable C m"
  shows "tx_ok C (tx_state m)"
  using assms
proof induction
  case (start snapshot)
  show ?case by (rule tx_ok_new)
next
  case (put m key val m')
  then show ?case
    using kv_write_ok[of key "Some val"] by (auto simp: tx_put_def with_state_mut_Inr)
next
  case (delete m key m')
  then show ?case
    using kv_write_ok[of key None] by (auto simp: tx_delete_def with_state_mut_Inr)
next
  case (put_rel m r key val m')
  then show ?case
    using rel_write_ok[of r key "Some val"] by (auto simp: put_relation_def with_state_mut_Inr)
next
  case (delete_rel m r key m')
  then show ?case
    using rel_write_ok[of r key None] by (auto simp: delete_relation_def with_state_mut_Inr)
next
  case (deltas m r key ds m')
  then show ?case using deltas_ok by blast
next
  case (build m)
  then show ?case
    using tx_ok_frame[of "tx_state (build_write_ops m)" "tx_state m" C] by (simp add: build_write_ops_def Let_def)
next
  case (lock m r key)
  then show ?case
    using tx_ok_frame[of "tx_state (record_statement_lock r key m)" "tx_state m" C]
    by (simp add: record_statement_lock_def)
next
  case (owner m w)
  then show ?case
    using tx_ok_frame[of "tx_state (record_remote_lock_owner w m)" "tx_state m" C]
    by (simp add: record_remote_lock_owner_def)
next
  case (clear m)
  then show ?case
    using tx_ok_frame[of "tx_state (clear_remote_lock_owners m)" "tx_state m" C]
    by (simp add: clear_remote_lock_owners_def)
qed


section \<open>Consequences\<close>

lemma relations_properD:
  assumes "tx_ok C st" and "RBT.lookup (staged_relation_ops st) r = Some rows"
  shows "r \<noteq> kv_relation" and "RBT.lookup rows \<noteq> Map.empty"
  using assms by (auto simp: tx_ok_def relations_proper_def RBT.lookup_empty_empty)

lemma staged_write_kv [simp]: "staged_write (tx_state m) (kv_relation, k) = tx_get m k"
  by (simp add: staged_write_def tx_get_def)

lemma staged_write_relation:
  "r \<noteq> kv_relation \<Longrightarrow> staged_write (tx_state m) (r, k) = get_relation m r k"
  by (simp add: staged_write_def get_relation_def entry_or_default_def split: option.splits)

lemma deltas_agree_none:
  assumes "deltas_agree C st"
  shows "RBT.lookup (staged_relation_deferred_deltas st) rk = None \<longleftrightarrow> updates_of rk (log_buffer st) = []"
proof -
  obtain calls where
      "list_all2 (\<lambda>ds e. ds \<noteq> [] \<and> encode_delta_assigns C ds = Inr e) calls (updates_of rk (log_buffer st))"
      "RBT.lookup (staged_relation_deferred_deltas st) rk = (if calls = [] then None else Some (concat calls))"
    using assms unfolding deltas_agree_def by blast
  then show ?thesis by (cases calls) (auto dest: list_all2_lengthD)
qed

lemma nothing_staged:
  assumes "tx_ok C (tx_state m)"
  shows "tx_is_empty m \<longleftrightarrow> log_buffer (tx_state m) = []"
proof
  let ?st = "tx_state m"
  have a: "staging_agrees ?st" "deltas_agree C ?st" "log_of_writes ?st"
    using assms by (simp_all add: tx_ok_def)
  assume "tx_is_empty m"
  then have none: "staged_write ?st rk = None" "RBT.lookup (staged_relation_deferred_deltas ?st) rk = None" for rk
    by (simp_all add: tx_is_empty_def staged_write_def entry_or_default_def)
  have "op \<notin> set (log_buffer ?st)" for op
  proof
    assume op: "op \<in> set (log_buffer ?st)"
    then obtain i where i: "i < length (log_buffer ?st)" "log_buffer ?st ! i = op"
      by (auto simp: in_set_conv_nth)
    have "row_key op = None"
      using staging_agreesD(4)[OF a(1) i(1)] i(2) staging_agreesD(1)[OF a(1)] none(1) by (cases "row_key op") auto
    then obtain rk where rk: "update_key op = Some rk"
      using a(3) op by (auto simp: log_of_writes_def)
    then have "updates_of rk (log_buffer ?st) \<noteq> []"
      using op by (auto simp: updates_of_def filter_empty_conv)
    then show False
      using none(2)[of rk] deltas_agree_none[OF a(2), of rk] by simp
  qed
  then show "log_buffer ?st = []" by (meson list.set_sel(1))
next
  let ?st = "tx_state m"
  have a: "staging_agrees ?st" "deltas_agree C ?st"
    using assms by (simp_all add: tx_ok_def)
  assume log: "log_buffer ?st = []"
  have none: "staged_write ?st rk = None" for rk
    using staging_agreesD(1,2)[OF a(1), of rk] log by (cases "log_index ?st rk") auto
  have "RBT.lookup (stage_kv_write ?st) k = None" for k
    using none[of "(kv_relation, k)"] by (simp add: tx_get_def)
  moreover have "RBT.lookup (staged_relation_ops ?st) r = None" for r
  proof (rule ccontr)
    assume "RBT.lookup (staged_relation_ops ?st) r \<noteq> None"
    then obtain rows where rows: "RBT.lookup (staged_relation_ops ?st) r = Some rows" by blast
    then obtain k where "RBT.lookup rows k \<noteq> None"
      using relations_properD(2)[OF assms] by blast
    then show False
      using none[of "(r, k)"] relations_properD(1)[OF assms rows] rows
      by (simp add: staged_write_def entry_or_default_def)
  qed
  moreover have "RBT.lookup (staged_relation_deferred_deltas ?st) rk = None" for rk
    using deltas_agree_none[OF a(2), of rk] log by (simp add: updates_of_def)
  ultimately show "tx_is_empty m"
    by (auto simp: tx_is_empty_def fun_eq_iff simp flip: RBT.lookup_empty_empty)
qed


text \<open>No staging call panics, and the staging area answers with the last write of a key.\<close>

lemma kv_write_total:
  assumes "tx_ok C st"
  shows "\<exists>st'. state_kv_write k v op st = Inr st'"
proof (cases "RBT.lookup (kv_log_index st) k")
  case None
  then show ?thesis by (simp add: state_kv_write_def)
next
  case (Some i)
  then have "i < length (log_buffer st)"
    using assms staging_agreesD(2)[of st "(kv_relation, k)" i] by (simp add: tx_ok_def log_index_def)
  then show ?thesis using Some by (simp add: state_kv_write_def index_assign_def)
qed

lemma rel_write_total:
  assumes "tx_ok C st" and "r \<noteq> kv_relation"
  shows "\<exists>st'. stage_rel_write (r, k) v op st = Inr st'"
proof (cases "RBT.lookup (relation_log_index st) (r, k)")
  case None
  then show ?thesis by (simp add: stage_rel_write_def)
next
  case (Some i)
  then have "i < length (log_buffer st)"
    using assms staging_agreesD(2)[of st "(r, k)" i] by (simp add: tx_ok_def log_index_def)
  then show ?thesis using Some by (simp add: stage_rel_write_def index_assign_def)
qed

lemma staging_total:
  assumes "tx_ok C (tx_state m)"
  shows "is_ok (tx_put k v m)" "is_ok (tx_delete k m)"
    and "r \<noteq> kv_relation \<Longrightarrow> is_ok (put_relation r k v m)" "r \<noteq> kv_relation \<Longrightarrow> is_ok (delete_relation r k m)"
  using kv_write_total[OF assms] rel_write_total[OF assms]
  by (auto simp: tx_put_def tx_delete_def put_relation_def delete_relation_def is_ok_iff with_state_mut_Inr)

section \<open>The keys a commit locks\<close>

lemma staged_keys:
  assumes "tx_ok C (tx_state m)"
  shows "set (write_ops (tx_state (build_write_ops m))) = {rk. staged_write (tx_state m) rk \<noteq> None}"
proof -
  let ?st = "tx_state m"
  have "(r, k) \<in> set (write_ops (tx_state (build_write_ops m))) \<longleftrightarrow>
      (r = kv_relation \<and> k \<in> set (RBT.keys (stage_kv_write ?st)))
      \<or> (\<exists>rows. RBT.lookup (staged_relation_ops ?st) r = Some rows \<and> k \<in> set (RBT.keys rows))" for r k
    by (fastforce simp: build_write_ops_def Let_def RBT.lookup_in_tree)
  moreover have "RBT.lookup (staged_relation_ops ?st) kv_relation = None"
    using assms by (simp add: tx_ok_def relations_proper_def)
  ultimately have "(r, k) \<in> set (write_ops (tx_state (build_write_ops m))) \<longleftrightarrow> staged_write ?st (r, k) \<noteq> None" for r k
    by (auto simp: staged_write_def entry_or_default_def simp flip: RBT.lookup_keys split: option.splits)
  then show ?thesis by auto
qed

lemma distinct_relation_keys:
  assumes "distinct (map fst es)" and "\<And>r rows. (r, rows) \<in> set es \<Longrightarrow> distinct (f rows)"
  shows "distinct (concat (map (\<lambda>(r, rows). map (Pair r) (f rows)) es))"
  using assms
proof (induction es)
  case (Cons e es)
  obtain r rows where e: "e = (r, rows)" by (cases e)
  have "r \<notin> fst ` set es" "distinct (f rows)" "distinct (concat (map (\<lambda>(r, rows). map (Pair r) (f rows)) es))"
    using Cons.prems(1) Cons.IH Cons.prems(2) by (auto simp: e)
  then show ?case
    by (force simp: e distinct_map inj_on_def)
qed simp

lemma write_ops_distinct:
  assumes "tx_ok C (tx_state m)"
  shows "sorted (write_ops (tx_state (build_write_ops m)))" "distinct (write_ops (tx_state (build_write_ops m)))"
proof -
  let ?st = "tx_state m"
  have "RBT.lookup (staged_relation_ops ?st) kv_relation = None"
    using assms by (simp add: tx_ok_def relations_proper_def)
  then have "(kv_relation, rows) \<notin> set (RBT.entries (staged_relation_ops ?st))" for rows
    by (simp flip: RBT.lookup_in_tree)
  moreover have "distinct (concat (map (\<lambda>(r, ops). map (Pair r) (RBT.keys ops)) (RBT.entries (staged_relation_ops ?st))))"
    by (rule distinct_relation_keys) (simp_all add: RBT.distinct_entries RBT.distinct_keys)
  ultimately show "distinct (write_ops (tx_state (build_write_ops m)))"
    by (auto simp: build_write_ops_def Let_def distinct_map RBT.distinct_keys inj_on_def)
qed (simp add: build_write_ops_def Let_def)

end
