(* ===== verification/Ts_File.thy ===== *)
theory Ts_File
  imports File_Recovery Wal_Flush "HOL-Library.RBT"
begin

text \<open>
  The time-series file, \<open>storage/time_series/time_series_file.rs\<close> and its \<open>read.rs\<close>, \<open>plan.rs\<close> and \<open>open.rs\<close>: a
  doubly linked chain of pages, newest records first, behind a cache of page images.  A mutation is a plan of page
  images, logged as deltas, then published in the cache and marked dirty; dirty pages reach the data file later.
  The page cache shares images by reference, so an entry carries the identity of its allocation.

  The walks along the chain are given as many steps as the file has pages, and one more; a walk that needs more
  has met a cycle and is a call that does not return.
\<close>

section \<open>State\<close>

record TimeSeriesFile =
  tf_identity :: "PLFileId option"
  tf_file :: "data_file option"
  tf_wal_backend :: "WorkerLogInner option"
  tf_page_cache :: "(PageId, nat \<times> byte list) rbt"
  tf_dirty_pages :: "(PageId, unit) rbt"
  tf_page_count :: u64
  tf_head_page_id :: u64
  tf_tail_page_id :: u64
  tf_tuple_format_version :: u32
  tf_tuple_schema_hash :: u64
  tf_tuple_flags :: u64
  tf_allocations :: nat

type_synonym 'a tsf = "(TimeSeriesFile, 'a) se"

definition raw_page_id :: "PageId option \<Rightarrow> u64" where
  "raw_page_id page_id = (case page_id of Some i \<Rightarrow> i | None \<Rightarrow> NONE_PAGE_ID)"

definition page_id_from_raw :: "u64 \<Rightarrow> PageId option" where
  "page_id_from_raw raw = (if raw = NONE_PAGE_ID then None else Some raw)"

text \<open>A new image in the cache, under a new identity.\<close>

definition cache_image :: "PageId \<Rightarrow> byte list \<Rightarrow> TimeSeriesFile \<Rightarrow> TimeSeriesFile" where
  "cache_image page_id img s =
     s\<lparr>tf_page_cache := RBT.insert page_id (tf_allocations s, img) (tf_page_cache s),
       tf_allocations := Suc (tf_allocations s)\<rparr>"

section \<open>Reading\<close>

definition tsf_read_page :: "PageId \<Rightarrow> byte list tsf" where
  "tsf_read_page page_id s =
     (case RBT.lookup (tf_page_cache s) page_id of
        Some (_, img) \<Rightarrow> (Inr img, s)
      | None \<Rightarrow>
          if tf_page_count s \<le> page_id then (Inl (EC IndexOutOfRange), s)
          else (case bind_rs (ok_or (tf_file s) (EC Internal)) (\<lambda>file.
                     bind_rs (page_offset page_id) (\<lambda>offset. read_exact_at (unat offset) PAGE_SIZE file)) of
                  Inl e \<Rightarrow> (Inl e, s)
                | Inr img \<Rightarrow> (Inr img, cache_image page_id img s)))"

definition walk_steps :: "u64 \<Rightarrow> nat" where
  "walk_steps page_count = Suc (unat page_count)"

fun get_loop :: "ext \<Rightarrow> u64 \<Rightarrow> u64 \<Rightarrow> nat \<Rightarrow> PageId option \<Rightarrow> TimeSeriesRecord option tsf" where
  "get_loop X timestamp tuple_id n None = return_se None"
| "get_loop X timestamp tuple_id 0 (Some page_id) = fail_se Diverge"
| "get_loop X timestamp tuple_id (Suc n) (Some page_id) =
     bind_se (tsf_read_page page_id) (\<lambda>page_buf.
     bind_se (lift_se (pb_try_new X page_buf)) (\<lambda>page.
     bind_se (lift_se (timestamp_bounds X page)) (\<lambda>bounds.
     let onward = bind_se (lift_se (active_next_page X page)) (get_loop X timestamp tuple_id n) in
     case bounds of
       None \<Rightarrow> onward
     | Some (min_ts, max_ts) \<Rightarrow>
         if timestamp > max_ts then return_se None
         else if timestamp < min_ts then onward
         else
           bind_se (lift_se (find_slot_index X page timestamp tuple_id)) (\<lambda>found.
           case found of
             None \<Rightarrow> onward
           | Some slot_index \<Rightarrow>
               bind_se (lift_se (record_bytes X page slot_index)) (\<lambda>payload.
               return_se (Some \<lparr>ts_timestamp = timestamp, ts_tuple_id = tuple_id, ts_payload = payload,
                                 ts_page_id = page_id, ts_slot_index = slot_index\<rparr>))))))"

definition tsf_get :: "ext \<Rightarrow> u64 \<Rightarrow> u64 \<Rightarrow> TimeSeriesRecord option tsf" where
  "tsf_get X timestamp tuple_id s =
     get_loop X timestamp tuple_id (walk_steps (tf_page_count s)) (page_id_from_raw (tf_head_page_id s)) s"

text \<open>The records of a page in slot order, as \<open>page_entries\<close> of \<open>write.rs\<close> and the scan read them.\<close>

definition page_entry :: "ext \<Rightarrow> byte list \<Rightarrow> PageId \<Rightarrow> nat \<Rightarrow> TimeSeriesRecord rs" where
  "page_entry X page page_id slot_index =
     bind_rs (slot_ref X page slot_index) (\<lambda>slot.
     bind_rs (record_bytes X page slot_index) (\<lambda>payload.
     Inr \<lparr>ts_timestamp = ref_timestamp X slot, ts_tuple_id = ref_tuple_id X slot, ts_payload = payload,
           ts_page_id = page_id, ts_slot_index = slot_index\<rparr>))"

definition page_entries :: "ext \<Rightarrow> byte list \<Rightarrow> PageId \<Rightarrow> TimeSeriesRecord list rs" where
  "page_entries X page page_id =
     bind_rs (slot_count X page) (\<lambda>count. map_rs (page_entry X page page_id) [0..<count])"

text \<open>The scan skips a record outside the range before it reads its payload.\<close>

definition scan_slot :: "ext \<Rightarrow> byte list \<Rightarrow> PageId \<Rightarrow> u64 \<Rightarrow> u64 \<Rightarrow> nat \<Rightarrow> TimeSeriesRecord list \<Rightarrow> TimeSeriesRecord list rs" where
  "scan_slot X page page_id begin_ts end_ts slot_index rows =
     bind_rs (slot_ref X page slot_index) (\<lambda>slot.
     let ts = ref_timestamp X slot in
     if ts < begin_ts \<or> ts > end_ts then Inr rows
     else bind_rs (page_entry X page page_id slot_index) (\<lambda>row. Inr (rows @ [row])))"

fun scan_loop :: "ext \<Rightarrow> u64 \<Rightarrow> u64 \<Rightarrow> nat \<Rightarrow> PageId option \<Rightarrow> TimeSeriesRecord list \<Rightarrow> TimeSeriesRecord list tsf" where
  "scan_loop X begin_ts end_ts n None rows = return_se rows"
| "scan_loop X begin_ts end_ts 0 (Some page_id) rows = fail_se Diverge"
| "scan_loop X begin_ts end_ts (Suc n) (Some page_id) rows =
     bind_se (tsf_read_page page_id) (\<lambda>page_buf.
     bind_se (lift_se (pb_try_new X page_buf)) (\<lambda>page.
     bind_se (lift_se (timestamp_bounds X page)) (\<lambda>bounds.
     let onward = (\<lambda>rows. bind_se (lift_se (active_next_page X page)) (\<lambda>p. scan_loop X begin_ts end_ts n p rows)) in
     case bounds of
       None \<Rightarrow> onward rows
     | Some (min_ts, max_ts) \<Rightarrow>
         if max_ts < begin_ts then return_se rows
         else if min_ts \<le> end_ts \<and> max_ts \<ge> begin_ts then
           bind_se (lift_se (slot_count X page)) (\<lambda>count.
           bind_se (lift_se (fold_rs (scan_slot X page page_id begin_ts end_ts) [0..<count] rows)) onward)
         else onward rows)))"

definition record_key :: "TimeSeriesRecord \<Rightarrow> rec_key" where
  "record_key r = (ts_timestamp r, ts_tuple_id r)"

definition tsf_scan_range :: "ext \<Rightarrow> u64 \<Rightarrow> u64 \<Rightarrow> TimeSeriesRecord list tsf" where
  "tsf_scan_range X begin_ts end_ts s =
     (if begin_ts > end_ts then (Inr [], s)
      else bind_se (scan_loop X begin_ts end_ts (walk_steps (tf_page_count s)) (page_id_from_raw (tf_head_page_id s)) [])
        (\<lambda>rows. return_se (sort_key record_key rows)) s)"

section \<open>Mutation plans\<close>

record PlannedPageWrite =
  pw_page_id :: PageId
  pw_image :: "byte list"

record TimeSeriesFileMutationPlan =
  mp_create_file :: bool
  mp_delete_file :: bool
  mp_page_writes :: "PlannedPageWrite list"
  mp_next_page_count :: "PageId option"
  mp_next_head_page_id :: "PageId option option"
  mp_next_tail_page_id :: "PageId option option"

definition plan_default :: TimeSeriesFileMutationPlan where
  "plan_default = \<lparr>mp_create_file = False, mp_delete_file = False, mp_page_writes = [], mp_next_page_count = None,
     mp_next_head_page_id = None, mp_next_tail_page_id = None\<rparr>"

text \<open>The log operation of one planned page, and the batch of a plan.\<close>

definition page_write_op :: "ext \<Rightarrow> PageId \<Rightarrow> PlannedPageWrite \<Rightarrow> PLOp option tsf" where
  "page_write_op X published_page_count w =
     bind_se (lift_se (ensure (length (pw_image w) = PAGE_SIZE) (EC Encode))) (\<lambda>_.
     if pw_page_id w \<ge> published_page_count then
       bind_se (lift_se (page_init_delta X (pw_page_id w) (pw_image w))) (\<lambda>op. return_se (Some op))
     else
       bind_se (tsf_read_page (pw_page_id w)) (\<lambda>old_image.
       lift_se (page_record_delta X (pw_page_id w) old_image (pw_image w))))"

fun page_write_ops :: "ext \<Rightarrow> PageId \<Rightarrow> PlannedPageWrite list \<Rightarrow> PLOp list tsf" where
  "page_write_ops X published_page_count [] = return_se []"
| "page_write_ops X published_page_count (w # ws) =
     bind_se (page_write_op X published_page_count w) (\<lambda>op.
     bind_se (page_write_ops X published_page_count ws) (\<lambda>ops.
     return_se ((case op of Some op \<Rightarrow> [op] | None \<Rightarrow> []) @ ops)))"

definition build_pl_batch :: "ext \<Rightarrow> TimeSeriesFileMutationPlan \<Rightarrow> PLBatch option tsf" where
  "build_pl_batch X plan s =
     (case tf_identity s of
        None \<Rightarrow> (Inr None, s)
      | Some identity \<Rightarrow>
          bind_se (page_write_ops X (tf_page_count s) (mp_page_writes plan)) (\<lambda>page_ops.
          let ops = (if mp_create_file plan then [PLCreate] else []) @ page_ops
                    @ (if mp_delete_file plan then [PLDelete] else []) in
          return_se (if ops = [] then None
                     else Some \<lparr>plb_entries = [\<lparr>ple_file = identity, ple_ops = ops\<rparr>]\<rparr>)) s)"

definition apply_page_write :: "PageId \<Rightarrow> byte list \<Rightarrow> TimeSeriesFile \<Rightarrow> TimeSeriesFile" where
  "apply_page_write page_id page s =
     (cache_image page_id page s)\<lparr>tf_dirty_pages := RBT.insert page_id () (tf_dirty_pages s)\<rparr>"

text \<open>Creating the file leaves the open handle as it is; deleting it closes the handle.\<close>

definition apply_plan :: "TimeSeriesFileMutationPlan \<Rightarrow> unit tsf" where
  "apply_plan plan =
     bind_se (write_se (fold (\<lambda>w. apply_page_write (pw_page_id w) (pw_image w)) (mp_page_writes plan))) (\<lambda>_.
     bind_se (if mp_delete_file plan then
         bind_se (read_se (\<lambda>s. ok_or (tf_file s) (EC Internal))) (\<lambda>_.
         write_se (\<lambda>s. s\<lparr>tf_file := None, tf_page_cache := RBT.empty, tf_dirty_pages := RBT.empty\<rparr>))
       else return_se ()) (\<lambda>_.
     write_se (\<lambda>s. s
       \<lparr>tf_page_count := (case mp_next_page_count plan of Some c \<Rightarrow> c | None \<Rightarrow> tf_page_count s),
        tf_head_page_id := (case mp_next_head_page_id plan of Some h \<Rightarrow> raw_page_id h | None \<Rightarrow> tf_head_page_id s),
        tf_tail_page_id := (case mp_next_tail_page_id plan of Some t \<Rightarrow> raw_page_id t | None \<Rightarrow> tf_tail_page_id s)\<rparr>)))"

text \<open>A call on the log backend of the file.\<close>

definition on_wal :: "'a wal \<Rightarrow> 'a tsf" where
  "on_wal m s =
     (case tf_wal_backend s of
        None \<Rightarrow> (Inl (EC Internal), s)
      | Some w \<Rightarrow> (case m w of (r, w') \<Rightarrow> (r, s\<lparr>tf_wal_backend := Some w'\<rparr>)))"

definition seal_write :: "ext \<Rightarrow> LSN option \<Rightarrow> PlannedPageWrite \<Rightarrow> PlannedPageWrite rs" where
  "seal_write X lsn w =
     bind_rs (case lsn of
         Some start_lsn \<Rightarrow> exec_se (stamp_page_image_lsn X start_lsn) (pw_image w)
       | None \<Rightarrow> Inr (pw_image w)) (\<lambda>img.
     bind_rs (exec_se (finalize_page_image_checksum X) img) (\<lambda>img. Inr (w\<lparr>pw_image := img\<rparr>)))"

definition persist_plan :: "ext \<Rightarrow> PLBatch entry_codec \<Rightarrow> TimeSeriesFileMutationPlan \<Rightarrow> unit tsf" where
  "persist_plan X C plan =
     bind_se (build_pl_batch X plan) (\<lambda>batch.
     bind_se (case batch of
         Some batch \<Rightarrow>
           bind_se (on_wal (backend_serialize_entry X C batch)) (\<lambda>frames.
           bind_se (lift_se (frame_lsns X frames)) (\<lambda>lsns.
           bind_se (lift_se (ok_or (case lsns of [] \<Rightarrow> None | l # _ \<Rightarrow> Some l) (EC Internal))) (\<lambda>start_lsn.
           bind_se (lift_se (map_rs (seal_write X (Some start_lsn)) (mp_page_writes plan))) (\<lambda>writes.
           bind_se (on_wal (enqueue_group_commit frames lsns False)) (\<lambda>_. return_se writes)))))
       | None \<Rightarrow> lift_se (map_rs (seal_write X None) (mp_page_writes plan))) (\<lambda>writes.
     apply_plan (plan\<lparr>mp_page_writes := writes\<rparr>)))"

end
