(* ===== verification/Ts_Write.thy ===== *)
theory Ts_Write
  imports Ts_File
begin

text \<open>
  Writing to a time-series file, \<open>time_series_file/write.rs\<close>: rows are planned one after the other against an overlay
  of pending page images, and the merged plan is persisted once; and the write-back of dirty pages and the opening
  of a file, \<open>time_series_file.rs\<close> and \<open>open.rs\<close>.
\<close>

section \<open>The overlay of one batch\<close>

datatype PageInsertLocation =
    Existing PageId
  | HeadLatest PageId
  | Before PageId
  | After PageId
  | EmptyFile

record WriteOverlay =
  ov_file :: TimeSeriesFile
  ov_page_images :: "(PageId, byte list) rbt"
  ov_page_count :: PageId
  ov_head_page_id :: "PageId option"
  ov_tail_page_id :: "PageId option"

type_synonym 'a ovm = "(WriteOverlay, 'a) se"

definition overlay_new :: "TimeSeriesFile \<Rightarrow> WriteOverlay" where
  "overlay_new file = \<lparr>ov_file = file, ov_page_images = RBT.empty, ov_page_count = tf_page_count file,
     ov_head_page_id = page_id_from_raw (tf_head_page_id file),
     ov_tail_page_id = page_id_from_raw (tf_tail_page_id file)\<rparr>"

definition alloc_page_id :: "PageId ovm" where
  "alloc_page_id ov =
     (if ov_page_count ov = U64_MAX then (Inl Panic, ov)
      else (Inr (ov_page_count ov), ov\<lparr>ov_page_count := ov_page_count ov + 1\<rparr>))"

definition on_file :: "'a tsf \<Rightarrow> 'a ovm" where
  "on_file m ov = (case m (ov_file ov) of (r, f) \<Rightarrow> (r, ov\<lparr>ov_file := f\<rparr>))"

definition ov_read_page :: "PageId \<Rightarrow> byte list ovm" where
  "ov_read_page page_id ov =
     (case RBT.lookup (ov_page_images ov) page_id of
        Some img \<Rightarrow> (Inr img, ov)
      | None \<Rightarrow> on_file (tsf_read_page page_id) ov)"

definition write_page_image :: "PageId \<Rightarrow> byte list \<Rightarrow> unit ovm" where
  "write_page_image page_id img = write_se (\<lambda>ov. ov\<lparr>ov_page_images := RBT.insert page_id img (ov_page_images ov)\<rparr>)"

definition take_page_for_mutation :: "PageId \<Rightarrow> byte list ovm" where
  "take_page_for_mutation page_id ov =
     (case RBT.lookup (ov_page_images ov) page_id of
        Some img \<Rightarrow> (Inr img, ov\<lparr>ov_page_images := RBT.delete page_id (ov_page_images ov)\<rparr>)
      | None \<Rightarrow> on_file (tsf_read_page page_id) ov)"

definition into_plan :: "WriteOverlay \<Rightarrow> TimeSeriesFileMutationPlan" where
  "into_plan ov =
     (let file = ov_file ov in
      plan_default
        \<lparr>mp_page_writes := map (\<lambda>(page_id, img). \<lparr>pw_page_id = page_id, pw_image = img\<rparr>) (RBT.entries (ov_page_images ov)),
         mp_next_page_count := (if ov_page_count ov \<noteq> tf_page_count file then Some (ov_page_count ov) else None),
         mp_next_head_page_id := (if ov_head_page_id ov \<noteq> page_id_from_raw (tf_head_page_id file)
                                  then Some (ov_head_page_id ov) else None),
         mp_next_tail_page_id := (if ov_tail_page_id ov \<noteq> page_id_from_raw (tf_tail_page_id file)
                                  then Some (ov_tail_page_id ov) else None)\<rparr>)"

section \<open>Finding the page of a record\<close>

fun locate_loop :: "ext \<Rightarrow> u64 \<Rightarrow> nat \<Rightarrow> PageId \<Rightarrow> PageId option \<Rightarrow> bool \<Rightarrow> PageInsertLocation ovm" where
  "locate_loop X timestamp 0 current last_non_empty is_head = fail_se Diverge"
| "locate_loop X timestamp (Suc n) current last_non_empty is_head =
     bind_se (ov_read_page current) (\<lambda>page_buf.
     bind_se (lift_se (pb_try_new X page_buf)) (\<lambda>page.
     bind_se (lift_se (timestamp_bounds X page)) (\<lambda>bounds.
     let onward = (\<lambda>last_non_empty.
       bind_se (lift_se (active_next_page X page)) (\<lambda>next_page.
       case next_page of
         Some p \<Rightarrow> locate_loop X timestamp n p last_non_empty False
       | None \<Rightarrow> return_se (After (case last_non_empty of Some p \<Rightarrow> p | None \<Rightarrow> current)))) in
     case bounds of
       None \<Rightarrow> onward last_non_empty
     | Some (min_ts, max_ts) \<Rightarrow>
         if timestamp > max_ts then return_se (if is_head then HeadLatest current else Before current)
         else if timestamp \<ge> min_ts then return_se (Existing current)
         else onward (Some current))))"

definition find_insert_location :: "ext \<Rightarrow> u64 \<Rightarrow> PageInsertLocation ovm" where
  "find_insert_location X timestamp ov =
     (case ov_head_page_id ov of
        None \<Rightarrow> (Inr EmptyFile, ov)
      | Some current \<Rightarrow> locate_loop X timestamp (walk_steps (ov_page_count ov)) current None True ov)"

section \<open>Planning one row\<close>

definition file_empty_page :: "ext \<Rightarrow> PageId \<Rightarrow> byte list ovm" where
  "file_empty_page X page_id ov =
     (let f = ov_file ov in
      (empty_page_image X page_id (tf_tuple_format_version f) (tf_tuple_schema_hash f) (tf_tuple_flags f), ov))"

text \<open>Changing one link of a neighbour: \<open>relink_prev\<close> keeps its next page, \<open>relink_next\<close> its previous page.\<close>

definition relink_prev :: "ext \<Rightarrow> PageId \<Rightarrow> byte list \<Rightarrow> byte list rs" where
  "relink_prev X prev_page buf =
     bind_rs (pb_try_new X buf) (\<lambda>page. bind_rs (pb_header X page) (\<lambda>header.
     exec_se (set_page_links X prev_page (ph_next_page header)) buf))"

definition relink_next :: "ext \<Rightarrow> PageId \<Rightarrow> byte list \<Rightarrow> byte list rs" where
  "relink_next X next_page buf =
     bind_rs (pb_try_new X buf) (\<lambda>page. bind_rs (pb_header X page) (\<lambda>header.
     exec_se (set_page_links X (ph_prev_page header) next_page) buf))"

definition plan_insert_before_page :: "ext \<Rightarrow> PageId \<Rightarrow> u64 \<Rightarrow> u64 \<Rightarrow> byte list \<Rightarrow> unit ovm" where
  "plan_insert_before_page X next_page_id timestamp tuple_id payload =
     bind_se alloc_page_id (\<lambda>page_id.
     bind_se (ov_read_page next_page_id) (\<lambda>next_page_buf.
     bind_se (lift_se (bind_rs (pb_try_new X next_page_buf) (active_prev_page X))) (\<lambda>prev_page_id.
     bind_se (file_empty_page X page_id) (\<lambda>new_page_buf.
     bind_se (lift_se (exec_se (set_page_links X (raw_page_id prev_page_id) next_page_id) new_page_buf)) (\<lambda>new_page_buf.
     bind_se (lift_se (exec_se (insert_record X timestamp tuple_id payload) new_page_buf)) (\<lambda>new_page_buf.
     bind_se (lift_se (relink_prev X page_id next_page_buf)) (\<lambda>updated_next_buf.
     bind_se (write_page_image page_id new_page_buf) (\<lambda>_.
     bind_se (write_page_image next_page_id updated_next_buf) (\<lambda>_.
     case prev_page_id of
       Some prev_page_id \<Rightarrow>
         bind_se (ov_read_page prev_page_id) (\<lambda>prev_page_buf.
         bind_se (lift_se (relink_next X page_id prev_page_buf)) (\<lambda>updated_prev_buf.
         write_page_image prev_page_id updated_prev_buf))
     | None \<Rightarrow> write_se (\<lambda>ov. ov\<lparr>ov_head_page_id := Some page_id\<rparr>))))))))))"

definition plan_insert_after_page :: "ext \<Rightarrow> PageId \<Rightarrow> u64 \<Rightarrow> u64 \<Rightarrow> byte list \<Rightarrow> unit ovm" where
  "plan_insert_after_page X prev_page_id timestamp tuple_id payload =
     bind_se alloc_page_id (\<lambda>page_id.
     bind_se (ov_read_page prev_page_id) (\<lambda>prev_page_buf.
     bind_se (lift_se (bind_rs (pb_try_new X prev_page_buf) (active_next_page X))) (\<lambda>next_page_id.
     bind_se (file_empty_page X page_id) (\<lambda>new_page_buf.
     bind_se (lift_se (exec_se (set_page_links X prev_page_id (raw_page_id next_page_id)) new_page_buf)) (\<lambda>new_page_buf.
     bind_se (lift_se (exec_se (insert_record X timestamp tuple_id payload) new_page_buf)) (\<lambda>new_page_buf.
     bind_se (lift_se (relink_next X page_id prev_page_buf)) (\<lambda>updated_prev_buf.
     bind_se (write_page_image page_id new_page_buf) (\<lambda>_.
     bind_se (write_page_image prev_page_id updated_prev_buf) (\<lambda>_.
     bind_se (case next_page_id of
         Some next_page_id \<Rightarrow>
           bind_se (ov_read_page next_page_id) (\<lambda>next_page_buf.
           bind_se (lift_se (relink_prev X page_id next_page_buf)) (\<lambda>updated_next_buf.
           write_page_image next_page_id updated_next_buf))
       | None \<Rightarrow> write_se (\<lambda>ov. ov\<lparr>ov_tail_page_id := Some page_id\<rparr>)) (\<lambda>_.
     write_se (\<lambda>ov. if ov_head_page_id ov = None then ov\<lparr>ov_head_page_id := Some page_id\<rparr> else ov)))))))))))"

definition plan_update_in_page :: "ext \<Rightarrow> PageId \<Rightarrow> nat \<Rightarrow> u64 \<Rightarrow> u64 \<Rightarrow> byte list \<Rightarrow> unit ovm" where
  "plan_update_in_page X page_id slot_index timestamp tuple_id payload =
     bind_se (take_page_for_mutation page_id) (\<lambda>page_buf.
     bind_se (lift_se (exec_se (update_record X slot_index timestamp tuple_id payload) page_buf)) (\<lambda>page_buf.
     write_page_image page_id page_buf))"

text \<open>The first position at which both halves of the records fit into a page.\<close>

definition find_split_index :: "ext \<Rightarrow> TimeSeriesRecord list \<Rightarrow> nat rs" where
  "find_split_index X entries =
     ok_or (List.find (\<lambda>split_at. page_entries_fit X (take split_at entries) \<and> page_entries_fit X (drop split_at entries))
       [1..<length entries]) (EC InsufficientBufferSpace)"

definition plan_split_insert_full_page :: "ext \<Rightarrow> PageId \<Rightarrow> u64 \<Rightarrow> u64 \<Rightarrow> byte list \<Rightarrow> unit ovm" where
  "plan_split_insert_full_page X page_id timestamp tuple_id payload =
     bind_se (ov_read_page page_id) (\<lambda>page_buf.
     bind_se (lift_se (pb_try_new X page_buf)) (\<lambda>page.
     bind_se (lift_se (page_entries X page page_id)) (\<lambda>old_entries.
     let entries = sort_key record_key (old_entries @ [\<lparr>ts_timestamp = timestamp, ts_tuple_id = tuple_id,
       ts_payload = payload, ts_page_id = page_id, ts_slot_index = 0\<rparr>]) in
     bind_se (lift_se (find_split_index X entries)) (\<lambda>split_at.
     bind_se (lift_se (pb_header X page)) (\<lambda>header.
     bind_se (lift_se (active_next_page X page)) (\<lambda>old_next_page_id.
     bind_se alloc_page_id (\<lambda>new_page_id.
     bind_se (read_se (\<lambda>ov. Inr (ov_file ov))) (\<lambda>f.
     bind_se (lift_se (build_entries_page_image X page_id (ph_prev_page header) new_page_id (drop split_at entries)
       (tf_tuple_format_version f) (tf_tuple_schema_hash f) (tf_tuple_flags f))) (\<lambda>current_page_buf.
     bind_se (lift_se (build_entries_page_image X new_page_id page_id (raw_page_id old_next_page_id) (take split_at entries)
       (tf_tuple_format_version f) (tf_tuple_schema_hash f) (tf_tuple_flags f))) (\<lambda>new_page_buf.
     bind_se (write_page_image page_id current_page_buf) (\<lambda>_.
     bind_se (write_page_image new_page_id new_page_buf) (\<lambda>_.
     case old_next_page_id of
       Some next_page_id \<Rightarrow>
         bind_se (ov_read_page next_page_id) (\<lambda>next_page_buf.
         bind_se (lift_se (relink_prev X new_page_id next_page_buf)) (\<lambda>updated_next_buf.
         write_page_image next_page_id updated_next_buf))
     | None \<Rightarrow> write_se (\<lambda>ov. ov\<lparr>ov_tail_page_id := Some new_page_id\<rparr>)))))))))))))"

definition check_schema_hash :: "ext \<Rightarrow> byte list \<Rightarrow> unit ovm" where
  "check_schema_hash X page ov =
     (let expected = tf_tuple_schema_hash (ov_file ov) in
      (if expected \<noteq> 0 then
         bind_rs (pb_header X page) (\<lambda>header. ensure (\<not> ph_tuple_schema_hash header \<noteq> expected) (EC Decode))
       else Inr (), ov))"

definition plan_insert_in_page :: "ext \<Rightarrow> bool \<Rightarrow> PageId \<Rightarrow> u64 \<Rightarrow> u64 \<Rightarrow> byte list \<Rightarrow> unit ovm" where
  "plan_insert_in_page X head_latest page_id timestamp tuple_id payload =
     bind_se (ov_read_page page_id) (\<lambda>page_buf.
     bind_se (lift_se (pb_try_new X page_buf)) (\<lambda>page.
     bind_se (check_schema_hash X page) (\<lambda>_.
     bind_se (lift_se (find_slot_index X page timestamp tuple_id)) (\<lambda>update_slot_index.
     case update_slot_index of
       Some slot_index \<Rightarrow> plan_update_in_page X page_id slot_index timestamp tuple_id payload
     | None \<Rightarrow>
         bind_se (take_page_for_mutation page_id) (\<lambda>page_buf.
         let (insert_result, page_buf) = insert_record X timestamp tuple_id payload page_buf in
         bind_se (write_page_image page_id page_buf) (\<lambda>_.
         case insert_result of
           Inr _ \<Rightarrow> return_se ()
         | Inl err \<Rightarrow>
             if err = EC InsufficientBufferSpace then
               (if head_latest then plan_insert_before_page X page_id timestamp tuple_id payload
                else plan_split_insert_full_page X page_id timestamp tuple_id payload)
             else fail_se err))))))"

definition plan_first_page :: "ext \<Rightarrow> u64 \<Rightarrow> u64 \<Rightarrow> byte list \<Rightarrow> unit ovm" where
  "plan_first_page X timestamp tuple_id payload =
     bind_se alloc_page_id (\<lambda>page_id.
     bind_se (file_empty_page X page_id) (\<lambda>page_buf.
     bind_se (lift_se (exec_se (insert_record X timestamp tuple_id payload) page_buf)) (\<lambda>page_buf.
     bind_se (write_page_image page_id page_buf) (\<lambda>_.
     write_se (\<lambda>ov. ov\<lparr>ov_head_page_id := Some page_id, ov_tail_page_id := Some page_id\<rparr>)))))"

definition plan_row_insert :: "ext \<Rightarrow> u64 \<times> u64 \<times> byte list \<Rightarrow> unit ovm" where
  "plan_row_insert X row =
     (case row of (timestamp, tuple_id, payload) \<Rightarrow>
      bind_se (find_insert_location X timestamp) (\<lambda>location.
      case location of
        EmptyFile \<Rightarrow> plan_first_page X timestamp tuple_id payload
      | Existing page_id \<Rightarrow> plan_insert_in_page X False page_id timestamp tuple_id payload
      | HeadLatest page_id \<Rightarrow> plan_insert_in_page X True page_id timestamp tuple_id payload
      | Before next_page_id \<Rightarrow> plan_insert_before_page X next_page_id timestamp tuple_id payload
      | After prev_page_id \<Rightarrow> plan_insert_after_page X prev_page_id timestamp tuple_id payload))"

section \<open>Writing back dirty pages\<close>

text \<open>The outcome of the page writes of a flush: a failing write stops after a prefix of the page.\<close>

type_synonym page_faults = "PageId \<Rightarrow> (fault \<times> nat) option"
type_synonym DirtyPageWrite = "PageId \<times> nat \<times> byte list"

definition write_dirty_page :: "page_faults \<Rightarrow> u64 \<Rightarrow> DirtyPageWrite \<Rightarrow> unit tsf" where
  "write_dirty_page F offset w s =
     (case w of (page_id, _, persisted) \<Rightarrow>
      case F page_id of
        None \<Rightarrow> (Inr (), s\<lparr>tf_file := map_option (Page_Delta.write_all_at (unat offset) persisted) (tf_file s)\<rparr>)
      | Some (e, n) \<Rightarrow> (Inl e, s\<lparr>tf_file := map_option (Page_Delta.write_all_at (unat offset) (take n persisted)) (tf_file s)\<rparr>))"

definition dirty_page_images :: "TimeSeriesFile \<Rightarrow> (PageId \<times> nat \<times> byte list) list \<times> TimeSeriesFile" where
  "dirty_page_images s =
     (let cached = (\<lambda>page_id. RBT.lookup (tf_page_cache s) page_id);
          marked = RBT.keys (tf_dirty_pages s) in
      (map (\<lambda>page_id. (page_id, the (cached page_id))) (filter (\<lambda>page_id. cached page_id \<noteq> None) marked),
       s\<lparr>tf_dirty_pages := fold RBT.delete (filter (\<lambda>page_id. cached page_id = None) marked) (tf_dirty_pages s)\<rparr>))"

definition clear_dirty_mark :: "PageId \<Rightarrow> nat \<Rightarrow> TimeSeriesFile \<Rightarrow> TimeSeriesFile" where
  "clear_dirty_mark page_id flushed s =
     (if map_option fst (RBT.lookup (tf_page_cache s) page_id) = Some flushed
      then s\<lparr>tf_dirty_pages := RBT.delete page_id (tf_dirty_pages s)\<rparr> else s)"

definition keep_first :: "fault option \<Rightarrow> 'a rs \<Rightarrow> fault option" where
  "keep_first first_err r = (case first_err of Some e \<Rightarrow> Some e | None \<Rightarrow> (case r of Inl e \<Rightarrow> Some e | Inr _ \<Rightarrow> None))"

definition first_err_result :: "fault option \<Rightarrow> unit rs" where
  "first_err_result first_err = (case first_err of Some e \<Rightarrow> Inl e | None \<Rightarrow> Inr ())"

text \<open>All writes of a batch are awaited before the marks are cleared.\<close>

fun write_dirty_pages :: "page_faults \<Rightarrow> (u64 \<times> DirtyPageWrite) list \<Rightarrow> TimeSeriesFile \<Rightarrow> unit rs list \<times> TimeSeriesFile" where
  "write_dirty_pages F [] s = ([], s)"
| "write_dirty_pages F ((offset, w) # ws) s =
     (let (r, s) = write_dirty_page F offset w s; (rs, s) = write_dirty_pages F ws s in (r # rs, s))"

fun clear_flushed :: "DirtyPageWrite list \<Rightarrow> unit rs list \<Rightarrow> fault option \<Rightarrow> TimeSeriesFile \<Rightarrow> fault option \<times> TimeSeriesFile" where
  "clear_flushed ((page_id, arc, _) # batch) (Inr _ # results) first_err s =
     clear_flushed batch results first_err (clear_dirty_mark page_id arc s)"
| "clear_flushed (w # batch) (Inl e # results) first_err s = clear_flushed batch results (keep_first first_err (Inl e :: unit rs)) s"
| "clear_flushed _ _ first_err s = (first_err, s)"

text \<open>The result and the batch left over: it is not emptied when an offset overflows.\<close>

definition flush_dirty_batch ::
  "page_faults \<Rightarrow> DirtyPageWrite list \<Rightarrow> TimeSeriesFile \<Rightarrow> unit rs \<times> DirtyPageWrite list \<times> TimeSeriesFile" where
  "flush_dirty_batch F batch s =
     (case map_rs (\<lambda>(page_id, _). page_offset page_id) batch of
        Inl e \<Rightarrow> (Inl e, batch, s)
      | Inr offsets \<Rightarrow>
          let (results, s) = write_dirty_pages F (zip offsets batch) s;
              (first_err, s) = clear_flushed batch results None s in
          (first_err_result first_err, [], s))"

definition DIRTY_FLUSH_BATCH :: nat where "DIRTY_FLUSH_BATCH = 16"

fun flush_sweep :: "ext \<Rightarrow> page_faults \<Rightarrow> (PageId \<times> nat \<times> byte list) list \<Rightarrow> DirtyPageWrite list \<Rightarrow> fault option \<Rightarrow> unit tsf" where
  "flush_sweep X F [] batch first_err s =
     (if batch = [] then (first_err_result first_err, s)
      else case flush_dirty_batch F batch s of (r, _, s) \<Rightarrow> (first_err_result (keep_first first_err r), s))"
| "flush_sweep X F ((page_id, arc, img) # rest) batch first_err s =
     (case persisted_page_image X img of
        Inl (EC e) \<Rightarrow> flush_sweep X F rest batch (keep_first first_err (Inl (EC e) :: unit rs)) s
      | Inl e \<Rightarrow> (Inl e, s)
      | Inr persisted \<Rightarrow>
          let batch = batch @ [(page_id, arc, persisted)] in
          if length batch \<ge> DIRTY_FLUSH_BATCH then
            (case flush_dirty_batch F batch s of (r, batch, s) \<Rightarrow> flush_sweep X F rest batch (keep_first first_err r) s)
          else flush_sweep X F rest batch first_err s)"

definition flush_dirty_pages :: "ext \<Rightarrow> page_faults \<Rightarrow> unit tsf" where
  "flush_dirty_pages X F s =
     (if RBT.is_empty (tf_dirty_pages s) then (Inr (), s)
      else if tf_file s = None then (Inl (EC Internal), s)
      else let (images, s) = dirty_page_images s in flush_sweep X F images [] None s)"

definition DIRTY_PAGE_FLUSH_THRESHOLD :: nat where "DIRTY_PAGE_FLUSH_THRESHOLD = 256"

definition flush_dirty_pages_if_over_threshold :: "ext \<Rightarrow> page_faults \<Rightarrow> unit tsf" where
  "flush_dirty_pages_if_over_threshold X F s =
     (if length (RBT.keys (tf_dirty_pages s)) \<ge> DIRTY_PAGE_FLUSH_THRESHOLD then flush_dirty_pages X F s else (Inr (), s))"

section \<open>Insertion and deletion\<close>

definition insert_batch :: "ext \<Rightarrow> PLBatch entry_codec \<Rightarrow> page_faults \<Rightarrow> (u64 \<times> u64 \<times> byte list) list \<Rightarrow> unit tsf" where
  "insert_batch X C F rows s =
     (if rows = [] then (Inr (), s)
      else case fold_se (plan_row_insert X) rows (overlay_new s) of
        (Inl e, ov) \<Rightarrow> (Inl e, ov_file ov)
      | (Inr _, ov) \<Rightarrow>
          bind_se (persist_plan X C (into_plan ov)) (\<lambda>_. flush_dirty_pages_if_over_threshold X F) (ov_file ov))"

fun delete_loop :: "ext \<Rightarrow> PLBatch entry_codec \<Rightarrow> u64 \<Rightarrow> u64 \<Rightarrow> nat \<Rightarrow> PageId option \<Rightarrow> bool tsf" where
  "delete_loop X C timestamp tuple_id n None = return_se False"
| "delete_loop X C timestamp tuple_id 0 (Some page_id) = fail_se Diverge"
| "delete_loop X C timestamp tuple_id (Suc n) (Some page_id) =
     bind_se (tsf_read_page page_id) (\<lambda>page_buf.
     bind_se (lift_se (pb_try_new X page_buf)) (\<lambda>page.
     bind_se (lift_se (timestamp_bounds X page)) (\<lambda>bounds.
     let onward = bind_se (lift_se (active_next_page X page)) (delete_loop X C timestamp tuple_id n) in
     case bounds of
       None \<Rightarrow> onward
     | Some (min_ts, max_ts) \<Rightarrow>
         if timestamp > max_ts then return_se False
         else if timestamp < min_ts then onward
         else
           bind_se (lift_se (find_slot_index X page timestamp tuple_id)) (\<lambda>found.
           case found of
             None \<Rightarrow> onward
           | Some slot_index \<Rightarrow>
               bind_se (lift_se (exec_se (delete_record X slot_index) page_buf)) (\<lambda>page_buf.
               bind_se (persist_plan X C
                 (plan_default\<lparr>mp_page_writes := [\<lparr>pw_page_id = page_id, pw_image = page_buf\<rparr>]\<rparr>)) (\<lambda>_.
               return_se True))))))"

definition tsf_delete :: "ext \<Rightarrow> PLBatch entry_codec \<Rightarrow> page_faults \<Rightarrow> u64 \<Rightarrow> u64 \<Rightarrow> bool tsf" where
  "tsf_delete X C F timestamp tuple_id s =
     bind_se (delete_loop X C timestamp tuple_id (walk_steps (tf_page_count s)) (page_id_from_raw (tf_head_page_id s)))
       (\<lambda>deleted. bind_se (flush_dirty_pages_if_over_threshold X F) (\<lambda>_. return_se deleted)) s"

section \<open>Opening a file\<close>

definition load_page :: "ext \<Rightarrow> data_file \<Rightarrow> PageId \<Rightarrow> byte list rs" where
  "load_page X file page_id =
     bind_rs (page_offset page_id) (\<lambda>offset. bind_rs (read_exact_at (unat offset) PAGE_SIZE file) (pb_try_new X))"

definition load_header :: "ext \<Rightarrow> data_file \<Rightarrow> u64 \<Rightarrow> PageId \<Rightarrow> PageHeader rs" where
  "load_header X file expected_schema_hash page_id =
     bind_rs (load_page X file page_id) (\<lambda>page.
     bind_rs (validate_layout X page) (\<lambda>_.
     bind_rs (pb_header X page) (\<lambda>header.
     bind_rs (ensure (\<not> (expected_schema_hash \<noteq> 0 \<and> ph_tuple_format_version header = 0)) (EC Decode)) (\<lambda>_.
     bind_rs (ensure (\<not> (expected_schema_hash \<noteq> 0 \<and> ph_tuple_schema_hash header \<noteq> expected_schema_hash)) (EC Decode)) (\<lambda>_.
     Inr header)))))"

text \<open>The walk over the chain: the pages visited so far stop it from running in a cycle.\<close>

fun chain_loop :: "ext \<Rightarrow> data_file \<Rightarrow> PageHeader list \<Rightarrow> nat \<Rightarrow> PageId \<Rightarrow> bool list \<Rightarrow> u64 option \<Rightarrow> bool list rs" where
  "chain_loop X file headers 0 current visited prev_min = Inl Diverge"
| "chain_loop X file headers (Suc n) current visited prev_min =
     bind_rs (index_at (unat current) visited) (\<lambda>seen.
     bind_rs (ensure (\<not> seen) (EC Decode)) (\<lambda>_.
     let visited = visited[unat current := True] in
     bind_rs (index_at (unat current) headers) (\<lambda>header.
     let next_page = ph_next_page header in
     bind_rs (if next_page \<noteq> NONE_PAGE_ID then
         bind_rs (index_at (unat next_page) headers) (\<lambda>next_header. ensure (\<not> ph_prev_page next_header \<noteq> current) (EC Decode))
       else Inr ()) (\<lambda>_.
     bind_rs (load_page X file current) (\<lambda>page.
     bind_rs (timestamp_bounds X page) (\<lambda>bounds.
     bind_rs (case bounds of
         None \<Rightarrow> Inr prev_min
       | Some (min_ts, page_max) \<Rightarrow>
           bind_rs (ensure (\<not> (case prev_min of Some m \<Rightarrow> page_max > m | None \<Rightarrow> False)) (EC Decode)) (\<lambda>_.
           Inr (Some min_ts))) (\<lambda>prev_min.
     if next_page \<noteq> NONE_PAGE_ID then chain_loop X file headers n next_page visited prev_min
     else Inr visited)))))))"

definition load_chain_metadata :: "ext \<Rightarrow> data_file \<Rightarrow> u64 \<Rightarrow> u64 \<Rightarrow> (PageId option \<times> PageId option) rs" where
  "load_chain_metadata X file page_count expected_schema_hash =
     (if page_count = 0 then Inr (None, None)
      else
      bind_rs (map_rs (\<lambda>i. load_header X file expected_schema_hash (of_nat i)) [0..<unat page_count]) (\<lambda>headers.
      let heads = map ph_page_id (filter (\<lambda>h. ph_prev_page h = NONE_PAGE_ID) headers);
          tails = map ph_page_id (filter (\<lambda>h. ph_next_page h = NONE_PAGE_ID) headers) in
      bind_rs (ensure (\<not> (length heads \<noteq> 1 \<or> length tails \<noteq> 1)) (EC Decode)) (\<lambda>_.
      bind_rs (chain_loop X file headers (walk_steps page_count) (hd heads) (replicate (unat page_count) False) None) (\<lambda>visited.
      bind_rs (ensure (\<forall>seen \<in> set visited. seen) (EC Decode)) (\<lambda>_.
      Inr (Some (hd heads), Some (hd tails)))))))"

definition open_inner :: "ext \<Rightarrow> data_file \<Rightarrow> PLFileId option \<Rightarrow> WorkerLogInner option \<Rightarrow> u64 \<Rightarrow> TimeSeriesFile rs" where
  "open_inner X file identity wal_backend tuple_schema_hash =
     bind_rs (ensure (\<not> file_len file mod PAGE_SIZE \<noteq> 0) (EC Decode)) (\<lambda>_.
     let page_count = of_nat (file_len file div PAGE_SIZE) in
     bind_rs (load_chain_metadata X file page_count tuple_schema_hash) (\<lambda>(head_page_id, tail_page_id).
     Inr \<lparr>tf_identity = identity, tf_file = Some file, tf_wal_backend = wal_backend, tf_page_cache = RBT.empty,
           tf_dirty_pages = RBT.empty, tf_page_count = page_count, tf_head_page_id = raw_page_id head_page_id,
           tf_tail_page_id = raw_page_id tail_page_id,
           tf_tuple_format_version = (if tuple_schema_hash \<noteq> 0 then 1 else 0),
           tf_tuple_schema_hash = tuple_schema_hash, tf_tuple_flags = 0, tf_allocations = 0\<rparr>))"

text \<open>A relation's file: its log is replayed against the data file, which is created when it is missing.\<close>

definition open_relation_file ::
  "ext \<Rightarrow> PLBatch entry_codec \<Rightarrow> faults \<Rightarrow> WorkerLogLayout \<Rightarrow> os \<Rightarrow> PLFileId \<Rightarrow> u64 \<Rightarrow> bool \<Rightarrow>
     data_file option \<Rightarrow> TimeSeriesFile rs" where
  "open_relation_file X C F L w identity tuple_schema_hash create_if_missing disk_file =
     bind_rs (backend_new X L w) (\<lambda>wal_backend.
     bind_rs (exec_se (typed_recover X C L (os_files (wi_os wal_backend)) (handle_entry X identity) (return_se ())) disk_file) (\<lambda>disk_file.
     bind_rs (if create_if_missing \<and> disk_file = None then
         exec_se (bind_se (backend_serialize_entry X C \<lparr>plb_entries = [\<lparr>ple_file = identity, ple_ops = [PLCreate]\<rparr>]\<rparr>)
           (append_frames X F)) wal_backend
       else Inr wal_backend) (\<lambda>wal_backend.
     bind_rs (ok_or (if create_if_missing then Some (case disk_file of Some f \<Rightarrow> f | None \<Rightarrow> []) else disk_file) (EC Io)) (\<lambda>file.
     open_inner X file (Some identity) (Some wal_backend) tuple_schema_hash))))"

end
