(* ===== verification/Ts_Page.thy ===== *)
theory Ts_Page
  imports Ts_Write
begin

text \<open>
  Pages as the time-series file uses them: \<open>page_is\<close> says which records, links and tuple metadata an image holds,
  and each page operation is a rule on that predicate.
\<close>

section \<open>Sorted record lists\<close>

definition upsert_rec :: "rec \<Rightarrow> rec list \<Rightarrow> rec list" where
  "upsert_rec r rs = insort_key fst r (filter (\<lambda>x. fst x \<noteq> fst r) rs)"

lemma map_of_insort:
  assumes "k \<notin> fst ` set rs"
  shows "map_of (insort_key fst (k, v) rs) = (map_of rs)(k \<mapsto> v)"
  using assms by (induction rs) (auto simp: fun_upd_twist)

lemma map_of_filter_key: "map_of (filter (\<lambda>x. fst x \<noteq> k) rs) = (map_of rs)(k := None)"
  by (induction rs) (auto simp: fun_eq_iff)

lemma set_upsert_rec: "set (upsert_rec r rs) = insert r {x \<in> set rs. fst x \<noteq> fst r}"
  by (simp add: upsert_rec_def set_insort_key)

lemma upsert_rec_not_Nil [simp]: "upsert_rec r rs \<noteq> []"
  by (simp add: upsert_rec_def)

lemma keys_ok_upsert:
  assumes "keys_ok rs"
  shows "keys_ok (upsert_rec r rs)"
proof -
  let ?rs = "filter (\<lambda>x. fst x \<noteq> fst r) rs"
  have "sorted (map fst ?rs)" "distinct (map fst ?rs)"
    using assms by (simp_all add: keys_ok_def sorted_filter distinct_map_filter)
  moreover have "fst r \<notin> fst ` set ?rs" by auto
  ultimately show ?thesis
    by (simp add: keys_ok_def upsert_rec_def sorted_insort_key distinct_insort_key)
qed

lemma map_of_upsert: "map_of (upsert_rec (k, v) rs) = (map_of rs)(k \<mapsto> v)"
proof -
  have "k \<notin> fst ` set (filter (\<lambda>x. fst x \<noteq> k) rs)" by auto
  then show ?thesis by (simp add: upsert_rec_def map_of_insort map_of_filter_key)
qed

lemma upsert_new: "fst r \<notin> fst ` set rs \<Longrightarrow> upsert_rec r rs = insort_key fst r rs"
  by (metis (mono_tags, lifting) filter_True image_eqI upsert_rec_def)

lemma keys_ok_upsert_eqI:
  assumes "keys_ok rs'" and "keys_ok rs" and "map_of rs' = (map_of rs)(k \<mapsto> v)"
  shows "rs' = upsert_rec (k, v) rs"
  using assms(1) keys_ok_upsert[OF assms(2)] by (rule keys_ok_eqI) (simp add: assms(3) map_of_upsert)

lemma mset_upsert_new:
  assumes "fst r \<notin> fst ` set rs"
  shows "mset (upsert_rec r rs) = add_mset r (mset rs)"
  by (simp add: upsert_new[OF assms])

section \<open>What an image holds\<close>

type_synonym tuple_meta = "u32 \<times> u64 \<times> u64"

definition header_meta :: "PageHeader \<Rightarrow> tuple_meta" where
  "header_meta h = (ph_tuple_format_version h, ph_tuple_schema_hash h, ph_tuple_flags h)"

definition page_is ::
  "ext \<Rightarrow> byte list \<Rightarrow> PageId \<Rightarrow> tuple_meta \<Rightarrow> rec list \<Rightarrow> PageId \<Rightarrow> PageId \<Rightarrow> bool" where
  "page_is X img pid m rs prev_page next_page \<longleftrightarrow> (\<exists>h ss. page_ok X img h ss \<and> page_recs img ss = rs
     \<and> distinct (map fst rs) \<and> ph_page_id h = pid \<and> header_meta h = m
     \<and> ph_prev_page h = prev_page \<and> ph_next_page h = next_page)"

lemma page_isE:
  assumes "page_is X img pid m rs a b"
  obtains h ss where "page_ok X img h ss" "page_rep X img h ss" "page_recs img ss = rs" "distinct (map fst rs)"
    "ph_page_id h = pid" "header_meta h = m" "ph_prev_page h = a" "ph_next_page h = b" "length ss = length rs"
  using assms unfolding page_is_def by (metis length_page_recs page_okD(1))

lemma page_isI:
  assumes "page_ok X img h ss" "page_recs img ss = rs" "distinct (map fst rs)"
    "ph_page_id h = pid" "header_meta h = m" "ph_prev_page h = a" "ph_next_page h = b"
  shows "page_is X img pid m rs a b"
  using assms unfolding page_is_def by blast

lemma page_is_good:
  assumes "page_is X img pid m rs a b"
  shows "good_page X img" "page_records_of X img = rs" "page_links X img = (a, b)" "page_map X img = map_of rs"
    and "keys_ok rs" "length img = PAGE_SIZE"
proof -
  obtain h ss where hs: "page_ok X img h ss" "page_recs img ss = rs" "distinct (map fst rs)" "ph_prev_page h = a" "ph_next_page h = b"
    using assms by (elim page_isE)
  then show good: "good_page X img" and "page_records_of X img = rs" "page_links X img = (a, b)" "page_map X img = map_of rs"
    using good_pageI[OF hs(1)] rep_records_of[OF page_okD(1)[OF hs(1)]] by simp_all
  then show "keys_ok rs" using good_page_keys_ok by fastforce
  show "length img = PAGE_SIZE" by (rule good_page_length[OF good])
qed

section \<open>Reading\<close>

lemma page_is_reads:
  assumes "page_is X img pid m rs a b"
  shows "pb_try_new X img = Inr img" and "slot_count X img = Inr (length rs)"
    and "find_slot_index X img ts tid = Inr (position (\<lambda>r. fst r = (ts, tid)) rs)"
    and "active_next_page X img = Inr (page_id_from_raw b)" and "active_prev_page X img = Inr (page_id_from_raw a)"
    and "i < length rs \<Longrightarrow> record_bytes X img i = Inr (snd (rs ! i))"
proof -
  obtain h ss where hs: "page_ok X img h ss" "page_rep X img h ss" "page_recs img ss = rs" "ph_prev_page h = a"
      "ph_next_page h = b" "length ss = length rs"
    using assms by (elim page_isE)
  note rep_header_fields[OF hs(2)]
  then show "pb_try_new X img = Inr img" "slot_count X img = Inr (length rs)"
    "find_slot_index X img ts tid = Inr (position (\<lambda>r. fst r = (ts, tid)) rs)"
    "active_next_page X img = Inr (page_id_from_raw b)" "active_prev_page X img = Inr (page_id_from_raw a)"
    using rep_try_new[OF hs(2)] rep_slot_count[OF hs(2)] find_slot_index_position[OF hs(1), of ts tid] hs(3-6)
    by (simp_all add: active_next_page_def active_prev_page_def page_id_from_raw_def)
  show "i < length rs \<Longrightarrow> record_bytes X img i = Inr (snd (rs ! i))"
    using page_ok_record_bytes[OF hs(1), of i] hs(3,6) by simp
qed

lemma page_is_header:
  assumes "page_is X img pid m rs a b"
  obtains h where "pb_header X img = Inr h" "ph_page_id h = pid" "header_meta h = m" "ph_prev_page h = a" "ph_next_page h = b"
  using assms by (elim page_isE) (simp add: rep_header that)

lemma page_is_slot_ref:
  assumes "page_is X img pid m rs a b" and "i < length rs"
  obtains r where "slot_ref X img i = Inr r" "(ref_timestamp X r, ref_tuple_id X r) = fst (rs ! i)"
proof -
  obtain h ss where hs: "page_ok X img h ss" "page_recs img ss = rs" "length ss = length rs"
    using assms by (elim page_isE)
  then show thesis using page_ok_slot_ref[OF hs(1), of i] assms(2) that by auto
qed

lemma page_is_bounds:
  assumes "page_is X img pid m rs a b"
  shows "timestamp_bounds X img = Inr (if rs = [] then None else Some (fst (fst (hd rs)), fst (fst (last rs))))"
proof (cases "rs = []")
  case True
  then show ?thesis using page_is_reads(2)[OF assms] by (simp add: timestamp_bounds_def)
next
  case False
  then obtain r0 r1 where "slot_ref X img 0 = Inr r0" "(ref_timestamp X r0, ref_tuple_id X r0) = fst (rs ! 0)"
      "slot_ref X img (length rs - 1) = Inr r1" "(ref_timestamp X r1, ref_tuple_id X r1) = fst (rs ! (length rs - 1))"
    using page_is_slot_ref[OF assms, of 0] page_is_slot_ref[OF assms, of "length rs - 1"] by (metis diff_less length_greater_0_conv less_one)
  then show ?thesis
    using page_is_reads(2)[OF assms] False
    by (simp add: timestamp_bounds_def hd_conv_nth last_conv_nth) (metis fst_conv)
qed

text \<open>In a page the first record is the oldest and the last one the newest.\<close>

lemma keys_ok_bounds:
  assumes "keys_ok rs" and "r \<in> set rs"
  shows "fst (fst (hd rs)) \<le> fst (fst r)" "fst (fst r) \<le> fst (fst (last rs))"
proof -
  obtain i where i: "i < length rs" "rs ! i = r" using assms(2) by (auto simp: in_set_conv_nth)
  have ne: "rs \<noteq> []" using assms(2) by auto
  have sorted: "sorted (map fst rs)" using assms(1) by (simp add: keys_ok_def)
  have "fst (rs ! 0) \<le> fst (rs ! i)" "fst (rs ! i) \<le> fst (rs ! (length rs - 1))"
    using sorted_nth_mono[OF sorted, of 0 i] sorted_nth_mono[OF sorted, of i "length rs - 1"] i(1) ne by auto
  then show "fst (fst (hd rs)) \<le> fst (fst r)" "fst (fst r) \<le> fst (fst (last rs))"
    using i ne by (auto simp: hd_conv_nth last_conv_nth less_eq_prod_def)
qed

section \<open>Writing\<close>

lemma page_is_empty:
  assumes "ext_ok X"
  obtains img where "empty_page_image X pid v hash flags = Inr img"
    "page_is X img pid (v, hash, flags) [] NONE_PAGE_ID NONE_PAGE_ID"
proof -
  have "length (replicate PAGE_SIZE (0 :: byte)) = PAGE_SIZE" by (rule length_replicate)
  then obtain p where run: "init_empty_with_tuple_meta X pid v hash flags (replicate PAGE_SIZE 0) = (Inr (), p)"
    and ok: "page_ok X p (empty_header pid v hash flags) []"
    by (rule init_empty_ok [OF assms])
  show thesis
  proof (rule that)
    show "empty_page_image X pid v hash flags = Inr p" using run by (simp add: empty_page_image_def exec_se_def)
    show "page_is X p pid (v, hash, flags) [] NONE_PAGE_ID NONE_PAGE_ID"
      by (rule page_isI[OF ok]) (simp_all add: page_recs_def empty_header_def PageHeader_new_def header_meta_def)
  qed
qed

lemma page_is_set_links:
  assumes "ext_ok X" and "page_is X p pid m rs a b"
  obtains p' where "exec_se (set_page_links X a' b') p = Inr p'" "page_is X p' pid m rs a' b'"
proof -
  obtain h ss where hs: "page_ok X p h ss" "page_recs p ss = rs" "distinct (map fst rs)" "ph_page_id h = pid" "header_meta h = m"
    using assms(2) by (elim page_isE)
  obtain p' where p': "set_page_links X a' b' p = (Inr (), p')" "page_ok X p' (linked_header h a' b') ss"
      "page_recs p' ss = page_recs p ss"
    by (rule set_page_links_ok[OF assms(1) hs(1)])
  show thesis
    by (rule that[of p'])
      (use p' hs in \<open>auto simp: exec_se_def linked_header_def header_meta_def intro!: page_isI[OF p'(2)]\<close>)
qed

lemma page_is_relink:
  assumes "ext_ok X" and "page_is X p pid m rs a b"
  obtains p' q' where "relink_prev X a' p = Inr p'" "page_is X p' pid m rs a' b"
    "relink_next X b' p = Inr q'" "page_is X q' pid m rs a b'"
proof -
  obtain h where h: "pb_header X p = Inr h" "ph_prev_page h = a" "ph_next_page h = b"
    using page_is_header[OF assms(2)] by blast
  note page_is_reads(1)[OF assms(2)]
  moreover obtain p' where "exec_se (set_page_links X a' b) p = Inr p'" "page_is X p' pid m rs a' b"
    by (rule page_is_set_links[OF assms])
  moreover obtain q' where "exec_se (set_page_links X a b') p = Inr q'" "page_is X q' pid m rs a b'"
    by (rule page_is_set_links[OF assms])
  ultimately show thesis using that h by (simp add: relink_prev_def relink_next_def)
qed

lemma page_is_insert:
  assumes "ext_ok X" and "page_is X p pid m rs a b" and "(ts, tid) \<notin> fst ` set rs" and "roomy rs (length payload)"
  obtains pos p' where "insert_record X ts tid payload p = (Inr pos, p')"
    "page_is X p' pid m (upsert_rec ((ts, tid), payload) rs) a b"
proof -
  obtain h ss where hs: "page_ok X p h ss" "page_recs p ss = rs" "distinct (map fst rs)" "ph_page_id h = pid"
      "header_meta h = m" "ph_prev_page h = a" "ph_next_page h = b"
    using assms(2) by (elim page_isE)
  have fit: "insert_fits h (length ss) (length payload)"
    using assms(4) hs(2) by (simp add: insert_fits_roomy[OF hs(1)])
  let ?s = "inserted_slot X h ts tid payload" and ?h = "inserted_header h (length ss) (length payload)"
  obtain p' where p': "insert_record X ts tid payload p = (Inr (insert_position ?s ss), p')"
      "page_ok X p' ?h (insert_at (insert_position ?s ss) ?s ss)"
      "page_recs p' (insert_at (insert_position ?s ss) ?s ss) = insert_at (insert_position ?s ss) ((ts, tid), payload) rs"
    by (rule insert_record_page_ok[OF assms(1) hs(1) fit, unfolded hs(2)])
  let ?rs = "insert_at (insert_position ?s ss) ((ts, tid), payload) rs"
  have d: "distinct (map fst ?rs)"
    using hs(3) assms(3) by (simp add: map_insert_at distinct_insert_at)
  then have "page_is X p' pid m ?rs a b"
    by (intro page_isI[OF p'(2,3)]) (use hs in \<open>simp_all add: header_meta_def\<close>)
  moreover have "?rs = upsert_rec ((ts, tid), payload) rs"
    using page_is_good(5)[OF calculation] page_is_good(5)[OF assms(2)] map_of_insert_at[OF assms(3)]
    by (rule keys_ok_upsert_eqI)
  ultimately show thesis using that p'(1) by simp
qed

lemma page_is_insert_full:
  assumes "page_is X p pid m rs a b" and "\<not> roomy rs (length payload)"
  shows "insert_record X ts tid payload p = (Inl (EC InsufficientBufferSpace), p)"
  using insert_record_full[OF page_is_good(1)[OF assms(1)]] page_is_good(2)[OF assms(1)] assms(2) by simp


lemma page_is_update:
  assumes "ext_ok X" and "page_is X p pid m rs a b" and "i < length rs" and "fst (rs ! i) = (ts, tid)"
  obtains (updated) j p' where "update_record X i ts tid payload p = (Inr j, p')"
      "page_is X p' pid m (upsert_rec ((ts, tid), payload) rs) a b"
  | (full) p' where "update_record X i ts tid payload p = (Inl (EC InsufficientBufferSpace), p')"
      "TAILER_OFFSET < PAGE_HEADER_SIZE + recs_bytes (remove_at i rs) + align8 (length payload) + 32 * length rs"
proof -
  obtain h ss where hs: "page_ok X p h ss" "page_rep X p h ss" "page_recs p ss = rs" "distinct (map fst rs)"
      "ph_page_id h = pid" "header_meta h = m" "ph_prev_page h = a" "ph_next_page h = b" "length ss = length rs"
    using assms(2) by (elim page_isE)
  let ?es = "update_entries X p ss i ts tid payload"
  let ?ss = "rebuilt_slots X ?es"
  let ?h = "rebuilt_header h ?ss (of_nat (packed_end (sorted_entries ?es) PAGE_HEADER_SIZE))"
  have i: "i < length ss" and key: "fst (page_recs p ss ! i) = (ts, tid)" using assms(3,4) hs(3,9) by simp_all
  have d: "distinct (map fst (page_recs p ss))" using hs(3,4) by simp
  obtain j where succ: "\<And>p'. rebuild_from_entries X ?es p = (Inr (), p') \<Longrightarrow> update_record X i ts tid payload p = (Inr j, p')"
    and err: "\<And>e p'. rebuild_from_entries X ?es p = (Inl e, p') \<Longrightarrow> update_record X i ts tid payload p = (Inl e, p')"
    by (rule update_record_unfold[OF hs(1) i, of ts tid payload]) blast
  show thesis
  proof (cases "rebuild_fits ?es")
    case True
    obtain p' where p': "rebuild_from_entries X ?es p = (Inr (), p')" "page_ok X p' ?h ?ss"
        "page_recs p' ?ss = entry_recs (sorted_entries ?es)"
      by (rule rebuild_from_entries_ok[OF assms(1) hs(2) True])
    note keys = keys_update_entries[OF d i key, of X payload]
    have "page_is X p' pid m (entry_recs (sorted_entries ?es)) a b"
      by (rule page_isI[OF p'(2,3) keys(1)]) (use hs in \<open>simp_all add: header_meta_def\<close>)
    moreover have "entry_recs (sorted_entries ?es) = upsert_rec ((ts, tid), payload) rs"
      using page_is_good(5)[OF calculation] page_is_good(5)[OF assms(2)] keys(2)[unfolded hs(3)]
      by (rule keys_ok_upsert_eqI)
    ultimately show thesis using updated succ[OF p'(1)] by simp
  next
    case False
    have "32 * length ?es \<le> TAILER_OFFSET"
      using page_okD(2)[OF hs(1)] by (simp add: length_update_entries[OF i] space_ok_def)
    then obtain p' where run: "rebuild_from_entries X ?es p = (Inl (EC InsufficientBufferSpace), p')"
      using rebuild_from_entries_full[OF assms(1) hs(2) False] by blast
    have "\<not> PAGE_HEADER_SIZE + recs_bytes (remove_at i rs) + align8 (length payload) + 32 * length rs \<le> TAILER_OFFSET"
      using update_fits[OF hs(1) i, of payload ts tid] False unfolding hs(3,9) by blast
    then show thesis
      by (intro full[OF err[OF run]]) linarith
  qed
qed

lemma page_is_delete:
  assumes "ext_ok X" and "page_is X p pid m rs a b" and "i < length rs"
  obtains p' where "exec_se (delete_record X i) p = Inr p'" "page_is X p' pid m (remove_at i rs) a b"
proof -
  obtain h ss where hs: "page_ok X p h ss" "page_recs p ss = rs" "distinct (map fst rs)" "ph_page_id h = pid"
      "header_meta h = m" "ph_prev_page h = a" "ph_next_page h = b" "length ss = length rs"
    using assms(2) by (elim page_isE)
  obtain p' h' ss' where p': "delete_record X i p = (Inr (), p')" "page_ok X p' h' ss'"
      "page_recs p' ss' = remove_at i (page_recs p ss)" "bumped h h'"
    by (rule delete_record_ok[OF assms(1) hs(1), of i]) (use assms(3) hs(8) in simp)
  show thesis
    by (rule that[of p'])
      (use p' hs in \<open>auto simp: exec_se_def header_meta_def bumped_def map_remove_at distinct_remove_at
        intro!: page_isI[OF p'(2)]\<close>)
qed

text \<open>Sealing an image for publication keeps what it holds and makes it valid on disk.\<close>

lemma page_is_seal:
  assumes "ext_ok X" and "page_is X (pw_image w) pid m rs a b"
  obtains w' where "seal_write X lsn w = Inr w'" "pw_page_id w' = pw_page_id w" "page_is X (pw_image w') pid m rs a b"
    "validate_layout X (pw_image w') = Inr ()"
proof -
  obtain h ss where hs: "page_ok X (pw_image w) h ss" "page_recs (pw_image w) ss = rs" "distinct (map fst rs)"
      "ph_page_id h = pid" "header_meta h = m" "ph_prev_page h = a" "ph_next_page h = b"
    using assms(2) by (elim page_isE)
  obtain h1 p1 where p1: "(case lsn of Some start_lsn \<Rightarrow> exec_se (stamp_page_image_lsn X start_lsn) (pw_image w)
        | None \<Rightarrow> Inr (pw_image w)) = Inr p1" "page_ok X p1 h1 ss" "page_recs p1 ss = rs"
      "ph_page_id h1 = pid" "header_meta h1 = m" "ph_prev_page h1 = a" "ph_next_page h1 = b"
  proof (cases lsn)
    case None
    then show thesis using that hs by simp
  next
    case (Some l)
    obtain p1 where "stamp_page_image_lsn X l (pw_image w) = (Inr (), p1)" "page_ok X p1 (h\<lparr>ph_lsn := l\<rparr>) ss"
        "page_recs p1 ss = page_recs (pw_image w) ss"
      by (rule stamp_ok[OF assms(1) hs(1)])
    then show thesis
      using that[of p1 "h\<lparr>ph_lsn := l\<rparr>"] hs Some by (simp add: exec_se_def header_meta_def)
  qed
  obtain p2 where p2: "finalize_page_image_checksum X p1 = (Inr (), p2)" "page_ok X p2 h1 ss"
      "page_recs p2 ss = page_recs p1 ss" "tailer_ok X p2 h1"
    by (rule finalize_ok[OF assms(1) p1(2)])
  show thesis
  proof (rule that[of "w\<lparr>pw_image := p2\<rparr>"])
    show "seal_write X lsn w = Inr (w\<lparr>pw_image := p2\<rparr>)"
      using p1(1) p2(1) by (simp add: seal_write_def exec_se_def[of "finalize_page_image_checksum X"])
    show "page_is X (pw_image (w\<lparr>pw_image := p2\<rparr>)) pid m rs a b"
      using p1 p2 hs(3) by (auto intro!: page_isI[OF p2(2)])
    show "validate_layout X (pw_image (w\<lparr>pw_image := p2\<rparr>)) = Inr ()"
      using validate_finalized[OF p2(2,4)] by simp
  qed simp
qed

section \<open>Building a page from records\<close>

definition entry_rec :: "TimeSeriesRecord \<Rightarrow> rec" where
  "entry_rec e = (record_key e, ts_payload e)"

fun fits_after :: "rec list \<Rightarrow> rec list \<Rightarrow> bool" where
  "fits_after acc [] \<longleftrightarrow> True"
| "fits_after acc (r # rs) \<longleftrightarrow> roomy acc (length (snd r)) \<and> fits_after (r # acc) rs"

lemma roomy_perm: "mset rs = mset rs' \<Longrightarrow> roomy rs n = roomy rs' n"
proof -
  assume perm: "mset rs = mset rs'"
  have "recs_bytes rs = recs_bytes rs'"
    unfolding recs_bytes_def sum_mset_sum_list[symmetric] mset_map perm by simp
  then show ?thesis using mset_eq_length[OF perm] by (simp add: roomy_def)
qed

lemma fits_after_perm: "mset acc = mset acc' \<Longrightarrow> fits_after acc rs = fits_after acc' rs"
proof (induction rs arbitrary: acc acc')
  case (Cons r rs)
  have "fits_after (r # acc) rs = fits_after (r # acc') rs" by (rule Cons.IH) (simp add: Cons.prems)
  then show ?case using roomy_perm[OF Cons.prems] by simp
qed simp

lemma insert_entries:
  assumes "ext_ok X" and "page_is X p pid m rs a b" and "distinct (map record_key es)"
    and "\<forall>e \<in> set es. record_key e \<notin> fst ` set rs"
  shows "if fits_after rs (map entry_rec es)
    then \<exists>p'. fold_rs (\<lambda>e. exec_se (insert_record X (ts_timestamp e) (ts_tuple_id e) (ts_payload e))) es p = Inr p'
      \<and> page_is X p' pid m (fold (\<lambda>e. upsert_rec (entry_rec e)) es rs) a b
    else fold_rs (\<lambda>e. exec_se (insert_record X (ts_timestamp e) (ts_tuple_id e) (ts_payload e))) es p
      = Inl (EC InsufficientBufferSpace)"
  using assms(2-4)
proof (induction es arbitrary: p rs)
  case (Cons e es)
  have e: "entry_rec e = ((ts_timestamp e, ts_tuple_id e), ts_payload e)" by (simp add: entry_rec_def record_key_def)
  have new: "(ts_timestamp e, ts_tuple_id e) \<notin> fst ` set rs" using Cons.prems(3) by (simp add: record_key_def)
  show ?case
  proof (cases "roomy rs (length (ts_payload e))")
    case True
    obtain pos p1 where p1: "insert_record X (ts_timestamp e) (ts_tuple_id e) (ts_payload e) p = (Inr pos, p1)"
        "page_is X p1 pid m (upsert_rec (entry_rec e) rs) a b"
      by (rule page_is_insert[OF assms(1) Cons.prems(1) new True]) (simp add: e)
    have "mset (upsert_rec (entry_rec e) rs) = mset (entry_rec e # rs)"
      using new by (simp add: mset_upsert_new e)
    then have "fits_after (upsert_rec (entry_rec e) rs) (map entry_rec es) = fits_after (entry_rec e # rs) (map entry_rec es)"
      by (rule fits_after_perm)
    then have fits: "fits_after rs (map entry_rec (e # es)) \<longleftrightarrow> fits_after (upsert_rec (entry_rec e) rs) (map entry_rec es)"
      using True by (simp add: e)
    have step: "exec_se (insert_record X (ts_timestamp e) (ts_tuple_id e) (ts_payload e)) p = Inr p1"
      using p1(1) by (simp add: exec_se_def)
    have keys: "record_key e' \<notin> fst ` set (upsert_rec (entry_rec e) rs)" if e': "e' \<in> set es" for e'
    proof -
      have "record_key e' \<noteq> record_key e" using Cons.prems(2) imageI[OF e', of record_key] by auto
      moreover have "record_key e' \<notin> fst ` set rs" using Cons.prems(3) e' by simp
      ultimately show ?thesis by (auto simp: set_upsert_rec entry_rec_def)
    qed
    have "distinct (map record_key es)" "\<forall>e' \<in> set es. record_key e' \<notin> fst ` set (upsert_rec (entry_rec e) rs)"
      using Cons.prems(2) keys by simp_all
    note IH = Cons.IH[OF p1(2) this]
    show ?thesis
      using IH unfolding fits by (simp only: fold_rs.simps step bind_rs.simps fold_Cons o_apply)
  next
    case False
    then have "exec_se (insert_record X (ts_timestamp e) (ts_tuple_id e) (ts_payload e)) p = Inl (EC InsufficientBufferSpace)"
      using page_is_insert_full[OF Cons.prems(1) False] by (simp add: exec_se_def)
    then show ?thesis using False by (simp add: e)
  qed
qed simp


lemma keys_ok_set_eqI:
  assumes "keys_ok xs" and "keys_ok ys" and "set xs = set ys"
  shows "xs = ys"
  using assms map_of_inject_set[of xs ys] by (intro keys_ok_eqI) (simp_all add: keys_ok_def)

lemma fold_upsert_fresh:
  assumes "distinct (map record_key es)" and "\<forall>e \<in> set es. record_key e \<notin> fst ` set rs"
  shows "set (fold (\<lambda>e. upsert_rec (entry_rec e)) es rs) = entry_rec ` set es \<union> set rs"
  using assms
proof (induction es arbitrary: rs)
  case (Cons e es)
  have "record_key e' \<noteq> record_key e" if "e' \<in> set es" for e'
    using Cons.prems(1) imageI[OF that, of record_key] by auto
  then have keys: "\<forall>e' \<in> set es. record_key e' \<notin> fst ` set (upsert_rec (entry_rec e) rs)"
    using Cons.prems(2) by (auto simp: set_upsert_rec entry_rec_def)
  have "record_key e \<notin> fst ` set rs" using Cons.prems(2) by simp
  then have "fst x \<noteq> record_key e" if "x \<in> set rs" for x using that by (metis imageI)
  then have "{x \<in> set rs. fst x \<noteq> fst (entry_rec e)} = set rs" by (auto simp: entry_rec_def)
  then show ?case
    using Cons.IH[OF _ keys] Cons.prems(1) by (simp add: set_upsert_rec)
qed simp

lemma keys_ok_fold_upsert: "keys_ok rs \<Longrightarrow> keys_ok (fold (\<lambda>e. upsert_rec (entry_rec e)) es rs)"
  by (induction es arbitrary: rs) (simp_all add: keys_ok_upsert)

lemma keys_ok_entries: "keys_ok (map entry_rec es) \<Longrightarrow> distinct (map record_key es)"
  by (simp add: keys_ok_def entry_rec_def o_def)

lemma fold_upsert_Nil:
  assumes "keys_ok (map entry_rec es)"
  shows "fold (\<lambda>e. upsert_rec (entry_rec e)) es [] = map entry_rec es"
proof (rule keys_ok_set_eqI)
  show "set (fold (\<lambda>e. upsert_rec (entry_rec e)) es []) = set (map entry_rec es)"
    using fold_upsert_fresh[OF keys_ok_entries[OF assms], of "[]"] by simp
qed (simp_all add: assms keys_ok_fold_upsert keys_ok_def[of "[]"])

lemma build_entries_ok:
  assumes X: "ext_ok X" and keys: "keys_ok (map entry_rec es)"
  shows "if fits_after [] (map entry_rec es)
    then \<exists>p. build_entries_page_image X pid a b es v hash flags = Inr p \<and> page_is X p pid (v, hash, flags) (map entry_rec es) a b
    else build_entries_page_image X pid a b es v hash flags = Inl (EC InsufficientBufferSpace)"
proof -
  obtain p0 where p0: "empty_page_image X pid v hash flags = Inr p0"
      "page_is X p0 pid (v, hash, flags) [] NONE_PAGE_ID NONE_PAGE_ID"
    by (rule page_is_empty[OF X])
  obtain p1 where p1: "exec_se (set_page_links X a b) p0 = Inr p1" "page_is X p1 pid (v, hash, flags) [] a b"
    by (rule page_is_set_links[OF X p0(2)])
  show ?thesis
    using insert_entries[OF X p1(2) keys_ok_entries[OF keys]]
    by (simp add: build_entries_page_image_def p0(1) p1(1) fold_upsert_Nil[OF keys] split: if_splits)
qed

lemma page_entries_fit_iff:
  assumes X: "ext_ok X" and keys: "keys_ok (map entry_rec es)"
  shows "page_entries_fit X es \<longleftrightarrow> fits_after [] (map entry_rec es)"
proof -
  obtain p0 where "empty_page_image X 0 0 0 0 = Inr p0" "page_is X p0 0 (0, 0, 0) [] NONE_PAGE_ID NONE_PAGE_ID"
    by (rule page_is_empty[OF X])
  then have p0: "exec_se (init_empty X 0) (replicate PAGE_SIZE 0) = Inr p0"
      "page_is X p0 0 (0, 0, 0) [] NONE_PAGE_ID NONE_PAGE_ID"
    by (simp_all add: empty_page_image_def init_empty_def)
  have "page_entries_fit X es \<longleftrightarrow>
      is_ok (fold_rs (\<lambda>e. exec_se (insert_record X (ts_timestamp e) (ts_tuple_id e) (ts_payload e))) es p0)"
    unfolding page_entries_fit_def p0(1) by simp
  then show ?thesis
    using insert_entries[OF X p0(2) keys_ok_entries[OF keys]]
    by (cases "fits_after [] (map entry_rec es)") (auto simp: is_ok_iff)
qed

lemma keys_ok_take_drop: "keys_ok rs \<Longrightarrow> keys_ok (take i rs)" "keys_ok rs \<Longrightarrow> keys_ok (drop i rs)"
  by (simp_all add: keys_ok_def sorted_wrt_take sorted_wrt_drop distinct_take distinct_drop flip: take_map drop_map)

lemma find_split_index_cases:
  assumes X: "ext_ok X" and keys: "keys_ok (map entry_rec es)"
  obtains (split) i where "find_split_index X es = Inr i" "0 < i" "i < length es"
      "fits_after [] (take i (map entry_rec es))" "fits_after [] (drop i (map entry_rec es))"
  | (stuck) "find_split_index X es = Inl (EC InsufficientBufferSpace)"
      "\<And>i. 0 < i \<Longrightarrow> i < length es \<Longrightarrow>
        \<not> (fits_after [] (take i (map entry_rec es)) \<and> fits_after [] (drop i (map entry_rec es)))"
proof -
  have fit: "page_entries_fit X (take i es) = fits_after [] (take i (map entry_rec es))"
      "page_entries_fit X (drop i es) = fits_after [] (drop i (map entry_rec es))" for i
    using page_entries_fit_iff[OF X, of "take i es"] page_entries_fit_iff[OF X, of "drop i es"] keys_ok_take_drop[OF keys]
    by (simp_all add: take_map drop_map)
  let ?P = "\<lambda>i. fits_after [] (take i (map entry_rec es)) \<and> fits_after [] (drop i (map entry_rec es))"
  show thesis
  proof (cases "List.find ?P [1..<length es]")
    case None
    then have "\<not> ?P i" if "0 < i" "i < length es" for i
      using that by (auto simp: find_None_iff)
    then show thesis using stuck None by (simp add: find_split_index_def fit ok_or_def)
  next
    case (Some i)
    then have "?P i" "i \<in> set [1..<length es]" by (auto simp: find_Some_iff in_set_conv_nth)
    then show thesis using split[of i] Some by (simp add: find_split_index_def fit ok_or_def)
  qed
qed

lemma page_is_entries:
  assumes "page_is X img pid m rs a b"
  obtains es where "page_entries X img q = Inr es" "map entry_rec es = rs"
    "\<forall>i < length rs. ts_page_id (es ! i) = q \<and> ts_slot_index (es ! i) = i"
proof -
  let ?e = "\<lambda>i. \<lparr>ts_timestamp = fst (fst (rs ! i)), ts_tuple_id = snd (fst (rs ! i)), ts_payload = snd (rs ! i),
      ts_page_id = q, ts_slot_index = i\<rparr>"
  have "page_entry X img q i = Inr (?e i)" if i: "i < length rs" for i
  proof -
    obtain r where "slot_ref X img i = Inr r" "(ref_timestamp X r, ref_tuple_id X r) = fst (rs ! i)"
      by (rule page_is_slot_ref[OF assms i])
    then show ?thesis using page_is_reads(6)[OF assms i] by (simp add: page_entry_def prod_eq_iff)
  qed
  then have "map_rs (page_entry X img q) [0..<length rs] = Inr (map ?e [0..<length rs])"
    by (intro map_rs_total) simp
  then have "page_entries X img q = Inr (map ?e [0..<length rs])"
    using page_is_reads(2)[OF assms] by (simp add: page_entries_def)
  then show thesis
    by (rule that) (auto simp: entry_rec_def record_key_def intro!: nth_equalityI)
qed


section \<open>Space\<close>

text \<open>What a record takes of a page: its payload, padded, and a slot.  Records of at most \<open>MAX_SMALL\<close> bytes take
  less than half a page, so that an overfull page of them can be split.\<close>

definition footprint :: "rec \<Rightarrow> nat" where
  "footprint r = align8 (length (snd r)) + 32"

definition MAX_SMALL :: nat where "MAX_SMALL = 1936"

definition small_rec :: "rec \<Rightarrow> bool" where
  "small_rec r \<longleftrightarrow> length (snd r) \<le> MAX_SMALL"

lemma footprint_small: "small_rec r \<Longrightarrow> footprint r \<le> 1968"
  using align8_mono[of "length (snd r)" 1936] by (simp add: small_rec_def MAX_SMALL_def footprint_def)

lemma sum_footprint: "sum_list (map footprint rs) = recs_bytes rs + 32 * length rs"
  by (induction rs) (simp_all add: footprint_def recs_bytes_def)

lemma fits_by_footprint:
  "sum_list (map footprint (acc @ rs)) \<le> 3956 \<Longrightarrow> fits_after acc rs"
proof (induction rs arbitrary: acc)
  case (Cons r rs)
  have "length (snd r) + 32 \<le> footprint r" using align8_bounds(1)[of "length (snd r)"] by (simp add: footprint_def)
  then have "roomy acc (length (snd r))"
    using Cons.prems by (simp add: roomy_def sum_footprint[of acc])
  moreover have "fits_after (r # acc) rs" using Cons.IH[of "r # acc"] Cons.prems by simp
  ultimately show ?case by simp
qed simp

lemma page_is_footprint:
  assumes "page_is X p pid m rs a b"
  shows "sum_list (map footprint rs) \<le> 3963"
proof -
  obtain h ss where hs: "page_ok X p h ss" "page_recs p ss = rs" "length ss = length rs"
    using assms by (elim page_isE)
  let ?ff = "unat (ph_first_free_offset h)"
  have "?ff + 32 * length rs \<le> TAILER_OFFSET" using page_okD(2)[OF hs(1)] hs(3) by (simp add: space_ok_def)
  moreover have "PAGE_HEADER_SIZE + recs_bytes rs \<le> ?ff + 7"
    using page_okD(5)[OF hs(1)] aligned_bytes_recs[OF hs(1)] hs(2) align8_bounds(2)[of ?ff] by simp
  ultimately show ?thesis by (simp add: sum_footprint)
qed

text \<open>The longest prefix that fits takes more than half of what two pages hold.\<close>

lemma prefix_sum_split:
  fixes f :: "'a \<Rightarrow> nat"
  assumes "\<forall>x \<in> set xs. f x \<le> b" and "c < sum_list (map f xs)" and "b \<le> c"
  shows "\<exists>i. 0 < i \<and> i < length xs \<and> sum_list (map f (take i xs)) \<le> c \<and> c < sum_list (map f (take i xs)) + b"
  using assms
proof (induction xs arbitrary: c)
  case (Cons x xs)
  show ?case
  proof (cases "c < f x + b")
    case True
    have "xs \<noteq> []" using Cons.prems by auto
    then show ?thesis using True Cons.prems(1,3) by (intro exI[of _ 1]) simp
  next
    case False
    then have "c - f x < sum_list (map f xs)" "b \<le> c - f x" using Cons.prems(2) by auto
    then obtain i where i: "0 < i" "i < length xs" "sum_list (map f (take i xs)) \<le> c - f x" "c - f x < sum_list (map f (take i xs)) + b"
      using Cons.IH[of "c - f x"] Cons.prems(1) by auto
    then show ?thesis using False by (intro exI[of _ "Suc i"]) auto
  qed
qed simp

lemma small_split:
  assumes "\<forall>r \<in> set rs. small_rec r" and "3956 < sum_list (map footprint rs)" and "sum_list (map footprint rs) \<le> 3963 + 1968"
  shows "\<exists>i. 0 < i \<and> i < length rs \<and> fits_after [] (take i rs) \<and> fits_after [] (drop i rs)"
proof -
  obtain i where i: "0 < i" "i < length rs" "sum_list (map footprint (take i rs)) \<le> 3956"
      "3956 < sum_list (map footprint (take i rs)) + 1968"
    using prefix_sum_split[of rs footprint 1968 3956] assms(1,2) footprint_small by auto
  have "sum_list (map footprint rs) = sum_list (map footprint (take i rs)) + sum_list (map footprint (drop i rs))"
    by (metis append_take_drop_id map_append sum_list_append)
  then have "sum_list (map footprint (drop i rs)) \<le> 3956" using assms(3) i(4) by linarith
  then show ?thesis using i fits_by_footprint[of "[]"] by auto
qed

end
