(* ===== verification/Ts_Chain.thy ===== *)
theory Ts_Chain
  imports Ts_Page
begin

text \<open>
  The chain of a time-series file as a list of pages with their records, newest first, what an insertion does to it,
  and how a file and an overlay represent it.
\<close>

section \<open>Chains of records\<close>

type_synonym chain = "(PageId \<times> rec list) list"

definition chain_recs :: "chain \<Rightarrow> rec list" where
  "chain_recs ch = concat (map snd ch)"

text \<open>A reader that walks the chain from its head finds the first record of a key.\<close>

definition chain_map :: "chain \<Rightarrow> rec_key \<rightharpoonup> byte list" where
  "chain_map ch = map_of (chain_recs ch)"

definition stamp_of :: "rec \<Rightarrow> u64" where
  "stamp_of r = fst (fst r)"

definition not_older :: "PageId \<times> rec list \<Rightarrow> PageId \<times> rec list \<Rightarrow> bool" where
  "not_older p q \<longleftrightarrow> (\<forall>r \<in> set (snd p). \<forall>r' \<in> set (snd q). stamp_of r' \<le> stamp_of r)"

definition chain_ordered :: "chain \<Rightarrow> bool" where
  "chain_ordered ch \<longleftrightarrow> sorted_wrt not_older ch \<and> (\<forall>p \<in> set ch. keys_ok (snd p))"

definition above :: "u64 \<Rightarrow> rec list \<Rightarrow> bool" where
  "above ts rs \<longleftrightarrow> (\<forall>r \<in> set rs. ts < stamp_of r)"

definition below :: "u64 \<Rightarrow> rec list \<Rightarrow> bool" where
  "below ts rs \<longleftrightarrow> (\<forall>r \<in> set rs. stamp_of r < ts)"

lemma chain_map_append: "chain_map (xs @ ys) = chain_map ys ++ chain_map xs"
  by (simp add: chain_map_def chain_recs_def)

lemma chain_map_Cons: "chain_map ((p, rs) # ch) = chain_map ch ++ map_of rs"
  by (simp add: chain_map_def chain_recs_def)

lemma chain_map_Nil [simp]: "chain_map [] = Map.empty"
  by (simp add: chain_map_def chain_recs_def)

lemma chain_map_None: "\<forall>p \<in> set ch. k \<notin> fst ` set (snd p) \<Longrightarrow> chain_map ch k = None"
  by (auto simp: chain_map_def chain_recs_def map_of_eq_None_iff)

lemma above_notin: "above (fst k) rs \<Longrightarrow> k \<notin> fst ` set rs"
  by (auto simp: above_def stamp_of_def)

lemma below_notin: "below (fst k) rs \<Longrightarrow> k \<notin> fst ` set rs"
  by (auto simp: below_def stamp_of_def)

text \<open>The chain after the insertion of a record; \<open>n\<close> is the page that is allocated when one is.\<close>

inductive row_inserted :: "rec \<Rightarrow> PageId \<Rightarrow> chain \<Rightarrow> chain \<Rightarrow> bool" for r n where
  first: "row_inserted r n [] [(n, [r])]"
| in_page: "\<forall>q \<in> set pre. above (stamp_of r) (snd q) \<Longrightarrow> \<exists>r0 \<in> set rs. stamp_of r0 \<le> stamp_of r \<Longrightarrow>
    row_inserted r n (pre @ (p, rs) # post) (pre @ (p, upsert_rec r rs) # post)"
| split_page: "\<forall>q \<in> set pre. above (stamp_of r) (snd q) \<Longrightarrow> \<exists>r0 \<in> set rs. stamp_of r0 \<le> stamp_of r \<Longrightarrow>
    row_inserted r n (pre @ (p, rs) # post)
      (pre @ (p, drop i (upsert_rec r rs)) # (n, take i (upsert_rec r rs)) # post)"
| before_page: "\<forall>q \<in> set pre. above (stamp_of r) (snd q) \<Longrightarrow> below (stamp_of r) rs \<Longrightarrow> rs \<noteq> [] \<Longrightarrow>
    row_inserted r n (pre @ (p, rs) # post) (pre @ (n, [r]) # (p, rs) # post)"
| after_page: "\<forall>q \<in> set (pre @ [(p, rs)]). above (stamp_of r) (snd q) \<Longrightarrow> \<forall>q \<in> set post. snd q = [] \<Longrightarrow>
    row_inserted r n (pre @ (p, rs) # post) (pre @ (p, rs) # (n, [r]) # post)"

lemma ordered_middle:
  "chain_ordered (pre @ x # post) \<longleftrightarrow> chain_ordered (pre @ post) \<and> keys_ok (snd x)
     \<and> (\<forall>q \<in> set pre. not_older q x) \<and> (\<forall>q \<in> set post. not_older x q)"
  by (auto simp: chain_ordered_def sorted_wrt_append)

lemma not_older_grown:
  assumes "set rs' \<subseteq> insert r (set rs)"
  shows "not_older q (p, rs) \<Longrightarrow> above (stamp_of r) (snd q) \<Longrightarrow> not_older q (p', rs')"
    and "not_older (p, rs) q \<Longrightarrow> r0 \<in> set rs \<Longrightarrow> stamp_of r0 \<le> stamp_of r \<Longrightarrow> not_older (p', rs') q"
proof -
  assume q: "not_older q (p, rs)" "above (stamp_of r) (snd q)"
  show "not_older q (p', rs')"
    unfolding not_older_def
  proof (intro ballI)
    fix x y assume "x \<in> set (snd q)" "y \<in> set (snd (p', rs'))"
    then show "stamp_of y \<le> stamp_of x"
      using q assms by (cases "y = r") (auto simp: not_older_def above_def less_imp_le)
  qed
next
  assume q: "not_older (p, rs) q" and r0: "r0 \<in> set rs" "stamp_of r0 \<le> stamp_of r"
  show "not_older (p', rs') q"
    unfolding not_older_def
  proof (intro ballI)
    fix x y assume x: "x \<in> set (snd (p', rs'))" and y: "y \<in> set (snd q)"
    have "stamp_of y \<le> stamp_of r0" using q r0(1) y by (simp add: not_older_def)
    then show "stamp_of y \<le> stamp_of x"
      using q assms x y r0(2) by (cases "x = r") (auto simp: not_older_def)
  qed
qed

lemma set_upsert_subset: "set (upsert_rec r rs) \<subseteq> insert r (set rs)"
  by (auto simp: set_upsert_rec)

lemma keys_ok_halves: "keys_ok rs \<Longrightarrow> not_older (p, drop i rs) (n, take i rs)"
proof -
  assume "keys_ok rs"
  then have "sorted (map fst (take i rs @ drop i rs))" by (simp add: keys_ok_def)
  then have "\<forall>r' \<in> set (take i rs). \<forall>r \<in> set (drop i rs). fst r' \<le> fst r" by (simp add: sorted_append del: append_take_drop_id)
  then show ?thesis
    by (metis fst_conv less_eq_prod_def less_imp_le not_older_def snd_conv stamp_of_def)
qed

lemma row_inserted_ordered:
  assumes "row_inserted r n ch ch'" and "chain_ordered ch"
  shows "chain_ordered ch'"
  using assms(1)
proof cases
  case first
  then show ?thesis by (simp add: chain_ordered_def keys_ok_def)
next
  case (in_page pre rs p post)
  note ord = assms(2)[unfolded in_page(1) ordered_middle snd_conv]
  obtain r0 where r0: "r0 \<in> set rs" "stamp_of r0 \<le> stamp_of r" using in_page(4) by blast
  have "not_older q (p, upsert_rec r rs)" if "q \<in> set pre" for q
    using ord in_page(3) that by (intro not_older_grown(1)[OF set_upsert_subset, of q p]) simp_all
  moreover have "not_older (p, upsert_rec r rs) q" if "q \<in> set post" for q
    using ord r0 that by (intro not_older_grown(2)[OF set_upsert_subset, of p rs q r0]) simp_all
  ultimately show ?thesis
    using ord by (simp add: in_page(2) ordered_middle keys_ok_upsert)
next
  case (split_page pre rs p post i)
  let ?u = "drop i (upsert_rec r rs)" and ?l = "take i (upsert_rec r rs)"
  note ord = assms(2)[unfolded split_page(1) ordered_middle snd_conv]
  obtain r0 where r0: "r0 \<in> set rs" "stamp_of r0 \<le> stamp_of r" using split_page(4) by blast
  have keys: "keys_ok (upsert_rec r rs)" using ord by (simp add: keys_ok_upsert)
  have part: "chain_ordered (pre @ (x, xs) # post)" if "set xs \<subseteq> set (upsert_rec r rs)" "keys_ok xs" for x xs
  proof -
    have sub: "set xs \<subseteq> insert r (set rs)" using that(1) set_upsert_subset[of r rs] by (rule order_trans)
    have "not_older q (x, xs)" if "q \<in> set pre" for q
      using ord split_page(3) that by (intro not_older_grown(1)[OF sub, of q p]) simp_all
    moreover have "not_older (x, xs) q" if "q \<in> set post" for q
      using ord r0 that by (intro not_older_grown(2)[OF sub, of p q r0]) simp_all
    ultimately show ?thesis using ord that(2) by (simp add: ordered_middle)
  qed
  have l: "chain_ordered (pre @ (n, ?l) # post)" and u: "chain_ordered (pre @ (p, ?u) # post)"
    by (rule part[OF set_take_subset keys_ok_take_drop(1)[OF keys]], rule part[OF set_drop_subset keys_ok_take_drop(2)[OF keys]])
  show ?thesis
    unfolding split_page(2) ordered_middle[of pre "(p, ?u)"]
    using l u[unfolded ordered_middle] keys_ok_halves[OF keys] by simp
next
  case (before_page pre rs p post)
  note ord = assms(2)[unfolded before_page(1) ordered_middle snd_conv]
  obtain r0 where r0: "r0 \<in> set rs" using before_page(5) by (meson list.set_sel(1))
  have "stamp_of r0 < stamp_of r" using r0 before_page(4) by (simp add: below_def)
  then have "not_older (n, [r]) q" if "q \<in> set post" for q
    using not_older_grown(2)[of "[r]" r rs p q r0 n] ord r0 that by (simp add: less_imp_le)
  moreover have "not_older (n, [r]) (p, rs)" using before_page(4) by (simp add: not_older_def below_def less_imp_le)
  moreover have "not_older q (n, [r])" if "q \<in> set pre" for q
    using before_page(3) that by (simp add: not_older_def above_def less_imp_le)
  moreover have "chain_ordered (pre @ (p, rs) # post)" using assms(2) before_page(1) by simp
  ultimately have "chain_ordered (pre @ (n, [r]) # (p, rs) # post)"
    unfolding ordered_middle[of pre "(n, [r])"] by (simp add: keys_ok_def)
  then show ?thesis by (simp add: before_page(2))
next
  case (after_page pre p rs post)
  have "not_older q (n, [r])" if "q \<in> set (pre @ [(p, rs)])" for q
  proof -
    have "above (stamp_of r) (snd q)" using after_page(3) that by blast
    then show ?thesis by (simp add: not_older_def above_def less_imp_le)
  qed
  moreover have "not_older (n, [r]) q" if "q \<in> set post" for q
    using after_page(4) that by (simp add: not_older_def)
  moreover have "chain_ordered ((pre @ [(p, rs)]) @ post)" using assms(2) after_page(1) by simp
  ultimately have "chain_ordered ((pre @ [(p, rs)]) @ (n, [r]) # post)"
    unfolding ordered_middle by (simp add: keys_ok_def)
  then show ?thesis by (simp add: after_page(2))
qed

text \<open>The insertion sets the record and leaves every other key alone.\<close>

lemma row_inserted_map:
  assumes "row_inserted r n ch ch'" and "chain_ordered ch"
  shows "chain_map ch' = (chain_map ch)(fst r \<mapsto> snd r)"
proof -
  have notin: "fst r \<notin> dom (chain_map pre)" if "\<forall>q \<in> set pre. above (stamp_of r) (snd q)" for pre
    using chain_map_None[of pre "fst r"] above_notin[of "fst r"] that by (simp add: stamp_of_def domIff)
  have upsert: "map_of (upsert_rec r rs) = (map_of rs)(fst r \<mapsto> snd r)" for rs
    using map_of_upsert[of "fst r" "snd r" rs] by simp
  have single: "map_of [r] = [fst r \<mapsto> snd r]" by (cases r) simp
  show ?thesis
    using assms(1)
  proof cases
    case first
    then show ?thesis by (simp add: chain_map_Cons single)
  next
    case (in_page pre rs p post)
    show ?thesis
      using notin[OF in_page(3)] unfolding in_page(1,2) by (simp add: chain_map_append chain_map_Cons upsert map_add_upd_left)
  next
    case (split_page pre rs p post i)
    let ?rs = "upsert_rec r rs"
    have "keys_ok ?rs" using assms(2) by (simp add: split_page(1) ordered_middle keys_ok_upsert)
    then have d: "distinct (map fst (take i ?rs @ drop i ?rs))" by (simp add: keys_ok_def)
    then have d': "distinct (map fst (drop i ?rs @ take i ?rs))" 
      unfolding map_append distinct_append by (simp only: conj_commute Int_commute conj_left_commute)
    have "set (drop i ?rs @ take i ?rs) = set (take i ?rs @ drop i ?rs)" by (simp only: set_append Un_commute)
    then have "map_of (drop i ?rs @ take i ?rs) = map_of (take i ?rs @ drop i ?rs)"
      using map_of_inject_set[OF d' d] by blast
    then have "map_of (take i ?rs) ++ map_of (drop i ?rs) = (map_of rs)(fst r \<mapsto> snd r)"
      by (simp add: upsert)
    then have "chain_map post ++ map_of (take i ?rs) ++ map_of (drop i ?rs) = (chain_map post ++ map_of rs)(fst r \<mapsto> snd r)"
      by (simp only: map_add_assoc[symmetric] map_add_upd)
    then show ?thesis
      using notin[OF split_page(3)] by (simp add: split_page(1,2) chain_map_append chain_map_Cons map_add_upd_left)
  next
    case (before_page pre rs p post)
    show ?thesis
      using notin[OF before_page(3)] unfolding before_page(1,2)
      by (simp add: chain_map_append chain_map_Cons single map_add_upd_left)
  next
    case (after_page pre p rs post)
    have "chain_map (pre @ (p, rs) # post) = chain_map post ++ chain_map (pre @ [(p, rs)])"
         "chain_map (pre @ (p, rs) # (n, [r]) # post) = (chain_map post ++ map_of [r]) ++ chain_map (pre @ [(p, rs)])"
      using chain_map_append[of "pre @ [(p, rs)]" post] chain_map_append[of "pre @ [(p, rs)]" "(n, [r]) # post"]
      by (simp_all add: chain_map_Cons)
    then show ?thesis
      using notin[OF after_page(3)] by (simp add: after_page(1,2) single map_add_upd map_add_upd_left)
  qed
qed

end
