(* ===== verification/Ts_View.thy ===== *)
theory Ts_View
  imports Ts_Chain
begin

text \<open>
  How a time-series file represents a chain: the image of a page is the pending one, the cached one or the one on
  disk; the images link up to the chain.  Reading changes the cache only.
\<close>

section \<open>The image of a page\<close>

definition disk_image :: "TimeSeriesFile \<Rightarrow> PageId \<Rightarrow> byte list rs" where
  "disk_image f p = bind_rs (ok_or (tf_file f) (EC Internal)) (\<lambda>file.
     bind_rs (page_offset p) (\<lambda>offset. read_exact_at (unat offset) PAGE_SIZE file))"

definition file_view :: "TimeSeriesFile \<Rightarrow> PageId \<rightharpoonup> byte list" where
  "file_view f p =
     (case RBT.lookup (tf_page_cache f) p of
        Some c \<Rightarrow> Some (snd c)
      | None \<Rightarrow> if p < tf_page_count f then (case disk_image f p of Inr img \<Rightarrow> Some img | Inl _ \<Rightarrow> None) else None)"

definition ov_view :: "WriteOverlay \<Rightarrow> PageId \<rightharpoonup> byte list" where
  "ov_view ov p = (case RBT.lookup (ov_page_images ov) p of Some img \<Rightarrow> Some img | None \<Rightarrow> file_view (ov_file ov) p)"

text \<open>Files that differ in what is cached only.\<close>

definition file_same :: "TimeSeriesFile \<Rightarrow> TimeSeriesFile \<Rightarrow> bool" where
  "file_same f f' \<longleftrightarrow> file_view f' = file_view f
     \<and> f' = f\<lparr>tf_page_cache := tf_page_cache f', tf_allocations := tf_allocations f'\<rparr>
     \<and> RBT.lookup (tf_page_cache f) \<subseteq>\<^sub>m RBT.lookup (tf_page_cache f')
     \<and> dom (RBT.lookup (tf_page_cache f')) \<subseteq> dom (RBT.lookup (tf_page_cache f)) \<union> {p. p < tf_page_count f}"

definition ov_same :: "WriteOverlay \<Rightarrow> WriteOverlay \<Rightarrow> bool" where
  "ov_same ov ov' \<longleftrightarrow> ov' = ov\<lparr>ov_file := ov_file ov'\<rparr> \<and> file_same (ov_file ov) (ov_file ov')"

lemma file_same_refl [simp]: "file_same f f"
  by (simp add: file_same_def)

lemma file_sameD:
  assumes "file_same f f'"
  shows "file_view f' = file_view f" "tf_identity f' = tf_identity f" "tf_file f' = tf_file f"
    "tf_wal_backend f' = tf_wal_backend f" "tf_dirty_pages f' = tf_dirty_pages f" "tf_page_count f' = tf_page_count f"
    "tf_head_page_id f' = tf_head_page_id f" "tf_tail_page_id f' = tf_tail_page_id f"
    "tf_tuple_format_version f' = tf_tuple_format_version f" "tf_tuple_schema_hash f' = tf_tuple_schema_hash f"
    "tf_tuple_flags f' = tf_tuple_flags f" "RBT.lookup (tf_page_cache f) \<subseteq>\<^sub>m RBT.lookup (tf_page_cache f')"
    "dom (RBT.lookup (tf_page_cache f')) \<subseteq> dom (RBT.lookup (tf_page_cache f)) \<union> {p. p < tf_page_count f}"
proof -
  have eq: "f' = f\<lparr>tf_page_cache := tf_page_cache f', tf_allocations := tf_allocations f'\<rparr>"
    using assms by (simp add: file_same_def)
  show "tf_identity f' = tf_identity f" "tf_file f' = tf_file f"
    "tf_wal_backend f' = tf_wal_backend f" "tf_dirty_pages f' = tf_dirty_pages f" "tf_page_count f' = tf_page_count f"
    "tf_head_page_id f' = tf_head_page_id f" "tf_tail_page_id f' = tf_tail_page_id f"
    "tf_tuple_format_version f' = tf_tuple_format_version f" "tf_tuple_schema_hash f' = tf_tuple_schema_hash f"
    "tf_tuple_flags f' = tf_tuple_flags f"
    using arg_cong[OF eq, of tf_identity] arg_cong[OF eq, of tf_file] arg_cong[OF eq, of tf_wal_backend]
      arg_cong[OF eq, of tf_dirty_pages] arg_cong[OF eq, of tf_page_count] arg_cong[OF eq, of tf_head_page_id]
      arg_cong[OF eq, of tf_tail_page_id] arg_cong[OF eq, of tf_tuple_format_version]
      arg_cong[OF eq, of tf_tuple_schema_hash] arg_cong[OF eq, of tf_tuple_flags]
    by simp_all
qed (use assms in \<open>simp_all add: file_same_def\<close>)

lemma file_same_trans:
  assumes "file_same f g" and "file_same g h"
  shows "file_same f h"
proof -
  have "h = f\<lparr>tf_page_cache := tf_page_cache h, tf_allocations := tf_allocations h\<rparr>"
    using assms by (cases f; cases g; cases h) (simp add: file_same_def)
  moreover have "RBT.lookup (tf_page_cache f) \<subseteq>\<^sub>m RBT.lookup (tf_page_cache h)"
    using assms map_le_trans unfolding file_same_def by blast
  moreover have "dom (RBT.lookup (tf_page_cache h)) \<subseteq> dom (RBT.lookup (tf_page_cache f)) \<union> {p. p < tf_page_count f}"
    using file_sameD(13)[OF assms(1)] file_sameD(13)[OF assms(2)] unfolding file_sameD(6)[OF assms(1)] by blast
  ultimately show ?thesis using assms by (simp add: file_same_def)
qed

lemma ov_same_refl [simp]: "ov_same ov ov"
  by (simp add: ov_same_def)

lemma ov_sameD:
  assumes "ov_same ov ov'"
  shows "ov_page_images ov' = ov_page_images ov" "ov_page_count ov' = ov_page_count ov"
    "ov_head_page_id ov' = ov_head_page_id ov" "ov_tail_page_id ov' = ov_tail_page_id ov"
    "file_same (ov_file ov) (ov_file ov')" "ov_view ov' = ov_view ov"
proof -
  show f: "file_same (ov_file ov) (ov_file ov')" using assms by (simp add: ov_same_def)
  show im: "ov_page_images ov' = ov_page_images ov" and "ov_page_count ov' = ov_page_count ov"
    "ov_head_page_id ov' = ov_head_page_id ov" "ov_tail_page_id ov' = ov_tail_page_id ov"
    using assms by (cases ov; cases ov'; simp add: ov_same_def)+
  show "ov_view ov' = ov_view ov" by (rule ext) (simp add: ov_view_def im file_sameD(1)[OF f] cong: option.case_cong)
qed

lemma ov_same_trans: "ov_same a b \<Longrightarrow> ov_same b c \<Longrightarrow> ov_same a c"
  by (cases a; cases b; cases c) (auto simp: ov_same_def intro: file_same_trans)

lemma read_page_view:
  assumes "file_view f p = Some img"
  obtains f' where "tsf_read_page p f = (Inr img, f')" "file_same f f'"
proof (cases "RBT.lookup (tf_page_cache f) p")
  case (Some c)
  then show thesis using that[of f] assms by (cases c) (simp add: tsf_read_page_def file_view_def)
next
  case None
  then have count: "p < tf_page_count f" and disk: "disk_image f p = Inr img"
    using assms by (auto simp: file_view_def split: if_splits sum.splits)
  let ?f = "cache_image p img f"
  have "disk_image ?f q = disk_image f q" for q by (simp add: disk_image_def cache_image_def)
  then have "file_view ?f q = file_view f q" for q
    using None count disk unfolding file_view_def by (cases "q = p") (simp_all add: cache_image_def cong: option.case_cong)
  moreover have "RBT.lookup (tf_page_cache f) \<subseteq>\<^sub>m RBT.lookup (tf_page_cache ?f)"
    using None by (auto simp: cache_image_def map_le_def)
  moreover have "dom (RBT.lookup (tf_page_cache ?f)) \<subseteq> dom (RBT.lookup (tf_page_cache f)) \<union> {p. p < tf_page_count f}"
    using count by (auto simp: cache_image_def split: if_splits)
  ultimately have "file_same f ?f" by (simp add: file_same_def cache_image_def fun_eq_iff)
  then show thesis
    using that[of ?f] None count disk by (simp add: tsf_read_page_def disk_image_def)
qed

lemma ov_read_page_view:
  assumes "ov_view ov p = Some img"
  obtains ov' where "ov_read_page p ov = (Inr img, ov')" "ov_same ov ov'"
proof (cases "RBT.lookup (ov_page_images ov) p")
  case (Some c)
  then show thesis using that[of ov] assms by (simp add: ov_read_page_def ov_view_def)
next
  case None
  then obtain f' where "tsf_read_page p (ov_file ov) = (Inr img, f')" "file_same (ov_file ov) f'"
    using read_page_view[of "ov_file ov" p img] assms by (auto simp: ov_view_def)
  then show thesis
    using that[of "ov\<lparr>ov_file := f'\<rparr>"] None by (simp add: ov_read_page_def on_file_def ov_same_def)
qed

section \<open>Linked pages\<close>

definition first_id :: "chain \<Rightarrow> PageId \<Rightarrow> PageId" where
  "first_id ch b = (case ch of [] \<Rightarrow> b | (p, _) # _ \<Rightarrow> p)"

definition last_id :: "PageId \<Rightarrow> chain \<Rightarrow> PageId" where
  "last_id a ch = (if ch = [] then a else fst (last ch))"

fun linked :: "ext \<Rightarrow> (PageId \<rightharpoonup> byte list) \<Rightarrow> tuple_meta \<Rightarrow> PageId \<Rightarrow> PageId \<Rightarrow> chain \<Rightarrow> bool" where
  "linked X V m a b [] \<longleftrightarrow> True"
| "linked X V m a b ((p, rs) # ch) \<longleftrightarrow>
     (\<exists>img. V p = Some img \<and> page_is X img p m rs a (first_id ch b)) \<and> linked X V m p b ch"

lemma first_id_simps [simp]:
  "first_id [] b = b" "first_id ((p, rs) # ch) b = p" "first_id (xs @ ys) b = first_id xs (first_id ys b)"
  by (simp_all add: first_id_def split: list.split)

lemma last_id_simps [simp]:
  "last_id a [] = a" "last_id a ((p, rs) # ch) = last_id p ch" "last_id a (xs @ ys) = last_id (last_id a xs) ys"
  by (simp_all add: last_id_def)

lemma linked_append:
  "linked X V m a b (xs @ ys) \<longleftrightarrow> linked X V m a (first_id ys b) xs \<and> linked X V m (last_id a xs) b ys"
  by (induction xs arbitrary: a) auto

lemma linked_cong:
  assumes "\<And>p. p \<in> fst ` set ch \<Longrightarrow> V' p = V p"
  shows "linked X V' m a b ch = linked X V m a b ch"
  using assms by (induction ch arbitrary: a) auto

section \<open>Representation\<close>

definition file_meta :: "TimeSeriesFile \<Rightarrow> tuple_meta" where
  "file_meta f = (tf_tuple_format_version f, tf_tuple_schema_hash f, tf_tuple_flags f)"

definition ov_rep :: "ext \<Rightarrow> WriteOverlay \<Rightarrow> chain \<Rightarrow> bool" where
  "ov_rep X ov ch \<longleftrightarrow>
     raw_page_id (ov_head_page_id ov) = first_id ch NONE_PAGE_ID \<and> raw_page_id (ov_tail_page_id ov) = last_id NONE_PAGE_ID ch
     \<and> distinct (map fst ch) \<and> fst ` set ch = {p. p < ov_page_count ov}
     \<and> linked X (ov_view ov) (file_meta (ov_file ov)) NONE_PAGE_ID NONE_PAGE_ID ch
     \<and> chain_ordered ch"

definition file_rep :: "ext \<Rightarrow> TimeSeriesFile \<Rightarrow> chain \<Rightarrow> bool" where
  "file_rep X f ch \<longleftrightarrow> ov_rep X (overlay_new f) ch"

lemma ov_rep_same:
  assumes "ov_same ov ov'"
  shows "ov_rep X ov' ch \<longleftrightarrow> ov_rep X ov ch"
proof -
  have "file_meta (ov_file ov') = file_meta (ov_file ov)"
    by (simp add: file_meta_def file_sameD[OF ov_sameD(5)[OF assms]])
  then show ?thesis by (simp add: ov_rep_def ov_sameD[OF assms])
qed

lemma overlay_new_view [simp]: "ov_view (overlay_new f) = file_view f"
  by (simp add: overlay_new_def ov_view_def fun_eq_iff)

lemma file_rep_iff:
  "file_rep X f ch \<longleftrightarrow> tf_head_page_id f = first_id ch NONE_PAGE_ID \<and> tf_tail_page_id f = last_id NONE_PAGE_ID ch
     \<and> distinct (map fst ch) \<and> fst ` set ch = {p. p < tf_page_count f}
     \<and> linked X (file_view f) (file_meta f) NONE_PAGE_ID NONE_PAGE_ID ch \<and> chain_ordered ch"
  by (simp add: file_rep_def ov_rep_def)
    (auto simp: overlay_new_def raw_page_id_def page_id_from_raw_def)

lemma file_rep_same:
  assumes "file_same f f'"
  shows "file_rep X f' ch \<longleftrightarrow> file_rep X f ch"
  by (simp add: file_rep_iff file_sameD[OF assms] file_meta_def)

text \<open>A page id in the chain is a valid one, and the steps of a walk are enough for the whole chain.\<close>

lemma chain_ids:
  assumes "distinct (map fst ch)" and "fst ` set ch = {p. p < (n :: u64)}"
  shows "p \<in> fst ` set ch \<Longrightarrow> p \<noteq> NONE_PAGE_ID" and "length ch < walk_steps n"
proof -
  show "p \<noteq> NONE_PAGE_ID" if "p \<in> fst ` set ch"
    using that assms(2) by (auto dest: leD)
  have "length ch = card (fst ` set ch)" using assms(1) by (metis distinct_card length_map set_map)
  also have "\<dots> = card {p. p < n}" by (simp add: assms(2))
  also have "\<dots> \<le> card {..< unat n}"
    by (rule card_inj_on_le[of unat]) (auto simp: inj_on_def word_less_nat_alt word_unat_eq_iff)
  finally show "length ch < walk_steps n" by (simp add: walk_steps_def)
qed


section \<open>Lookup\<close>

lemma from_raw_id [simp]: "p \<noteq> NONE_PAGE_ID \<Longrightarrow> page_id_from_raw p = Some p" "page_id_from_raw NONE_PAGE_ID = None"
  by (simp_all add: page_id_from_raw_def)

lemma newest_below:
  assumes "chain_ordered ((p, rs) # ch)" and "rs \<noteq> []" and "fst (fst (last rs)) < ts"
  shows "chain_map ((p, rs) # ch) (ts, tid) = None"
proof (rule chain_map_None, rule ballI, rule below_notin)
  fix q assume q: "q \<in> set ((p, rs) # ch)"
  have "keys_ok rs" and old: "\<forall>q \<in> set ch. not_older (p, rs) q"
    using assms(1) by (simp_all add: chain_ordered_def)
  then have top: "stamp_of r < ts" if "r \<in> set rs" for r
    using keys_ok_bounds(2)[of rs r] that assms(3) by (simp add: stamp_of_def)
  have "last rs \<in> set rs" using assms(2) by simp
  then have "stamp_of r < ts" if "q \<in> set ch" "r \<in> set (snd q)" for r
    using old that top[of "last rs"] by (auto simp: not_older_def dest!: bspec)
  then show "below (fst (ts, tid)) (snd q)" using q top by (auto simp: below_def)
qed

lemma oldest_above:
  assumes "keys_ok rs" and "ts < fst (fst (hd rs))"
  shows "map_of rs (ts, tid) = None"
proof -
  have "ts < stamp_of r" if "r \<in> set rs" for r
    using keys_ok_bounds(1)[OF assms(1) that] assms(2) by (simp add: stamp_of_def)
  then show ?thesis using above_notin[of "(ts, tid)" rs] by (simp add: above_def map_of_eq_None_iff)
qed

lemma get_loop_linked:
  assumes "linked X (file_view f) m a NONE_PAGE_ID ch" and "chain_ordered ch"
    and "\<forall>q \<in> fst ` set ch. q \<noteq> NONE_PAGE_ID" and "length ch \<le> n"
  shows "\<exists>r f'. get_loop X ts tid n (page_id_from_raw (first_id ch NONE_PAGE_ID)) f = (Inr r, f') \<and> file_same f f'
    \<and> map_option ts_payload r = chain_map ch (ts, tid)"
  using assms
proof (induction ch arbitrary: n a f)
  case Nil
  then show ?case by (cases n) (simp_all add: return_se_def)
next
  case (Cons q ch)
  obtain p rs where q: "q = (p, rs)" by (cases q)
  obtain n' where n: "n = Suc n'" using Cons.prems(4) by (cases n) simp_all
  obtain img where img: "file_view f p = Some img" "page_is X img p m rs a (first_id ch NONE_PAGE_ID)"
    using Cons.prems(1) by (auto simp: q)
  obtain f1 where f1: "tsf_read_page p f = (Inr img, f1)" "file_same f f1" by (rule read_page_view[OF img(1)])
  have ord: "chain_ordered ch" "keys_ok rs" using Cons.prems(2) by (simp_all add: q chain_ordered_def)
  have "linked X (file_view f1) m p NONE_PAGE_ID ch" using Cons.prems(1) by (simp add: q file_sameD(1)[OF f1(2)])
  moreover have "\<forall>q \<in> fst ` set ch. q \<noteq> NONE_PAGE_ID" "length ch \<le> n'" using Cons.prems(3,4) by (simp_all add: n)
  ultimately obtain r f2 where f2: "get_loop X ts tid n' (page_id_from_raw (first_id ch NONE_PAGE_ID)) f1 = (Inr r, f2)"
      "file_same f1 f2" "map_option ts_payload r = chain_map ch (ts, tid)"
    using Cons.IH[of f1 p n'] ord(1) by blast
  note reads = page_is_reads[OF img(2)] page_is_bounds[OF img(2)]
  have p: "page_id_from_raw (first_id (q # ch) NONE_PAGE_ID) = Some p" using Cons.prems(3) by (simp add: q)
  have miss: ?case if none: "map_of rs (ts, tid) = None"
      and run: "get_loop X ts tid n (page_id_from_raw (first_id (q # ch) NONE_PAGE_ID)) f = (Inr r, f2)"
    using run f2 none file_same_trans[OF f1(2) f2(2)] by (auto simp: q chain_map_Cons map_add_def)
  have start: "get_loop X ts tid n (Some p) f =
      (case (if rs = [] then None else Some (fst (fst (hd rs)), fst (fst (last rs)))) of
         None \<Rightarrow> (Inr r, f2)
       | Some (min_ts, max_ts) \<Rightarrow>
           if ts > max_ts then (Inr None, f1) else if ts < min_ts then (Inr r, f2)
           else case position (\<lambda>r. fst r = (ts, tid)) rs of
               None \<Rightarrow> (Inr r, f2)
             | Some i \<Rightarrow> bind_se (lift_se (record_bytes X img i)) (\<lambda>payload. return_se (Some
                 \<lparr>ts_timestamp = ts, ts_tuple_id = tid, ts_payload = payload, ts_page_id = p, ts_slot_index = i\<rparr>)) f1)"
    unfolding n get_loop.simps
    by (simp add: bind_se_eval(1)[of "tsf_read_page p" f, OF f1(1)] reads bind_se_lift Let_def f2(1) return_se_def split: option.split prod.split)
  show ?case
  proof (cases "rs = []")
    case True
    then show ?thesis using start p by (intro miss) simp_all
  next
    case False
    note start = start[unfolded if_not_P[OF False] option.case prod.case]
    consider "fst (fst (last rs)) < ts" | "ts \<le> fst (fst (last rs))" "ts < fst (fst (hd rs))"
      | "ts \<le> fst (fst (last rs))" "fst (fst (hd rs)) \<le> ts" by force
    then show ?thesis
    proof cases
      case 1
      have "get_loop X ts tid n (page_id_from_raw (first_id (q # ch) NONE_PAGE_ID)) f = (Inr None, f1)"
        using start p 1 by simp
      then show ?thesis
        using f1(2) newest_below[OF _ False 1] Cons.prems(2) by (auto simp: q)
    next
      case 2
      then show ?thesis using start p oldest_above[OF ord(2) 2(2)] leD[OF 2(1)] by (intro miss) simp_all
    next
      case 3
      note found = map_of_position[of rs "(ts, tid)"] ord(2)[unfolded keys_ok_def]
      show ?thesis
      proof (cases "position (\<lambda>r. fst r = (ts, tid)) rs")
        case None
        then show ?thesis using start p found leD[OF 3(1)] leD[OF 3(2)] by (intro miss) simp_all
      next
        case (Some i)
        then have "i < length rs" using position_SomeD[OF Some] by simp
        then have run: "get_loop X ts tid n (page_id_from_raw (first_id (q # ch) NONE_PAGE_ID)) f
            = (Inr (Some \<lparr>ts_timestamp = ts, ts_tuple_id = tid, ts_payload = snd (rs ! i), ts_page_id = p, ts_slot_index = i\<rparr>), f1)"
          using start p Some reads(6) leD[OF 3(1)] leD[OF 3(2)] by (simp add: bind_se_lift return_se_def)
        then show ?thesis
          using f1(2) found Some by (auto simp: q chain_map_Cons map_add_def)
      qed
    qed
  qed
qed

lemma tsf_get_rep:
  assumes "file_rep X f ch"
  obtains r f' where "tsf_get X ts tid f = (Inr r, f')" "file_same f f'" "map_option ts_payload r = chain_map ch (ts, tid)"
proof -
  have rep: "tf_head_page_id f = first_id ch NONE_PAGE_ID" "distinct (map fst ch)" "fst ` set ch = {p. p < tf_page_count f}"
      "linked X (file_view f) (file_meta f) NONE_PAGE_ID NONE_PAGE_ID ch" "chain_ordered ch"
    using assms by (simp_all add: file_rep_iff)
  note ids = chain_ids[OF rep(2,3)]
  then have "\<forall>q \<in> fst ` set ch. q \<noteq> NONE_PAGE_ID" "length ch \<le> walk_steps (tf_page_count f)" by auto
  from get_loop_linked[OF rep(4,5) this, of ts tid] that show thesis
    unfolding tsf_get_def rep(1) by blast
qed

end
