(* ===== verification/Ts_Insert.thy ===== *)
theory Ts_Insert
  imports Ts_View
begin

text \<open>
  Inserting a row into a time-series file: the page that the search finds, and what planning the row does to the chain.
\<close>

section \<open>Finding the page of a record\<close>

inductive located :: "u64 \<Rightarrow> chain \<Rightarrow> PageInsertLocation \<Rightarrow> bool" for ts where
  existing: "\<forall>q \<in> set pre. above ts (snd q) \<Longrightarrow> r0 \<in> set rs \<Longrightarrow> stamp_of r0 \<le> ts \<Longrightarrow>
    located ts (pre @ (p, rs) # post) (Existing p)"
| head: "rs \<noteq> [] \<Longrightarrow> below ts rs \<Longrightarrow> located ts ((p, rs) # post) (HeadLatest p)"
| before: "\<forall>q \<in> set pre. above ts (snd q) \<Longrightarrow> pre \<noteq> [] \<Longrightarrow> rs \<noteq> [] \<Longrightarrow> below ts rs \<Longrightarrow>
    located ts (pre @ (p, rs) # post) (Before p)"
| after: "\<forall>q \<in> set (pre @ [(p, rs)]). above ts (snd q) \<Longrightarrow> \<forall>q \<in> set post. snd q = [] \<Longrightarrow>
    located ts (pre @ (p, rs) # post) (After p)"

definition last_filled :: "chain \<Rightarrow> PageId option \<Rightarrow> bool" where
  "last_filled pre lne \<longleftrightarrow> (case lne of
      None \<Rightarrow> \<forall>q \<in> set pre. snd q = []
    | Some p \<Rightarrow> \<exists>pre1 rs1 post1. pre = pre1 @ (p, rs1) # post1 \<and> (\<forall>q \<in> set post1. snd q = []))"

lemma last_filled_snoc:
  "last_filled pre lne \<Longrightarrow> last_filled (pre @ [(p, [])]) lne" "last_filled (pre @ [(p, rs)]) (Some p)"
proof -
  show "last_filled (pre @ [(p, [])]) lne" if filled: "last_filled pre lne"
  proof (cases lne)
    case None
    then show ?thesis using filled by (simp add: last_filled_def)
  next
    case (Some q)
    then obtain pre1 rs1 post1 where "pre = pre1 @ (q, rs1) # post1" "\<forall>q \<in> set post1. snd q = []"
      using filled by (auto simp: last_filled_def)
    then have "pre @ [(p, [])] = pre1 @ (q, rs1) # (post1 @ [(p, [])]) \<and> (\<forall>q \<in> set (post1 @ [(p, [])]). snd q = [])" by simp
    then show ?thesis unfolding last_filled_def Some option.case by blast
  qed
  have "pre @ [(p, rs)] = pre @ (p, rs) # [] \<and> (\<forall>q \<in> set []. snd q = [])" by simp
  then show "last_filled (pre @ [(p, rs)]) (Some p)" unfolding last_filled_def option.case by blast
qed

lemma located_end:
  assumes "\<forall>q \<in> set ch. above ts (snd q)" and "ch = pre @ [(p, rs)]" and "last_filled ch lne"
  shows "located ts ch (After (case lne of Some q \<Rightarrow> q | None \<Rightarrow> p))"
proof (cases lne)
  case None
  then show ?thesis using assms(1,2) after[of pre p rs ts "[]"] by simp
next
  case (Some q)
  then obtain pre1 rs1 post1 where ch: "ch = pre1 @ (q, rs1) # post1" "\<forall>q \<in> set post1. snd q = []"
    using assms(3) by (auto simp: last_filled_def)
  have "located ts (pre1 @ (q, rs1) # post1) (After q)"
    by (rule after) (use assms(1) ch in auto)
  then show ?thesis using Some ch(1) by simp
qed

lemma bounds_above_below:
  assumes "keys_ok rs" and "rs \<noteq> []"
  shows "fst (fst (last rs)) < ts \<longleftrightarrow> below ts rs" and "ts < fst (fst (hd rs)) \<longleftrightarrow> above ts rs"
proof -
  have ends: "last rs \<in> set rs" "hd rs \<in> set rs" using assms(2) by simp_all
  note bounds = keys_ok_bounds[OF assms(1)]
  show "fst (fst (last rs)) < ts \<longleftrightarrow> below ts rs"
    unfolding below_def stamp_of_def using ends(1) bounds(2) le_less_trans by blast
  show "ts < fst (fst (hd rs)) \<longleftrightarrow> above ts rs"
    unfolding above_def stamp_of_def using ends(2) bounds(1) less_le_trans by blast
qed

lemma locate_page:
  assumes "ov_view ov p = Some img" and "page_is X img p m rs a b"
  obtains ov1 where "ov_same ov ov1"
    "locate_loop X ts (Suc n) p lne is_head ov =
      (if rs \<noteq> [] \<and> below ts rs then (Inr (if is_head then HeadLatest p else Before p), ov1)
       else if \<not> above ts rs then (Inr (Existing p), ov1)
       else let lne' = (if rs = [] then lne else Some p) in
         case page_id_from_raw b of
           Some p' \<Rightarrow> locate_loop X ts n p' lne' False ov1
         | None \<Rightarrow> (Inr (After (case lne' of Some q \<Rightarrow> q | None \<Rightarrow> p)), ov1))"
proof -
  obtain ov1 where ov1: "ov_read_page p ov = (Inr img, ov1)" "ov_same ov ov1" by (rule ov_read_page_view[OF assms(1)])
  note reads = page_is_reads[OF assms(2)] page_is_bounds[OF assms(2)]
  have keys: "keys_ok rs" by (rule page_is_good(5)[OF assms(2)])
  show thesis
  proof (rule that[OF ov1(2)], cases "rs = []")
    case True
    then show "locate_loop X ts (Suc n) p lne is_head ov =
      (if rs \<noteq> [] \<and> below ts rs then (Inr (if is_head then HeadLatest p else Before p), ov1)
       else if \<not> above ts rs then (Inr (Existing p), ov1)
       else let lne' = (if rs = [] then lne else Some p) in
         case page_id_from_raw b of
           Some p' \<Rightarrow> locate_loop X ts n p' lne' False ov1
         | None \<Rightarrow> (Inr (After (case lne' of Some q \<Rightarrow> q | None \<Rightarrow> p)), ov1))"
      unfolding locate_loop.simps
      by (simp add: bind_se_eval(1)[of "ov_read_page p" ov, OF ov1(1)] reads bind_se_lift Let_def above_def
          return_se_def split: option.split)
  next
    case False
    note b = bounds_above_below[OF keys False, of ts]
    show "locate_loop X ts (Suc n) p lne is_head ov =
      (if rs \<noteq> [] \<and> below ts rs then (Inr (if is_head then HeadLatest p else Before p), ov1)
       else if \<not> above ts rs then (Inr (Existing p), ov1)
       else let lne' = (if rs = [] then lne else Some p) in
         case page_id_from_raw b of
           Some p' \<Rightarrow> locate_loop X ts n p' lne' False ov1
         | None \<Rightarrow> (Inr (After (case lne' of Some q \<Rightarrow> q | None \<Rightarrow> p)), ov1))"
      unfolding locate_loop.simps
      by (simp add: bind_se_eval(1)[of "ov_read_page p" ov, OF ov1(1)] reads bind_se_lift Let_def False b(1)
          b(2)[symmetric] not_less return_se_def split: option.split)
  qed
qed

lemma locate_loop_linked:
  assumes "linked X (ov_view ov) m a NONE_PAGE_ID ((p, rs) # suf)"
    and "\<forall>q \<in> fst ` set suf. q \<noteq> NONE_PAGE_ID" and "length suf < n"
    and "\<forall>q \<in> set pre. above ts (snd q)" and "is_head \<longleftrightarrow> pre = []" and "last_filled pre lne"
  shows "\<exists>loc ov'. locate_loop X ts n p lne is_head ov = (Inr loc, ov') \<and> ov_same ov ov'
    \<and> located ts (pre @ (p, rs) # suf) loc"
  using assms
proof (induction suf arbitrary: n a p rs pre ov lne is_head)
  case Nil
  obtain img where img: "ov_view ov p = Some img" "page_is X img p m rs a NONE_PAGE_ID" using Nil.prems(1) by auto
  obtain n' where n: "n = Suc n'" using Nil.prems(3) by (cases n) simp_all
  obtain ov1 where ov1: "ov_same ov ov1" "locate_loop X ts n p lne is_head ov =
      (if rs \<noteq> [] \<and> below ts rs then (Inr (if is_head then HeadLatest p else Before p), ov1)
       else if \<not> above ts rs then (Inr (Existing p), ov1)
       else (Inr (After (case (if rs = [] then lne else Some p) of Some q \<Rightarrow> q | None \<Rightarrow> p)), ov1))"
    by (rule locate_page[OF img, of ts n' lne is_head]) (simp add: n)
  have filled: "last_filled (pre @ [(p, rs)]) (if rs = [] then lne else Some p)"
    using last_filled_snoc Nil.prems(6) by simp
  show ?case
  proof (cases "rs \<noteq> [] \<and> below ts rs")
    case True
    then show ?thesis using ov1 Nil.prems(4,5) head[of rs ts p "[]"] before[of pre ts rs p "[]"] by auto
  next
    case False
    show ?thesis
    proof (cases "above ts rs")
      case True
      have "located ts (pre @ [(p, rs)]) (After (case (if rs = [] then lne else Some p) of Some q \<Rightarrow> q | None \<Rightarrow> p))"
        by (rule located_end[OF _ refl filled]) (use True Nil.prems(4) in auto)
      then show ?thesis using ov1 False True by auto
    next
      case above: False
      then obtain r0 where "r0 \<in> set rs" "stamp_of r0 \<le> ts" by (auto simp: above_def not_less)
      then show ?thesis using ov1 False above existing[OF Nil.prems(4), of r0 rs p "[]"] by auto
    qed
  qed
next
  case (Cons q suf)
  obtain p2 rs2 where q: "q = (p2, rs2)" by (cases q)
  obtain img where img: "ov_view ov p = Some img" "page_is X img p m rs a p2" using Cons.prems(1) by (auto simp: q)
  have p2: "page_id_from_raw p2 = Some p2" using Cons.prems(2) by (simp add: q)
  obtain n' where n: "n = Suc n'" using Cons.prems(3) by (cases n) simp_all
  obtain ov1 where ov1: "ov_same ov ov1" "locate_loop X ts n p lne is_head ov =
      (if rs \<noteq> [] \<and> below ts rs then (Inr (if is_head then HeadLatest p else Before p), ov1)
       else if \<not> above ts rs then (Inr (Existing p), ov1)
       else locate_loop X ts n' p2 (if rs = [] then lne else Some p) False ov1)"
    by (rule locate_page[OF img, of ts n' lne is_head]) (simp add: n p2)
  have filled: "last_filled (pre @ [(p, rs)]) (if rs = [] then lne else Some p)"
    using last_filled_snoc Cons.prems(6) by simp
  show ?case
  proof (cases "rs \<noteq> [] \<and> below ts rs")
    case True
    then show ?thesis using ov1 Cons.prems(4,5) head[of rs ts p "q # suf"] before[of pre ts rs p "q # suf"] by auto
  next
    case False
    show ?thesis
    proof (cases "above ts rs")
      case True
      have "linked X (ov_view ov1) m p NONE_PAGE_ID ((p2, rs2) # suf)"
        using Cons.prems(1) by (simp add: q ov_sameD(6)[OF ov1(1)])
      moreover have "\<forall>q \<in> fst ` set suf. q \<noteq> NONE_PAGE_ID" "length suf < n'" using Cons.prems(2,3) by (simp_all add: n)
      moreover have "\<forall>q \<in> set (pre @ [(p, rs)]). above ts (snd q)" using Cons.prems(4) True by simp
      moreover have "False \<longleftrightarrow> pre @ [(p, rs)] = []" by simp
      ultimately have "\<exists>loc ov'. locate_loop X ts n' p2 (if rs = [] then lne else Some p) False ov1 = (Inr loc, ov')
          \<and> ov_same ov1 ov' \<and> located ts ((pre @ [(p, rs)]) @ (p2, rs2) # suf) loc"
        using filled by (rule Cons.IH)
      then show ?thesis using ov1 False True ov_same_trans[OF ov1(1)] by (auto simp: q)
    next
      case above: False
      then obtain r0 where "r0 \<in> set rs" "stamp_of r0 \<le> ts" by (auto simp: above_def not_less)
      then show ?thesis using ov1 False above existing[OF Cons.prems(4), of r0 rs p "q # suf"] by auto
    qed
  qed
qed

lemma find_insert_location_rep:
  assumes "ov_rep X ov ch" and "ch \<noteq> []"
  obtains loc ov' where "find_insert_location X ts ov = (Inr loc, ov')" "ov_same ov ov'" "located ts ch loc"
proof -
  obtain p rs suf where ch: "ch = (p, rs) # suf" using assms(2) by (cases ch) auto
  have rep: "raw_page_id (ov_head_page_id ov) = p" "distinct (map fst ch)" "fst ` set ch = {p. p < ov_page_count ov}"
      "linked X (ov_view ov) (file_meta (ov_file ov)) NONE_PAGE_ID NONE_PAGE_ID ch"
    using assms(1) by (simp_all add: ov_rep_def ch)
  note ids = chain_ids[OF rep(2,3)]
  have "p \<noteq> NONE_PAGE_ID" using ids(1)[of p] by (simp add: ch)
  then have head: "ov_head_page_id ov = Some p" using rep(1) by (auto simp: raw_page_id_def split: option.splits)
  have "\<exists>loc ov'. locate_loop X ts (walk_steps (ov_page_count ov)) p None True ov = (Inr loc, ov') \<and> ov_same ov ov'
      \<and> located ts ([] @ (p, rs) # suf) loc"
    by (rule locate_loop_linked[OF rep(4)[unfolded ch]]) (use ids in \<open>auto simp: ch last_filled_def\<close>)
  then show thesis using that head by (auto simp: find_insert_location_def ch)
qed

end
