(* ===== verification/Ts_Plan.thy ===== *)
theory Ts_Plan
  imports Ts_Insert
begin

text \<open>
  Planning a row against the overlay of a batch: a logic of outcomes for the overlay's steps, the chain that each
  planning function leaves behind, and the cases in which it fails.
\<close>

section \<open>Outcomes of a run\<close>

text \<open>Every failure satisfies \<open>E\<close>, every result \<open>Q\<close>; with no failure allowed the run succeeds.\<close>

definition runs :: "(fault \<Rightarrow> bool) \<Rightarrow> ('s, 'a) se \<Rightarrow> 's \<Rightarrow> ('a \<Rightarrow> 's \<Rightarrow> bool) \<Rightarrow> bool" where
  "runs E m s Q \<longleftrightarrow> (case m s of (Inl e, _) \<Rightarrow> E e | (Inr a, s') \<Rightarrow> Q a s')"

named_theorems plan_steps \<open>rules for the steps of a plan\<close>

lemma runs_bind [plan_steps]: "runs E m s (\<lambda>a s'. runs E (k a) s' Q) \<Longrightarrow> runs E (bind_se m k) s Q"
  by (simp add: runs_def bind_se_def split: prod.splits sum.splits)

lemma runs_lift [plan_steps]: "r = Inr a \<Longrightarrow> Q a s \<Longrightarrow> runs E (lift_se r) s Q"
  by (simp add: runs_def lift_se_def)

lemma runs_lift_fail: "r = Inl e \<Longrightarrow> E e \<Longrightarrow> runs E (lift_se r) s Q"
  by (simp add: runs_def lift_se_def)

lemma runs_return: "Q a s \<Longrightarrow> runs E (return_se a) s Q"
  by (simp add: runs_def return_se_def)

lemma runs_write_se: "Q () (f s) \<Longrightarrow> runs E (write_se f) s Q"
  by (simp add: runs_def write_se_def)

lemma runs_conseq: "runs E m s Q \<Longrightarrow> (\<And>a s'. Q a s' \<Longrightarrow> Q' a s') \<Longrightarrow> runs E m s Q'"
  by (auto simp: runs_def split: prod.splits sum.splits)

lemma runs_total: "runs (\<lambda>_. False) m s Q \<Longrightarrow> \<exists>a s'. m s = (Inr a, s') \<and> Q a s'"
  by (auto simp: runs_def split: prod.splits sum.splits)

lemma runs_fold:
  assumes "\<And>x xs' s. I (x # xs') s \<Longrightarrow> runs E (f x) s (\<lambda>_ s'. I xs' s')" and "I xs s"
  shows "runs E (fold_se f xs) s (\<lambda>_ s'. I [] s')"
  using assms(2)
proof (induction xs arbitrary: s)
  case Nil
  then show ?case by (simp add: runs_return)
next
  case (Cons x xs)
  then show ?case using runs_conseq[OF assms(1)[OF Cons.prems]] by (auto intro!: runs_bind)
qed

section \<open>Steps of an overlay\<close>

text \<open>The pages, the page count and the two ends of an overlay over a file.\<close>

definition ov_is ::
  "TimeSeriesFile \<Rightarrow> WriteOverlay \<Rightarrow> (PageId \<rightharpoonup> byte list) \<Rightarrow> PageId \<Rightarrow> PageId \<Rightarrow> PageId \<Rightarrow> bool" where
  "ov_is f ov V n hd_id tl_id \<longleftrightarrow> file_same f (ov_file ov) \<and> ov_view ov = V \<and> ov_page_count ov = n
     \<and> tf_page_count f \<le> n
     \<and> ov_head_page_id ov \<noteq> Some NONE_PAGE_ID
     \<and> raw_page_id (ov_head_page_id ov) = hd_id \<and> raw_page_id (ov_tail_page_id ov) = tl_id
     \<and> (\<forall>p. RBT.lookup (ov_page_images ov) p \<noteq> None \<longrightarrow> p < n)"

lemma ov_is_same: "ov_is f ov V n h t \<Longrightarrow> ov_same ov ov' \<Longrightarrow> ov_is f ov' V n h t"
  by (auto simp: ov_is_def dest: ov_sameD intro: file_same_trans)

lemma unat_plus_one: "n \<noteq> U64_MAX \<Longrightarrow> unat (n + 1) = unat n + 1" for n :: u64
  by (metis Suc_eq_plus1 add.commute add_eq_0_iff add.inverse_inverse unat_eq_zero unatSuc)

lemma ov_view_simps [simp]:
  "ov_view (ov\<lparr>ov_page_count := c\<rparr>) = ov_view ov" "ov_view (ov\<lparr>ov_head_page_id := i\<rparr>) = ov_view ov"
  "ov_view (ov\<lparr>ov_tail_page_id := i\<rparr>) = ov_view ov"
  "ov_view (ov\<lparr>ov_page_images := RBT.insert p img (ov_page_images ov)\<rparr>) = (ov_view ov)(p \<mapsto> img)"
  "(ov_view (ov\<lparr>ov_page_images := RBT.delete p (ov_page_images ov)\<rparr>))(p \<mapsto> img) = (ov_view ov)(p \<mapsto> img)"
  by (rule ext, simp add: ov_view_def cong: option.case_cong)+

lemma runs_alloc:
  assumes "ov_is f ov V n h t" and "n = U64_MAX \<Longrightarrow> E Panic"
    and "\<And>ov'. n \<noteq> U64_MAX \<Longrightarrow> ov_is f ov' V (n + 1) h t \<Longrightarrow> Q n ov'"
  shows "runs E alloc_page_id ov Q"
proof (cases "n = U64_MAX")
  case True
  then show ?thesis using assms(1,2) by (simp add: runs_def alloc_page_id_def ov_is_def)
next
  case False
  then have "p < n + 1" if "p < n" for p using that by (simp add: word_less_nat_alt unat_plus_one)
  moreover have "n \<le> n + 1" using False by (simp add: word_le_nat_alt unat_plus_one)
  ultimately have "ov_is f (ov\<lparr>ov_page_count := n + 1\<rparr>) V (n + 1) h t"
    using assms(1) by (auto simp: ov_is_def)
  then show ?thesis using assms(1) assms(3)[OF False] False by (simp add: runs_def alloc_page_id_def ov_is_def)
qed

lemma runs_read [plan_steps]:
  assumes "ov_is f ov V n h t" and "V p = Some img" and "\<And>ov'. ov_is f ov' V n h t \<Longrightarrow> Q img ov'"
  shows "runs E (ov_read_page p) ov Q"
proof -
  have "ov_view ov p = Some img" using assms(1,2) by (simp add: ov_is_def)
  then obtain ov' where "ov_read_page p ov = (Inr img, ov')" "ov_same ov ov'" by (rule ov_read_page_view)
  then show ?thesis using assms(3) ov_is_same[OF assms(1)] by (simp add: runs_def)
qed

lemma runs_write [plan_steps]:
  assumes "ov_is f ov V n h t" and "p < n" and "\<And>ov'. ov_is f ov' (V(p \<mapsto> img)) n h t \<Longrightarrow> Q () ov'"
  shows "runs E (write_page_image p img) ov Q"
proof -
  have "ov_is f (ov\<lparr>ov_page_images := RBT.insert p img (ov_page_images ov)\<rparr>) (V(p \<mapsto> img)) n h t"
    using assms(1,2) by (auto simp: ov_is_def)
  then show ?thesis using assms(3) by (simp add: write_page_image_def runs_write_se)
qed

text \<open>A page is taken out of the overlay to be written back; until then the overlay shows the page of the file.\<close>

lemma runs_take:
  assumes "ov_is f ov V n h t" and "V p = Some img"
    and "\<And>ov' V'. ov_is f ov' V' n h t \<Longrightarrow> (\<And>img'. V'(p \<mapsto> img') = V(p \<mapsto> img')) \<Longrightarrow> Q img ov'"
  shows "runs E (take_page_for_mutation p) ov Q"
proof (cases "RBT.lookup (ov_page_images ov) p")
  case None
  then have "take_page_for_mutation p ov = ov_read_page p ov" by (simp add: take_page_for_mutation_def ov_read_page_def)
  moreover have "runs E (ov_read_page p) ov Q" using assms by (auto intro: runs_read)
  ultimately show ?thesis by (simp add: runs_def)
next
  case (Some img')
  let ?ov = "ov\<lparr>ov_page_images := RBT.delete p (ov_page_images ov)\<rparr>"
  have "ov_is f ?ov (ov_view ?ov) n h t" using assms(1) by (auto simp: ov_is_def)
  moreover have "(ov_view ?ov)(p \<mapsto> i) = V(p \<mapsto> i)" for i
    using assms(1) by (simp add: ov_is_def)
  moreover have "img' = img" using Some assms(1,2) by (auto simp: ov_is_def ov_view_def)
  ultimately show ?thesis using Some assms(3) by (simp add: runs_def take_page_for_mutation_def)
qed

lemma runs_set_head [plan_steps]:
  assumes "ov_is f ov V n h t" and "p \<noteq> NONE_PAGE_ID" and "\<And>ov'. ov_is f ov' V n p t \<Longrightarrow> Q () ov'"
  shows "runs E (write_se (\<lambda>ov. ov\<lparr>ov_head_page_id := Some p\<rparr>)) ov Q"
  using assms by (intro runs_write_se) (auto simp: ov_is_def raw_page_id_def)

lemma runs_set_tail [plan_steps]:
  assumes "ov_is f ov V n h t" and "\<And>ov'. ov_is f ov' V n h p \<Longrightarrow> Q () ov'"
  shows "runs E (write_se (\<lambda>ov. ov\<lparr>ov_tail_page_id := Some p\<rparr>)) ov Q"
  using assms by (intro runs_write_se) (auto simp: ov_is_def raw_page_id_def)

lemma runs_set_both [plan_steps]:
  assumes "ov_is f ov V n h t" and "p \<noteq> NONE_PAGE_ID" and "\<And>ov'. ov_is f ov' V n p p \<Longrightarrow> Q () ov'"
  shows "runs E (write_se (\<lambda>ov. ov\<lparr>ov_head_page_id := Some p, ov_tail_page_id := Some p\<rparr>)) ov Q"
  using assms by (intro runs_write_se) (auto simp: ov_is_def raw_page_id_def)

lemma runs_keep_head [plan_steps]:
  assumes "ov_is f ov V n h t" and "h \<noteq> NONE_PAGE_ID" and "\<And>ov'. ov_is f ov' V n h t \<Longrightarrow> Q () ov'"
  shows "runs E (write_se (\<lambda>ov. if ov_head_page_id ov = None then ov\<lparr>ov_head_page_id := Some p\<rparr> else ov)) ov Q"
  using assms by (intro runs_write_se) (auto simp: ov_is_def raw_page_id_def)

section \<open>Pages of a chain\<close>

definition chain_view ::
  "ext \<Rightarrow> tuple_meta \<Rightarrow> (PageId \<rightharpoonup> byte list) \<Rightarrow> PageId \<Rightarrow> PageId \<Rightarrow> PageId \<Rightarrow> chain \<Rightarrow> bool" where
  "chain_view X m V n h t ch \<longleftrightarrow> h = first_id ch NONE_PAGE_ID \<and> t = last_id NONE_PAGE_ID ch
     \<and> distinct (map fst ch) \<and> fst ` set ch = {p. p < n} \<and> linked X V m NONE_PAGE_ID NONE_PAGE_ID ch \<and> chain_ordered ch"

text \<open>An overlay over a file that holds a chain.\<close>

definition ov_chain :: "ext \<Rightarrow> TimeSeriesFile \<Rightarrow> WriteOverlay \<Rightarrow> chain \<Rightarrow> bool" where
  "ov_chain X f ov ch \<longleftrightarrow> (\<exists>V n h t. ov_is f ov V n h t \<and> chain_view X (file_meta f) V n h t ch)"

lemma file_meta_same: "file_same f f' \<Longrightarrow> file_meta f' = file_meta f"
  by (simp add: file_meta_def file_sameD)

lemma ov_chain_rep: "ov_chain X f ov ch \<Longrightarrow> ov_rep X ov ch"
  by (auto simp: ov_chain_def ov_is_def chain_view_def ov_rep_def file_meta_same)

lemma overlay_new_chain:
  assumes "file_rep X f ch"
  shows "ov_chain X f (overlay_new f) ch"
proof -
  have "ov_is f (overlay_new f) (file_view f) (tf_page_count f) (tf_head_page_id f) (tf_tail_page_id f)"
    by (simp add: ov_is_def) (auto simp: overlay_new_def raw_page_id_def page_id_from_raw_def)
  then show ?thesis using assms unfolding ov_chain_def chain_view_def file_rep_iff by blast
qed

lemma linked_upd [simp]: "q \<notin> fst ` set ch \<Longrightarrow> linked X (V(q \<mapsto> img)) m a b ch = linked X V m a b ch"
  by (rule linked_cong) auto

lemma below_next:
  assumes "n \<noteq> U64_MAX"
  shows "{p. p < n + 1} = insert n {p. p < (n :: u64)}"
  using unat_plus_one[OF assms] by (auto simp: word_less_nat_alt word_unat_eq_iff)

lemma less_next: "n \<noteq> U64_MAX \<Longrightarrow> p < n + 1 \<longleftrightarrow> p < n \<or> p = (n :: u64)"
  using below_next[of n] by (auto simp: set_eq_iff)

lemma chain_view_ids:
  assumes "chain_view X m V n h t (pre @ (p, rs) # post)"
  shows "p < n" "p \<noteq> NONE_PAGE_ID" "p \<noteq> n" "n \<notin> fst ` set pre" "n \<notin> fst ` set post" "p \<notin> fst ` set pre" "p \<notin> fst ` set post"
proof -
  have ids: "distinct (map fst (pre @ (p, rs) # post))" "fst ` set (pre @ (p, rs) # post) = {p. p < n}"
    using assms by (simp_all add: chain_view_def)
  note none = chain_ids(1)[OF ids]
  have "p \<in> fst ` set (pre @ (p, rs) # post)" by simp
  then show "p < n" unfolding ids(2) by simp
  have "n \<notin> fst ` set (pre @ (p, rs) # post)" unfolding ids(2) by simp
  then show "p \<noteq> n" "n \<notin> fst ` set pre" "n \<notin> fst ` set post" by auto
  show "p \<noteq> NONE_PAGE_ID" using none[of p] by simp
  show "p \<notin> fst ` set pre" "p \<notin> fst ` set post" using ids(1) by auto
qed

lemma chain_view_head:
  assumes "chain_view X m V n h t (pre @ (p, rs) # post)"
  shows "h \<noteq> NONE_PAGE_ID"
proof (cases pre)
  case Nil
  then show ?thesis using assms chain_view_ids(2)[OF assms] by (simp add: chain_view_def)
next
  case (Cons q L)
  then have "chain_view X m V n h t ([] @ (fst q, snd q) # L @ (p, rs) # post)" using assms by simp
  from this chain_view_ids(2)[OF this] show ?thesis by (cases q) (simp add: chain_view_def)
qed

lemma chain_view_length:
  assumes "chain_view X m V n h t ch"
  shows "length ch = unat n"
proof -
  have ids: "distinct (map fst ch)" "fst ` set ch = {p. p < n}" using assms by (simp_all add: chain_view_def)
  have "length ch = card (fst ` set ch)" using ids(1) by (metis distinct_card length_map set_map)
  also have "\<dots> = card (unat ` {p. p < n})" unfolding ids(2)
    by (rule card_image[symmetric]) (simp add: inj_on_def word_unat_eq_iff)
  also have "unat ` {p. p < n} = {..< unat n}"
  proof (intro equalityI subsetI)
    fix k assume "k \<in> {..< unat n}"
    moreover have "unat n < 2 ^ LENGTH(64)" by (rule unsigned_less)
    ultimately have "unat (of_nat k :: u64) = k" by (simp add: unsigned_of_nat take_bit_nat_eq_self)
    then show "k \<in> unat ` {p. p < n}" using \<open>k \<in> {..< unat n}\<close> by (intro image_eqI[of _ _ "of_nat k"]) (simp_all add: word_less_nat_alt)
  qed (auto simp: word_less_nat_alt)
  finally show ?thesis by simp
qed

lemma chain_view_page:
  assumes "chain_view X m V n h t (pre @ (p, rs) # post)"
  obtains img where "V p = Some img"
    "page_is X img p m rs (last_id NONE_PAGE_ID pre) (first_id post NONE_PAGE_ID)"
  using assms by (auto simp: chain_view_def linked_append)

section \<open>A page for one record\<close>

lemma runs_empty_page [plan_steps]:
  assumes "ext_ok X" and "ov_is f ov V n h t"
    and "\<And>img. page_is X img pid (file_meta f) [] NONE_PAGE_ID NONE_PAGE_ID \<Longrightarrow> Q img ov"
  shows "runs E (file_empty_page X pid) ov Q"
proof -
  have "file_same f (ov_file ov)" using assms(2) by (simp add: ov_is_def)
  note same = file_sameD[OF this]
  obtain img where "empty_page_image X pid (tf_tuple_format_version f) (tf_tuple_schema_hash f) (tf_tuple_flags f) = Inr img"
      "page_is X img pid (file_meta f) [] NONE_PAGE_ID NONE_PAGE_ID"
    unfolding file_meta_def by (rule page_is_empty[OF assms(1)])
  then show ?thesis using assms(3) by (simp add: runs_def file_empty_page_def same Let_def)
qed

lemma runs_links [plan_steps]:
  assumes "ext_ok X" and "page_is X p pid m rs a b" and "\<And>p'. page_is X p' pid m rs a' b' \<Longrightarrow> Q p' s"
  shows "runs E (lift_se (exec_se (set_page_links X a' b') p)) s Q"
  using page_is_set_links[OF assms(1,2), of a' b'] assms(3) by (metis runs_lift)

lemma runs_relink_prev [plan_steps]:
  assumes "ext_ok X" and "page_is X p pid m rs a b" and "\<And>p'. page_is X p' pid m rs a' b \<Longrightarrow> Q p' s"
  shows "runs E (lift_se (relink_prev X a' p)) s Q"
  using page_is_relink[OF assms(1,2), of a'] assms(3) by (metis runs_lift)

lemma runs_relink_next [plan_steps]:
  assumes "ext_ok X" and "page_is X p pid m rs a b" and "\<And>p'. page_is X p' pid m rs a b' \<Longrightarrow> Q p' s"
  shows "runs E (lift_se (relink_next X b' p)) s Q"
  using page_is_relink[OF assms(1,2), of _ b'] assms(3) by (metis runs_lift)

lemma runs_first_record [plan_steps]:
  assumes "ext_ok X" and "page_is X p pid m [] a b" and "\<not> roomy [] (length payload) \<Longrightarrow> E (EC InsufficientBufferSpace)"
    and "\<And>p'. page_is X p' pid m [((ts, tid), payload)] a b \<Longrightarrow> Q p' s"
  shows "runs E (lift_se (exec_se (insert_record X ts tid payload) p)) s Q"
proof (cases "roomy [] (length payload)")
  case True
  obtain pos p' where "insert_record X ts tid payload p = (Inr pos, p')"
      "page_is X p' pid m (upsert_rec ((ts, tid), payload) []) a b"
    by (rule page_is_insert[OF assms(1,2) _ True]) simp
  then show ?thesis using assms(4) by (intro runs_lift[OF exec_se_eval(1)]) (simp_all add: upsert_rec_def)
next
  case False
  then show ?thesis
    using page_is_insert_full[OF assms(2) False] assms(3) by (intro runs_lift_fail[OF exec_se_eval(2)]) simp_all
qed

lemma runs_record_page:
  assumes X: "ext_ok X" and ov: "ov_is f ov V n h t" and space: "\<not> roomy [] (length payload) \<Longrightarrow> E (EC InsufficientBufferSpace)"
    and k: "\<And>p'. page_is X p' pid (file_meta f) [((ts, tid), payload)] a b \<Longrightarrow> runs E (k p') ov Q"
  shows "runs E (bind_se (file_empty_page X pid) (\<lambda>p. bind_se (lift_se (exec_se (set_page_links X a b) p)) (\<lambda>p.
    bind_se (lift_se (exec_se (insert_record X ts tid payload) p)) k))) ov Q"
  apply (rule runs_bind, rule runs_empty_page[OF X ov])
  apply (rule runs_bind, rule runs_links[OF X], assumption)
  by (rule runs_bind, rule runs_first_record[OF X], assumption, erule space, erule k)

section \<open>Planning functions\<close>

lemma chain_view_insert:
  assumes "chain_view X m V n h t ch" and "n \<noteq> U64_MAX" and "mset (map fst ch') = add_mset n (mset (map fst ch))"
    and "linked X V' m NONE_PAGE_ID NONE_PAGE_ID ch'" and "chain_ordered ch'"
  shows "chain_view X m V' (n + 1) (first_id ch' NONE_PAGE_ID) (last_id NONE_PAGE_ID ch') ch'"
proof -
  have old: "distinct (map fst ch)" "set (map fst ch) = {p. p < n}"
    using assms(1) by (simp_all add: chain_view_def)
  have perm: "mset (map fst ch') = mset (n # map fst ch)" using assms(3) by simp
  have "set (map fst ch') = {p. p < n + 1}"
    using mset_eq_setD[OF perm] old(2) by (simp add: below_next[OF assms(2)])
  moreover have "distinct (n # map fst ch)" unfolding distinct.simps(2) old(2) using old(1) by simp
  then have "distinct (map fst ch')" using mset_eq_imp_distinct_iff[OF perm] by blast
  ultimately show ?thesis using assms(4,5) by (simp add: chain_view_def)
qed

lemma plan_before_runs:
  assumes X: "ext_ok X" and ov: "ov_is f ov V n h t" and cv: "chain_view X (file_meta f) V n h t (pre @ (p, rs) # post)"
    and full: "n = U64_MAX \<Longrightarrow> E Panic" and space: "\<not> roomy [] (length payload) \<Longrightarrow> E (EC InsufficientBufferSpace)"
    and ord: "chain_ordered (pre @ (n, [((ts, tid), payload)]) # (p, rs) # post)"
  shows "runs E (plan_insert_before_page X p ts tid payload) ov
    (\<lambda>_ ov'. ov_chain X f ov' (pre @ (n, [((ts, tid), payload)]) # (p, rs) # post))"
proof -
  let ?r = "((ts, tid), payload)" and ?m = "file_meta f"
  let ?ch = "pre @ (n, [?r]) # (p, rs) # post"
  obtain img where img: "V p = Some img"
      "page_is X img p ?m rs (last_id NONE_PAGE_ID pre) (first_id post NONE_PAGE_ID)"
    by (rule chain_view_page[OF cv])
  note ids = chain_view_ids[OF cv] and reads = page_is_reads[OF img(2)]
  have link: "linked X V ?m NONE_PAGE_ID NONE_PAGE_ID (pre @ (p, rs) # post)" using cv by (simp add: chain_view_def)
  have fin: "ov_chain X f ov' ?ch" if "n \<noteq> U64_MAX" "ov_is f ov' V' (n + 1) h' t" "h' = first_id ?ch NONE_PAGE_ID"
      "linked X V' ?m NONE_PAGE_ID NONE_PAGE_ID ?ch" for ov' V' h'
    using chain_view_insert[OF cv that(1) _ that(4) ord] cv that(2,3) unfolding ov_chain_def chain_view_def by force
  show ?thesis
  proof (cases pre rule: rev_cases)
    case Nil
    show ?thesis
      unfolding plan_insert_before_page_def
      apply (rule runs_bind, rule runs_alloc[OF ov], erule full)
      apply (rule runs_bind, rule runs_read, assumption, rule img(1))
      apply (rule runs_bind, rule runs_lift, simp add: reads Nil)
      apply (rule runs_record_page[OF X], assumption, erule space)
      apply (rule runs_bind, rule runs_relink_prev[OF X img(2)])
      apply (rule runs_bind, rule runs_write, assumption, simp add: less_next)
      apply (rule runs_bind, rule runs_write, assumption, simp add: less_next ids)
      apply (simp only: option.case, rule runs_set_head, assumption, assumption)
      apply (rule fin, assumption, assumption, simp add: Nil)
      using link ids by (simp add: Nil raw_page_id_def)
  next
    case (snoc L q)
    obtain q' qs where q: "q = (q', qs)" by (cases q)
    have cv': "chain_view X ?m V n h t (L @ (q', qs) # (p, rs) # post)" using cv by (simp add: snoc q)
    obtain imgq where imgq: "V q' = Some imgq" "page_is X imgq q' ?m qs (last_id NONE_PAGE_ID L) p"
      by (rule chain_view_page[OF cv']) simp
    note idsq = chain_view_ids[OF cv']
    show ?thesis
      unfolding plan_insert_before_page_def
      apply (rule runs_bind, rule runs_alloc[OF ov], erule full)
      apply (rule runs_bind, rule runs_read, assumption, rule img(1))
      apply (rule runs_bind, rule runs_lift, simp add: reads snoc q idsq)
      apply (rule runs_record_page[OF X], assumption, erule space)
      apply (rule runs_bind, rule runs_relink_prev[OF X img(2)])
      apply (rule runs_bind, rule runs_write, assumption, simp add: less_next)
      apply (rule runs_bind, rule runs_write, assumption, simp add: less_next ids)
      apply (simp only: option.case, rule runs_bind, rule runs_read, assumption, use ids idsq imgq in simp)
      apply (rule runs_bind, rule runs_relink_next[OF X imgq(2)])
      apply (rule runs_write, assumption, simp add: less_next idsq)
      apply (rule fin, assumption, assumption, use cv in \<open>simp add: snoc q chain_view_def\<close>)
      using link ids idsq by (simp add: snoc q linked_append raw_page_id_def)
  qed
qed

lemma plan_after_runs:
  assumes X: "ext_ok X" and ov: "ov_is f ov V n h t" and cv: "chain_view X (file_meta f) V n h t (pre @ (p, rs) # post)"
    and full: "n = U64_MAX \<Longrightarrow> E Panic" and space: "\<not> roomy [] (length payload) \<Longrightarrow> E (EC InsufficientBufferSpace)"
    and ord: "chain_ordered (pre @ (p, rs) # (n, [((ts, tid), payload)]) # post)"
  shows "runs E (plan_insert_after_page X p ts tid payload) ov
    (\<lambda>_ ov'. ov_chain X f ov' (pre @ (p, rs) # (n, [((ts, tid), payload)]) # post))"
proof -
  let ?r = "((ts, tid), payload)" and ?m = "file_meta f"
  let ?ch = "pre @ (p, rs) # (n, [?r]) # post"
  obtain img where img: "V p = Some img"
      "page_is X img p ?m rs (last_id NONE_PAGE_ID pre) (first_id post NONE_PAGE_ID)"
    by (rule chain_view_page[OF cv])
  note ids = chain_view_ids[OF cv] and reads = page_is_reads[OF img(2)]
  have link: "linked X V ?m NONE_PAGE_ID NONE_PAGE_ID (pre @ (p, rs) # post)" using cv by (simp add: chain_view_def)
  have h: "h \<noteq> NONE_PAGE_ID" using chain_view_head[OF cv] by simp
  have fin: "ov_chain X f ov' ?ch" if "n \<noteq> U64_MAX" "ov_is f ov' V' (n + 1) h t'" "t' = last_id NONE_PAGE_ID ?ch"
      "linked X V' ?m NONE_PAGE_ID NONE_PAGE_ID ?ch" for ov' V' t'
    using chain_view_insert[OF cv that(1) _ that(4) ord] cv that(2,3) unfolding ov_chain_def chain_view_def by force
  show ?thesis
  proof (cases post)
    case Nil
    show ?thesis
      unfolding plan_insert_after_page_def
      apply (rule runs_bind, rule runs_alloc[OF ov], erule full)
      apply (rule runs_bind, rule runs_read, assumption, rule img(1))
      apply (rule runs_bind, rule runs_lift, simp add: reads Nil)
      apply (rule runs_record_page[OF X], assumption, erule space)
      apply (rule runs_bind, rule runs_relink_next[OF X img(2)])
      apply (rule runs_bind, rule runs_write, assumption, simp add: less_next)
      apply (rule runs_bind, rule runs_write, assumption, simp add: less_next ids)
      apply (simp only: option.case, rule runs_bind, rule runs_set_tail, assumption)
      apply (rule runs_keep_head, assumption, rule h)
      apply (rule fin, assumption, assumption, simp add: Nil)
      using link ids by (simp add: Nil linked_append raw_page_id_def)
  next
    case (Cons q R)
    obtain q' qs where q: "q = (q', qs)" by (cases q)
    have cv': "chain_view X ?m V n h t ((pre @ [(p, rs)]) @ (q', qs) # R)" using cv by (simp add: Cons q)
    obtain imgq where imgq: "V q' = Some imgq" "page_is X imgq q' ?m qs p (first_id R NONE_PAGE_ID)"
      by (rule chain_view_page[OF cv']) simp
    note idsq = chain_view_ids[OF cv']
    show ?thesis
      unfolding plan_insert_after_page_def
      apply (rule runs_bind, rule runs_alloc[OF ov], erule full)
      apply (rule runs_bind, rule runs_read, assumption, rule img(1))
      apply (rule runs_bind, rule runs_lift, simp add: reads Cons q idsq)
      apply (rule runs_record_page[OF X], assumption, erule space)
      apply (rule runs_bind, rule runs_relink_next[OF X img(2)])
      apply (rule runs_bind, rule runs_write, assumption, simp add: less_next)
      apply (rule runs_bind, rule runs_write, assumption, simp add: less_next ids)
      apply (simp only: option.case, rule runs_bind)
      apply (rule runs_bind, rule runs_read, assumption, use ids idsq imgq in simp)
      apply (rule runs_bind, rule runs_relink_prev[OF X imgq(2)])
      apply (rule runs_write, assumption, simp add: less_next idsq)
      apply (rule runs_keep_head, assumption, rule h)
      apply (rule fin, assumption, assumption, use cv in \<open>simp add: Cons q chain_view_def\<close>)
      using link ids idsq by (simp add: Cons q linked_append raw_page_id_def)
  qed
qed

lemma sorted_entries:
  assumes "map entry_rec es = rs" and "keys_ok rs" and "(ts, tid) \<notin> fst ` set rs"
  shows "map entry_rec (sort_key record_key (es @ [\<lparr>ts_timestamp = ts, ts_tuple_id = tid, ts_payload = payload,
    ts_page_id = pid, ts_slot_index = i\<rparr>])) = upsert_rec ((ts, tid), payload) rs" (is "map entry_rec ?es = upsert_rec ?r rs")
proof (rule keys_ok_set_eqI)
  let ?e = "\<lparr>ts_timestamp = ts, ts_tuple_id = tid, ts_payload = payload, ts_page_id = pid, ts_slot_index = i\<rparr>"
  have e: "entry_rec ?e = ?r" "record_key ?e = (ts, tid)" by (simp_all add: entry_rec_def record_key_def)
  have fst_rec: "fst \<circ> entry_rec = record_key" by (auto simp: entry_rec_def)
  have keys: "map record_key es = map fst rs" by (simp add: fst_rec[symmetric] assms(1)[symmetric])
  have "distinct (map record_key (es @ [?e]))" using assms(2,3) by (simp add: keys keys_ok_def e flip: set_map)
  then have "distinct (map record_key ?es)" by (metis mset_eq_imp_distinct_iff mset_map mset_sort)
  then show "keys_ok (map entry_rec ?es)" by (simp add: keys_ok_def fst_rec)
  show "keys_ok (upsert_rec ?r rs)" using assms(2) by (rule keys_ok_upsert)
  have "set (upsert_rec ?r rs) = insert ?r (set rs)" using assms(3) by (force simp: set_upsert_rec)
  then show "set (map entry_rec ?es) = set (upsert_rec ?r rs)" by (simp add: e flip: assms(1))
qed

lemma runs_read_se: "f s = Inr a \<Longrightarrow> Q a s \<Longrightarrow> runs E (read_se f) s Q"
  by (simp add: runs_def read_se_def)

lemma runs_build:
  assumes "ext_ok X" and "keys_ok (map entry_rec es)" and "fits_after [] (map entry_rec es)" and "ov_is f ov V n h t"
    and "\<And>p. page_is X p pid (file_meta f) (map entry_rec es) a b \<Longrightarrow> Q p s"
  shows "runs E (lift_se (build_entries_page_image X pid a b es (tf_tuple_format_version (ov_file ov))
    (tf_tuple_schema_hash (ov_file ov)) (tf_tuple_flags (ov_file ov)))) s Q"
proof -
  have "file_same f (ov_file ov)" using assms(4) by (simp add: ov_is_def)
  then show ?thesis
    using build_entries_ok[OF assms(1,2), of pid a b "tf_tuple_format_version f" "tf_tuple_schema_hash f" "tf_tuple_flags f"]
      assms(3,5) by (auto simp: file_meta_def file_sameD intro!: runs_lift)
qed

lemma split_entries:
  assumes "page_is X img p m rs a b" and "(ts, tid) \<notin> fst ` set rs"
  obtains es entries where "page_entries X img p = Inr es" "entries = sort_key record_key (es @ [\<lparr>ts_timestamp = ts,
      ts_tuple_id = tid, ts_payload = payload, ts_page_id = p, ts_slot_index = 0\<rparr>])"
    "map entry_rec entries = upsert_rec ((ts, tid), payload) rs"
proof -
  obtain es where es: "page_entries X img p = Inr es" "map entry_rec es = rs" by (rule page_is_entries[OF assms(1)])
  show thesis by (rule that[OF es(1) refl sorted_entries[OF es(2) page_is_good(5)[OF assms(1)] assms(2)]])
qed

lemma page_split_cases:
  assumes "ext_ok X" and "keys_ok u" and "map entry_rec es = u"
  shows "(\<exists>i. find_split_index X es = Inr i \<and> fits_after [] (take i u) \<and> fits_after [] (drop i u))
    \<or> find_split_index X es = Inl (EC InsufficientBufferSpace)
      \<and> \<not> (\<exists>i. 0 < i \<and> i < length u \<and> fits_after [] (take i u) \<and> fits_after [] (drop i u))"
proof -
  have keys: "keys_ok (map entry_rec es)" and len: "length es = length u" using assms(2,3) by auto
  show ?thesis using assms(1) keys by (cases rule: find_split_index_cases) (auto simp: assms(3) len)
qed

lemma split_relinks:
  assumes X: "ext_ok X" and cv: "chain_view X m V n h t (pre @ (p, rs) # post)" and n: "n \<noteq> U64_MAX"
    and ov: "ov_is f ov (V(p \<mapsto> img1, n \<mapsto> img2)) (n + 1) h t"
    and p1: "page_is X img1 p m us (last_id NONE_PAGE_ID pre) n"
    and p2: "page_is X img2 n m ls p (raw_page_id (page_id_from_raw (first_id post NONE_PAGE_ID)))"
    and fin: "\<And>ov' V' t'. ov_is f ov' V' (n + 1) h t' \<Longrightarrow> t' = last_id NONE_PAGE_ID (pre @ (p, us) # (n, ls) # post) \<Longrightarrow>
      linked X V' m NONE_PAGE_ID NONE_PAGE_ID (pre @ (p, us) # (n, ls) # post) \<Longrightarrow> Q () ov'"
  shows "runs E (case page_id_from_raw (first_id post NONE_PAGE_ID) of
      Some next_page_id \<Rightarrow>
        bind_se (ov_read_page next_page_id) (\<lambda>next_page_buf.
        bind_se (lift_se (relink_prev X n next_page_buf)) (\<lambda>updated_next_buf.
        write_page_image next_page_id updated_next_buf))
    | None \<Rightarrow> write_se (\<lambda>ov. ov\<lparr>ov_tail_page_id := Some n\<rparr>)) ov Q"
proof -
  note ids = chain_view_ids[OF cv]
  have link: "linked X V m NONE_PAGE_ID NONE_PAGE_ID (pre @ (p, rs) # post)" using cv by (simp add: chain_view_def)
  show ?thesis
  proof (cases post)
    case Nil
    show ?thesis
      using Nil apply (simp del: fun_upd_apply)
      apply (rule runs_set_tail[OF ov])
      apply (rule fin, assumption, simp add: Nil)
      using link p1 p2 ids by (simp add: Nil linked_append raw_page_id_def)
  next
    case (Cons q R)
    obtain q' qs where q: "q = (q', qs)" by (cases q)
    have cv': "chain_view X m V n h t ((pre @ [(p, rs)]) @ (q', qs) # R)" using cv by (simp add: Cons q)
    obtain imgq where imgq: "V q' = Some imgq" "page_is X imgq q' m qs p (first_id R NONE_PAGE_ID)"
      by (rule chain_view_page[OF cv']) simp
    note idsq = chain_view_ids[OF cv']
    have some: "page_id_from_raw (first_id post NONE_PAGE_ID) = Some q'" using idsq by (simp add: Cons q)
    show ?thesis
      unfolding some option.case
      apply (rule runs_bind, rule runs_read[OF ov], use ids idsq imgq in simp)
      apply (rule runs_bind, rule runs_relink_prev[OF X imgq(2)])
      apply (rule runs_write, assumption, simp add: less_next n idsq)
      apply (rule fin, assumption, use cv in \<open>simp add: Cons q chain_view_def\<close>)
      using link p1 p2 ids idsq by (simp add: Cons q linked_append raw_page_id_def)
  qed
qed

lemma plan_split_runs:
  assumes X: "ext_ok X" and ov: "ov_is f ov V n h t" and cv: "chain_view X (file_meta f) V n h t (pre @ (p, rs) # post)"
    and fresh: "(ts, tid) \<notin> fst ` set rs" and full: "n = U64_MAX \<Longrightarrow> E Panic"
    and space: "\<not> (\<exists>i. 0 < i \<and> i < length (upsert_rec ((ts, tid), payload) rs) \<and> fits_after [] (take i (upsert_rec ((ts, tid), payload) rs))
      \<and> fits_after [] (drop i (upsert_rec ((ts, tid), payload) rs))) \<Longrightarrow> E (EC InsufficientBufferSpace)"
    and ord: "\<And>i. chain_ordered (pre @ (p, drop i (upsert_rec ((ts, tid), payload) rs))
      # (n, take i (upsert_rec ((ts, tid), payload) rs)) # post)"
  shows "runs E (plan_split_insert_full_page X p ts tid payload) ov
    (\<lambda>_ ov'. \<exists>i. ov_chain X f ov' (pre @ (p, drop i (upsert_rec ((ts, tid), payload) rs))
      # (n, take i (upsert_rec ((ts, tid), payload) rs)) # post))"
proof -
  let ?u = "upsert_rec ((ts, tid), payload) rs" and ?m = "file_meta f"
  let ?ch = "\<lambda>i. pre @ (p, drop i ?u) # (n, take i ?u) # post"
  obtain img where img: "V p = Some img"
      "page_is X img p ?m rs (last_id NONE_PAGE_ID pre) (first_id post NONE_PAGE_ID)"
    by (rule chain_view_page[OF cv])
  note ids = chain_view_ids[OF cv] and reads = page_is_reads[OF img(2)]
  obtain hdr where hdr: "pb_header X img = Inr hdr" "ph_prev_page hdr = last_id NONE_PAGE_ID pre"
    by (rule page_is_header[OF img(2)])
  obtain es entries where es: "page_entries X img p = Inr es" "entries = sort_key record_key (es @ [\<lparr>ts_timestamp = ts,
      ts_tuple_id = tid, ts_payload = payload, ts_page_id = p, ts_slot_index = 0\<rparr>])" "map entry_rec entries = ?u"
    by (rule split_entries[OF img(2) fresh])
  have keys: "keys_ok ?u" using page_is_good(5)[OF img(2)] by (rule keys_ok_upsert)
  have halves: "map entry_rec (take i entries) = take i ?u" "map entry_rec (drop i entries) = drop i ?u" for i
    by (simp_all add: take_map drop_map flip: es(3))
  have link: "linked X V ?m NONE_PAGE_ID NONE_PAGE_ID (pre @ (p, rs) # post)" using cv by (simp add: chain_view_def)
  have fin: "\<exists>i. ov_chain X f ov' (?ch i)" if "n \<noteq> U64_MAX" "ov_is f ov' V' (n + 1) h t'" "t' = last_id NONE_PAGE_ID (?ch i)"
      "linked X V' ?m NONE_PAGE_ID NONE_PAGE_ID (?ch i)" for ov' V' t' i
    using chain_view_insert[OF cv that(1) _ that(4) ord] cv that(2,3) unfolding ov_chain_def chain_view_def by force
  note scan = page_split_cases[OF X keys es(3)]
  show ?thesis
  proof (cases "\<exists>i. find_split_index X entries = Inr i")
    case False
    then have "find_split_index X entries = Inl (EC InsufficientBufferSpace)" "E (EC InsufficientBufferSpace)"
      using scan space by auto
    then show ?thesis
      unfolding plan_split_insert_full_page_def Let_def
      apply -
      apply (rule runs_bind, rule runs_read[OF ov img(1)])
      apply (rule runs_bind, rule runs_lift[OF reads(1)])
      apply (rule runs_bind, rule runs_lift[OF es(1)])
      by (rule runs_bind, rule runs_lift_fail) (simp_all flip: es(2))
  next
    case True
    then obtain i where i: "find_split_index X entries = Inr i" "fits_after [] (take i ?u)" "fits_after [] (drop i ?u)"
      using scan by auto
    note low = runs_build[OF X, of "take i entries", unfolded halves, OF keys_ok_take_drop(1)[OF keys] i(2)]
      and high = runs_build[OF X, of "drop i entries", unfolded halves, OF keys_ok_take_drop(2)[OF keys] i(3)]
    show ?thesis
      unfolding plan_split_insert_full_page_def Let_def
      apply (rule runs_bind, rule runs_read[OF ov img(1)])
      apply (rule runs_bind, rule runs_lift[OF reads(1)])
      apply (rule runs_bind, rule runs_lift[OF es(1)], fold es(2))
      apply (rule runs_bind, rule runs_lift[OF i(1)])
      apply (rule runs_bind, rule runs_lift[OF hdr(1)])
      apply (rule runs_bind, rule runs_lift[OF reads(4)])
      apply (rule runs_bind, rule runs_alloc, assumption, erule full)
      apply (rule runs_bind, rule runs_read_se, rule refl)
      apply (rule runs_bind, rule high, assumption)
      apply (rule runs_bind, rule low, assumption)
      apply (rule runs_bind, rule runs_write, assumption, simp add: less_next ids)
      apply (rule runs_bind, rule runs_write, assumption, simp add: less_next)
      apply (rule split_relinks[OF X cv], assumption, assumption, simp add: hdr(2), assumption)
      by (rule fin)
  qed
qed

lemma chain_view_replace:
  assumes "chain_view X m V n h t (pre @ (p, rs) # post)" and "chain_ordered (pre @ (p, rs') # post)"
    and "page_is X img p m rs' (last_id NONE_PAGE_ID pre) (first_id post NONE_PAGE_ID)"
  shows "chain_view X m (V(p \<mapsto> img)) n h t (pre @ (p, rs') # post)"
  using assms chain_view_ids[OF assms(1)] by (simp add: chain_view_def linked_append)

lemma runs_schema_check:
  assumes "page_is X img p (file_meta f) rs a b" and "ov_is f ov V n h t" and "Q () ov"
  shows "runs E (check_schema_hash X img) ov Q"
proof -
  have "file_same f (ov_file ov)" using assms(2) by (simp add: ov_is_def)
  note same = file_sameD[OF this]
  obtain hdr where "pb_header X img = Inr hdr" "header_meta hdr = file_meta f" by (rule page_is_header[OF assms(1)])
  then show ?thesis using assms(3)
    by (simp add: runs_def check_schema_hash_def Let_def same header_meta_def file_meta_def ensure_def)
qed

text \<open>
  A record may be refused for lack of space only.  It is not refused when it has a new key and all records are small:
  a full page of small records can be split.
\<close>

definition room_for :: "(fault \<Rightarrow> bool) \<Rightarrow> rec \<Rightarrow> chain \<Rightarrow> bool" where
  "room_for E r ch \<longleftrightarrow> E (EC InsufficientBufferSpace)
     \<or> small_rec r \<and> (\<forall>q \<in> set ch. \<forall>r' \<in> set (snd q). small_rec r' \<and> fst r' \<noteq> fst r)"

lemma small_roomy: "small_rec (k, payload) \<Longrightarrow> roomy [] (length payload)"
  using fits_by_footprint[of "[]" "[(k, payload)]"] footprint_small[of "(k, payload)"] by simp

lemma room_for_split:
  assumes "page_is X img p m rs a b" and "\<forall>r' \<in> set rs. small_rec r' \<and> fst r' \<noteq> fst r" and "small_rec r"
    and "\<not> roomy rs (length (snd r))"
  shows "\<exists>i. 0 < i \<and> i < length (upsert_rec r rs) \<and> fits_after [] (take i (upsert_rec r rs))
    \<and> fits_after [] (drop i (upsert_rec r rs))"
proof (rule small_split)
  have fresh: "fst r \<notin> fst ` set rs" using assms(2) by auto
  have "mset (map footprint (upsert_rec r rs)) = mset (map footprint (rs @ [r]))" using mset_upsert_new[OF fresh] by simp
  then have sum: "sum_list (map footprint (upsert_rec r rs)) = sum_list (map footprint (rs @ [r]))"
    by (metis sum_mset_sum_list)
  show "\<forall>r' \<in> set (upsert_rec r rs). small_rec r'" using assms(2,3) by (auto simp: set_upsert_rec)
  show "3956 < sum_list (map footprint (upsert_rec r rs))"
    using fits_by_footprint[of rs "[r]"] assms(4) unfolding sum by force
  show "sum_list (map footprint (upsert_rec r rs)) \<le> 3963 + 1968"
    using page_is_footprint[OF assms(1)] footprint_small[OF assms(3)] unfolding sum by simp
qed

lemma plan_update_runs:
  assumes X: "ext_ok X" and ov: "ov_is f ov V n h t" and cv: "chain_view X (file_meta f) V n h t (pre @ (p, rs) # post)"
    and i: "i < length rs" "fst (rs ! i) = (ts, tid)" and space: "E (EC InsufficientBufferSpace)"
    and ord: "chain_ordered (pre @ (p, upsert_rec ((ts, tid), payload) rs) # post)"
  shows "runs E (plan_update_in_page X p i ts tid payload) ov
    (\<lambda>_ ov'. ov_chain X f ov' (pre @ (p, upsert_rec ((ts, tid), payload) rs) # post))"
proof -
  obtain img where img: "V p = Some img"
      "page_is X img p (file_meta f) rs (last_id NONE_PAGE_ID pre) (first_id post NONE_PAGE_ID)"
    by (rule chain_view_page[OF cv])
  note ids = chain_view_ids[OF cv]
  have put: "runs E (write_page_image p img') ov'
      (\<lambda>_ ov'. ov_chain X f ov' (pre @ (p, upsert_rec ((ts, tid), payload) rs) # post))"
    if "ov_is f ov' V' n h t" "V'(p \<mapsto> img') = V(p \<mapsto> img')" "page_is X img' p (file_meta f)
      (upsert_rec ((ts, tid), payload) rs) (last_id NONE_PAGE_ID pre) (first_id post NONE_PAGE_ID)" for ov' V' img'
    using chain_view_replace[OF cv ord that(3)] ids(1) that(2)
    by (intro runs_write[OF that(1)]) (auto simp: ov_chain_def)
  show ?thesis
    using X img(2) i
  proof (cases rule: page_is_update[where payload = payload])
    case (updated j p')
    show ?thesis
      unfolding plan_update_in_page_def
      apply (rule runs_bind, rule runs_take[OF ov img(1)])
      apply (rule runs_bind, rule runs_lift, rule exec_se_eval(1), rule updated(1))
      by (rule put, assumption, assumption, rule updated(2))
  next
    case (full p')
    show ?thesis
      unfolding plan_update_in_page_def
      apply (rule runs_bind, rule runs_take[OF ov img(1)])
      by (rule runs_bind, rule runs_lift_fail, rule exec_se_eval(2), rule full(1), rule space)
  qed
qed

lemma plan_new_runs:
  assumes X: "ext_ok X" and ov: "ov_is f ov V n h t" and cv: "chain_view X (file_meta f) V n h t (pre @ (p, rs) # post)"
    and pre: "\<forall>q \<in> set pre. above ts (snd q)" and r0: "\<exists>r0 \<in> set rs. stamp_of r0 \<le> ts"
    and latest: "latest \<Longrightarrow> rs \<noteq> [] \<and> below ts rs" and fresh: "(ts, tid) \<notin> fst ` set rs"
    and full: "n = U64_MAX \<Longrightarrow> E Panic" and room: "room_for E ((ts, tid), payload) (pre @ (p, rs) # post)"
  shows "runs E (bind_se (take_page_for_mutation p) (\<lambda>page_buf.
         let (insert_result, page_buf) = insert_record X ts tid payload page_buf in
         bind_se (write_page_image p page_buf) (\<lambda>_.
         case insert_result of
           Inr _ \<Rightarrow> return_se ()
         | Inl err \<Rightarrow>
             if err = EC InsufficientBufferSpace then
               (if latest then plan_insert_before_page X p ts tid payload else plan_split_insert_full_page X p ts tid payload)
             else fail_se err))) ov
    (\<lambda>_ ov'. \<exists>ch'. ov_chain X f ov' ch' \<and> row_inserted ((ts, tid), payload) n (pre @ (p, rs) # post) ch')"
    (is "runs E _ ov ?Q")
proof -
  let ?r = "((ts, tid), payload)" and ?u = "upsert_rec ((ts, tid), payload) rs"
  obtain img where img: "V p = Some img"
      "page_is X img p (file_meta f) rs (last_id NONE_PAGE_ID pre) (first_id post NONE_PAGE_ID)"
    by (rule chain_view_page[OF cv])
  note ids = chain_view_ids[OF cv]
  have ord: "chain_ordered (pre @ (p, rs) # post)" using cv by (simp add: chain_view_def)
  have stamp: "stamp_of ?r = ts" by (simp add: stamp_of_def)
  note ins = in_page[of pre ?r rs n p post, unfolded stamp, OF pre r0]
  have spl: "row_inserted ?r n (pre @ (p, rs) # post) (pre @ (p, drop i ?u) # (n, take i ?u) # post)" for i
    using split_page[of pre ?r rs n p post i] pre r0 by (simp add: stamp)
  have bef: "row_inserted ?r n (pre @ (p, rs) # post) (pre @ (n, [?r]) # (p, rs) # post)" if latest
    using latest[OF that] pre by (intro before_page) (simp_all add: stamp)
  note ords = row_inserted_ordered[OF _ ord]
  show ?thesis
  proof (cases "roomy rs (length payload)")
    case True
    obtain pos img' where img': "insert_record X ts tid payload img = (Inr pos, img')"
        "page_is X img' p (file_meta f) ?u (last_id NONE_PAGE_ID pre) (first_id post NONE_PAGE_ID)"
      by (rule page_is_insert[OF X img(2) fresh True])
    have put: "?Q () ov'" if "ov_is f ov' (V'(p \<mapsto> img')) n h t" "V'(p \<mapsto> img') = V(p \<mapsto> img')" for ov' V'
      using that ins chain_view_replace[OF cv ords[OF ins] img'(2)] unfolding ov_chain_def by metis
    show ?thesis
      apply (rule runs_bind, rule runs_take[OF ov img(1)], simp only: Let_def img'(1) prod.case sum.case)
      by (rule runs_bind, rule runs_write, assumption, rule ids(1), rule runs_return, rule put)
  next
    case False
    note refused = page_is_insert_full[OF img(2) False, of ts tid]
    have same: "V(p \<mapsto> img) = V" using img(1) by (simp add: fun_upd_idem)
    have space: "\<not> (\<exists>i. 0 < i \<and> i < length ?u \<and> fits_after [] (take i ?u) \<and> fits_after [] (drop i ?u)) \<Longrightarrow>
        E (EC InsufficientBufferSpace)" "\<not> roomy [] (length payload) \<Longrightarrow> E (EC InsufficientBufferSpace)"
      using room_for_split[OF img(2), of ?r] small_roomy[of "(ts, tid)" payload] room False by (auto simp: room_for_def)
    have split: "runs E (plan_split_insert_full_page X p ts tid payload) ov' ?Q" if "ov_is f ov' V n h t" for ov'
      by (rule runs_conseq[OF plan_split_runs[where E = E, OF X that cv fresh]], erule full, erule space(1),
          rule ords[OF spl]) (use spl in blast)
    have before: "runs E (plan_insert_before_page X p ts tid payload) ov' ?Q" if "ov_is f ov' V n h t" latest for ov'
      by (rule runs_conseq[OF plan_before_runs[where E = E, OF X that(1) cv]], erule full, erule space(2),
          rule ords[OF bef[OF that(2)]]) (use bef[OF that(2)] in blast)
    show ?thesis
      apply (rule runs_bind, rule runs_take[OF ov img(1)], simp only: Let_def refused prod.case sum.case if_True)
      apply (rule runs_bind, rule runs_write, assumption, rule ids(1))
      using split before same by auto
  qed
qed

lemma plan_in_page_runs:
  assumes X: "ext_ok X" and ov: "ov_is f ov V n h t" and cv: "chain_view X (file_meta f) V n h t (pre @ (p, rs) # post)"
    and pre: "\<forall>q \<in> set pre. above ts (snd q)" and r0: "\<exists>r0 \<in> set rs. stamp_of r0 \<le> ts"
    and latest: "latest \<Longrightarrow> rs \<noteq> [] \<and> below ts rs"
    and full: "n = U64_MAX \<Longrightarrow> E Panic" and room: "room_for E ((ts, tid), payload) (pre @ (p, rs) # post)"
  shows "runs E (plan_insert_in_page X latest p ts tid payload) ov
    (\<lambda>_ ov'. \<exists>ch'. ov_chain X f ov' ch' \<and> row_inserted ((ts, tid), payload) n (pre @ (p, rs) # post) ch')"
    (is "runs E _ ov ?Q")
proof -
  let ?r = "((ts, tid), payload)" and ?u = "upsert_rec ((ts, tid), payload) rs"
  obtain img where img: "V p = Some img"
      "page_is X img p (file_meta f) rs (last_id NONE_PAGE_ID pre) (first_id post NONE_PAGE_ID)"
    by (rule chain_view_page[OF cv])
  note ids = chain_view_ids[OF cv] and reads = page_is_reads[OF img(2)]
  have ord: "chain_ordered (pre @ (p, rs) # post)" using cv by (simp add: chain_view_def)
  have stamp: "stamp_of ?r = ts" by (simp add: stamp_of_def)
  note inserted = in_page[of pre ?r rs n p post, unfolded stamp, OF pre r0]
    split_page[of pre ?r rs n p post, unfolded stamp, OF pre r0]
  have before: "row_inserted ?r n (pre @ (p, rs) # post) (pre @ (n, [?r]) # (p, rs) # post)" if latest
    using latest[OF that] pre by (intro before_page) (simp_all add: stamp)
  note ords = row_inserted_ordered[OF _ ord]
  show ?thesis
  proof (cases "position (\<lambda>r. fst r = (ts, tid)) rs")
    case (Some i)
    note i = position_SomeD[OF Some]
    then have "rs ! i \<in> set rs" "fst (rs ! i) = (ts, tid)" by simp_all
    then have "E (EC InsufficientBufferSpace)" using room by (auto simp: room_for_def)
    then have "runs E (plan_update_in_page X p i ts tid payload) ov' ?Q" if "ov_is f ov' V n h t" for ov'
      using i inserted(1) ords[OF inserted(1)]
      by (intro runs_conseq[OF plan_update_runs[OF X that cv]]) auto
    then show ?thesis
      unfolding plan_insert_in_page_def
      apply -
      apply (rule runs_bind, rule runs_read[OF ov img(1)])
      apply (rule runs_bind, rule runs_lift[OF reads(1)])
      apply (rule runs_bind, rule runs_schema_check[OF img(2)], assumption)
      apply (rule runs_bind, rule runs_lift[OF reads(3)])
      by (simp only: Some option.case)
  next
    case None
    then have fresh: "(ts, tid) \<notin> fst ` set rs" by (auto simp: position_None_iff)
    note new = plan_new_runs[OF X _ cv pre r0 latest fresh full room]
    show ?thesis
      unfolding plan_insert_in_page_def
      apply (rule runs_bind, rule runs_read[OF ov img(1)])
      apply (rule runs_bind, rule runs_lift[OF reads(1)])
      apply (rule runs_bind, rule runs_schema_check[OF img(2)], assumption)
      apply (rule runs_bind, rule runs_lift[OF reads(3)])
      by (simp only: None option.case, rule new)
  qed
qed

lemma plan_first_runs:
  assumes X: "ext_ok X" and ov: "ov_is f ov V n h t" and cv: "chain_view X (file_meta f) V n h t []"
    and full: "n = U64_MAX \<Longrightarrow> E Panic" and space: "\<not> roomy [] (length payload) \<Longrightarrow> E (EC InsufficientBufferSpace)"
  shows "runs E (plan_first_page X ts tid payload) ov (\<lambda>_ ov'. ov_chain X f ov' [(n, [((ts, tid), payload)])])"
proof -
  let ?ch = "[(n, [((ts, tid), payload)])]"
  have ord: "chain_ordered ?ch" by (simp add: chain_ordered_def keys_ok_def)
  have fin: "ov_chain X f ov' ?ch" if "n \<noteq> U64_MAX" "ov_is f ov' (V(n \<mapsto> img)) (n + 1) n n"
      "page_is X img n (file_meta f) [((ts, tid), payload)] NONE_PAGE_ID NONE_PAGE_ID" for ov' img
    using chain_view_insert[OF cv that(1) _ _ ord, of "V(n \<mapsto> img)"] that(2,3) unfolding ov_chain_def by force
  show ?thesis
    unfolding plan_first_page_def
    apply (rule runs_bind, rule runs_alloc[OF ov], erule full)
    apply (rule runs_bind, rule runs_empty_page[OF X], assumption)
    apply (rule runs_bind, rule runs_first_record[OF X], assumption, erule space)
    apply (rule runs_bind, rule runs_write, assumption, simp add: less_next)
    by (rule runs_set_both, assumption, assumption, rule fin)
qed

lemma located_runs:
  assumes "located ts ch loc" and X: "ext_ok X" and ov: "ov_is f ov V n h t" and cv: "chain_view X (file_meta f) V n h t ch"
    and full: "n = U64_MAX \<Longrightarrow> E Panic" and space: "\<not> roomy [] (length payload) \<Longrightarrow> E (EC InsufficientBufferSpace)"
    and room: "room_for E ((ts, tid), payload) ch"
  shows "runs E (case loc of
        EmptyFile \<Rightarrow> plan_first_page X ts tid payload
      | Existing page_id \<Rightarrow> plan_insert_in_page X False page_id ts tid payload
      | HeadLatest page_id \<Rightarrow> plan_insert_in_page X True page_id ts tid payload
      | Before next_page_id \<Rightarrow> plan_insert_before_page X next_page_id ts tid payload
      | After prev_page_id \<Rightarrow> plan_insert_after_page X prev_page_id ts tid payload) ov
    (\<lambda>_ ov'. \<exists>n ch'. ov_chain X f ov' ch' \<and> row_inserted ((ts, tid), payload) n ch ch')"
    (is "runs E _ ov ?Q")
proof -
  let ?r = "((ts, tid), payload)"
  have stamp: "stamp_of ?r = ts" by (simp add: stamp_of_def)
  have ord: "chain_ordered ch" using cv by (simp add: chain_view_def)
  note ords = row_inserted_ordered[OF _ ord]
  show ?thesis
    using assms(1)
  proof cases
    case (existing pre r0 rs p post)
    have "runs E (plan_insert_in_page X False p ts tid payload) ov ?Q"
      by (rule runs_conseq[OF plan_in_page_runs[where E = E, OF X ov cv[unfolded existing(1)]]], (use existing in auto)[2], simp,
          erule full, rule room[unfolded existing(1)]) (unfold existing(1), blast)
    then show ?thesis by (simp add: existing(2))
  next
    case (head rs p post)
    have "\<exists>r0 \<in> set rs. stamp_of r0 \<le> ts" using head(3,4) by (meson below_def less_imp_le list.set_sel(1))
    then have "runs E (plan_insert_in_page X True p ts tid payload) ov ?Q"
      using cv full room head(3,4) unfolding head(1)
      by (intro runs_conseq[OF plan_in_page_runs[where E = E and pre = "[]", OF X ov]]) auto
    then show ?thesis by (simp add: head(2))
  next
    case (before pre rs p post)
    have ins: "row_inserted ?r n ch (pre @ (n, [?r]) # (p, rs) # post)"
      unfolding before(1) using before(3,5,6) by (intro before_page) (simp_all add: stamp)
    have "runs E (plan_insert_before_page X p ts tid payload) ov ?Q"
      by (rule runs_conseq[OF plan_before_runs[where E = E, OF X ov cv[unfolded before(1)]]], erule full, erule space,
          rule ords[OF ins]) (use ins in blast)
    then show ?thesis by (simp add: before(2))
  next
    case (after pre p rs post)
    have ins: "row_inserted ?r n ch (pre @ (p, rs) # (n, [?r]) # post)"
      unfolding after(1) using after(3,4) by (intro after_page) (simp_all add: stamp)
    have "runs E (plan_insert_after_page X p ts tid payload) ov ?Q"
      by (rule runs_conseq[OF plan_after_runs[where E = E, OF X ov cv[unfolded after(1)]]], erule full, erule space,
          rule ords[OF ins]) (use ins in blast)
    then show ?thesis by (simp add: after(2))
  qed
qed

lemma plan_row_runs:
  assumes X: "ext_ok X" and ov: "ov_chain X f ov ch"
    and full: "length ch = unat U64_MAX \<Longrightarrow> E Panic" and room: "room_for E ((ts, tid), payload) ch"
  shows "runs E (plan_row_insert X (ts, tid, payload)) ov
    (\<lambda>_ ov'. \<exists>n ch'. ov_chain X f ov' ch' \<and> row_inserted ((ts, tid), payload) n ch ch')"
    (is "runs E _ ov ?Q")
proof -
  let ?r = "((ts, tid), payload)"
  obtain V n h t where ovis: "ov_is f ov V n h t" and cv: "chain_view X (file_meta f) V n h t ch"
    using ov by (auto simp: ov_chain_def)
  have full: "n = U64_MAX \<Longrightarrow> E Panic" using full chain_view_length[OF cv] by simp
  have space: "\<not> roomy [] (length payload) \<Longrightarrow> E (EC InsufficientBufferSpace)"
    using room small_roomy[of "(ts, tid)" payload] by (auto simp: room_for_def)
  show ?thesis
  proof (cases "ch = []")
    case True
    have loc: "find_insert_location X ts ov = (Inr EmptyFile, ov)"
      using ovis cv True by (auto simp: find_insert_location_def ov_is_def chain_view_def raw_page_id_def split: option.splits)
    have "runs E (plan_first_page X ts tid payload) ov ?Q"
      by (rule runs_conseq[OF plan_first_runs[where E = E, OF X ovis cv[unfolded True]]], erule full, erule space)
        (use first True in blast)
    then show ?thesis by (simp add: plan_row_insert_def runs_def bind_se_eval(1)[of "find_insert_location X ts", OF loc])
  next
    case False
    obtain loc ov1 where loc: "find_insert_location X ts ov = (Inr loc, ov1)" "ov_same ov ov1" "located ts ch loc"
      by (rule find_insert_location_rep[OF ov_chain_rep[OF ov] False])
    note planned = located_runs[OF loc(3) X ov_is_same[OF ovis loc(2)] cv full space room]
    show ?thesis
      using planned unfolding plan_row_insert_def runs_def prod.case bind_se_eval(1)[of "find_insert_location X ts", OF loc(1)]
      by (auto split: sum.splits)
  qed
qed

end
