(* ===== verification/Ts_Publish.thy ===== *)
theory Ts_Publish
  imports Ts_Plan
begin

text \<open>
  From a planned batch to the file: a failing plan leaves the file's pages alone, a planned batch is sealed and
  published, and the write-back of dirty pages does not change what the file holds, whatever writes fail.
\<close>

section \<open>Planning leaves the file alone\<close>

definition pages_kept :: "'a ovm \<Rightarrow> bool" where
  "pages_kept m \<longleftrightarrow> (\<forall>ov. file_same (ov_file ov) (ov_file (snd (m ov))))"

named_theorems pages_kept_steps \<open>steps that keep the pages of the file\<close>

lemma read_page_same: "file_same f (snd (tsf_read_page p f))"
proof (cases "file_view f p")
  case None
  then show ?thesis
    by (auto simp: tsf_read_page_def file_view_def disk_image_def not_le split: option.splits sum.splits prod.splits if_splits)
next
  case (Some img)
  then obtain f' where "tsf_read_page p f = (Inr img, f')" "file_same f f'" by (rule read_page_view)
  then show ?thesis by simp
qed

lemma pages_kept_bind [pages_kept_steps]: "pages_kept m \<Longrightarrow> (\<And>a. pages_kept (k a)) \<Longrightarrow> pages_kept (bind_se m k)"
  unfolding pages_kept_def bind_se_def by (auto split: prod.splits sum.splits intro: file_same_trans)

lemma pages_kept_read [pages_kept_steps]: "pages_kept (ov_read_page p)"
  using read_page_same by (auto simp: pages_kept_def ov_read_page_def on_file_def split: option.split prod.split) (metis snd_conv)

lemma pages_kept_take [pages_kept_steps]: "pages_kept (take_page_for_mutation p)"
  using read_page_same by (auto simp: pages_kept_def take_page_for_mutation_def on_file_def split: option.split prod.split) (metis snd_conv)

lemma pages_kept_simple [pages_kept_steps]:
  "pages_kept (lift_se r)" "pages_kept (return_se a)" "pages_kept (fail_se e)" "pages_kept (read_se f)" "pages_kept alloc_page_id"
  "pages_kept (write_page_image p img)" "pages_kept (file_empty_page X p)" "pages_kept (check_schema_hash X img)"
  "pages_kept (write_se (\<lambda>ov. ov\<lparr>ov_head_page_id := i\<rparr>))" "pages_kept (write_se (\<lambda>ov. ov\<lparr>ov_tail_page_id := j\<rparr>))"
  "pages_kept (write_se (\<lambda>ov. ov\<lparr>ov_head_page_id := i, ov_tail_page_id := j\<rparr>))"
  "pages_kept (write_se (\<lambda>ov. if ov_head_page_id ov = None then ov\<lparr>ov_head_page_id := i\<rparr> else ov))"
  by (simp_all add: pages_kept_def lift_se_def return_se_def fail_se_def read_se_def write_se_def alloc_page_id_def
      write_page_image_def file_empty_page_def check_schema_hash_def Let_def)

lemma pages_kept_cases [pages_kept_steps]:
  "(\<And>a. pages_kept (k a)) \<Longrightarrow> pages_kept d \<Longrightarrow> pages_kept (case x of None \<Rightarrow> d | Some a \<Rightarrow> k a)"
  "(\<And>a. pages_kept (k a)) \<Longrightarrow> (\<And>e. pages_kept (g e)) \<Longrightarrow> pages_kept (case r of Inl e \<Rightarrow> g e | Inr a \<Rightarrow> k a)"
  "pages_kept m \<Longrightarrow> pages_kept m' \<Longrightarrow> pages_kept (if c then m else m')"
  "(\<And>a b. pages_kept (h a b)) \<Longrightarrow> pages_kept (case y of (a, b) \<Rightarrow> h a b)"
  by (simp_all split: option.split sum.split prod.split)

lemma pages_kept_locate [pages_kept_steps]: "pages_kept (locate_loop X ts n p lne is_head)"
  by (induction n arbitrary: p lne is_head)
    (simp_all add: Let_def pages_kept_steps split: option.split)

lemma pages_kept_find [pages_kept_steps]: "pages_kept (find_insert_location X ts)"
  using pages_kept_locate by (simp add: pages_kept_def find_insert_location_def split: option.split)

lemma pages_kept_plans [pages_kept_steps]:
  "pages_kept (plan_insert_before_page X p ts tid payload)" "pages_kept (plan_insert_after_page X p ts tid payload)"
  "pages_kept (plan_update_in_page X p i ts tid payload)" "pages_kept (plan_split_insert_full_page X p ts tid payload)"
  "pages_kept (plan_first_page X ts tid payload)"
  unfolding plan_insert_before_page_def plan_insert_after_page_def plan_update_in_page_def
    plan_split_insert_full_page_def plan_first_page_def Let_def
  by (intro pages_kept_steps)+

lemma pages_kept_in_page [pages_kept_steps]: "pages_kept (plan_insert_in_page X latest p ts tid payload)"
  unfolding plan_insert_in_page_def Let_def by (intro pages_kept_steps)

lemma pages_kept_row: "pages_kept (plan_row_insert X row)"
proof -
  have "pages_kept (case loc of
        EmptyFile \<Rightarrow> plan_first_page X ts tid payload
      | Existing page_id \<Rightarrow> plan_insert_in_page X False page_id ts tid payload
      | HeadLatest page_id \<Rightarrow> plan_insert_in_page X True page_id ts tid payload
      | Before next_page_id \<Rightarrow> plan_insert_before_page X next_page_id ts tid payload
      | After prev_page_id \<Rightarrow> plan_insert_after_page X prev_page_id ts tid payload)" for loc ts tid payload
    by (cases loc) (simp_all add: pages_kept_steps)
  then show ?thesis
    unfolding plan_row_insert_def by (intro pages_kept_steps)
qed

lemma pages_kept_rows: "pages_kept (fold_se (plan_row_insert X) rows)"
  by (induction rows) (simp_all add: pages_kept_steps pages_kept_row)

section \<open>Planning a batch\<close>

type_synonym row = "u64 \<times> u64 \<times> byte list"

definition row_rec :: "row \<Rightarrow> rec" where
  "row_rec row = (case row of (ts, tid, payload) \<Rightarrow> ((ts, tid), payload))"

text \<open>Rows take effect one after the other: the last row of a key wins.\<close>

definition put_rows :: "row list \<Rightarrow> (rec_key \<rightharpoonup> byte list) \<Rightarrow> rec_key \<rightharpoonup> byte list" where
  "put_rows rows m = foldl (\<lambda>m row. m(fst (row_rec row) \<mapsto> snd (row_rec row))) m rows"

text \<open>A batch is not refused when its keys are new and all records are small.\<close>

definition rows_room :: "(fault \<Rightarrow> bool) \<Rightarrow> row list \<Rightarrow> chain \<Rightarrow> bool" where
  "rows_room E rows ch \<longleftrightarrow> E (EC InsufficientBufferSpace) \<and> E Panic
     \<or> length ch + length rows \<le> unat U64_MAX \<and> distinct (map (fst \<circ> row_rec) rows) \<and> (\<forall>row \<in> set rows. small_rec (row_rec row))
       \<and> (\<forall>q \<in> set ch. \<forall>r \<in> set (snd q). small_rec r \<and> (\<forall>row \<in> set rows. fst r \<noteq> fst (row_rec row)))"

lemma row_inserted_recs:
  assumes "row_inserted r n ch ch'"
  shows "q \<in> set ch' \<Longrightarrow> x \<in> set (snd q) \<Longrightarrow> x = r \<or> (\<exists>q \<in> set ch. x \<in> set (snd q))" and "length ch' \<le> length ch + 1"
proof -
  have up: "x = r \<or> x \<in> set rs" if "x \<in> set (upsert_rec r rs)" for rs using that set_upsert_subset by blast
  have half: "x \<in> set (take i (upsert_rec r rs)) \<Longrightarrow> x = r \<or> x \<in> set rs"
      "x \<in> set (drop i (upsert_rec r rs)) \<Longrightarrow> x = r \<or> x \<in> set rs" for i rs
    using up by (auto dest: in_set_takeD in_set_dropD)
  show "x = r \<or> (\<exists>q \<in> set ch. x \<in> set (snd q))" if "q \<in> set ch'" "x \<in> set (snd q)"
    using assms that by cases (auto dest: up half)
  show "length ch' \<le> length ch + 1" using assms by cases simp_all
qed

lemma rows_room_step:
  assumes "rows_room E (row # rows) ch"
  shows "room_for E (row_rec row) ch" and "length ch = unat U64_MAX \<Longrightarrow> E Panic"
    and "row_inserted (row_rec row) n ch ch' \<Longrightarrow> rows_room E rows ch'"
proof -
  show "room_for E (row_rec row) ch" "length ch = unat U64_MAX \<Longrightarrow> E Panic"
    using assms by (auto simp: rows_room_def room_for_def)
  assume ins: "row_inserted (row_rec row) n ch ch'"
  note recs = row_inserted_recs[OF ins]
  show "rows_room E rows ch'"
  proof (cases "E (EC InsufficientBufferSpace) \<and> E Panic")
    case True
    then show ?thesis by (simp add: rows_room_def)
  next
    case False
    then have all: "length ch + length (row # rows) \<le> unat U64_MAX \<and> distinct (map (fst \<circ> row_rec) (row # rows))
       \<and> (\<forall>row \<in> set (row # rows). small_rec (row_rec row))
       \<and> (\<forall>q \<in> set ch. \<forall>r \<in> set (snd q). small_rec r \<and> (\<forall>row \<in> set (row # rows). fst r \<noteq> fst (row_rec row)))"
      using assms unfolding rows_room_def by blast
    then have room: "length ch + length rows + 1 \<le> unat U64_MAX" "distinct (map (fst \<circ> row_rec) rows)"
        "\<forall>row' \<in> set rows. fst (row_rec row) \<noteq> fst (row_rec row')" "\<forall>row \<in> set rows. small_rec (row_rec row)"
        "small_rec (row_rec row)"
      by auto
    have old: "small_rec r \<and> (\<forall>row \<in> set rows. fst r \<noteq> fst (row_rec row))" if "q \<in> set ch" "r \<in> set (snd q)" for q r
      using all that by (meson list.set_intros(2))
    have "small_rec r \<and> (\<forall>row \<in> set rows. fst r \<noteq> fst (row_rec row))" if "q \<in> set ch'" "r \<in> set (snd q)" for q r
      using recs(1)[OF that] room(3,5) old by metis
    then show ?thesis using room(1,2,4) recs(2) by (simp add: rows_room_def)
  qed
qed

lemma plan_rows_run:
  assumes X: "ext_ok X" and ov: "ov_chain X f ov ch" and room: "rows_room E rows ch"
  shows "runs E (fold_se (plan_row_insert X) rows) ov
    (\<lambda>_ ov'. \<exists>ch'. ov_chain X f ov' ch' \<and> chain_map ch' = put_rows rows (chain_map ch))"
proof -
  let ?I = "\<lambda>rest ov. \<exists>ch'. ov_chain X f ov ch' \<and> rows_room E rest ch'
    \<and> put_rows rest (chain_map ch') = put_rows rows (chain_map ch)"
  have step: "runs E (plan_row_insert X row) ov (\<lambda>_ ov'. ?I rest ov')" if inv: "?I (row # rest) ov" for row rest ov
  proof -
    obtain ch1 where ch1: "ov_chain X f ov ch1" "rows_room E (row # rest) ch1"
        "put_rows (row # rest) (chain_map ch1) = put_rows rows (chain_map ch)" using inv by blast
    obtain ts tid payload where row: "row = (ts, tid, payload)" by (cases row)
    note room = rows_room_step[OF ch1(2)]
    have rec: "row_rec row = ((ts, tid), payload)" by (simp add: row row_rec_def)
    have ord: "chain_ordered ch1" using ch1(1) by (auto simp: ov_chain_def chain_view_def)
    have inv': "?I rest ov'" if "ov_chain X f ov' ch2" "row_inserted ((ts, tid), payload) n ch1 ch2" for ov' ch2 n
      using that row_inserted_map[OF that(2) ord] room(3)[of n ch2] ch1(3) by (auto simp: rec put_rows_def)
    have "runs E (plan_row_insert X (ts, tid, payload)) ov
        (\<lambda>_ ov'. \<exists>n ch'. ov_chain X f ov' ch' \<and> row_inserted ((ts, tid), payload) n ch1 ch')"
      by (rule plan_row_runs[OF X ch1(1)], erule room(2), rule room(1)[unfolded rec])
    then show ?thesis unfolding row by (rule runs_conseq) (use inv' in blast)
  qed
  have "runs E (fold_se (plan_row_insert X) rows) ov (\<lambda>_ ov'. ?I [] ov')"
    using ov room by (intro runs_fold[where I = ?I] step) auto
  then show ?thesis by (rule runs_conseq) (auto simp: put_rows_def)
qed

section \<open>Publishing a plan\<close>

text \<open>Files that differ in what is cached and logged only.\<close>

definition file_quiet :: "TimeSeriesFile \<Rightarrow> TimeSeriesFile \<Rightarrow> bool" where
  "file_quiet f f' \<longleftrightarrow> (\<exists>w. file_same (f\<lparr>tf_wal_backend := w\<rparr>) f')"

definition quiet :: "'a tsf \<Rightarrow> bool" where
  "quiet m \<longleftrightarrow> (\<forall>f. file_quiet f (snd (m f)))"

named_theorems quiet_steps \<open>steps that change what is cached and logged only\<close>

lemma file_view_wal [simp]: "file_view (f\<lparr>tf_wal_backend := w\<rparr>) = file_view f"
  by (rule ext) (simp add: file_view_def disk_image_def cong: option.case_cong)

lemma file_same_wal: "file_same f g \<Longrightarrow> file_same (f\<lparr>tf_wal_backend := w\<rparr>) (g\<lparr>tf_wal_backend := w\<rparr>)"
proof -
  assume same: "file_same f g"
  then have eq: "g = f\<lparr>tf_page_cache := tf_page_cache g, tf_allocations := tf_allocations g\<rparr>" by (simp add: file_same_def)
  have "g\<lparr>tf_wal_backend := w\<rparr> = f\<lparr>tf_wal_backend := w, tf_page_cache := tf_page_cache g, tf_allocations := tf_allocations g\<rparr>"
    using eq by (cases f; cases g) simp
  moreover have "file_view (g\<lparr>tf_wal_backend := w\<rparr>) = file_view (f\<lparr>tf_wal_backend := w\<rparr>)"
    using same by (simp add: file_same_def)
  ultimately show ?thesis using same unfolding file_same_def by simp
qed

lemma file_quiet_same: "file_same f f' \<Longrightarrow> file_quiet f f'"
  unfolding file_quiet_def by (rule exI[of _ "tf_wal_backend f"]) simp

lemma file_quiet_wal: "file_quiet f (f\<lparr>tf_wal_backend := w\<rparr>)"
  unfolding file_quiet_def by (rule exI[of _ w]) simp

lemma file_quiet_trans: "file_quiet f g \<Longrightarrow> file_quiet g h \<Longrightarrow> file_quiet f h"
proof -
  assume "file_quiet f g" "file_quiet g h"
  then obtain w w' where "file_same (f\<lparr>tf_wal_backend := w\<rparr>) g" "file_same (g\<lparr>tf_wal_backend := w'\<rparr>) h"
    by (auto simp: file_quiet_def)
  from this(2) file_same_wal[OF this(1), of w'] show "file_quiet f h"
    unfolding file_quiet_def by (auto intro: file_same_trans)
qed

lemma file_quietD:
  assumes "file_quiet f f'"
  shows "file_view f' = file_view f" "tf_page_count f' = tf_page_count f" "tf_head_page_id f' = tf_head_page_id f"
    "tf_tail_page_id f' = tf_tail_page_id f" "tf_file f' = tf_file f" "file_meta f' = file_meta f"
    "tf_dirty_pages f' = tf_dirty_pages f"
  using assms by (auto simp: file_quiet_def file_meta_def dest: file_sameD)

lemma file_rep_quiet: "file_quiet f f' \<Longrightarrow> file_rep X f' ch \<longleftrightarrow> file_rep X f ch"
  by (simp add: file_rep_iff file_quietD)

lemma quiet_bind [quiet_steps]: "quiet m \<Longrightarrow> (\<And>a. quiet (k a)) \<Longrightarrow> quiet (bind_se m k)"
  unfolding quiet_def bind_se_def by (auto split: prod.splits sum.splits intro: file_quiet_trans) (metis snd_conv)

lemma quiet_simple [quiet_steps]:
  "quiet (tsf_read_page p)" "quiet (lift_se r)" "quiet (return_se a)" "quiet (on_wal m)"
  using read_page_same file_quiet_wal
  by (auto simp: quiet_def lift_se_def return_se_def on_wal_def intro: file_quiet_same split: option.split prod.split)

lemma quiet_cases [quiet_steps]:
  "(\<And>a. quiet (k a)) \<Longrightarrow> quiet d \<Longrightarrow> quiet (case x of None \<Rightarrow> d | Some a \<Rightarrow> k a)"
  "quiet m \<Longrightarrow> quiet m' \<Longrightarrow> quiet (if c then m else m')"
  by (simp_all split: option.split)

lemma quiet_ops [quiet_steps]: "quiet (page_write_ops X c ws)"
  by (induction ws) (simp_all add: page_write_op_def quiet_steps)

lemma quiet_batch [quiet_steps]: "quiet (build_pl_batch X plan)"
proof -
  have "quiet (bind_se (page_write_ops X c ws) (\<lambda>page_ops. return_se (g page_ops)))" for c ws and g :: "PLOp list \<Rightarrow> PLBatch option"
    by (intro quiet_steps)
  then show ?thesis
    unfolding quiet_def build_pl_batch_def Let_def by (simp split: option.split) (simp add: file_quiet_same)
qed

text \<open>Before anything is published a plan is logged and its images are sealed.\<close>

lemma runs_any: "(\<And>a s'. Q a s') \<Longrightarrow> runs (\<lambda>_. True) m s Q"
  by (simp add: runs_def split: prod.split sum.split)

lemma runs_lift_any: "(\<And>a. r = Inr a \<Longrightarrow> Q a s) \<Longrightarrow> runs (\<lambda>_. True) (lift_se r) s Q"
  by (simp add: runs_def lift_se_def split: sum.split)

definition sealed_plan :: "ext \<Rightarrow> PLBatch entry_codec \<Rightarrow> TimeSeriesFileMutationPlan \<Rightarrow> PlannedPageWrite list tsf" where
  "sealed_plan X C plan =
     bind_se (build_pl_batch X plan) (\<lambda>batch.
     case batch of
         Some batch \<Rightarrow>
           bind_se (on_wal (backend_serialize_entry X C batch)) (\<lambda>frames.
           bind_se (lift_se (frame_lsns X frames)) (\<lambda>lsns.
           bind_se (lift_se (ok_or (case lsns of [] \<Rightarrow> None | l # _ \<Rightarrow> Some l) (EC Internal))) (\<lambda>start_lsn.
           bind_se (lift_se (map_rs (seal_write X (Some start_lsn)) (mp_page_writes plan))) (\<lambda>writes.
           bind_se (on_wal (enqueue_group_commit frames lsns False)) (\<lambda>_. return_se writes)))))
       | None \<Rightarrow> lift_se (map_rs (seal_write X None) (mp_page_writes plan)))"

lemma persist_sealed: "persist_plan X C plan = bind_se (sealed_plan X C plan) (\<lambda>writes. apply_plan (plan\<lparr>mp_page_writes := writes\<rparr>))"
  by (rule ext) (simp add: persist_plan_def sealed_plan_def bind_se_def split: prod.split sum.split)

lemma sealed_quiet: "quiet (sealed_plan X C plan)"
  unfolding sealed_plan_def by (intro quiet_steps)

lemma sealed_writes:
  "runs (\<lambda>_. True) (sealed_plan X C plan) f (\<lambda>writes _. \<exists>lsn. map_rs (seal_write X lsn) (mp_page_writes plan) = Inr writes)"
proof -
  have logged: "runs (\<lambda>_. True) (bind_se m1 (\<lambda>frames. bind_se (m2 frames) (\<lambda>lsns. bind_se (m3 lsns) (\<lambda>start_lsn.
      bind_se (lift_se (map_rs (seal_write X (Some start_lsn)) ws)) (\<lambda>writes. bind_se (m4 frames lsns) (\<lambda>_. return_se writes)))))) f
      (\<lambda>writes _. \<exists>lsn. map_rs (seal_write X lsn) ws = Inr writes)" for m1 m2 m3 m4 ws f
    apply (rule runs_bind, rule runs_any, rule runs_bind, rule runs_any, rule runs_bind, rule runs_any)
    apply (rule runs_bind, rule runs_lift_any)
    by (rule runs_bind, rule runs_any, rule runs_return, rule exI)
  show ?thesis
    unfolding sealed_plan_def
    apply (rule runs_bind, rule runs_any)
    subgoal for batch s by (cases batch) (auto intro: logged runs_lift_any)
    done
qed

lemma persist_outcome:
  obtains (failed) e f' where "persist_plan X C plan f = (Inl e, f')" "file_quiet f f'"
  | (sealed) lsn writes f' where "map_rs (seal_write X lsn) (mp_page_writes plan) = Inr writes" "file_quiet f f'"
    "persist_plan X C plan f = apply_plan (plan\<lparr>mp_page_writes := writes\<rparr>) f'"
proof -
  obtain r f' where run: "sealed_plan X C plan f = (r, f')" by fastforce
  have "file_quiet f f'" using sealed_quiet[of X C plan] run by (metis quiet_def snd_conv)
  then show thesis
    using that run sealed_writes[of X C plan f]
    by (cases r) (auto simp: persist_sealed runs_def bind_se_def)
qed

lemma persist_unlogged:
  assumes "tf_identity f = None" and "map_rs (seal_write X None) (mp_page_writes plan) = Inr writes"
  shows "persist_plan X C plan f = apply_plan (plan\<lparr>mp_page_writes := writes\<rparr>) f"
  using assms by (simp add: persist_sealed sealed_plan_def build_pl_batch_def bind_se_def lift_se_def)

section \<open>What a published plan leaves\<close>

definition same_page :: "ext \<Rightarrow> byte list \<Rightarrow> byte list \<Rightarrow> bool" where
  "same_page X img img' \<longleftrightarrow> (\<forall>pid m rs a b. page_is X img pid m rs a b \<longrightarrow> page_is X img' pid m rs a b)"

lemma linked_transfer:
  assumes "linked X V m a b ch" and "\<And>p img. p \<in> fst ` set ch \<Longrightarrow> V p = Some img \<Longrightarrow> \<exists>img'. V' p = Some img' \<and> same_page X img img'"
  shows "linked X V' m a b ch"
  using assms
proof (induction ch arbitrary: a)
  case (Cons q ch)
  obtain p rs where q: "q = (p, rs)" by (cases q)
  obtain img where img: "V p = Some img" "page_is X img p m rs a (first_id ch b)" using Cons.prems(1) by (auto simp: q)
  then obtain img' where "V' p = Some img'" "page_is X img' p m rs a (first_id ch b)"
    using Cons.prems(2)[of p img] unfolding same_page_def by (metis fst_conv image_eqI list.set_intros(1) q)
  moreover have "linked X V' m p b ch"
    by (rule Cons.IH) (use Cons.prems in \<open>simp_all add: q\<close>)
  ultimately show ?case by (simp add: q)
qed simp

lemma apply_page_write_view: "file_view (apply_page_write p img f) = (file_view f)(p \<mapsto> img)"
  by (rule ext) (simp add: apply_page_write_def cache_image_def file_view_def disk_image_def cong: option.case_cong)

lemma apply_page_writes:
  shows "file_view (fold (\<lambda>w. apply_page_write (pw_page_id w) (pw_image w)) ws f)
      = file_view f ++ map_of (rev (map (\<lambda>w. (pw_page_id w, pw_image w)) ws))"
    and "\<exists>c d n. fold (\<lambda>w. apply_page_write (pw_page_id w) (pw_image w)) ws f
      = f\<lparr>tf_page_cache := c, tf_dirty_pages := d, tf_allocations := n\<rparr>"
proof (induction ws arbitrary: f)
  case Nil
  {
    case 1
    then show ?case by simp
  next
    case 2
    then show ?case by (rule exI[of _ "tf_page_cache f"], rule exI[of _ "tf_dirty_pages f"], rule exI[of _ "tf_allocations f"]) simp
  }
next
  case (Cons w ws)
  {
    case 1
    then show ?case by (auto simp: Cons.IH(1) apply_page_write_view fun_eq_iff map_add_def split: option.split)
  next
    case 2
    then show ?case using Cons.IH(2)[of "apply_page_write (pw_page_id w) (pw_image w) f"]
      by (auto simp: apply_page_write_def cache_image_def)
  }
qed

lemma seal_same:
  assumes "ext_ok X" and "page_is X (pw_image w) pid m rs a b" and "seal_write X lsn w = Inr w'"
  shows "pw_page_id w' = pw_page_id w" "same_page X (pw_image w) (pw_image w')" "validate_layout X (pw_image w') = Inr ()"
proof -
  have "page_is X (pw_image w') pid' m' rs' a' b' \<and> pw_page_id w' = pw_page_id w \<and> validate_layout X (pw_image w') = Inr ()" if "page_is X (pw_image w) pid' m' rs' a' b'" for pid' m' rs' a' b'
    using page_is_seal[OF assms(1) that, of lsn] assms(3) by fastforce
  then show "pw_page_id w' = pw_page_id w" "same_page X (pw_image w) (pw_image w')" "validate_layout X (pw_image w') = Inr ()"
    using assms(2) by (auto simp: same_page_def)
qed

lemma ov_chain_image:
  assumes "ov_chain X f ov ch" and "RBT.lookup (ov_page_images ov) p = Some img"
  shows "\<exists>m rs a b. page_is X img p m rs a b"
proof -
  obtain V n h t where ovis: "ov_is f ov V n h t" and cv: "chain_view X (file_meta f) V n h t ch"
    using assms(1) by (auto simp: ov_chain_def)
  have "p < n" "V p = Some img" using ovis assms(2) by (auto simp: ov_is_def ov_view_def)
  then have "p \<in> fst ` set ch" using cv by (simp add: chain_view_def)
  then obtain rs where "(p, rs) \<in> set ch" by auto
  then obtain pre post where "ch = pre @ (p, rs) # post" by (meson split_list)
  then have split: "chain_view X (file_meta f) V n h t (pre @ (p, rs) # post)" using cv by simp
  obtain img' where "V p = Some img'" "page_is X img' p (file_meta f) rs (last_id NONE_PAGE_ID pre) (first_id post NONE_PAGE_ID)"
    by (rule chain_view_page[OF split])
  then show ?thesis using \<open>V p = Some img\<close> by (metis option.inject)
qed

text \<open>The sealed images, by page.\<close>

lemma sealed_images:
  assumes X: "ext_ok X" and ov: "ov_chain X f ov ch"
    and seal: "map_rs (seal_write X lsn) (mp_page_writes (into_plan ov)) = Inr writes"
  defines "M \<equiv> map_of (rev (map (\<lambda>w. (pw_page_id w, pw_image w)) writes))"
  shows "RBT.lookup (ov_page_images ov) p = None \<Longrightarrow> M p = None"
    and "RBT.lookup (ov_page_images ov) p = Some img \<Longrightarrow>
      \<exists>img'. M p = Some img' \<and> same_page X img img' \<and> validate_layout X img' = Inr ()"
proof -
  let ?es = "RBT.entries (ov_page_images ov)"
  have all: "list_all2 (\<lambda>e w. seal_write X lsn \<lparr>pw_page_id = fst e, pw_image = snd e\<rparr> = Inr w) ?es writes"
    using seal by (simp add: map_rs_Inr_iff into_plan_def Let_def list_all2_map1 case_prod_beta)
  have page: "\<exists>m rs a b. page_is X (snd e) (fst e) m rs a b" if "e \<in> set ?es" for e
    using ov_chain_image[OF ov, of "fst e" "snd e"] that by (metis lookup_in_tree prod.collapse)
  have sealed: "pw_page_id w = fst e \<and> same_page X (snd e) (pw_image w) \<and> validate_layout X (pw_image w) = Inr ()"
    if zipped: "(e, w) \<in> set (zip ?es writes)" for e w
  proof -
    have "seal_write X lsn \<lparr>pw_page_id = fst e, pw_image = snd e\<rparr> = Inr w" using all zipped by (auto simp: list_all2_iff)
    moreover obtain m rs a b where "page_is X (snd e) (fst e) m rs a b" using page set_zip_leftD[OF zipped] by blast
    ultimately show ?thesis using seal_same[OF X, of "\<lparr>pw_page_id = fst e, pw_image = snd e\<rparr>" "fst e" m rs a b lsn w] by simp
  qed
  have len: "length ?es = length writes" using all by (rule list_all2_lengthD)
  have nth: "pw_page_id (writes ! i) = fst (?es ! i) \<and> same_page X (snd (?es ! i)) (pw_image (writes ! i))
      \<and> validate_layout X (pw_image (writes ! i)) = Inr ()"
    if "i < length ?es" for i
    by (rule sealed) (use that len in \<open>auto simp: in_set_zip\<close>)
  then have ids: "map pw_page_id writes = map fst ?es" using len by (intro nth_equalityI) simp_all
  have dist: "distinct (map fst (map (\<lambda>w. (pw_page_id w, pw_image w)) writes))"
    using ids by (simp add: comp_def RBT.distinct_entries)
  have M: "M = map_of (map (\<lambda>w. (pw_page_id w, pw_image w)) writes)"
    unfolding M_def using dist by (subst map_of_inject_set) (simp_all add: rev_map[symmetric])
  show "M p = None" if "RBT.lookup (ov_page_images ov) p = None"
  proof -
    have "p \<notin> set (map pw_page_id writes)" unfolding ids using that map_of_eq_None_iff[of ?es p] by simp
    then show ?thesis by (auto simp: M map_of_eq_None_iff)
  qed
  show "\<exists>img'. M p = Some img' \<and> same_page X img img' \<and> validate_layout X img' = Inr ()" if "RBT.lookup (ov_page_images ov) p = Some img"
  proof -
    have "(p, img) \<in> set ?es" using that by (simp add: lookup_in_tree)
    then obtain i where i: "i < length ?es" "?es ! i = (p, img)" by (auto simp: in_set_conv_nth)
    from nth[OF i(1)] have "M p = Some (pw_image (writes ! i))" "same_page X img (pw_image (writes ! i))"
        "validate_layout X (pw_image (writes ! i)) = Inr ()"
      unfolding M using dist i len by (auto intro!: map_of_is_SomeI image_eqI[of _ _ "writes ! i"])
    then show ?thesis by blast
  qed
qed

lemma seal_total:
  assumes "ext_ok X" and "ov_chain X f ov ch"
  obtains writes where "map_rs (seal_write X lsn) (mp_page_writes (into_plan ov)) = Inr writes"
proof -
  have "\<exists>w'. seal_write X lsn w = Inr w'" if "w \<in> set (mp_page_writes (into_plan ov))" for w
  proof -
    have "RBT.lookup (ov_page_images ov) (pw_page_id w) = Some (pw_image w)"
      using that by (auto simp: into_plan_def Let_def lookup_in_tree)
    then obtain m rs a b where "page_is X (pw_image w) (pw_page_id w) m rs a b" using ov_chain_image[OF assms(2)] by blast
    then show ?thesis using page_is_seal[OF assms(1)] by metis
  qed
  then have "map_rs (seal_write X lsn) (mp_page_writes (into_plan ov)) = Inr (map (\<lambda>w. projr (seal_write X lsn w)) (mp_page_writes (into_plan ov)))"
    by (intro map_rs_total) fastforce
  then show thesis by (rule that)
qed

lemma raw_from_raw: "raw_page_id (page_id_from_raw i) = i"
  by (simp add: raw_page_id_def page_id_from_raw_def)

definition published :: "WriteOverlay \<Rightarrow> PlannedPageWrite list \<Rightarrow> TimeSeriesFile \<Rightarrow> TimeSeriesFile" where
  "published ov writes f = (fold (\<lambda>w. apply_page_write (pw_page_id w) (pw_image w)) writes f)
     \<lparr>tf_page_count := ov_page_count ov, tf_head_page_id := raw_page_id (ov_head_page_id ov),
      tf_tail_page_id := raw_page_id (ov_tail_page_id ov)\<rparr>"

lemma publish_run:
  assumes "file_quiet (ov_file ov) f"
  shows "apply_plan ((into_plan ov)\<lparr>mp_page_writes := writes\<rparr>) f = (Inr (), published ov writes f)"
proof -
  obtain c d k where g: "fold (\<lambda>w. apply_page_write (pw_page_id w) (pw_image w)) writes f
      = f\<lparr>tf_page_cache := c, tf_dirty_pages := d, tf_allocations := k\<rparr>"
    using apply_page_writes(2) by blast
  show ?thesis
    unfolding apply_plan_def into_plan_def published_def Let_def
    by (auto simp: bind_se_write bind_se_return write_se_def plan_default_def g file_quietD[OF assms] raw_from_raw)
qed

lemma published_fields:
  shows "tf_file (published ov writes f) = tf_file f" and "tf_page_count (published ov writes f) = ov_page_count ov"
    and "file_meta (published ov writes f) = file_meta f" and "tf_identity (published ov writes f) = tf_identity f"
    and "tf_head_page_id (published ov writes f) = raw_page_id (ov_head_page_id ov)"
    and "tf_tail_page_id (published ov writes f) = raw_page_id (ov_tail_page_id ov)"
proof -
  obtain c d k where g: "fold (\<lambda>w. apply_page_write (pw_page_id w) (pw_image w)) writes f
      = f\<lparr>tf_page_cache := c, tf_dirty_pages := d, tf_allocations := k\<rparr>"
    using apply_page_writes(2) by blast
  show "tf_file (published ov writes f) = tf_file f" "tf_page_count (published ov writes f) = ov_page_count ov"
    "file_meta (published ov writes f) = file_meta f" "tf_identity (published ov writes f) = tf_identity f"
    "tf_head_page_id (published ov writes f) = raw_page_id (ov_head_page_id ov)"
    "tf_tail_page_id (published ov writes f) = raw_page_id (ov_tail_page_id ov)"
    by (simp_all add: published_def g file_meta_def)
qed

text \<open>A published page shows its sealed image, every other page what it showed before.\<close>

lemma published_view:
  assumes X: "ext_ok X" and ov: "ov_chain X f ov ch" and quiet: "file_quiet (ov_file ov) f1"
    and seal: "map_rs (seal_write X lsn) (mp_page_writes (into_plan ov)) = Inr writes"
    and p: "p < ov_page_count ov" "ov_view ov p = Some img"
  shows "RBT.lookup (ov_page_images ov) p = None \<Longrightarrow> file_view (published ov writes f1) p = Some img"
    and "RBT.lookup (ov_page_images ov) p \<noteq> None \<Longrightarrow>
      \<exists>img'. file_view (published ov writes f1) p = Some img' \<and> same_page X img img' \<and> validate_layout X img' = Inr ()"
proof -
  let ?M = "map_of (rev (map (\<lambda>w. (pw_page_id w, pw_image w)) writes))"
  let ?g = "fold (\<lambda>w. apply_page_write (pw_page_id w) (pw_image w)) writes f1"
  note q = file_quietD[OF quiet] and sealed = sealed_images[OF X ov seal]
  have grow: "file_view (published ov writes f1) p = Some i" if "file_view ?g p = Some i" for i
    using that p(1) by (auto simp: published_def file_view_def disk_image_def split: option.splits if_splits)
  show "file_view (published ov writes f1) p = Some img" if none: "RBT.lookup (ov_page_images ov) p = None"
  proof (rule grow)
    have "file_view (ov_file ov) p = Some img" using p(2) none by (simp add: ov_view_def)
    then show "file_view ?g p = Some img" using sealed(1)[OF none] by (simp add: apply_page_writes(1) q map_add_def)
  qed
  assume "RBT.lookup (ov_page_images ov) p \<noteq> None"
  then have "RBT.lookup (ov_page_images ov) p = Some img" using p(2) by (auto simp: ov_view_def)
  from sealed(2)[OF this] obtain img' where "?M p = Some img'" "same_page X img img'" "validate_layout X img' = Inr ()" by blast
  then show "\<exists>img'. file_view (published ov writes f1) p = Some img' \<and> same_page X img img' \<and> validate_layout X img' = Inr ()"
    using grow by (simp add: apply_page_writes(1) map_add_def)
qed

lemma publish_chain:
  assumes X: "ext_ok X" and ov: "ov_chain X f ov ch" and quiet: "file_quiet (ov_file ov) f1"
    and seal: "map_rs (seal_write X lsn) (mp_page_writes (into_plan ov)) = Inr writes"
  shows "file_rep X (published ov writes f1) ch"
proof -
  obtain V n h t where ovis: "ov_is f ov V n h t" and cv: "chain_view X (file_meta f) V n h t ch"
    using ov by (auto simp: ov_chain_def)
  have n: "ov_page_count ov = n" "ov_view ov = V" "raw_page_id (ov_head_page_id ov) = h" "raw_page_id (ov_tail_page_id ov) = t"
      "file_same f (ov_file ov)"
    using ovis by (simp_all add: ov_is_def)
  have meta: "file_meta f1 = file_meta f" using file_meta_same[OF n(5)] file_quietD(6)[OF quiet] by simp
  have "linked X (file_view (published ov writes f1)) (file_meta f) NONE_PAGE_ID NONE_PAGE_ID ch"
  proof (rule linked_transfer)
    show "linked X V (file_meta f) NONE_PAGE_ID NONE_PAGE_ID ch" using cv by (simp add: chain_view_def)
    fix p img assume "p \<in> fst ` set ch" "V p = Some img"
    then have "p < ov_page_count ov" "ov_view ov p = Some img" using cv by (simp_all add: chain_view_def n)
    note view = published_view[OF X ov quiet seal this]
    show "\<exists>img'. file_view (published ov writes f1) p = Some img' \<and> same_page X img img'"
    proof (cases "RBT.lookup (ov_page_images ov) p")
      case None
      then show ?thesis using view(1) by (simp add: same_page_def)
    next
      case (Some i)
      then show ?thesis using view(2) by auto
    qed
  qed
  then show ?thesis using cv unfolding file_rep_iff published_fields meta chain_view_def n by simp
qed

end
