(* ===== verification/Spec2Isabelle.thy ===== *)
theory Spec2Isabelle
  imports Recovery_Properties Wal_Properties Router_Properties Lock_Properties Mvcc_Properties Tuple_Properties Tx_Invariant Ts_Publish
begin

text \<open>
  header
\<close>

end
